(* ===== verification/Prelude.thy ===== *)
theory Prelude
  imports Main "HOL-Library.Word"
begin

text \<open>
  What the components share: the outcome of a C function that may fault or may never
  return, its sequencing, the machine types of the 32-bit target, and generic facts on
  lists, chains of pointers and words.
\<close>

unbundle bit_operations_syntax

named_theorems res_simps "equations of the outcome type and of its sequencing"
named_theorems kdefs "definitions that are unfolded when an operation is executed"

subsection \<open>Machine types\<close>

type_synonym u8 = "8 word"
type_synonym u16 = "16 word"
type_synonym u32 = "32 word"
type_synonym u64 = "64 word"

text \<open>The selector of the kernel's code segment (kernel/segment.h), used by the gates and the segments.\<close>

definition KERNEL_CS :: u32 where "KERNEL_CS = 0x10"

subsection \<open>Outcomes\<close>

text \<open>
  Undefined behaviour and fatal stops of the C code.
  \<^item> \<open>Null_Deref\<close>: a field of a NULL pointer is read or written;
  \<^item> \<open>Out_Of_Bounds\<close>: an array is indexed outside of its bounds;
  \<^item> \<open>Panic\<close>: an \<open>assert\<close> fails and \<open>panic\<close> stops the kernel (shared/panic.c);
  \<^item> \<open>Divide_Error\<close>: the processor's \<open>#DE\<close> exception of a \<open>div\<close>;
  \<^item> \<open>Bad_Address\<close>: memory that was never allocated, or was freed, is read or written.
\<close>

datatype fault = Null_Deref | Out_Of_Bounds | Panic | Divide_Error | Bad_Address

text \<open>
  The outcome of a call: \<open>None\<close> when it never returns, \<open>Some (Inl f)\<close> when it runs into
  the fault \<open>f\<close>, \<open>Some (Inr x)\<close> when it returns \<open>x\<close>.
\<close>

type_synonym 'a res = "(fault + 'a) option"

definition ret :: "'a \<Rightarrow> 'a res" where
  "ret x = Some (Inr x)"

definition err :: "fault \<Rightarrow> 'a res" where
  "err f = Some (Inl f)"

definition bindr :: "'a res \<Rightarrow> ('a \<Rightarrow> 'b res) \<Rightarrow> 'b res" where
  "bindr m k = Option.bind m (\<lambda>r. case r of Inl f \<Rightarrow> Some (Inl f) | Inr x \<Rightarrow> k x)"

text \<open>\<open>deref\<close> is the check a pointer goes through before it is used.\<close>

definition deref :: "'a option \<Rightarrow> 'a res" where
  "deref p = (case p of None \<Rightarrow> err Null_Deref | Some a \<Rightarrow> ret a)"

lemma bindr_ret [simp, res_simps]: "bindr (ret x) k = k x"
  by (simp add: bindr_def ret_def)

lemma bindr_err [simp, res_simps]: "bindr (err f) k = err f"
  by (simp add: bindr_def err_def)

lemma bindr_None [simp, res_simps]: "bindr None k = None"
  by (simp add: bindr_def)

lemma deref_Some [simp, res_simps]: "deref (Some a) = ret a"
  by (simp add: deref_def)

lemma deref_None [simp, res_simps]: "deref None = err Null_Deref"
  by (simp add: deref_def)

lemma ret_inject [simp, res_simps]: "ret x = ret y \<longleftrightarrow> x = y"
  by (simp add: ret_def)

lemma err_inject [simp, res_simps]: "err f = err g \<longleftrightarrow> f = g"
  by (simp add: err_def)

lemma ret_neq_err [simp, res_simps]:
  "ret x \<noteq> err f" "err f \<noteq> ret x" "ret x \<noteq> None" "None \<noteq> ret x" "err f \<noteq> None" "None \<noteq> err f"
  by (simp_all add: ret_def err_def)

lemma bindr_eq_ret: "bindr m k = ret y \<longleftrightarrow> (\<exists>x. m = ret x \<and> k x = ret y)"
proof (cases m)
  case None
  then show ?thesis by (simp add: bindr_def ret_def)
next
  case (Some r)
  then show ?thesis by (cases r) (auto simp: bindr_def ret_def)
qed

lemma bindr_assoc: "bindr (bindr m k) h = bindr m (\<lambda>x. bindr (k x) h)"
  by (cases m) (auto simp: bindr_def split: sum.splits)

lemma res_cases [case_names ret err diverge]:
  obtains (ret) x where "m = ret x" | (err) f where "m = err f" | (diverge) "m = None"
proof (cases m)
  case None
  then show ?thesis by (rule diverge)
next
  case (Some r)
  then show ?thesis
    using ret err by (cases r) (auto simp: ret_def err_def)
qed

text \<open>Sequencing may occur in the body of a loop that is defined as a partial function.\<close>

lemma bindr_mono [partial_function_mono]:
  assumes m: "mono_option B" and k: "\<And>y. mono_option (\<lambda>f. C y f)"
  shows "mono_option (\<lambda>f. bindr (B f) (\<lambda>y. C y f))"
  unfolding bindr_def
proof (rule bind_mono [OF m])
  fix y
  show "mono_option (\<lambda>f. case y of Inl e \<Rightarrow> Some (Inl e) | Inr x \<Rightarrow> C x f)"
    by (cases y) (simp_all add: k option.const_mono)
qed

subsection \<open>Chains of pointers\<close>

text \<open>
  \<open>chain f a xs b\<close>: following the pointer field \<open>f\<close> from \<open>a\<close> visits exactly \<open>xs\<close> and then
  reaches \<open>b\<close>. A circular list is a chain from its head to itself.
\<close>

primrec chain :: "('a \<Rightarrow> 'a option) \<Rightarrow> 'a \<Rightarrow> 'a list \<Rightarrow> 'a \<Rightarrow> bool" where
  "chain f a [] b \<longleftrightarrow> f a = Some b"
| "chain f a (x # xs) b \<longleftrightarrow> f a = Some x \<and> chain f x xs b"

lemma chain_hd: "chain f a xs b \<Longrightarrow> f a = Some (hd (xs @ [b]))"
  by (cases xs) auto

lemma chain_upd_other: "u \<notin> set (a # xs) \<Longrightarrow> chain (f(u := v)) a xs b = chain f a xs b"
  by (induction xs arbitrary: a) auto

lemma chain_cong: "(\<And>u. u \<in> set (a # xs) \<Longrightarrow> f u = g u) \<Longrightarrow> chain f a xs b = chain g a xs b"
  by (induction xs arbitrary: a) auto

lemma chain_append:
  "chain f a (xs @ y # ys) b \<longleftrightarrow> chain f a xs y \<and> chain f y ys b"
  by (induction xs arbitrary: a) auto

lemma chain_last: "chain f a xs b \<Longrightarrow> f (last (a # xs)) = Some b"
  by (induction xs arbitrary: a) auto

lemma chain_unique: "chain f a xs b \<Longrightarrow> chain f a ys b \<Longrightarrow> b \<notin> set xs \<Longrightarrow> b \<notin> set ys \<Longrightarrow> xs = ys"
proof (induction xs arbitrary: a ys)
  case Nil
  then show ?case by (cases ys) auto
next
  case (Cons x xs)
  then show ?case by (cases ys) auto
qed

text \<open>Linking a new element between two neighbours, and unlinking one.\<close>

lemma chain_insert:
  assumes "chain f a (xs @ ys) b" and "distinct (a # xs @ ys)" and "e \<notin> set (a # xs @ ys)"
  shows "chain (f(e := Some (hd (ys @ [b])), last (a # xs) := Some e)) a (xs @ e # ys) b"
  using assms
proof (induction xs arbitrary: a)
  case Nil
  show ?case
  proof (cases ys)
    case (Cons y zs)
    then have "chain (f(e := Some (hd (ys @ [b])), a := Some e)) y zs b = chain f y zs b"
      using Nil.prems by (intro chain_cong) auto
    then show ?thesis using Nil.prems Cons
      by (simp del: fun_upd_apply add: fun_upd_same fun_upd_other)
  qed (use Nil.prems in auto)
next
  case (Cons x xs)
  let ?g = "f(e := Some (hd (ys @ [b])), last (x # xs) := Some e)"
  have "chain ?g x (xs @ e # ys) b" by (rule Cons.IH) (use Cons.prems in auto)
  moreover have "?g a = Some x" using Cons.prems by (cases xs rule: rev_cases) auto
  moreover have "last (a # x # xs) = last (x # xs)" by simp
  ultimately show ?case by (simp only: append_Cons chain.simps simp_thms)
qed

lemma chain_remove:
  assumes "chain f a (xs @ e # ys) b" and "distinct (a # xs @ e # ys)"
  shows "chain (f(last (a # xs) := Some (hd (ys @ [b])), e := None)) a (xs @ ys) b"
  using assms
proof (induction xs arbitrary: a)
  case Nil
  show ?case
  proof (cases ys)
    case (Cons y zs)
    then have "chain (f(a := Some (hd (ys @ [b])), e := None)) y zs b = chain f y zs b"
      using Nil.prems by (intro chain_cong) auto
    then show ?thesis using Nil.prems Cons
      by (simp del: fun_upd_apply add: fun_upd_same fun_upd_other)
  qed (use Nil.prems in auto)
next
  case (Cons x xs)
  let ?g = "f(last (x # xs) := Some (hd (ys @ [b])), e := None)"
  have "chain ?g x (xs @ ys) b" by (rule Cons.IH) (use Cons.prems in auto)
  moreover have "?g a = Some x" using Cons.prems by (cases xs rule: rev_cases) auto
  moreover have "last (a # x # xs) = last (x # xs)" by simp
  ultimately show ?case by (simp only: append_Cons chain.simps simp_thms)
qed

text \<open>A list that ends with NULL: \<open>lpath f p xs\<close>.\<close>

primrec lpath :: "('a \<Rightarrow> 'a option) \<Rightarrow> 'a option \<Rightarrow> 'a list \<Rightarrow> bool" where
  "lpath f p [] \<longleftrightarrow> p = None"
| "lpath f p (x # xs) \<longleftrightarrow> p = Some x \<and> lpath f (f x) xs"

definition hd_opt :: "'a list \<Rightarrow> 'a option" where
  "hd_opt xs = (case xs of [] \<Rightarrow> None | x # _ \<Rightarrow> Some x)"

definition last_opt :: "'a list \<Rightarrow> 'a option" where
  "last_opt xs = (if xs = [] then None else Some (last xs))"

lemma hd_opt_simps [simp]: "hd_opt [] = None" "hd_opt (x # xs) = Some x"
  by (simp_all add: hd_opt_def)

lemma last_opt_simps [simp]:
  "last_opt [] = None" "last_opt (xs @ [x]) = Some x" "xs \<noteq> [] \<Longrightarrow> last_opt (x # xs) = last_opt xs"
  "last_opt [x] = Some x"
  by (simp_all add: last_opt_def)

lemma last_opt_None [simp]: "last_opt xs = None \<longleftrightarrow> xs = []" "None = last_opt xs \<longleftrightarrow> xs = []"
  by (auto simp: last_opt_def)

lemma hd_opt_None [simp]: "hd_opt xs = None \<longleftrightarrow> xs = []" "None = hd_opt xs \<longleftrightarrow> xs = []"
  by (auto simp: hd_opt_def split: list.splits)

lemma lpath_hd: "lpath f p xs \<Longrightarrow> p = hd_opt xs"
  by (cases xs) auto

lemma lpath_cong: "(\<And>x. x \<in> set xs \<Longrightarrow> f x = g x) \<Longrightarrow> lpath f p xs = lpath g p xs"
  by (induction xs arbitrary: p) auto

lemma lpath_upd_other: "u \<notin> set xs \<Longrightarrow> lpath (f(u := v)) p xs = lpath f p xs"
  by (rule lpath_cong) auto

lemma lpath_last: "lpath f p xs \<Longrightarrow> xs \<noteq> [] \<Longrightarrow> f (last xs) = None"
  by (induction xs arbitrary: p) auto

lemma lpath_append: "lpath f p (xs @ ys) \<Longrightarrow> xs \<noteq> [] \<Longrightarrow> f (last xs) = hd_opt ys"
  by (induction xs arbitrary: p) (auto dest: lpath_hd)

lemma lpath_appendD: "lpath f p (xs @ ys) \<Longrightarrow> lpath f (hd_opt ys) ys"
proof (induction xs arbitrary: p)
  case Nil
  then show ?case using lpath_hd [of f p ys] by simp
qed auto

lemma lpath_unique: "lpath f p xs \<Longrightarrow> lpath f p ys \<Longrightarrow> xs = ys"
proof (induction xs arbitrary: p ys)
  case Nil
  then show ?case by (cases ys) auto
next
  case (Cons x xs)
  then show ?case by (cases ys) auto
qed

lemma lpath_distinct: "lpath f p xs \<Longrightarrow> distinct xs"
proof (induction xs arbitrary: p)
  case Nil
  then show ?case by simp
next
  case (Cons x xs)
  have "x \<notin> set xs"
  proof
    assume "x \<in> set xs"
    then obtain ys zs where xs: "xs = ys @ x # zs" by (meson split_list)
    have "lpath f p ((x # ys) @ x # zs)" using Cons.prems xs by simp
    then have "lpath f (Some x) (x # zs)" by (drule_tac lpath_appendD) simp
    then have "x # xs = x # zs" using Cons.prems by (auto dest: lpath_unique)
    then show False using xs by simp
  qed
  then show ?case using Cons by auto
qed

text \<open>Inserting after a non-empty prefix, and removing.\<close>

lemma lpath_insert:
  assumes "lpath f p (xs @ ys)" and "xs \<noteq> []" and "distinct (xs @ ys)" and "e \<notin> set (xs @ ys)"
  shows "lpath (f(last xs := Some e, e := hd_opt ys)) p (xs @ e # ys)"
  using assms
proof (induction xs arbitrary: p)
  case Nil
  then show ?case by simp
next
  case (Cons x xs)
  let ?g = "f(last (x # xs) := Some e, e := hd_opt ys)"
  show ?case
  proof (cases "xs = []")
    case True
    have "lpath f (f x) ys" using Cons.prems(1) True by simp
    then have "lpath f (hd_opt ys) ys" using lpath_hd [of f "f x" ys] by simp
    then have "lpath ?g (hd_opt ys) ys"
      using Cons.prems(3,4) True by (subst lpath_cong [of _ _ f]) auto
    moreover have "?g x = Some e" "?g e = hd_opt ys" using Cons.prems True by auto
    ultimately show ?thesis using Cons.prems True by (simp del: fun_upd_apply)
  next
    case False
    then have "last (x # xs) = last xs" by simp
    then have "lpath ?g (f x) (xs @ e # ys)"
      using Cons.IH [of "f x"] Cons.prems False by (simp del: fun_upd_apply)
    moreover have "?g x = f x" using Cons.prems False by auto
    ultimately show ?thesis using Cons.prems by (simp del: fun_upd_apply)
  qed
qed

lemma lpath_remove:
  assumes "lpath f p (xs @ e # ys)" and "xs \<noteq> []" and "distinct (xs @ e # ys)"
  shows "lpath (f(last xs := f e, e := v)) p (xs @ ys)"
  using assms
proof (induction xs arbitrary: p)
  case Nil
  then show ?case by simp
next
  case (Cons x xs)
  let ?g = "f(last (x # xs) := f e, e := v)"
  show ?case
  proof (cases "xs = []")
    case True
    then have "lpath f (f e) ys" using Cons.prems(1) by simp
    then have "lpath ?g (f e) ys"
      using Cons.prems(3) True by (subst lpath_cong [of _ _ f]) auto
    moreover have "?g x = f e" using Cons.prems True by auto
    ultimately show ?thesis using Cons.prems True by (simp del: fun_upd_apply)
  next
    case False
    then have "last (x # xs) = last xs" by simp
    then have "lpath ?g (f x) (xs @ ys)"
      using Cons.IH [of "f x"] Cons.prems False by (simp del: fun_upd_apply)
    moreover have "?g x = f x" using Cons.prems False by auto
    ultimately show ?thesis using Cons.prems by (simp del: fun_upd_apply)
  qed
qed

subsection \<open>Signed words\<close>

lemma sint_nonneg:
  fixes w :: "'a::len word"
  assumes "0 \<le> sint w"
  shows "sint w = uint w"
proof -
  have "\<not> bit (uint w) (LENGTH('a) - 1)"
    using assms by (simp add: sint_uint)
  moreover have "take_bit LENGTH('a) (uint w) = uint w"
    by (rule take_bit_int_eq_self) simp_all
  ultimately show ?thesis
    by (simp add: sint_uint signed_take_bit_eq_take_bit_minus)
qed

lemma sint_small:
  fixes w :: u32
  assumes "unat w < 2 ^ 31"
  shows "sint w = int (unat w)"
proof -
  have "uint w < 2 ^ 31" using assms by (metis of_nat_less_iff of_nat_numeral of_nat_power uint_nat)
  then show ?thesis
    by (subst sint_uint, subst signed_take_bit_int_eq_self)
      (auto intro: order_trans [OF _ uint_ge_0])
qed

subsection \<open>Reading words\<close>

lemma unat_of_nat_u32: "n < 2 ^ 32 \<Longrightarrow> unat (of_nat n :: u32) = n"
  by (simp add: unsigned_of_nat take_bit_nat_eq_self)

lemma unat_less_u32: "unat (n :: u32) < 2 ^ 32"
proof -
  have "unat n < 2 ^ LENGTH(32)" by (rule unsigned_less)
  then show ?thesis by simp
qed

lemma unat_le_32: "unat (n :: u32) \<le> 2 ^ 32"
  by (rule less_imp_le) (rule unat_less_u32)

lemma unat_Suc_u32: "unat (x :: u32) < 2 ^ 32 - 1 \<Longrightarrow> unat (x + 1) = Suc (unat x)"
proof -
  assume lt: "unat x < 2 ^ 32 - 1"
  have "unat (of_nat (unat x + 1) :: u32) = unat x + 1" by (rule unat_of_nat_u32) (use lt in simp)
  then show ?thesis by (simp add: add.commute)
qed

lemma uint_eq_iff: "uint x = uint y \<longleftrightarrow> x = y"
  by (simp add: word_uint_eq_iff)

lemma uint_eq_0: "uint x = 0 \<longleftrightarrow> x = 0"
  by (simp add: word_uint_eq_iff)

lemma uint_pos: "x \<noteq> 0 \<Longrightarrow> 0 < uint x"
  using uint_ge_0 [of x] uint_eq_0 [of x] by linarith

end
