(* ===== verification/Prio_Queue.thy ===== *)
theory Prio_Queue
  imports Prelude "HOL-Library.Multiset"
begin

text \<open>
  The priority queue of shared/queue.h: a circular doubly linked list of \<open>link\<close> fields that
  are embedded in the queued structures, sorted by increasing priority, with FIFO order among
  equal priorities. The first part translates the macros and inline functions on a store of
  \<open>prev\<close> and \<open>next\<close> pointers; the second part relates the store to the list of the queued
  elements and proves that every operation implements its list version.
\<close>

subsection \<open>The store of links\<close>

text \<open>
  A pointer to a link is the head of the queue or the link field of the element with the given
  index. NULL is \<open>None\<close>. \<open>queue_entry\<close>, which subtracts the offset of the field to get from a
  link to its element, is the index of the link.
\<close>

datatype link = Head | Link nat

record links =
  prev :: "link \<Rightarrow> link option"
  "next" :: "link \<Rightarrow> link option"

text \<open>\<open>LIST_HEAD\<close>: a head that points to itself; the links of the elements are zero.\<close>

definition LIST_HEAD :: links where
  "LIST_HEAD = \<lparr>prev = [Head \<mapsto> Head], next = [Head \<mapsto> Head]\<rparr>"

definition INIT_LIST_HEAD :: "links \<Rightarrow> links" where
  "INIT_LIST_HEAD l = l\<lparr>next := (next l)(Head \<mapsto> Head), prev := (prev l)(Head \<mapsto> Head)\<rparr>"

definition INIT_LINK :: "nat \<Rightarrow> links \<Rightarrow> links" where
  "INIT_LINK e l = l\<lparr>next := (next l)(Link e := None), prev := (prev l)(Link e := None)\<rparr>"

definition queue_entry :: "link \<Rightarrow> nat option" where
  "queue_entry p = (case p of Head \<Rightarrow> None | Link e \<Rightarrow> Some e)"

subsection \<open>The operations\<close>

definition queue_empty :: "links \<Rightarrow> bool" where
  "queue_empty l = (next l Head = Some Head)"

text \<open>The \<open>do ... while\<close> loop of \<open>queue_add\<close>: from \<open>cur\<close>, advance, and stop at the head or
  at an element whose priority is not below that of the new one.\<close>

partial_function (option) queue_scan ::
  "(nat \<Rightarrow> u32) \<Rightarrow> links \<Rightarrow> u32 \<Rightarrow> link \<Rightarrow> link res" where
  "queue_scan prio l pe cur =
     bindr (deref (next l cur)) (\<lambda>c.
       case c of
         Head \<Rightarrow> ret Head
       | Link i \<Rightarrow> if prio i < pe then queue_scan prio l pe c else ret c)"

definition queue_add :: "(nat \<Rightarrow> u32) \<Rightarrow> nat \<Rightarrow> links \<Rightarrow> links res" where
  "queue_add prio e l =
     (if \<not> (prev l (Link e) = None \<and> next l (Link e) = None) then err Panic
      else bindr (queue_scan prio l (prio e) Head) (\<lambda>cur.
        let l1 = l\<lparr>next := (next l)(Link e \<mapsto> cur)\<rparr>;
            l2 = l1\<lparr>prev := (prev l1)(Link e := prev l1 cur)\<rparr>
        in bindr (deref (prev l2 cur)) (\<lambda>p.
             let l3 = l2\<lparr>next := (next l2)(p \<mapsto> Link e)\<rparr>
             in ret (l3\<lparr>prev := (prev l3)(cur \<mapsto> Link e)\<rparr>))))"

text \<open>\<open>__queue_out\<close>: unlink the last element, zero its links and return it; NULL when empty.\<close>

definition queue_out :: "links \<Rightarrow> (nat option \<times> links) res" where
  "queue_out l =
     (if queue_empty l then ret (None, l)
      else bindr (deref (prev l Head)) (\<lambda>r.
             bindr (deref (prev l r)) (\<lambda>q.
               let l1 = l\<lparr>prev := (prev l)(Head \<mapsto> q)\<rparr>;
                   l2 = l1\<lparr>next := (next l1)(q \<mapsto> Head)\<rparr>;
                   l3 = l2\<lparr>prev := (prev l2)(r := None)\<rparr>
               in ret (queue_entry r, l3\<lparr>next := (next l3)(r := None)\<rparr>))))"

definition queue_del :: "nat \<Rightarrow> links \<Rightarrow> links res" where
  "queue_del e l =
     (case (prev l (Link e), next l (Link e)) of
        (Some p, Some n) \<Rightarrow>
          (let l1 = l\<lparr>next := (next l)(p \<mapsto> n)\<rparr>;
               l2 = l1\<lparr>prev := (prev l1)(n \<mapsto> p)\<rparr>;
               l3 = l2\<lparr>next := (next l2)(Link e := None)\<rparr>
           in ret (l3\<lparr>prev := (prev l3)(Link e := None)\<rparr>))
      | _ \<Rightarrow> err Panic)"

definition queue_top :: "links \<Rightarrow> nat option res" where
  "queue_top l =
     (if queue_empty l then ret None
      else bindr (deref (prev l Head)) (\<lambda>r. ret (queue_entry r)))"

definition queue_bottom :: "links \<Rightarrow> nat option res" where
  "queue_bottom l =
     (if queue_empty l then ret None
      else bindr (deref (next l Head)) (\<lambda>r. ret (queue_entry r)))"

text \<open>
  \<open>queue_for_each\<close> and \<open>queue_for_each_prev\<close> visit the elements one after the other. The body
  is a function of the element and of a state; it may leave the loop early (\<open>Inl\<close>) with a
  result, as a \<open>return\<close> in the C body does, or go on (\<open>Inr\<close>). The pointer to the following
  element is read after the body ran, from the links of the state the body left
  (\<open>get_links\<close>).
\<close>

partial_function (option) queue_for_each_from ::
  "('s \<Rightarrow> links) \<Rightarrow> (nat \<Rightarrow> 's \<Rightarrow> ('r + 's) res) \<Rightarrow> link option \<Rightarrow> 's \<Rightarrow> ('r + 's) res" where
  "queue_for_each_from get_links body p s =
     bindr (deref p) (\<lambda>c.
       case c of
         Head \<Rightarrow> ret (Inr s)
       | Link i \<Rightarrow>
           bindr (body i s) (\<lambda>r.
             case r of
               Inl x \<Rightarrow> ret (Inl x)
             | Inr s1 \<Rightarrow>
                 queue_for_each_from get_links body (next (get_links s1) (Link i)) s1))"

definition queue_for_each ::
  "('s \<Rightarrow> links) \<Rightarrow> (nat \<Rightarrow> 's \<Rightarrow> ('r + 's) res) \<Rightarrow> 's \<Rightarrow> ('r + 's) res" where
  "queue_for_each get_links body s =
     queue_for_each_from get_links body (next (get_links s) Head) s"

partial_function (option) queue_for_each_prev_from ::
  "('s \<Rightarrow> links) \<Rightarrow> (nat \<Rightarrow> 's \<Rightarrow> ('r + 's) res) \<Rightarrow> link option \<Rightarrow> 's \<Rightarrow> ('r + 's) res" where
  "queue_for_each_prev_from get_links body p s =
     bindr (deref p) (\<lambda>c.
       case c of
         Head \<Rightarrow> ret (Inr s)
       | Link i \<Rightarrow>
           bindr (body i s) (\<lambda>r.
             case r of
               Inl x \<Rightarrow> ret (Inl x)
             | Inr s1 \<Rightarrow>
                 queue_for_each_prev_from get_links body (prev (get_links s1) (Link i)) s1))"

definition queue_for_each_prev ::
  "('s \<Rightarrow> links) \<Rightarrow> (nat \<Rightarrow> 's \<Rightarrow> ('r + 's) res) \<Rightarrow> 's \<Rightarrow> ('r + 's) res" where
  "queue_for_each_prev get_links body s =
     queue_for_each_prev_from get_links body (prev (get_links s) Head) s"

subsection \<open>Representation\<close>

text \<open>
  \<open>queue_rep l xs\<close>: the store \<open>l\<close> holds exactly the elements \<open>xs\<close>, in the order in which
  \<open>next\<close> reaches them from the head; \<open>prev\<close> reaches them in the opposite order; the links of
  every other element are zero, as the assertion of \<open>queue_add\<close> wants them.
\<close>

definition queue_rep :: "links \<Rightarrow> nat list \<Rightarrow> bool" where
  "queue_rep l xs \<longleftrightarrow>
     distinct xs \<and>
     chain (next l) Head (map Link xs) Head \<and>
     chain (prev l) Head (rev (map Link xs)) Head \<and>
     (\<forall>i. i \<notin> set xs \<longrightarrow> next l (Link i) = None \<and> prev l (Link i) = None)"

text \<open>The list versions of the operations.\<close>

definition pq_insert :: "(nat \<Rightarrow> u32) \<Rightarrow> nat \<Rightarrow> nat list \<Rightarrow> nat list" where
  "pq_insert prio e xs =
     takeWhile (\<lambda>x. prio x < prio e) xs @ e # dropWhile (\<lambda>x. prio x < prio e) xs"

definition sorted_prio :: "(nat \<Rightarrow> u32) \<Rightarrow> nat list \<Rightarrow> bool" where
  "sorted_prio prio xs \<longleftrightarrow> sorted (map prio xs)"

lemma queue_rep_distinct: "queue_rep l xs \<Longrightarrow> distinct xs"
  by (simp add: queue_rep_def)

lemma queue_rep_LIST_HEAD: "queue_rep LIST_HEAD []"
  by (simp add: queue_rep_def LIST_HEAD_def)

lemma inj_Link [simp]: "inj_on Link A"
  by (simp add: inj_on_def)

lemma Link_image [simp]: "Link i \<in> Link ` A \<longleftrightarrow> i \<in> A" "Head \<notin> Link ` A"
  by auto

lemma distinct_head_links: "distinct xs \<Longrightarrow> distinct (Head # map Link xs)"
  by (simp add: distinct_map)

text \<open>The store is determined by the list it represents.\<close>

lemma chain_next_eq:
  "chain f a xs b \<Longrightarrow> chain g a xs b \<Longrightarrow> u \<in> set (a # xs) \<Longrightarrow> f u = g u"
  by (induction xs arbitrary: a) auto

lemma queue_rep_unique:
  assumes "queue_rep l xs" and "queue_rep l' xs"
  shows "l = l'"
proof -
  have "next l p = next l' p \<and> prev l p = prev l' p" for p
  proof (cases "p \<in> set (Head # map Link xs)")
    case True
    then have "p \<in> set (Head # rev (map Link xs))" by simp
    with True show ?thesis
      using assms unfolding queue_rep_def
      by (intro conjI) (blast intro: chain_next_eq)+
  next
    case False
    then show ?thesis
      using assms unfolding queue_rep_def by (cases p) auto
  qed
  then show ?thesis by (intro links.equality) auto
qed

lemma queue_rep_list_unique:
  assumes "queue_rep l xs" and "queue_rep l ys"
  shows "xs = ys"
proof -
  have "map Link xs = map Link ys"
    using assms unfolding queue_rep_def by (intro chain_unique [of "next l" Head _ Head]) auto
  then show ?thesis by simp
qed

subsection \<open>Every operation implements its list version\<close>

lemma queue_empty_rep: "queue_rep l xs \<Longrightarrow> queue_empty l \<longleftrightarrow> xs = []"
  by (cases xs) (auto simp: queue_rep_def queue_empty_def)

lemma queue_scan_chain:
  "chain (next l) a (map Link xs) Head \<Longrightarrow>
   queue_scan prio l pe a = ret (hd (map Link (dropWhile (\<lambda>x. prio x < pe) xs) @ [Head]))"
proof (induction xs arbitrary: a)
  case Nil
  then show ?case by (subst queue_scan.simps) simp
next
  case (Cons x xs)
  then show ?case by (subst queue_scan.simps) simp
qed

lemma queue_add_split:
  assumes rep: "queue_rep l (as @ bs)" and e: "e \<notin> set (as @ bs)"
    and scan: "queue_scan prio l (prio e) Head = ret (hd (map Link bs @ [Head]))"
  shows "\<exists>l'. queue_add prio e l = ret l' \<and> queue_rep l' (as @ e # bs)"
proof -
  let ?c = "hd (map Link bs @ [Head])" and ?p = "last (Head # map Link as)"
  let ?n = "(next l)(Link e := Some ?c, ?p := Some (Link e))"
  let ?v = "(prev l)(Link e := Some ?p, ?c := Some (Link e))"
  have d: "distinct (as @ bs)" and zero: "next l (Link e) = None" "prev l (Link e) = None"
    using rep e by (auto simp: queue_rep_def)
  have dn: "distinct (Head # map Link as @ map Link bs)"
    using distinct_head_links [OF d] by simp
  have dp: "distinct (Head # rev (map Link bs) @ rev (map Link as))"
    using dn by auto
  have cn: "chain (next l) Head (map Link as @ map Link bs) Head"
    and cp: "chain (prev l) Head (rev (map Link bs) @ rev (map Link as)) Head"
    using rep by (simp_all add: queue_rep_def)
  have pe: "hd (rev (map Link as) @ [Head]) = ?p" by (cases as rule: rev_cases) auto
  have ce: "last (Head # rev (map Link bs)) = ?c" by (cases bs) auto
  have pc: "prev l ?c = Some ?p"
    using chain_hd [of "prev l" "last (Head # rev (map Link bs))"] cp
    by (cases bs) (auto simp: chain_append pe dest: chain_hd)
  have c_ne: "?c \<noteq> Link e" using e by (cases bs) auto
  have en: "Link e \<notin> set (Head # map Link as @ map Link bs)" using e by auto
  have ep: "Link e \<notin> set (Head # rev (map Link bs) @ rev (map Link as))" using e by auto
  have "chain ?n Head (map Link as @ Link e # map Link bs) Head"
    by (rule chain_insert [OF cn dn en])
  moreover have "chain ?v Head (rev (map Link bs) @ Link e # rev (map Link as)) Head"
    using chain_insert [OF cp dp ep] unfolding pe ce .
  moreover have "\<forall>i. i \<notin> set (as @ e # bs) \<longrightarrow> ?n (Link i) = None \<and> ?v (Link i) = None"
    using rep unfolding queue_rep_def by (cases bs; cases as rule: rev_cases) auto
  ultimately have "queue_rep (l\<lparr>next := ?n, prev := ?v\<rparr>) (as @ e # bs)"
    using d e by (simp add: queue_rep_def)
  moreover have "queue_add prio e l = ret (l\<lparr>next := ?n, prev := ?v\<rparr>)"
    using zero pc c_ne by (simp add: queue_add_def scan Let_def)
  ultimately show ?thesis by blast
qed

lemma queue_add_rep:
  assumes "queue_rep l xs" and "e \<notin> set xs"
  shows "\<exists>l'. queue_add prio e l = ret l' \<and> queue_rep l' (pq_insert prio e xs)"
  unfolding pq_insert_def
  by (rule queue_add_split) (use assms in \<open>auto simp: queue_rep_def intro!: queue_scan_chain\<close>)

lemma queue_add_busy:
  assumes "queue_rep l xs" and "e \<in> set xs"
  shows "queue_add prio e l = err Panic"
proof -
  have "Link e \<in> set (map Link xs)" using assms(2) by simp
  then have "next l (Link e) \<noteq> None"
    using assms(1) unfolding queue_rep_def by (metis chain_append chain_hd split_list option.discI)
  then show ?thesis by (simp add: queue_add_def)
qed

lemma queue_rep_neighbours:
  assumes "queue_rep l (as @ e # bs)"
  shows "prev l (Link e) = Some (last (Head # map Link as))"
    and "next l (Link e) = Some (hd (map Link bs @ [Head]))"
proof -
  have "chain (next l) Head (map Link as @ Link e # map Link bs) Head"
    and "chain (prev l) Head (rev (map Link bs) @ Link e # rev (map Link as)) Head"
    using assms by (simp_all add: queue_rep_def)
  then have n: "chain (next l) (Link e) (map Link bs) Head"
    and p: "chain (prev l) (Link e) (rev (map Link as)) Head"
    by (simp_all add: chain_append)
  show "next l (Link e) = Some (hd (map Link bs @ [Head]))" by (rule chain_hd [OF n])
  show "prev l (Link e) = Some (last (Head # map Link as))"
    using chain_hd [OF p] by (cases as rule: rev_cases) auto
qed

lemma queue_del_rep:
  assumes rep: "queue_rep l (as @ e # bs)"
  shows "\<exists>l'. queue_del e l = ret l' \<and> queue_rep l' (as @ bs)"
proof -
  let ?c = "hd (map Link bs @ [Head])" and ?p = "last (Head # map Link as)"
  let ?n = "(next l)(?p := Some ?c, Link e := None)"
  let ?v = "(prev l)(?c := Some ?p, Link e := None)"
  have d: "distinct (as @ e # bs)" using rep by (simp add: queue_rep_def)
  have dn: "distinct (Head # map Link as @ Link e # map Link bs)"
    using distinct_head_links [OF d] by simp
  have dp: "distinct (Head # rev (map Link bs) @ Link e # rev (map Link as))"
    using dn by auto
  have cn: "chain (next l) Head (map Link as @ Link e # map Link bs) Head"
    and cp: "chain (prev l) Head (rev (map Link bs) @ Link e # rev (map Link as)) Head"
    using rep by (simp_all add: queue_rep_def)
  have pe: "hd (rev (map Link as) @ [Head]) = ?p" by (cases as rule: rev_cases) auto
  have ce: "last (Head # rev (map Link bs)) = ?c" by (cases bs) auto
  have "chain ?n Head (map Link as @ map Link bs) Head"
    by (rule chain_remove [OF cn dn])
  moreover have "chain ?v Head (rev (map Link bs) @ rev (map Link as)) Head"
    using chain_remove [OF cp dp] unfolding pe ce .
  moreover have "\<forall>i. i \<notin> set (as @ bs) \<longrightarrow> ?n (Link i) = None \<and> ?v (Link i) = None"
    using rep unfolding queue_rep_def by (cases bs; cases as rule: rev_cases) auto
  ultimately have "queue_rep (l\<lparr>next := ?n, prev := ?v\<rparr>) (as @ bs)"
    using d by (simp add: queue_rep_def)
  moreover have "queue_del e l = ret (l\<lparr>next := ?n, prev := ?v\<rparr>)"
    using queue_rep_neighbours [OF rep] by (simp add: queue_del_def Let_def)
  ultimately show ?thesis by blast
qed

lemma queue_del_absent:
  assumes "queue_rep l xs" and "e \<notin> set xs"
  shows "queue_del e l = err Panic"
  using assms by (simp add: queue_del_def queue_rep_def)

lemma queue_top_rep:
  assumes "queue_rep l xs"
  shows "queue_top l = ret (if xs = [] then None else Some (last xs))"
proof (cases xs rule: rev_cases)
  case Nil
  then show ?thesis using assms by (simp add: queue_top_def queue_empty_rep)
next
  case (snoc as e)
  then have "prev l Head = Some (Link e)" using assms by (simp add: queue_rep_def)
  then show ?thesis
    using assms snoc by (simp add: queue_top_def queue_empty_rep queue_entry_def)
qed

lemma queue_bottom_rep:
  assumes "queue_rep l xs"
  shows "queue_bottom l = ret (if xs = [] then None else Some (hd xs))"
proof (cases xs)
  case Nil
  then show ?thesis using assms by (simp add: queue_bottom_def queue_empty_rep)
next
  case (Cons e as)
  then have "next l Head = Some (Link e)" using assms by (simp add: queue_rep_def)
  then show ?thesis
    using assms Cons by (simp add: queue_bottom_def queue_empty_rep queue_entry_def)
qed

text \<open>Taking an element out leaves the store that \<open>queue_del\<close> of the last element leaves.\<close>

lemma queue_out_is_del:
  assumes rep: "queue_rep l (as @ [e])"
  shows "queue_out l = bindr (queue_del e l) (\<lambda>l'. ret (Some e, l'))"
proof -
  have "prev l Head = Some (Link e)" using rep by (simp add: queue_rep_def)
  moreover have "prev l (Link e) = Some (last (Head # map Link as))" "next l (Link e) = Some Head"
    using queue_rep_neighbours [OF rep] by simp_all
  moreover have "\<not> queue_empty l" using queue_empty_rep [OF rep] by simp
  ultimately show ?thesis
    by (simp add: queue_out_def queue_del_def queue_entry_def Let_def)
qed

lemma queue_out_rep:
  assumes "queue_rep l (as @ [e])"
  shows "\<exists>l'. queue_out l = ret (Some e, l') \<and> queue_rep l' as"
  using queue_del_rep [of l as e "[]"] queue_out_is_del [OF assms] assms by auto

lemma queue_out_empty: "queue_rep l [] \<Longrightarrow> queue_out l = ret (None, l)"
  by (simp add: queue_out_def queue_empty_rep)

subsection \<open>The loops over the queue\<close>

text \<open>
  The list version of the loops: the body is run on the elements in turn. It is what the loop
  computes as long as the body leaves the links alone.
\<close>

fun list_each :: "(nat \<Rightarrow> 's \<Rightarrow> ('r + 's) res) \<Rightarrow> nat list \<Rightarrow> 's \<Rightarrow> ('r + 's) res" where
  "list_each body [] s = ret (Inr s)"
| "list_each body (x # xs) s =
     bindr (body x s) (\<lambda>r. case r of Inl v \<Rightarrow> ret (Inl v) | Inr s1 \<Rightarrow> list_each body xs s1)"

lemma queue_for_each_from_chain:
  assumes "chain (next l) a (map Link xs) Head" and "get_links s = l"
    and keep: "\<And>i s s1. get_links s = l \<Longrightarrow> body i s = ret (Inr s1) \<Longrightarrow> get_links s1 = l"
  shows "queue_for_each_from get_links body (next l a) s = list_each body xs s"
  using assms(1,2)
proof (induction xs arbitrary: a s)
  case Nil
  then show ?case by (subst queue_for_each_from.simps) simp
next
  case (Cons x xs)
  have na: "next l a = Some (Link x)" and ch: "chain (next l) (Link x) (map Link xs) Head"
    using Cons.prems by auto
  show ?case
  proof (cases "body x s" rule: res_cases)
    case (ret r)
    show ?thesis
    proof (cases r)
      case (Inl v)
      with ret show ?thesis by (subst queue_for_each_from.simps) (simp add: na)
    next
      case (Inr s1)
      have "get_links s1 = l" using keep [OF Cons.prems(2)] ret Inr by simp
      then have "queue_for_each_from get_links body (next l (Link x)) s1 = list_each body xs s1"
        by (rule Cons.IH [OF ch])
      with ret Inr \<open>get_links s1 = l\<close> show ?thesis
        by (subst queue_for_each_from.simps) (simp add: na)
    qed
  qed (subst queue_for_each_from.simps, simp add: na)+
qed

lemma queue_for_each_rep:
  assumes "queue_rep (get_links s) xs"
    and "\<And>i s1 s2. get_links s1 = get_links s \<Longrightarrow> body i s1 = ret (Inr s2) \<Longrightarrow> get_links s2 = get_links s"
  shows "queue_for_each get_links body s = list_each body xs s"
  unfolding queue_for_each_def
proof (rule queue_for_each_from_chain [OF _ refl])
  show "chain (next (get_links s)) Head (map Link xs) Head"
    using assms(1) by (simp add: queue_rep_def rev_map)
qed (rule assms(2))

lemma queue_for_each_prev_from_chain:
  assumes "chain (prev l) a (map Link xs) Head" and "get_links s = l"
    and keep: "\<And>i s s1. get_links s = l \<Longrightarrow> body i s = ret (Inr s1) \<Longrightarrow> get_links s1 = l"
  shows "queue_for_each_prev_from get_links body (prev l a) s = list_each body xs s"
  using assms(1,2)
proof (induction xs arbitrary: a s)
  case Nil
  then show ?case by (subst queue_for_each_prev_from.simps) simp
next
  case (Cons x xs)
  have na: "prev l a = Some (Link x)" and ch: "chain (prev l) (Link x) (map Link xs) Head"
    using Cons.prems by auto
  show ?case
  proof (cases "body x s" rule: res_cases)
    case (ret r)
    show ?thesis
    proof (cases r)
      case (Inl v)
      with ret show ?thesis by (subst queue_for_each_prev_from.simps) (simp add: na)
    next
      case (Inr s1)
      have "get_links s1 = l" using keep [OF Cons.prems(2)] ret Inr by simp
      then have "queue_for_each_prev_from get_links body (prev l (Link x)) s1 = list_each body xs s1"
        by (rule Cons.IH [OF ch])
      with ret Inr \<open>get_links s1 = l\<close> show ?thesis
        by (subst queue_for_each_prev_from.simps) (simp add: na)
    qed
  qed (subst queue_for_each_prev_from.simps, simp add: na)+
qed

lemma queue_for_each_prev_rep:
  assumes "queue_rep (get_links s) xs"
    and "\<And>i s1 s2. get_links s1 = get_links s \<Longrightarrow> body i s1 = ret (Inr s2) \<Longrightarrow> get_links s2 = get_links s"
  shows "queue_for_each_prev get_links body s = list_each body (rev xs) s"
  unfolding queue_for_each_prev_def
proof (rule queue_for_each_prev_from_chain [OF _ refl])
  show "chain (prev (get_links s)) Head (map Link (rev xs)) Head"
    using assms(1) by (simp add: queue_rep_def rev_map)
qed (rule assms(2))

subsection \<open>Sorted by priority, FIFO among equals\<close>

text \<open>The insertion of the C loop is the insertion of the library's stable sort.\<close>

lemma pq_insert_insort: "pq_insert prio e xs = insort_key prio e xs"
  by (induction xs) (auto simp: pq_insert_def)

lemma set_pq_insert [simp]: "set (pq_insert prio e xs) = insert e (set xs)"
  by (simp add: pq_insert_insort set_insort_key)

lemma length_pq_insert [simp]: "length (pq_insert prio e xs) = Suc (length xs)"
  by (simp add: pq_insert_insort)

lemma distinct_pq_insert [simp]: "distinct (pq_insert prio e xs) \<longleftrightarrow> e \<notin> set xs \<and> distinct xs"
  by (simp add: pq_insert_insort distinct_insort)

lemma pq_insert_neq_Nil [simp]: "pq_insert prio e xs \<noteq> []"
  by (simp add: pq_insert_def)

lemma sorted_pq_insert: "sorted_prio prio xs \<Longrightarrow> sorted_prio prio (pq_insert prio e xs)"
  by (simp add: sorted_prio_def pq_insert_insort sorted_insort_key)

lemma sorted_prio_last:
  assumes "sorted_prio prio xs" and "x \<in> set xs"
  shows "prio x \<le> prio (last xs)"
  using assms by (cases xs rule: rev_cases) (auto simp: sorted_prio_def sorted_append)

lemma sorted_prio_butlast: "sorted_prio prio xs \<Longrightarrow> sorted_prio prio (butlast xs)"
  by (cases xs rule: rev_cases) (auto simp: sorted_prio_def sorted_append)

lemma sorted_prio_remove1: "sorted_prio prio xs \<Longrightarrow> sorted_prio prio (remove1 x xs)"
  unfolding sorted_prio_def by (rule sorted_map_remove1)

lemma sorted_prio_cong: "(\<And>x. x \<in> set xs \<Longrightarrow> p x = q x) \<Longrightarrow> sorted_prio p xs = sorted_prio q xs"
  unfolding sorted_prio_def by (metis list.map_cong)

lemma pq_insert_cong:
  "(\<And>x. x \<in> set (e # xs) \<Longrightarrow> p x = q x) \<Longrightarrow> pq_insert p e xs = pq_insert q e xs"
  by (induction xs) (auto simp: pq_insert_insort)

text \<open>
  The interface the scheduler relies on: a store that represents a list, an addition that is a
  sorted insertion, and a removal at the end of the list. The laws are what a client may use;
  how the store is linked is hidden.
\<close>

locale prio_fifo =
  fixes rep :: "'q \<Rightarrow> nat list \<Rightarrow> bool"
    and empty :: "'q"
    and add :: "(nat \<Rightarrow> u32) \<Rightarrow> nat \<Rightarrow> 'q \<Rightarrow> 'q res"
    and out :: "'q \<Rightarrow> (nat option \<times> 'q) res"
    and top :: "'q \<Rightarrow> nat option res"
  assumes rep_distinct: "rep q xs \<Longrightarrow> distinct xs"
    and rep_empty: "rep empty []"
    and rep_add: "rep q xs \<Longrightarrow> e \<notin> set xs \<Longrightarrow> \<exists>q'. add p e q = ret q' \<and> rep q' (pq_insert p e xs)"
    and rep_top: "rep q xs \<Longrightarrow> top q = ret (if xs = [] then None else Some (last xs))"
    and rep_out_empty: "rep q [] \<Longrightarrow> out q = ret (None, q)"
    and rep_out: "rep q (xs @ [e]) \<Longrightarrow> \<exists>q'. out q = ret (Some e, q') \<and> rep q' xs"
begin

lemma out_highest:
  assumes "rep q xs" and "sorted_prio p xs" and "xs \<noteq> []"
  shows "\<exists>e q'. out q = ret (Some e, q') \<and> rep q' (butlast xs) \<and> e = last xs \<and>
    (\<forall>x\<in>set xs. p x \<le> p e)"
proof -
  from \<open>xs \<noteq> []\<close> have "xs = butlast xs @ [last xs]" by simp
  with assms(1) obtain q' where "out q = ret (Some (last xs), q')" "rep q' (butlast xs)"
    by (metis rep_out)
  then show ?thesis using sorted_prio_last [OF assms(2)] by blast
qed

lemma add_then_top:
  assumes "rep q xs" and "e \<notin> set xs" and "\<forall>x\<in>set xs. p x < p e"
  shows "\<exists>q'. add p e q = ret q' \<and> top q' = ret (Some e)"
proof -
  obtain q' where "add p e q = ret q'" "rep q' (pq_insert p e xs)"
    using rep_add [OF assms(1,2)] by blast
  moreover have "pq_insert p e xs = xs @ [e]"
    using assms(3) by (simp add: pq_insert_def)
  ultimately show ?thesis using rep_top [of q' "xs @ [e]"] by auto
qed

lemma add_not_before:
  assumes "rep q xs" and "e \<notin> set xs" and "sorted_prio p xs" and "xs \<noteq> []" and "p e \<le> p (last xs)"
  shows "\<exists>q'. add p e q = ret q' \<and> top q' = ret (Some (last xs))"
proof -
  obtain q' where "add p e q = ret q'" "rep q' (pq_insert p e xs)"
    using rep_add [OF assms(1,2)] by blast
  moreover have "\<not> (\<forall>x\<in>set xs. p x < p e)"
    using assms(4,5) by (meson last_in_set not_le)
  then have "dropWhile (\<lambda>x. p x < p e) xs \<noteq> []" by simp
  then have "last (pq_insert p e xs) = last xs"
    by (metis last_appendR last_ConsR list.distinct(1) pq_insert_def takeWhile_dropWhile_id)
  ultimately show ?thesis using rep_top [of q' "pq_insert p e xs"] by auto
qed

end

interpretation pq: prio_fifo queue_rep LIST_HEAD queue_add queue_out queue_top
proof unfold_locales
  show "queue_rep q xs \<Longrightarrow> distinct xs" for q xs by (rule queue_rep_distinct)
  show "queue_rep LIST_HEAD []" by (rule queue_rep_LIST_HEAD)
  show "queue_rep q xs \<Longrightarrow> e \<notin> set xs \<Longrightarrow>
      \<exists>q'. queue_add p e q = ret q' \<and> queue_rep q' (pq_insert p e xs)" for q xs p e
    by (rule queue_add_rep)
  show "queue_rep q xs \<Longrightarrow> queue_top q = ret (if xs = [] then None else Some (last xs))" for q xs
    by (rule queue_top_rep)
  show "queue_rep q [] \<Longrightarrow> queue_out q = ret (None, q)" for q by (rule queue_out_empty)
  show "queue_rep q (xs @ [e]) \<Longrightarrow> \<exists>q'. queue_out q = ret (Some e, q') \<and> queue_rep q' xs" for q xs e
    by (rule queue_out_rep)
qed

text \<open>A run of additions followed by removals until the queue is empty.\<close>

fun queue_add_all :: "(nat \<Rightarrow> u32) \<Rightarrow> nat list \<Rightarrow> links \<Rightarrow> links res" where
  "queue_add_all prio [] l = ret l"
| "queue_add_all prio (e # es) l = bindr (queue_add prio e l) (queue_add_all prio es)"

partial_function (option) queue_drain :: "links \<Rightarrow> nat list res" where
  "queue_drain l =
     bindr (queue_out l) (\<lambda>(r, l').
       case r of None \<Rightarrow> ret [] | Some e \<Rightarrow> bindr (queue_drain l') (\<lambda>es. ret (e # es)))"

lemma queue_add_all_rep:
  assumes "queue_rep l xs" and "distinct (es @ xs)"
  shows "\<exists>l'. queue_add_all prio es l = ret l' \<and> queue_rep l' (fold (insort_key prio) es xs)"
  using assms
proof (induction es arbitrary: l xs)
  case Nil
  then show ?case by simp
next
  case (Cons e es)
  then obtain l1 where l1: "queue_add prio e l = ret l1" "queue_rep l1 (insort_key prio e xs)"
    using pq.rep_add [of l xs e prio] by (auto simp: pq_insert_insort)
  moreover have "distinct (es @ insort_key prio e xs)"
    using Cons.prems(2) by (auto simp: distinct_insort set_insort_key)
  ultimately show ?case using Cons.IH by auto
qed

lemma queue_drain_rep: "queue_rep l xs \<Longrightarrow> queue_drain l = ret (rev xs)"
proof (induction xs arbitrary: l rule: rev_induct)
  case Nil
  then show ?case by (subst queue_drain.simps) (simp add: pq.rep_out_empty)
next
  case (snoc e xs)
  then obtain l' where "queue_out l = ret (Some e, l')" "queue_rep l' xs"
    using pq.rep_out by blast
  with snoc.IH show ?case by (subst queue_drain.simps) simp
qed

lemma queue_order:
  assumes "distinct es"
  shows "bindr (queue_add_all prio es LIST_HEAD) queue_drain = ret (rev (sort_key prio (rev es)))"
proof -
  obtain l where "queue_add_all prio es LIST_HEAD = ret l"
    and "queue_rep l (fold (insort_key prio) es [])"
    using queue_add_all_rep [OF queue_rep_LIST_HEAD, of es prio] assms by auto
  moreover have "fold (insort_key prio) es [] = sort_key prio (rev es)"
    by (simp add: sort_key_def foldr_conv_fold)
  ultimately show ?thesis using queue_drain_rep by simp
qed

end
