(* ===== verification/Proc.thy ===== *)
theory Proc
  imports Complex_Main Prio_Queue
begin

text \<open>
  The processes of kernel/proc.c and kernel/proc.h: the process table, the queue of the
  activable processes, the list of the sleeping ones, the list of the dead ones, the scheduler
  and the system calls on processes. Every \<open>struct Process *\<close> of the program points into the
  array \<open>process\<close>, so a pointer is an index of the table, and NULL is \<open>None\<close>. The pointer
  fields that link the lists (\<open>suiv\<close>, \<open>my_link\<close>, \<open>frere_droit\<close>, ...) are kept and updated one
  assignment after the other, as the C code does. The context switch saves and loads the five
  registers of kernel/ctx_sw.S; what the process that gets the processor does next is not part
  of the call.
\<close>

subsection \<open>The data of proc.h\<close>

definition STACK_SIZE_INTEGER :: nat where "STACK_SIZE_INTEGER = 4096"
definition PROCESS_TABLE_SIZE :: nat where "PROCESS_TABLE_SIZE = 30"
definition MAX_PRIO :: int where "MAX_PRIO = 256"

datatype process_state = ELU | ACTIVABLE | ENDORMI | MORT | ZOMBIE | SEMAPHORE

text \<open>
  \<open>int *retval\<close> and \<open>int *retval_fils\<close> point to the parameter of a call of \<open>exit\<close>, which lives
  in the stack of the process that made the call: the pointer is the index of that process.
  The link \<open>my_link\<close> of process \<open>i\<close> is \<open>Link i\<close> in the store of the queue.
\<close>

record process =
  pid :: int
  name :: string
  state :: process_state
  regs :: "u32 list"
  exec_stack :: "nat \<Rightarrow> u32"
  time_to_wake :: real
  prio :: u32
  suiv :: "nat option"
  premier_fils :: "nat option"
  dernier_fils :: "nat option"
  pere :: "nat option"
  frere_droit :: "nat option"
  retval :: "nat option"
  retval_fils :: "nat option"
  pid_ret_fils :: int

text \<open>
  The global variables: the table, the queue, the heads and tails of the two lists, the running
  process, the tick counter of clock.c, the registers \<open>ebx esp ebp esi edi\<close> of the processor
  and, for each process, the parameter of its call of \<open>exit\<close>.
\<close>

record kernel =
  process_tab :: "nat \<Rightarrow> process"
  head_queue :: links
  process_alive :: u32
  endormi_list :: "nat option"
  endormi_tail :: "nat option"
  dead_list :: "nat option"
  dead_tail :: "nat option"
  actif :: "nat option"
  nb_tick :: u32
  cpu_regs :: "u32 list"
  exit_param :: "nat \<Rightarrow> int"

text \<open>Addresses the linker chooses: the stacks, and the functions a new stack refers to.\<close>

record addresses =
  exec_stack_at :: "nat \<Rightarrow> u32"
  fin_processus_at :: u32
  idle_at :: u32

abbreviation proc :: "kernel \<Rightarrow> nat \<Rightarrow> process" where
  "proc k i \<equiv> process_tab k i"

definition upd :: "nat \<Rightarrow> (process \<Rightarrow> process) \<Rightarrow> kernel \<Rightarrow> kernel" where
  "upd i f k = k\<lparr>process_tab := (process_tab k)(i := f (process_tab k i))\<rparr>"

definition prios :: "kernel \<Rightarrow> nat \<Rightarrow> u32" where
  "prios k i = prio (proc k i)"

definition current_clock :: "kernel \<Rightarrow> u32" where
  "current_clock k = nb_tick k"

subsection \<open>The list of the dead processes\<close>

definition insert_mort :: "nat \<Rightarrow> kernel \<Rightarrow> kernel res" where
  "insert_mort e k =
     (let k1 = upd e (\<lambda>p. p\<lparr>state := MORT\<rparr>) k in
      bindr
        (if dead_list k1 = None then ret (k1\<lparr>dead_list := Some e, dead_tail := Some e\<rparr>)
         else bindr (deref (dead_tail k1)) (\<lambda>t.
           let k2 = upd t (\<lambda>p. p\<lparr>suiv := Some e\<rparr>) k1
           in ret (k2\<lparr>dead_tail := suiv (proc k2 t)\<rparr>)))
        (\<lambda>k3. ret (upd e (\<lambda>p. p\<lparr>suiv := None\<rparr>) k3)))"

definition extract_mort :: "kernel \<Rightarrow> nat option \<times> kernel" where
  "extract_mort k =
     (case dead_list k of
        None \<Rightarrow> (None, k)
      | Some d \<Rightarrow>
          (Some d,
           if dead_list k = dead_tail k then k\<lparr>dead_list := None, dead_tail := None\<rparr>
           else k\<lparr>dead_list := suiv (proc k d)\<rparr>))"

subsection \<open>The queue of the activable processes\<close>

definition extract_activable :: "kernel \<Rightarrow> (nat option \<times> kernel) res" where
  "extract_activable k =
     (if queue_empty (head_queue k) then ret (None, k)
      else bindr (queue_out (head_queue k)) (\<lambda>(r, q).
        bindr (deref r) (\<lambda>t.
          ret (Some t, upd t (\<lambda>p. p\<lparr>suiv := None\<rparr>) (k\<lparr>head_queue := q\<rparr>)))))"

definition insert_activable :: "nat \<Rightarrow> kernel \<Rightarrow> kernel res" where
  "insert_activable e k =
     (let k1 = upd e (\<lambda>p. p\<lparr>state := ACTIVABLE\<rparr>) k;
          k2 = upd e (\<lambda>p. p\<lparr>suiv := None\<rparr>) k1
      in bindr (queue_add (prios k2) e (head_queue k2)) (\<lambda>q. ret (k2\<lparr>head_queue := q\<rparr>)))"

subsection \<open>The list of the sleeping processes\<close>

definition extract_endormi :: "kernel \<Rightarrow> (nat \<times> kernel) res" where
  "extract_endormi k =
     (let tmp = endormi_list k in
      bindr
        (if endormi_list k = endormi_tail k then ret (k\<lparr>endormi_list := None, endormi_tail := None\<rparr>)
         else bindr (deref (endormi_list k)) (\<lambda>h. ret (k\<lparr>endormi_list := suiv (proc k h)\<rparr>)))
        (\<lambda>k1. bindr (deref tmp) (\<lambda>t. ret (t, upd t (\<lambda>p. p\<lparr>suiv := None\<rparr>) k1))))"

text \<open>The loop of \<open>insert_endormi\<close>; its result tells whether the element was added.\<close>

partial_function (option) insert_endormi_loop ::
  "nat \<Rightarrow> nat option \<Rightarrow> nat option \<Rightarrow> bool \<Rightarrow> kernel \<Rightarrow> (bool \<times> kernel) res" where
  "insert_endormi_loop e tmp prec is_head k =
     (case tmp of
        None \<Rightarrow> ret (False, k)
      | Some t \<Rightarrow>
          if time_to_wake (proc k t) > time_to_wake (proc k e) then
            (if is_head then ret (True, upd e (\<lambda>p. p\<lparr>suiv := Some t\<rparr>) (k\<lparr>endormi_list := Some e\<rparr>))
             else bindr (deref prec) (\<lambda>q.
               ret (True, upd e (\<lambda>p. p\<lparr>suiv := Some t\<rparr>) (upd q (\<lambda>p. p\<lparr>suiv := Some e\<rparr>) k))))
          else if is_head then insert_endormi_loop e (suiv (proc k t)) prec False k
          else bindr (deref prec) (\<lambda>q.
            insert_endormi_loop e (suiv (proc k t)) (suiv (proc k q)) False k))"

definition insert_endormi :: "nat \<Rightarrow> real \<Rightarrow> kernel \<Rightarrow> kernel res" where
  "insert_endormi e time k =
     (let k1 = upd e (\<lambda>p. p\<lparr>time_to_wake := time\<rparr>) k;
          k2 = upd e (\<lambda>p. p\<lparr>state := ENDORMI\<rparr>) k1
      in
      if endormi_tail k2 = None then
        ret ((upd e (\<lambda>p. p\<lparr>suiv := None\<rparr>) k2)\<lparr>endormi_list := Some e, endormi_tail := Some e\<rparr>)
      else
        bindr (insert_endormi_loop e (endormi_list k2) (endormi_list k2) True k2)
          (\<lambda>(already_add, k3).
             bindr
               (if already_add then ret k3
                else bindr (deref (endormi_tail k3)) (\<lambda>t.
                  let k4 = upd t (\<lambda>p. p\<lparr>suiv := Some e\<rparr>) k3
                  in ret (k4\<lparr>endormi_tail := suiv (proc k4 t)\<rparr>)))
               (\<lambda>k5. bindr (deref (endormi_tail k5)) (\<lambda>t. ret (upd t (\<lambda>p. p\<lparr>suiv := None\<rparr>) k5)))))"

text \<open>The loop of \<open>sleep_del\<close>, which goes on after it has removed the process.\<close>

partial_function (option) sleep_del_loop ::
  "int \<Rightarrow> nat option \<Rightarrow> nat \<Rightarrow> kernel \<Rightarrow> kernel res" where
  "sleep_del_loop n tmp prec k =
     (case tmp of
        None \<Rightarrow> ret k
      | Some t \<Rightarrow>
          bindr
            (if pid (proc k t) = n then
               bindr (deref (endormi_tail k)) (\<lambda>l.
                 let k1 = (if pid (proc k t) = pid (proc k l) then k\<lparr>endormi_tail := Some prec\<rparr> else k);
                     k2 = upd prec (\<lambda>p. p\<lparr>suiv := suiv (proc k1 t)\<rparr>) k1;
                     k3 = upd t (\<lambda>p. p\<lparr>suiv := None\<rparr>) k2
                 in insert_mort t k3)
             else ret k)
            (\<lambda>k4. sleep_del_loop n (suiv (proc k4 t)) t k4))"

definition sleep_del :: "int \<Rightarrow> kernel \<Rightarrow> (int \<times> kernel) res" where
  "sleep_del n k =
     (case endormi_list k of
        None \<Rightarrow> ret (-1, k)
      | Some h \<Rightarrow>
          if pid (proc k h) = n then
            (let k1 = (if endormi_list k = endormi_tail k then k\<lparr>endormi_tail := None\<rparr> else k);
                 k2 = k1\<lparr>endormi_list := suiv (proc k1 h)\<rparr>;
                 k3 = upd h (\<lambda>p. p\<lparr>suiv := None\<rparr>) k2
             in bindr (insert_mort h k3) (\<lambda>k4. ret (0, k4)))
          else bindr (sleep_del_loop n (suiv (proc k h)) h k) (\<lambda>k1. ret (-1, k1)))"

subsection \<open>The scheduler\<close>

text \<open>
  \<open>wake_process\<close>: the loop reads \<open>tmp->suiv\<close> after \<open>tmp\<close> was moved to the queue. The comparison
  is done in \<open>double\<close>, in which every value of the 32-bit counter is exact.
\<close>

partial_function (option) wake_process_loop :: "nat option \<Rightarrow> kernel \<Rightarrow> kernel res" where
  "wake_process_loop tmp k =
     (case tmp of
        None \<Rightarrow> ret k
      | Some t \<Rightarrow>
          if time_to_wake (proc k t) \<le> real (unat (current_clock k)) \<and> endormi_tail k \<noteq> None then
            bindr (extract_endormi k) (\<lambda>(x, k1).
              bindr (insert_activable x k1) (\<lambda>k2. wake_process_loop (suiv (proc k2 t)) k2))
          else ret k)"

definition wake_process :: "kernel \<Rightarrow> kernel res" where
  "wake_process k = wake_process_loop (endormi_list k) k"

text \<open>
  The index of a process by its \<open>pid\<close> field, as in \<open>process[old_pid]\<close>: \<open>old_pid\<close> and
  \<open>next_pid\<close> are \<open>uint32_t\<close>.
\<close>

definition table_index :: "int \<Rightarrow> nat res" where
  "table_index n =
     (let i = unat (word_of_int n :: u32) in if i < PROCESS_TABLE_SIZE then ret i else err Out_Of_Bounds)"

text \<open>kernel/ctx_sw.S: save the registers in the first context, load them from the second.\<close>

definition ctx_sw :: "nat \<Rightarrow> nat \<Rightarrow> kernel \<Rightarrow> kernel" where
  "ctx_sw a b k =
     (let k1 = upd a (\<lambda>p. p\<lparr>regs := cpu_regs k\<rparr>) k in k1\<lparr>cpu_regs := regs (proc k1 b)\<rparr>)"

definition ordonnance :: "kernel \<Rightarrow> kernel res" where
  "ordonnance k0 =
     bindr (wake_process k0) (\<lambda>k.
     bindr (deref (actif k)) (\<lambda>a.
     let old_pid = pid (proc k a) in
     bindr
       (if queue_empty (head_queue k) then ret False
        else bindr (queue_top (head_queue k)) (\<lambda>r. bindr (deref r) (\<lambda>t.
          ret (prio (proc k t) \<ge> prio (proc k a) \<or> state (proc k a) = ENDORMI))))
       (\<lambda>take_other.
     bindr (if take_other then extract_activable k else ret (actif k, k)) (\<lambda>(new_actif, k1).
     case new_actif of
       None \<Rightarrow> ret k1
     | Some n \<Rightarrow>
         let next_pid = pid (proc k1 n) in
         bindr
           (if state (proc k1 a) \<noteq> ENDORMI \<and> actif k1 \<noteq> new_actif then insert_activable a k1
            else ret k1)
           (\<lambda>k2.
         let k3 = k2\<lparr>actif := new_actif\<rparr> in
         bindr (table_index old_pid) (\<lambda>i.
         bindr (table_index next_pid) (\<lambda>j. ret (ctx_sw i j k3))))))))"

definition getpid :: "kernel \<Rightarrow> int res" where
  "getpid k = bindr (deref (actif k)) (\<lambda>a. ret (pid (proc k a)))"

definition mon_nom :: "kernel \<Rightarrow> string res" where
  "mon_nom k = bindr (deref (actif k)) (\<lambda>a. ret (name (proc k a)))"

definition dors :: "u32 \<Rightarrow> kernel \<Rightarrow> kernel res" where
  "dors nbr_secs k =
     bindr (deref (actif k)) (\<lambda>a. bindr (insert_endormi a (real (unat nbr_secs)) k) ordonnance)"

definition sleep_until :: "real \<Rightarrow> kernel \<Rightarrow> kernel res" where
  "sleep_until time k =
     bindr (deref (actif k)) (\<lambda>a. bindr (insert_endormi a time k) ordonnance)"

subsection \<open>Creation\<close>

text \<open>
  The checks and the index of \<open>start\<close>. \<open>strcpy\<close> writes the name and its final NUL into the 15
  bytes of \<open>name\<close>.
\<close>

definition start_index :: "kernel \<Rightarrow> (nat \<times> kernel) res" where
  "start_index k =
     (let (new_p, k1) = extract_mort k;
          index = (case new_p of None \<Rightarrow> sint (process_alive k1) | Some d \<Rightarrow> pid (proc k1 d))
      in if 0 \<le> index \<and> index < int PROCESS_TABLE_SIZE then ret (nat index, k1)
         else err Out_Of_Bounds)"

definition start_fill :: "addresses \<Rightarrow> nat \<Rightarrow> u32 \<Rightarrow> int \<Rightarrow> string \<Rightarrow> u32 \<Rightarrow> kernel \<Rightarrow> kernel" where
  "start_fill ad index pt_func pr nm arg k =
     upd index (\<lambda>p. p\<lparr>
        pid := int index,
        name := nm,
        prio := word_of_int pr,
        regs := (regs p)[1 := exec_stack_at ad index + 4 * of_nat (STACK_SIZE_INTEGER - 3)],
        exec_stack := (exec_stack p)
          (STACK_SIZE_INTEGER - 3 := pt_func,
           STACK_SIZE_INTEGER - 2 := fin_processus_at ad,
           STACK_SIZE_INTEGER - 1 := arg),
        pere := actif k,
        dernier_fils := None,
        frere_droit := None,
        premier_fils := None,
        suiv := None,
        retval := None,
        pid_ret_fils := -1\<rparr>) k"

definition start_adopt :: "nat \<Rightarrow> kernel \<Rightarrow> kernel res" where
  "start_adopt index k =
     (case actif k of
        None \<Rightarrow> ret k
      | Some a \<Rightarrow>
          if premier_fils (proc k a) = None then
            ret (upd a (\<lambda>p. p\<lparr>premier_fils := Some index, dernier_fils := Some index\<rparr>) k)
          else bindr (deref (dernier_fils (proc k a))) (\<lambda>d.
            let k1 = upd d (\<lambda>p. p\<lparr>frere_droit := Some index\<rparr>) k
            in bindr (deref (dernier_fils (proc k1 a))) (\<lambda>d1.
                 ret (upd a (\<lambda>p. p\<lparr>dernier_fils := frere_droit (proc k1 d1)\<rparr>) k1))))"

definition start ::
  "addresses \<Rightarrow> u32 \<Rightarrow> u32 \<Rightarrow> int \<Rightarrow> string \<Rightarrow> u32 \<Rightarrow> kernel \<Rightarrow> (int \<times> kernel) res" where
  "start ad pt_func ssize pr nm arg k =
     (if ssize \<ge> 0xffffffff then ret (-1, k)
      else if pr \<ge> MAX_PRIO \<and> pr < 0 then ret (-1, k)
      else if process_alive k = of_nat PROCESS_TABLE_SIZE then ret (-1, k)
      else bindr (start_index k) (\<lambda>(index, k1).
        if length nm \<ge> 15 then err Out_Of_Bounds
        else
          bindr (start_adopt index (start_fill ad index pt_func pr nm arg k1)) (\<lambda>k2.
          bindr (if index > 0 then insert_activable index k2 else ret k2) (\<lambda>k3.
          ret (pid (proc k3 index), k3\<lparr>process_alive := process_alive k3 + 1\<rparr>)))))"

definition init_process :: "addresses \<Rightarrow> kernel \<Rightarrow> kernel res" where
  "init_process ad k =
     bindr (start ad (idle_at ad) 512 1 ''idle'' 0 k) (\<lambda>(_, k1). ret (k1\<lparr>actif := Some 0\<rparr>))"

subsection \<open>Termination of a process\<close>

text \<open>The loop over the children: they lose their father, and the zombies among them die.\<close>

partial_function (option) fin_children_loop :: "nat option \<Rightarrow> kernel \<Rightarrow> kernel res" where
  "fin_children_loop f k =
     (case f of
        None \<Rightarrow> ret k
      | Some c \<Rightarrow>
          let k1 = upd c (\<lambda>p. p\<lparr>pere := None\<rparr>) k in
          if state (proc k1 c) = ZOMBIE then
            (let frere_du_proc_supprime = frere_droit (proc k1 c) in
             bindr (insert_mort c k1) (\<lambda>k2. fin_children_loop frere_du_proc_supprime k2))
          else fin_children_loop (frere_droit (proc k1 c)) k1)"

text \<open>The loop that unlinks the process \<open>a\<close> from the children of its father.\<close>

partial_function (option) fin_unlink_loop :: "nat \<Rightarrow> nat option \<Rightarrow> nat option \<Rightarrow> kernel \<Rightarrow> kernel res" where
  "fin_unlink_loop a prec cur k =
     (case cur of
        None \<Rightarrow> ret k
      | Some c \<Rightarrow>
          if state (proc k a) = ZOMBIE then ret k
          else if c = a then
            (case prec of
               Some q \<Rightarrow>
                 (let k1 = upd q (\<lambda>p. p\<lparr>frere_droit := frere_droit (proc k c)\<rparr>) k
                  in fin_unlink_loop a (Some c) (frere_droit (proc k1 c)) k1)
             | None \<Rightarrow>
                 bindr (deref (frere_droit (proc k c))) (\<lambda>c1.
                   fin_unlink_loop a (Some c1) (frere_droit (proc k c1)) k))
          else fin_unlink_loop a (Some c) (frere_droit (proc k c)) k)"

definition fin_processus :: "kernel \<Rightarrow> kernel res" where
  "fin_processus k0 =
     bindr (deref (actif k0)) (\<lambda>a.
     bindr
       (case pere (proc k0 a) of
          None \<Rightarrow> insert_mort a k0
        | Some f \<Rightarrow>
            let k1 = upd a (\<lambda>p. p\<lparr>state := ZOMBIE\<rparr>) k0
            in ret (upd f (\<lambda>p. p\<lparr>pid_ret_fils := pid (proc k1 a)\<rparr>) k1))
       (\<lambda>k2.
     bindr (fin_children_loop (premier_fils (proc k2 a)) k2) (\<lambda>k3.
     bindr (deref (pere (proc k3 a))) (\<lambda>f.
     bindr (fin_unlink_loop a None (premier_fils (proc k3 f)) k3) (\<lambda>k4.
     let old_pid = pid (proc k4 a) in
     bindr (extract_activable k4) (\<lambda>(new_actif, k5).
     let k6 = k5\<lparr>process_alive := process_alive k5 - 1\<rparr> in
     bindr (table_index old_pid) (\<lambda>i.
     case new_actif of
       None \<Rightarrow> ret (ctx_sw i 0 k6)
     | Some n \<Rightarrow>
         let k7 = k6\<lparr>actif := new_actif\<rparr> in
         bindr (table_index (pid (proc k7 n))) (\<lambda>j. ret (ctx_sw i j k7)))))))))"

text \<open>
  \<open>exit\<close> up to the context switch. The call never returns to its caller: if the process were
  resumed it would stay in \<open>while (1)\<close>.
\<close>

definition exit :: "int \<Rightarrow> kernel \<Rightarrow> kernel res" where
  "exit v k =
     bindr (deref (actif k)) (\<lambda>a.
       fin_processus (upd a (\<lambda>p. p\<lparr>retval := Some a\<rparr>) (k\<lparr>exit_param := (exit_param k)(a := v)\<rparr>)))"

definition is_pid_valid :: "int \<Rightarrow> kernel \<Rightarrow> bool res" where
  "is_pid_valid n k =
     (if n < 0 \<or> n > int PROCESS_TABLE_SIZE - 1 then ret False
      else bindr (deref (actif k)) (\<lambda>a. ret (pid (proc k a) = n)))"

text \<open>The body of the loop of \<open>kill\<close> over the queue: it returns as soon as the process is found.\<close>

definition kill_body :: "int \<Rightarrow> nat \<Rightarrow> kernel \<Rightarrow> ((int \<times> kernel) + kernel) res" where
  "kill_body n t k =
     (if pid (proc k t) = n then
        (let k1 = upd t (\<lambda>p. p\<lparr>state := ZOMBIE\<rparr>) k in
         bindr (queue_del t (head_queue k1)) (\<lambda>q. ret (Inl (0, k1\<lparr>head_queue := q\<rparr>))))
      else ret (Inr k))"

definition kill :: "int \<Rightarrow> kernel \<Rightarrow> (int \<times> kernel) res" where
  "kill n k =
     (if n \<le> 0 \<or> n > int PROCESS_TABLE_SIZE - 1 then ret (-1, k)
      else bindr (deref (actif k)) (\<lambda>a.
        if pid (proc k a) = n then
          bindr (fin_processus (upd a (\<lambda>p. p\<lparr>retval := None\<rparr>) k)) (\<lambda>k1. ret (0, k1))
        else
          bindr (queue_for_each head_queue (kill_body n) k) (\<lambda>r.
            case r of
              Inl x \<Rightarrow> ret x
            | Inr k1 \<Rightarrow>
                bindr (sleep_del n k1) (\<lambda>(v, k2). if v = 0 then ret (0, k2) else ret (-1, k2)))))"

subsection \<open>Priorities\<close>

definition getprio_body :: "int \<Rightarrow> nat \<Rightarrow> kernel \<Rightarrow> (int + kernel) res" where
  "getprio_body n t k =
     (if pid (proc k t) = n then ret (Inl (sint (prio (proc k t)))) else ret (Inr k))"

partial_function (option) getprio_endormi :: "int \<Rightarrow> nat option \<Rightarrow> kernel \<Rightarrow> int res" where
  "getprio_endormi n tmp k =
     (case tmp of
        None \<Rightarrow> ret (-1)
      | Some t \<Rightarrow>
          if pid (proc k t) = n then ret (sint (prio (proc k t)))
          else getprio_endormi n (suiv (proc k t)) k)"

definition getprio :: "int \<Rightarrow> kernel \<Rightarrow> int res" where
  "getprio n k =
     (if n < 0 \<or> n > int PROCESS_TABLE_SIZE - 1 then ret (-1)
      else bindr (deref (actif k)) (\<lambda>a.
        if pid (proc k a) = n then ret (sint (prio (proc k a)))
        else bindr (queue_for_each head_queue (getprio_body n) k) (\<lambda>r.
          case r of Inl v \<Rightarrow> ret v | Inr k1 \<Rightarrow> getprio_endormi n (endormi_list k1) k1)))"

text \<open>The state of the two loops of \<open>chprio\<close> is the old priority and the kernel.\<close>

definition chprio_body :: "int \<Rightarrow> int \<Rightarrow> nat \<Rightarrow> int \<times> kernel \<Rightarrow> (unit + int \<times> kernel) res" where
  "chprio_body n newprio t ok =
     (let (oldprio, k) = ok in
      if pid (proc k t) = n then
        bindr (queue_del t (head_queue k)) (\<lambda>q.
          let k1 = k\<lparr>head_queue := q\<rparr>;
              old = sint (prio (proc k1 t));
              k2 = upd t (\<lambda>p. p\<lparr>prio := word_of_int newprio\<rparr>) k1
          in bindr (queue_add (prios k2) t (head_queue k2)) (\<lambda>q2.
               ret (Inr (old, k2\<lparr>head_queue := q2\<rparr>))))
      else ret (Inr (oldprio, k)))"

partial_function (option) chprio_endormi ::
  "int \<Rightarrow> int \<Rightarrow> nat option \<Rightarrow> int \<Rightarrow> kernel \<Rightarrow> (int \<times> kernel) res" where
  "chprio_endormi n newprio tmp oldprio k =
     (case tmp of
        None \<Rightarrow> ret (oldprio, k)
      | Some t \<Rightarrow>
          if pid (proc k t) = n then
            (let old = sint (prio (proc k t));
                 k1 = upd t (\<lambda>p. p\<lparr>prio := word_of_int newprio\<rparr>) k
             in chprio_endormi n newprio (suiv (proc k1 t)) old k1)
          else chprio_endormi n newprio (suiv (proc k t)) oldprio k)"

definition chprio :: "int \<Rightarrow> int \<Rightarrow> kernel \<Rightarrow> (int \<times> kernel) res" where
  "chprio n newprio k =
     (if n < 0 \<or> n > int PROCESS_TABLE_SIZE - 1 \<or> newprio < 1 \<or> newprio > MAX_PRIO then ret (-1, k)
      else bindr (deref (actif k)) (\<lambda>a.
        bindr
          (if pid (proc k a) = n then
             ret (sint (prio (proc k a)), upd a (\<lambda>p. p\<lparr>prio := word_of_int newprio\<rparr>) k)
           else
             bindr (queue_for_each (head_queue \<circ> snd) (chprio_body n newprio) (-1, k)) (\<lambda>r.
               case r of
                 Inl _ \<Rightarrow> ret (-1, k)
               | Inr (old, k1) \<Rightarrow> chprio_endormi n newprio (endormi_list k1) old k1))
          (\<lambda>(old, k2). bindr (ordonnance k2) (\<lambda>k3. ret (old, k3)))))"

subsection \<open>Waiting for a child\<close>

text \<open>
  While \<open>waitpid\<close> waits, the other processes run: \<open>test_it\<close> opens the interrupts, and
  \<open>chprio\<close> calls the scheduler. \<open>env n\<close> is what happens at the \<open>n\<close>-th of these points until
  the waiting process has the processor again; it is an argument of the model, and the counter
  is passed along. The printing of two blanks for a child named \<open>waiter\<close> is left out.
\<close>

partial_function (option) pid_dun_fils_loop ::
  "(nat \<Rightarrow> kernel \<Rightarrow> kernel res) \<Rightarrow> int \<Rightarrow> nat option \<Rightarrow> nat \<Rightarrow> kernel \<Rightarrow> (int \<times> nat \<times> kernel) res" where
  "pid_dun_fils_loop env param fils n k0 =
     bindr (env n k0) (\<lambda>k.
     bindr (deref fils) (\<lambda>f.
     bindr (deref (actif k)) (\<lambda>a.
       if state (proc k f) = ZOMBIE \<and> (param = -1 \<or> pid (proc k f) = param) then
         (let pid_fils = pid (proc k f);
              k1 = upd a (\<lambda>p. p\<lparr>retval_fils := retval (proc k f)\<rparr>) k
          in bindr (insert_mort f k1) (\<lambda>k2. ret (pid_fils, n + 1, k2)))
       else
         (let fils1 = (case frere_droit (proc k f) of None \<Rightarrow> premier_fils (proc k a) | Some g \<Rightarrow> Some g)
          in bindr (deref fils1) (\<lambda>g.
               if param = pid (proc k g) \<and> prio (proc k g) < prio (proc k a) then
                 bindr (getprio param k) (\<lambda>p.
                 bindr (chprio param (p + 1) k) (\<lambda>(_, k1).
                 bindr (env (n + 1) k1) (\<lambda>k2. pid_dun_fils_loop env param fils1 (n + 2) k2)))
               else pid_dun_fils_loop env param fils1 (n + 1) k)))))"

definition pid_dun_fils_termine ::
  "(nat \<Rightarrow> kernel \<Rightarrow> kernel res) \<Rightarrow> int \<Rightarrow> nat \<Rightarrow> kernel \<Rightarrow> (int \<times> nat \<times> kernel) res" where
  "pid_dun_fils_termine env param n k =
     bindr (deref (actif k)) (\<lambda>a. pid_dun_fils_loop env param (premier_fils (proc k a)) n k)"

text \<open>\<open>while ((pid_fils_termine = pid_dun_fils_termine(param)) is not accepted) {}\<close>\<close>

partial_function (option) waitpid_loop ::
  "(nat \<Rightarrow> kernel \<Rightarrow> kernel res) \<Rightarrow> int \<Rightarrow> (int \<Rightarrow> bool) \<Rightarrow> nat \<Rightarrow> kernel \<Rightarrow> (int \<times> nat \<times> kernel) res" where
  "waitpid_loop env param accepted n k =
     bindr (pid_dun_fils_termine env param n k) (\<lambda>(v, m, k1).
       if accepted v then ret (v, m, k1) else waitpid_loop env param accepted m k1)"

partial_function (option) waitpid_search :: "int \<Rightarrow> nat option \<Rightarrow> kernel \<Rightarrow> bool res" where
  "waitpid_search n tmp k =
     (case tmp of
        None \<Rightarrow> ret False
      | Some t \<Rightarrow>
          if pid (proc k t) = n \<and> state (proc k t) = MORT then ret False
          else if pid (proc k t) = n then ret True
          else if tmp = frere_droit (proc k t) then ret False
          else waitpid_search n (frere_droit (proc k t)) k)"

text \<open>
  The result is the returned value, the value written through \<open>retvalp\<close> if one was written, the
  number of environment points used and the state. \<open>null\<close> tells whether \<open>retvalp\<close> is NULL.
\<close>

definition waitpid ::
  "(nat \<Rightarrow> kernel \<Rightarrow> kernel res) \<Rightarrow> bool \<Rightarrow> int \<Rightarrow> nat \<Rightarrow> kernel \<Rightarrow> (int \<times> int option \<times> nat \<times> kernel) res" where
  "waitpid env null q n k =
     bindr (deref (actif k)) (\<lambda>a.
     bindr
       (if q < 0 \<and> premier_fils (proc k a) \<noteq> None then ret True
        else waitpid_search q (premier_fils (proc k a)) k)
       (\<lambda>trouve_fils.
     if trouve_fils then
       bindr
         (if q < 0 then waitpid_loop env (-1) (\<lambda>v. \<not> v < 0) n k
          else if q > 0 then waitpid_loop env q (\<lambda>v. v = q) n k
          else ret (-1, n, k))
         (\<lambda>(v, m, k1).
       bindr (deref (actif k1)) (\<lambda>b.
         case retval_fils (proc k1 b) of
           Some r \<Rightarrow>
             if null then err Null_Deref
             else ret (v, Some (exit_param k1 r), m, upd b (\<lambda>p. p\<lparr>retval_fils := None\<rparr>) k1)
         | None \<Rightarrow> ret (v, None, m, k1)))
     else ret (-1, None, n, k)))"

partial_function (option) suppression_loop :: "nat \<Rightarrow> nat option \<Rightarrow> nat option \<Rightarrow> kernel \<Rightarrow> kernel res" where
  "suppression_loop z prec cur k =
     (case cur of
        None \<Rightarrow> ret k
      | Some c \<Rightarrow>
          bindr (deref (actif k)) (\<lambda>a.
            if state (proc k a) = ZOMBIE then ret k
            else if c = z then
              (case prec of
                 Some q \<Rightarrow>
                   (let k1 = upd q (\<lambda>p. p\<lparr>frere_droit := frere_droit (proc k c)\<rparr>) k
                    in suppression_loop z (Some c) (frere_droit (proc k1 c)) k1)
               | None \<Rightarrow> ret (upd a (\<lambda>p. p\<lparr>premier_fils := None\<rparr>) k))
            else suppression_loop z (Some c) (frere_droit (proc k c)) k))"

definition suppression_fils_zombie :: "nat \<Rightarrow> kernel \<Rightarrow> kernel res" where
  "suppression_fils_zombie z k =
     bindr (deref (actif k)) (\<lambda>a. suppression_loop z None (premier_fils (proc k a)) k)"

subsection \<open>Listing\<close>

text \<open>What \<open>display_queue\<close> prints: a name and a priority for each line.\<close>

definition display_body ::
  "nat \<Rightarrow> (string \<times> int) list \<times> kernel \<Rightarrow> (unit + (string \<times> int) list \<times> kernel) res" where
  "display_body t ok =
     (let (out, k) = ok in ret (Inr (out @ [(name (proc k t), sint (prio (proc k t)))], k)))"

definition display_queue :: "bool \<Rightarrow> kernel \<Rightarrow> (string \<times> int) list res" where
  "display_queue normal k =
     bindr
       (if normal then queue_for_each (head_queue \<circ> snd) display_body ([], k)
        else queue_for_each_prev (head_queue \<circ> snd) display_body ([], k))
       (\<lambda>r. case r of Inl _ \<Rightarrow> ret [] | Inr (out, _) \<Rightarrow> ret out)"

end
