(* ===== verification/Proc_Lists.thy ===== *)
theory Proc_Lists
  imports Proc
begin

text \<open>
  The three lists of proc.c: what it means that the pointers hold a queue of activable
  processes, a list of sleeping processes sorted by wake-up time and a list of dead processes,
  and what each list operation does to the lists they represent.
\<close>

subsection \<open>Field updates\<close>

lemma upd_simps [simp]:
  "process_tab (upd i f k) = (process_tab k)(i := f (process_tab k i))"
  "head_queue (upd i f k) = head_queue k"
  "process_alive (upd i f k) = process_alive k"
  "endormi_list (upd i f k) = endormi_list k"
  "endormi_tail (upd i f k) = endormi_tail k"
  "dead_list (upd i f k) = dead_list k"
  "dead_tail (upd i f k) = dead_tail k"
  "actif (upd i f k) = actif k"
  "nb_tick (upd i f k) = nb_tick k"
  "cpu_regs (upd i f k) = cpu_regs k"
  "exit_param (upd i f k) = exit_param k"
  by (simp_all add: upd_def)

lemma current_clock_upd [simp]: "current_clock (upd i f k) = current_clock k"
  by (simp add: current_clock_def)

subsection \<open>What the lists hold\<close>

definition ready_ok :: "kernel \<Rightarrow> nat list \<Rightarrow> bool" where
  "ready_ok k rs \<longleftrightarrow>
     queue_rep (head_queue k) rs \<and> sorted_prio (prios k) rs \<and>
     (\<forall>i\<in>set rs. state (proc k i) = ACTIVABLE)"

definition sleep_ok :: "kernel \<Rightarrow> nat list \<Rightarrow> bool" where
  "sleep_ok k es \<longleftrightarrow>
     lpath (\<lambda>i. suiv (proc k i)) (endormi_list k) es \<and> endormi_tail k = last_opt es \<and>
     sorted (map (\<lambda>i. time_to_wake (proc k i)) es) \<and> (\<forall>i\<in>set es. state (proc k i) = ENDORMI)"

definition dead_ok :: "kernel \<Rightarrow> nat list \<Rightarrow> bool" where
  "dead_ok k ds \<longleftrightarrow>
     lpath (\<lambda>i. suiv (proc k i)) (dead_list k) ds \<and> dead_tail k = last_opt ds \<and>
     (\<forall>i\<in>set ds. state (proc k i) = MORT)"

definition lists_ok :: "kernel \<Rightarrow> nat list \<Rightarrow> nat list \<Rightarrow> nat list \<Rightarrow> bool" where
  "lists_ok k rs es ds \<longleftrightarrow>
     ready_ok k rs \<and> sleep_ok k es \<and> dead_ok k ds \<and> distinct (rs @ es @ ds) \<and>
     (\<forall>i\<in>set (rs @ es @ ds). i < PROCESS_TABLE_SIZE \<and> pid (proc k i) = int i)"

text \<open>
  The fields that list operations do not touch. Everything but \<open>state\<close>, \<open>suiv\<close> and
  \<open>time_to_wake\<close> of every process, and every global variable but the lists.
\<close>

definition erase :: "process \<Rightarrow> process" where
  "erase p = p\<lparr>state := ELU, suiv := None, time_to_wake := 0\<rparr>"

definition same_static :: "kernel \<Rightarrow> kernel \<Rightarrow> bool" where
  "same_static k k' \<longleftrightarrow>
     (\<forall>i. erase (proc k i) = erase (proc k' i)) \<and> actif k' = actif k \<and> nb_tick k' = nb_tick k \<and>
     process_alive k' = process_alive k \<and> cpu_regs k' = cpu_regs k \<and> exit_param k' = exit_param k"

lemma erase_eqD:
  assumes "erase p = erase q"
  shows "pid p = pid q" "name p = name q" "regs p = regs q" "prio p = prio q"
    "premier_fils p = premier_fils q" "dernier_fils p = dernier_fils q" "pere p = pere q"
    "frere_droit p = frere_droit q" "retval p = retval q" "retval_fils p = retval_fils q"
  using assms by (cases p; cases q; simp add: erase_def)+

lemma erase_upd [simp]:
  "erase (p\<lparr>state := x\<rparr>) = erase p" "erase (p\<lparr>suiv := y\<rparr>) = erase p"
  "erase (p\<lparr>time_to_wake := z\<rparr>) = erase p"
  by (simp_all add: erase_def)

lemma same_static_refl [simp]: "same_static k k"
  by (simp add: same_static_def)

lemma same_static_trans: "same_static k k1 \<Longrightarrow> same_static k1 k2 \<Longrightarrow> same_static k k2"
  by (simp add: same_static_def)

lemma same_staticD:
  assumes "same_static k k'"
  shows "pid (proc k' i) = pid (proc k i)" "prio (proc k' i) = prio (proc k i)"
    "premier_fils (proc k' i) = premier_fils (proc k i)" "pere (proc k' i) = pere (proc k i)"
    "frere_droit (proc k' i) = frere_droit (proc k i)" "regs (proc k' i) = regs (proc k i)"
    "retval (proc k' i) = retval (proc k i)" "retval_fils (proc k' i) = retval_fils (proc k i)"
    "actif k' = actif k" "nb_tick k' = nb_tick k" "process_alive k' = process_alive k"
    "cpu_regs k' = cpu_regs k" "exit_param k' = exit_param k"
    "dernier_fils (proc k' i) = dernier_fils (proc k i)"
proof -
  have "erase (proc k' i) = erase (proc k i)" using assms by (simp add: same_static_def)
  from erase_eqD [OF this] show "pid (proc k' i) = pid (proc k i)" "prio (proc k' i) = prio (proc k i)"
    "premier_fils (proc k' i) = premier_fils (proc k i)" "pere (proc k' i) = pere (proc k i)"
    "frere_droit (proc k' i) = frere_droit (proc k i)" "regs (proc k' i) = regs (proc k i)"
    "retval (proc k' i) = retval (proc k i)" "retval_fils (proc k' i) = retval_fils (proc k i)"
    "dernier_fils (proc k' i) = dernier_fils (proc k i)"
    by simp_all
qed (use assms in \<open>simp_all add: same_static_def\<close>)

lemma same_static_prios: "same_static k k' \<Longrightarrow> prios k' = prios k"
  by (simp add: prios_def fun_eq_iff same_staticD)

text \<open>A list is untouched when its head, its tail and its own processes are.\<close>

definition same_links :: "nat set \<Rightarrow> kernel \<Rightarrow> kernel \<Rightarrow> bool" where
  "same_links A k k' \<longleftrightarrow>
     (\<forall>i\<in>A. suiv (proc k' i) = suiv (proc k i) \<and> state (proc k' i) = state (proc k i) \<and>
            time_to_wake (proc k' i) = time_to_wake (proc k i))"

lemma sleep_ok_cong:
  assumes "same_links (set es) k k'" and "endormi_list k' = endormi_list k"
    and "endormi_tail k' = endormi_tail k"
  shows "sleep_ok k' es = sleep_ok k es"
proof -
  have "lpath (\<lambda>i. suiv (proc k' i)) p es = lpath (\<lambda>i. suiv (proc k i)) p es" for p
    using assms(1) by (intro lpath_cong) (simp add: same_links_def)
  moreover have m: "map (\<lambda>i. time_to_wake (proc k' i)) es = map (\<lambda>i. time_to_wake (proc k i)) es"
    using assms(1) by (simp add: same_links_def)
  ultimately show ?thesis using assms(1) unfolding sleep_ok_def same_links_def m
    by (simp add: assms(2,3))
qed

lemma dead_ok_cong:
  assumes "same_links (set ds) k k'" and "dead_list k' = dead_list k" and "dead_tail k' = dead_tail k"
  shows "dead_ok k' ds = dead_ok k ds"
proof -
  have "lpath (\<lambda>i. suiv (proc k' i)) p ds = lpath (\<lambda>i. suiv (proc k i)) p ds" for p
    using assms(1) by (intro lpath_cong) (simp add: same_links_def)
  then show ?thesis using assms unfolding dead_ok_def same_links_def by auto
qed

lemma ready_ok_cong:
  assumes "\<And>i. i \<in> set rs \<Longrightarrow> state (proc k' i) = state (proc k i) \<and> prio (proc k' i) = prio (proc k i)"
    and "head_queue k' = head_queue k"
  shows "ready_ok k' rs = ready_ok k rs"
  using assms sorted_prio_cong [of rs "prios k'" "prios k"]
  unfolding ready_ok_def by (auto simp: prios_def)

subsection \<open>The list of the dead processes\<close>

lemma insert_mort_ok:
  assumes "dead_ok k ds" and "e \<notin> set ds"
  shows "\<exists>k'. insert_mort e k = ret k' \<and> dead_ok k' (ds @ [e]) \<and> same_static k k' \<and>
    same_links (- set (e # ds)) k k' \<and> head_queue k' = head_queue k \<and>
    endormi_list k' = endormi_list k \<and> endormi_tail k' = endormi_tail k \<and>
    (\<forall>i\<in>set ds. state (proc k' i) = state (proc k i))"
proof (cases "ds = []")
  case True
  let ?k = "(upd e (\<lambda>p. p\<lparr>suiv := None\<rparr>)
    ((upd e (\<lambda>p. p\<lparr>state := MORT\<rparr>) k)\<lparr>dead_list := Some e, dead_tail := Some e\<rparr>))"
  have "insert_mort e k = ret ?k"
    using assms True by (simp add: insert_mort_def dead_ok_def Let_def)
  moreover have "dead_ok ?k (ds @ [e])" using True by (simp add: dead_ok_def)
  ultimately show ?thesis by (simp add: True same_static_def same_links_def upd_def)
next
  case False
  let ?t = "last ds"
  let ?k1 = "upd ?t (\<lambda>p. p\<lparr>suiv := Some e\<rparr>) (upd e (\<lambda>p. p\<lparr>state := MORT\<rparr>) k)"
  let ?k = "upd e (\<lambda>p. p\<lparr>suiv := None\<rparr>) (?k1\<lparr>dead_tail := Some e\<rparr>)"
  have te: "?t \<noteq> e" using assms(2) False by auto
  have path: "lpath (\<lambda>i. suiv (proc k i)) (dead_list k) ds" and tl: "dead_tail k = Some ?t"
    and hd: "dead_list k \<noteq> None" and d: "distinct ds"
    using assms(1) False lpath_distinct lpath_hd [of "\<lambda>i. suiv (proc k i)" "dead_list k" ds]
    by (auto simp: dead_ok_def last_opt_def)
  have "insert_mort e k = ret ?k"
    using tl hd te by (auto simp: insert_mort_def Let_def)
  moreover have "dead_ok ?k (ds @ [e])"
  proof -
    have "lpath ((\<lambda>i. suiv (proc k i))(?t := Some e, e := hd_opt [])) (dead_list k) (ds @ e # [])"
      using path False d assms(2) by (intro lpath_insert) auto
    moreover have "(\<lambda>i. suiv (proc ?k i)) = (\<lambda>i. suiv (proc k i))(?t := Some e, e := hd_opt [])"
      using te by (auto simp: fun_eq_iff)
    ultimately have "lpath (\<lambda>i. suiv (proc ?k i)) (dead_list ?k) (ds @ [e])" by simp
    then show ?thesis using assms(1) te by (auto simp: dead_ok_def)
  qed
  moreover have "same_static k ?k" by (simp add: same_static_def upd_def)
  moreover have "same_links (- set (e # ds)) k ?k" using False by (auto simp: same_links_def upd_def)
  moreover have "\<forall>i\<in>set ds. state (proc ?k i) = state (proc k i)" using assms(2) by (auto simp: upd_def)
  ultimately show ?thesis by simp
qed

lemma extract_mort_ok:
  assumes "dead_ok k (d # ds)"
  shows "\<exists>k'. extract_mort k = (Some d, k') \<and> dead_ok k' ds \<and> process_tab k' = process_tab k \<and>
    head_queue k' = head_queue k \<and> endormi_list k' = endormi_list k \<and>
    endormi_tail k' = endormi_tail k \<and> actif k' = actif k \<and> process_alive k' = process_alive k \<and>
    nb_tick k' = nb_tick k \<and> cpu_regs k' = cpu_regs k"
proof (cases "ds = []")
  case True
  then show ?thesis using assms by (simp add: extract_mort_def dead_ok_def)
next
  case False
  have "distinct (d # ds)" using assms unfolding dead_ok_def by (blast intro: lpath_distinct)
  then have "d \<noteq> last ds" using False by auto
  then show ?thesis
    using assms False by (simp add: extract_mort_def dead_ok_def last_opt_def)
qed

lemma extract_mort_none: "dead_ok k [] \<Longrightarrow> extract_mort k = (None, k)"
  by (simp add: extract_mort_def dead_ok_def)

subsection \<open>The queue of the activable processes\<close>

text \<open>
  The two operations change the queue and the process they move, and nothing else:
  the new state is written out.
\<close>

abbreviation set_activable :: "process \<Rightarrow> process" where
  "set_activable p \<equiv> p\<lparr>state := ACTIVABLE, suiv := None\<rparr>"

lemma prios_upd_state: "prios (upd e set_activable k) = prios k"
  by (auto simp: prios_def fun_eq_iff)

lemma insert_activable_ok:
  assumes "ready_ok k rs" and "e \<notin> set rs"
  shows "\<exists>q. insert_activable e k = ret ((upd e set_activable k)\<lparr>head_queue := q\<rparr>) \<and>
    ready_ok ((upd e set_activable k)\<lparr>head_queue := q\<rparr>) (pq_insert (prios k) e rs)"
proof -
  let ?k = "upd e set_activable k"
  have two: "upd e (\<lambda>p. p\<lparr>suiv := None\<rparr>) (upd e (\<lambda>p. p\<lparr>state := ACTIVABLE\<rparr>) k) = ?k"
    by (simp add: upd_def)
  obtain q where q: "queue_add (prios k) e (head_queue k) = ret q"
    "queue_rep q (pq_insert (prios k) e rs)"
    using assms pq.rep_add unfolding ready_ok_def by blast
  have "insert_activable e k = ret (?k\<lparr>head_queue := q\<rparr>)"
    using q(1) by (simp add: insert_activable_def two Let_def prios_upd_state)
  moreover have "prios (?k\<lparr>head_queue := q\<rparr>) = prios k"
    by (auto simp: prios_def fun_eq_iff)
  then have "ready_ok (?k\<lparr>head_queue := q\<rparr>) (pq_insert (prios k) e rs)"
    using assms q(2) by (auto simp: ready_ok_def sorted_pq_insert)
  ultimately show ?thesis by blast
qed

lemma insert_activable_busy:
  assumes "ready_ok k rs" and "e \<in> set rs"
  shows "insert_activable e k = err Panic"
  using assms queue_add_busy [of "head_queue k" rs e]
  by (simp add: insert_activable_def ready_ok_def Let_def)

lemma extract_activable_ok:
  assumes "ready_ok k (rs @ [e])"
  shows "\<exists>q. extract_activable k =
      ret (Some e, upd e (\<lambda>p. p\<lparr>suiv := None\<rparr>) (k\<lparr>head_queue := q\<rparr>)) \<and>
    ready_ok (upd e (\<lambda>p. p\<lparr>suiv := None\<rparr>) (k\<lparr>head_queue := q\<rparr>)) rs"
proof -
  have rep: "queue_rep (head_queue k) (rs @ [e])" using assms by (simp add: ready_ok_def)
  obtain q where q: "queue_out (head_queue k) = ret (Some e, q)" "queue_rep q rs"
    using pq.rep_out [OF rep] by blast
  let ?k = "upd e (\<lambda>p. p\<lparr>suiv := None\<rparr>) (k\<lparr>head_queue := q\<rparr>)"
  have "extract_activable k = ret (Some e, ?k)"
    using q(1) queue_empty_rep [OF rep] by (simp add: extract_activable_def)
  moreover have "prios ?k = prios k" by (auto simp: prios_def fun_eq_iff)
  then have "ready_ok ?k rs"
    using assms q(2) sorted_prio_butlast [of "prios k" "rs @ [e]"] by (auto simp: ready_ok_def)
  ultimately show ?thesis by blast
qed

lemma extract_activable_none:
  "ready_ok k [] \<Longrightarrow> extract_activable k = ret (None, k)"
  using queue_empty_rep [of "head_queue k" "[]"] by (simp add: extract_activable_def ready_ok_def)

subsection \<open>The list of the sleeping processes\<close>

text \<open>A sleeper goes behind those that wake up no later than itself.\<close>

definition sl_insert :: "(nat \<Rightarrow> real) \<Rightarrow> nat \<Rightarrow> nat list \<Rightarrow> nat list" where
  "sl_insert tm e es = takeWhile (\<lambda>x. tm x \<le> tm e) es @ e # dropWhile (\<lambda>x. tm x \<le> tm e) es"

lemma set_sl_insert [simp]: "set (sl_insert tm e es) = insert e (set es)"
  by (metis (no_types, lifting) Un_insert_right list.simps(15) set_append sl_insert_def takeWhile_dropWhile_id)

lemma mset_sl_insert: "mset (sl_insert tm e es) = add_mset e (mset es)"
  by (metis mset_append sl_insert_def takeWhile_dropWhile_id union_mset_add_mset_right mset.simps(2))

lemma distinct_sl_insert [simp]: "distinct (sl_insert tm e es) \<longleftrightarrow> e \<notin> set es \<and> distinct es"
  by (metis distinct.simps(2) mset.simps(2) mset_eq_imp_distinct_iff mset_sl_insert)

lemma sorted_sl_insert:
  assumes "sorted (map tm es)"
  shows "sorted (map tm (sl_insert tm e es))"
  using assms
proof (induction es)
  case Nil
  then show ?case by (simp add: sl_insert_def)
next
  case (Cons x es)
  then show ?case
    by (cases "tm x \<le> tm e") (auto simp: sl_insert_def dest: set_takeWhileD set_dropWhileD)
qed

lemma extract_endormi_ok:
  assumes "sleep_ok k (e # es)"
  shows "\<exists>k'. extract_endormi k = ret (e, k') \<and> sleep_ok k' es \<and>
    k' = upd e (\<lambda>p. p\<lparr>suiv := None\<rparr>) (k\<lparr>endormi_list := hd_opt es, endormi_tail := last_opt es\<rparr>)"
proof -
  let ?k = "upd e (\<lambda>p. p\<lparr>suiv := None\<rparr>) (k\<lparr>endormi_list := hd_opt es, endormi_tail := last_opt es\<rparr>)"
  have path: "lpath (\<lambda>i. suiv (proc k i)) (Some e) (e # es)"
    and hd: "endormi_list k = Some e" and tl: "endormi_tail k = last_opt (e # es)"
    using assms by (auto simp: sleep_ok_def)
  have d: "e \<notin> set es" using lpath_distinct [OF path] by simp
  have nxt: "suiv (proc k e) = hd_opt es" using path lpath_hd by auto
  have "extract_endormi k = ret (e, ?k)"
  proof (cases "es = []")
    case True
    then show ?thesis using hd tl by (simp add: extract_endormi_def)
  next
    case False
    then have "e \<noteq> last es" using d by auto
    then have "endormi_tail k \<noteq> Some e" using tl False by (simp add: last_opt_def)
    moreover have "endormi_tail k = last_opt es" using tl False by simp
    then have "k\<lparr>endormi_list := hd_opt es\<rparr> = k\<lparr>endormi_list := hd_opt es, endormi_tail := last_opt es\<rparr>"
      by simp
    ultimately show ?thesis using hd nxt by (simp add: extract_endormi_def)
  qed
  note ext = this
  have "lpath (\<lambda>i. suiv (proc ?k i)) (hd_opt es) es = lpath (\<lambda>i. suiv (proc k i)) (hd_opt es) es"
    using d by (intro lpath_cong) auto
  moreover have tm: "(\<lambda>i. time_to_wake (proc ?k i)) = (\<lambda>i. time_to_wake (proc k i))" by auto
  ultimately have "sleep_ok ?k es"
    using assms d path nxt unfolding sleep_ok_def tm by simp
  with ext show ?thesis by blast
qed

abbreviation wake :: "kernel \<Rightarrow> nat \<Rightarrow> real" where
  "wake k i \<equiv> time_to_wake (proc k i)"

lemma insert_endormi_loop_tail:
  assumes "lpath (\<lambda>i. suiv (proc k i)) tmp bs" and "suiv (proc k q) = tmp"
  shows "insert_endormi_loop e tmp (Some q) False k =
    (case dropWhile (\<lambda>x. wake k x \<le> wake k e) bs of
       [] \<Rightarrow> ret (False, k)
     | d # _ \<Rightarrow> ret (True, upd e (\<lambda>p. p\<lparr>suiv := Some d\<rparr>)
         (upd (last (q # takeWhile (\<lambda>x. wake k x \<le> wake k e) bs)) (\<lambda>p. p\<lparr>suiv := Some e\<rparr>) k)))"
  using assms
proof (induction bs arbitrary: tmp q)
  case Nil
  then show ?case by (subst insert_endormi_loop.simps) simp
next
  case (Cons b bs)
  show ?case
  proof (cases "wake k b \<le> wake k e")
    case True
    have "insert_endormi_loop e tmp (Some q) False k =
        insert_endormi_loop e (suiv (proc k b)) (Some b) False k"
      using Cons.prems True by (subst insert_endormi_loop.simps) simp
    also have "\<dots> = (case dropWhile (\<lambda>x. wake k x \<le> wake k e) bs of
       [] \<Rightarrow> ret (False, k)
     | d # _ \<Rightarrow> ret (True, upd e (\<lambda>p. p\<lparr>suiv := Some d\<rparr>)
         (upd (last (b # takeWhile (\<lambda>x. wake k x \<le> wake k e) bs)) (\<lambda>p. p\<lparr>suiv := Some e\<rparr>) k)))"
      by (rule Cons.IH) (use Cons.prems in auto)
    also have "last (b # takeWhile (\<lambda>x. wake k x \<le> wake k e) bs) =
        last (q # takeWhile (\<lambda>x. wake k x \<le> wake k e) (b # bs))"
      using True by simp
    finally show ?thesis using True by (simp del: last.simps)
  next
    case False
    then show ?thesis using Cons.prems by (subst insert_endormi_loop.simps) simp
  qed
qed

lemma insert_endormi_loop_ok:
  assumes "lpath (\<lambda>i. suiv (proc k i)) tmp (b # bs)"
  shows "insert_endormi_loop e tmp tmp True k =
    (if wake k e < wake k b then ret (True, upd e (\<lambda>p. p\<lparr>suiv := Some b\<rparr>) (k\<lparr>endormi_list := Some e\<rparr>))
     else (case dropWhile (\<lambda>x. wake k x \<le> wake k e) bs of
       [] \<Rightarrow> ret (False, k)
     | d # _ \<Rightarrow> ret (True, upd e (\<lambda>p. p\<lparr>suiv := Some d\<rparr>)
         (upd (last (b # takeWhile (\<lambda>x. wake k x \<le> wake k e) bs)) (\<lambda>p. p\<lparr>suiv := Some e\<rparr>) k))))"
proof (cases "wake k e < wake k b")
  case True
  then show ?thesis using assms by (subst insert_endormi_loop.simps) simp
next
  case False
  have "insert_endormi_loop e tmp tmp True k = insert_endormi_loop e (suiv (proc k b)) (Some b) False k"
    using assms False by (subst insert_endormi_loop.simps) simp
  then show ?thesis using assms False by (simp add: insert_endormi_loop_tail del: last.simps)
qed

abbreviation sleeper :: "real \<Rightarrow> process \<Rightarrow> process" where
  "sleeper t p \<equiv> p\<lparr>time_to_wake := t, state := ENDORMI\<rparr>"

text \<open>The three ways a non-empty list is extended: in front, in the middle and at the end.\<close>

definition endormi_linked :: "nat \<Rightarrow> nat list \<Rightarrow> nat list \<Rightarrow> kernel \<Rightarrow> kernel" where
  "endormi_linked e as bs k =
     (if as = [] then upd e (\<lambda>p. p\<lparr>suiv := hd_opt bs\<rparr>) (k\<lparr>endormi_list := Some e\<rparr>)
      else upd e (\<lambda>p. p\<lparr>suiv := hd_opt bs\<rparr>) (upd (last as) (\<lambda>p. p\<lparr>suiv := Some e\<rparr>) k))
     \<lparr>endormi_tail := last_opt (as @ e # bs)\<rparr>"

lemma upd_list_commute: "(upd e f k)\<lparr>endormi_list := x\<rparr> = upd e f (k\<lparr>endormi_list := x\<rparr>)"
  by (simp add: upd_def)

lemma upd_tail_commute: "(upd e f k)\<lparr>endormi_tail := x\<rparr> = upd e f (k\<lparr>endormi_tail := x\<rparr>)"
  by (simp add: upd_def)

lemma endormi_linked_simps [simp]:
  "head_queue (endormi_linked e as bs k) = head_queue k"
  "dead_list (endormi_linked e as bs k) = dead_list k"
  "dead_tail (endormi_linked e as bs k) = dead_tail k"
  "endormi_tail (endormi_linked e as bs k) = last_opt (as @ e # bs)"
  "actif (endormi_linked e as bs k) = actif k"
  "wake (endormi_linked e as bs k) i = wake k i"
  "state (proc (endormi_linked e as bs k) i) = state (proc k i)"
  by (simp_all add: endormi_linked_def)

lemma same_static_linked: "same_static k (endormi_linked e as bs k)"
  by (simp add: endormi_linked_def same_static_def upd_def)

lemma endormi_linked_path:
  assumes "lpath (\<lambda>i. suiv (proc k i)) (endormi_list k) (as @ bs)" and "e \<notin> set (as @ bs)"
  shows "lpath (\<lambda>i. suiv (proc (endormi_linked e as bs k) i))
    (endormi_list (endormi_linked e as bs k)) (as @ e # bs)"
proof (cases "as = []")
  case True
  have "lpath (\<lambda>i. suiv (proc (endormi_linked e as bs k) i)) (hd_opt bs) bs =
      lpath (\<lambda>i. suiv (proc k i)) (hd_opt bs) bs"
    using True assms(2) by (intro lpath_cong) (auto simp: endormi_linked_def)
  then show ?thesis
    using True assms lpath_appendD [of _ _ as bs] by (auto simp: endormi_linked_def)
next
  case False
  have d: "distinct (as @ bs)" using assms(1) by (rule lpath_distinct)
  have "(\<lambda>i. suiv (proc (endormi_linked e as bs k) i)) =
      (\<lambda>i. suiv (proc k i))(last as := Some e, e := hd_opt bs)"
    using False by (auto simp: endormi_linked_def fun_eq_iff)
  moreover have "endormi_list (endormi_linked e as bs k) = endormi_list k"
    using False by (simp add: endormi_linked_def)
  ultimately show ?thesis using lpath_insert [OF assms(1) False d assms(2)] by simp
qed

lemma insert_endormi_is_linked:
  assumes path: "lpath (\<lambda>i. suiv (proc k i)) (endormi_list k) es" and tl: "endormi_tail k = last_opt es"
    and e: "e \<notin> set es" and k2: "k2 = upd e (sleeper t) k"
  shows "insert_endormi e t k =
    ret (endormi_linked e (takeWhile (\<lambda>x. wake k2 x \<le> wake k2 e) es)
                          (dropWhile (\<lambda>x. wake k2 x \<le> wake k2 e) es) k2)"
proof -
  let ?P = "\<lambda>x. wake k2 x \<le> wake k2 e"
  have two: "upd e (\<lambda>p. p\<lparr>state := ENDORMI\<rparr>) (upd e (\<lambda>p. p\<lparr>time_to_wake := t\<rparr>) k) = k2"
    unfolding k2 by (simp add: upd_def)
  have fields: "endormi_list k2 = endormi_list k" "endormi_tail k2 = endormi_tail k"
    unfolding k2 by simp_all
  have path2: "lpath (\<lambda>i. suiv (proc k2 i)) (endormi_list k2) es"
    using path e unfolding k2 by (subst lpath_cong [of _ _ "\<lambda>i. suiv (proc k i)"]) auto
  show ?thesis
  proof (cases es)
    case Nil
    then show ?thesis
      using tl fields
      by (simp add: insert_endormi_def two Let_def endormi_linked_def upd_list_commute)
  next
    case (Cons b bs)
    have lastN: "suiv (proc k2 (last es)) = None" using path2 Cons by (intro lpath_last) auto
    have le: "last es \<noteq> e" using e Cons by auto
    note loop = insert_endormi_loop_ok [OF path2 [unfolded Cons], of e]
    show ?thesis
    proof (cases "dropWhile ?P es")
      case Nil
      then have all: "\<forall>x\<in>set es. ?P x" and tk: "takeWhile ?P es = es"
        by simp_all
      have "insert_endormi_loop e (endormi_list k2) (endormi_list k2) True k2 = ret (False, k2)"
        using loop all Cons by (auto simp: dropWhile_eq_Nil_conv [THEN iffD2, of bs])
      then show ?thesis
        using tl fields Cons Nil tk le
        by (simp add: insert_endormi_def two Let_def endormi_linked_def last_opt_def upd_tail_commute)
    next
      case (Cons d ds)
      have eq: "es = takeWhile ?P es @ d # ds" using Cons by (metis takeWhile_dropWhile_id)
      define k3 where "k3 = (if takeWhile ?P es = [] then upd e (\<lambda>p. p\<lparr>suiv := Some d\<rparr>) (k2\<lparr>endormi_list := Some e\<rparr>)
        else upd e (\<lambda>p. p\<lparr>suiv := Some d\<rparr>) (upd (last (takeWhile ?P es)) (\<lambda>p. p\<lparr>suiv := Some e\<rparr>) k2))"
      have run: "insert_endormi_loop e (endormi_list k2) (endormi_list k2) True k2 = ret (True, k3)"
        using loop Cons \<open>es = b # bs\<close> by (auto split: if_splits simp: not_le k3_def)
      have t2: "endormi_tail k2 = Some (last es)"
        using tl fields \<open>es = b # bs\<close> by (simp add: last_opt_def)
      then have t3: "endormi_tail k3 = Some (last es)" by (simp add: k3_def)
      have "last es \<notin> set (takeWhile ?P es)"
        using lpath_distinct [OF path2] eq by (metis disjoint_iff distinct_append last_appendR last_in_set list.distinct(1))
      then have "takeWhile ?P es \<noteq> [] \<Longrightarrow> last es \<noteq> last (takeWhile ?P es)" by (metis last_in_set)
      then have "suiv (proc k3 (last es)) = None" using lastN le by (auto simp: k3_def)
      then have same: "upd (last es) (\<lambda>p. p\<lparr>suiv := None\<rparr>) k3 = k3" by (simp add: upd_def fun_upd_idem)
      have "insert_endormi e t k = ret k3"
        using run same t2 t3 fields by (simp add: insert_endormi_def two Let_def)
      moreover have "last_opt (takeWhile ?P es @ e # d # ds) = endormi_tail k3"
        unfolding t3 last_opt_def by (subst eq) simp
      ultimately show ?thesis by (simp add: endormi_linked_def Cons k3_def)
    qed
  qed
qed

lemma insert_endormi_ok:
  assumes "sleep_ok k es" and "e \<notin> set es"
  shows "\<exists>k'. insert_endormi e t k = ret k' \<and>
    sleep_ok k' (sl_insert ((wake k)(e := t)) e es) \<and> same_static k k' \<and>
    same_links (- set (e # es)) k k' \<and> head_queue k' = head_queue k \<and>
    dead_list k' = dead_list k \<and> dead_tail k' = dead_tail k \<and>
    (\<forall>i. i \<noteq> e \<longrightarrow> state (proc k' i) = state (proc k i)) \<and> state (proc k' e) = ENDORMI"
proof -
  define k2 where "k2 = upd e (sleeper t) k"
  let ?P = "\<lambda>x. wake k2 x \<le> wake k2 e"
  let ?k = "endormi_linked e (takeWhile ?P es) (dropWhile ?P es) k2"
  have wk: "wake k2 = (wake k)(e := t)" by (auto simp: k2_def)
  have path: "lpath (\<lambda>i. suiv (proc k i)) (endormi_list k) es" and tl: "endormi_tail k = last_opt es"
    and sorted: "sorted (map (wake k) es)" and st: "\<forall>i\<in>set es. state (proc k i) = ENDORMI"
    using assms(1) by (simp_all add: sleep_ok_def)
  have "insert_endormi e t k = ret ?k"
    by (rule insert_endormi_is_linked [OF path tl assms(2) k2_def])
  moreover have "sleep_ok ?k (sl_insert (wake k2) e es)"
    unfolding sleep_ok_def
  proof (intro conjI)
    have "lpath (\<lambda>i. suiv (proc k2 i)) (endormi_list k2) (takeWhile ?P es @ dropWhile ?P es)"
      using path assms(2) unfolding k2_def
      by (simp, subst lpath_cong [of _ _ "\<lambda>i. suiv (proc k i)"]) auto
    then show "lpath (\<lambda>i. suiv (proc ?k i)) (endormi_list ?k) (sl_insert (wake k2) e es)"
      unfolding sl_insert_def by (rule endormi_linked_path) (simp add: assms(2))
    show "endormi_tail ?k = last_opt (sl_insert (wake k2) e es)" by (simp add: sl_insert_def)
    have "map (wake k2) es = map (wake k) es" using assms(2) by (auto simp: wk)
    then have "sorted (map (wake k2) es)" using sorted by (simp only:)
    then show "sorted (map (wake ?k) (sl_insert (wake k2) e es))" by (simp add: sorted_sl_insert)
    show "\<forall>i\<in>set (sl_insert (wake k2) e es). state (proc ?k i) = ENDORMI"
      using st by (auto simp: k2_def)
  qed
  moreover have "same_static k ?k"
    by (rule same_static_trans [OF _ same_static_linked]) (simp add: k2_def same_static_def upd_def erase_def)
  moreover have "same_links (- set (e # es)) k ?k"
  proof -
    have "takeWhile ?P es \<noteq> [] \<Longrightarrow> last (takeWhile ?P es) \<in> set es"
      by (meson last_in_set set_takeWhileD)
    then show ?thesis by (auto simp: same_links_def endormi_linked_def k2_def)
  qed
  moreover have "\<forall>i. i \<noteq> e \<longrightarrow> state (proc ?k i) = state (proc k i)" "state (proc ?k e) = ENDORMI"
    by (simp_all add: k2_def)
  moreover have "head_queue ?k = head_queue k" "dead_list ?k = dead_list k" "dead_tail ?k = dead_tail k"
    by (simp_all add: k2_def)
  ultimately show ?thesis unfolding wk by blast
qed

end
