(* ===== verification/Scheduler.thy ===== *)
theory Scheduler
  imports Proc_Lists
begin

text \<open>
  The scheduler of proc.c on well-formed lists: which process \<open>ordonnance\<close> elects, what it does
  to the lists, and what a context switch saves and loads. The abstract scheduler \<open>schedule\<close> is
  a function on lists of process numbers; the pointer code refines it.
\<close>

subsection \<open>Well-formed kernels\<close>

text \<open>
  \<open>lists_ok\<close> keeps its meaning when only fields outside of the lists change.
\<close>

lemma lists_okD:
  assumes "lists_ok k rs es ds"
  shows "ready_ok k rs" "sleep_ok k es" "dead_ok k ds" "distinct rs" "distinct es" "distinct ds"
    "set rs \<inter> set es = {}" "set rs \<inter> set ds = {}" "set es \<inter> set ds = {}"
    "i \<in> set rs \<union> set es \<union> set ds \<Longrightarrow> i < PROCESS_TABLE_SIZE"
    "i \<in> set rs \<union> set es \<union> set ds \<Longrightarrow> pid (proc k i) = int i"
  using assms by (auto simp: lists_ok_def)

definition running :: "kernel \<Rightarrow> nat \<Rightarrow> bool" where
  "running k a \<longleftrightarrow> actif k = Some a \<and> a < PROCESS_TABLE_SIZE \<and> pid (proc k a) = int a"

definition kinv :: "kernel \<Rightarrow> nat \<Rightarrow> nat list \<Rightarrow> nat list \<Rightarrow> nat list \<Rightarrow> bool" where
  "kinv k a rs es ds \<longleftrightarrow>
     lists_ok k rs es ds \<and> running k a \<and> a \<notin> set (rs @ es @ ds) \<and> state (proc k a) \<noteq> ENDORMI"

lemma table_index_pid: "a < PROCESS_TABLE_SIZE \<Longrightarrow> table_index (int a) = ret a"
  by (simp add: table_index_def PROCESS_TABLE_SIZE_def unsigned_of_nat take_bit_nat_eq_self)

subsection \<open>Waking\<close>

definition due :: "kernel \<Rightarrow> nat list \<Rightarrow> bool" where
  "due k es \<longleftrightarrow> es \<noteq> [] \<and> wake k (hd es) \<le> real (unat (nb_tick k))"

lemma wake_process_not_due:
  assumes "sleep_ok k es" and "\<not> due k es"
  shows "wake_process k = ret k"
proof -
  have "endormi_list k = hd_opt es"
    using assms(1) lpath_hd unfolding sleep_ok_def by blast
  then show ?thesis
    using assms(2) unfolding wake_process_def
    by (subst wake_process_loop.simps) (cases es; auto simp: due_def current_clock_def)
qed

text \<open>
  When the first sleeper is due, it is moved to the queue, and it is the only one: the loop
  goes on from its \<open>suiv\<close>, which the move has set to NULL.
\<close>

lemma wake_process_due:
  assumes "sleep_ok k (e # es)" and "ready_ok k rs" and "e \<notin> set rs" and "due k (e # es)"
  shows "\<exists>k'. wake_process k = ret k' \<and> ready_ok k' (pq_insert (prios k) e rs) \<and>
    sleep_ok k' es \<and> same_static k k' \<and> same_links (- {e}) k k' \<and>
    dead_list k' = dead_list k \<and> dead_tail k' = dead_tail k \<and> state (proc k' e) = ACTIVABLE"
proof -
  obtain k1 where k1: "extract_endormi k = ret (e, k1)" "sleep_ok k1 es"
    "k1 = upd e (\<lambda>p. p\<lparr>suiv := None\<rparr>) (k\<lparr>endormi_list := hd_opt es, endormi_tail := last_opt es\<rparr>)"
    using extract_endormi_ok [OF assms(1)] by blast
  have pr: "prios k1 = prios k" by (auto simp: prios_def fun_eq_iff k1(3))
  have "ready_ok k1 rs"
    using assms(2,3) by (subst ready_ok_cong [of _ _ k]) (auto simp: k1(3))
  then obtain q where q: "insert_activable e k1 = ret ((upd e set_activable k1)\<lparr>head_queue := q\<rparr>)"
    "ready_ok ((upd e set_activable k1)\<lparr>head_queue := q\<rparr>) (pq_insert (prios k) e rs)"
    using insert_activable_ok [of k1 rs e] assms(3) pr by metis
  let ?k = "(upd e set_activable k1)\<lparr>head_queue := q\<rparr>"
  have path: "lpath (\<lambda>i. suiv (proc k i)) (endormi_list k) (e # es)" and tl: "endormi_tail k \<noteq> None"
    using assms(1) by (simp_all add: sleep_ok_def)
  have de: "e \<notin> set es" using lpath_distinct [OF path] by simp
  have last: "wake_process_loop None ?k = ret ?k" by (subst wake_process_loop.simps) simp
  have "wake_process k = ret ?k"
    unfolding wake_process_def
    using path tl assms(4) k1(1) q(1) last
    by (subst wake_process_loop.simps) (simp add: due_def current_clock_def)
  moreover have "sleep_ok ?k es"
    using k1(2) de by (subst sleep_ok_cong [of _ k1]) (auto simp: same_links_def)
  moreover have "same_static k ?k"
    by (auto simp: same_static_def k1(3) erase_def)
  moreover have "same_links (- {e}) k ?k"
    by (auto simp: same_links_def k1(3))
  ultimately show ?thesis using q(2) by (simp add: k1(3))
qed

definition woken_rs :: "kernel \<Rightarrow> nat list \<Rightarrow> nat list \<Rightarrow> nat list" where
  "woken_rs k rs es = (if due k es then pq_insert (prios k) (hd es) rs else rs)"

definition woken_es :: "kernel \<Rightarrow> nat list \<Rightarrow> nat list" where
  "woken_es k es = (if due k es then tl es else es)"

lemma set_woken: "set (woken_rs k rs es) \<union> set (woken_es k es) = set rs \<union> set es"
  by (cases es) (auto simp: woken_rs_def woken_es_def due_def)

lemma wake_process_ok:
  assumes "lists_ok k rs es ds"
  shows "\<exists>k'. wake_process k = ret k' \<and> lists_ok k' (woken_rs k rs es) (woken_es k es) ds \<and>
    same_static k k' \<and> same_links (- set es) k k' \<and>
    (due k es \<longrightarrow> state (proc k' (hd es)) = ACTIVABLE)"
proof (cases "due k es")
  case False
  then have "wake_process k = ret k" using lists_okD(2) [OF assms] by (rule wake_process_not_due [rotated])
  then show ?thesis using assms False by (simp add: woken_rs_def woken_es_def same_links_def)
next
  case True
  then obtain e es' where es: "es = e # es'" by (cases es) (auto simp: due_def)
  note ok = lists_okD [OF assms]
  obtain k' where k': "wake_process k = ret k'" "ready_ok k' (pq_insert (prios k) e rs)"
    "sleep_ok k' es'" "same_static k k'" "same_links (- {e}) k k'" "dead_list k' = dead_list k"
    "dead_tail k' = dead_tail k" "state (proc k' e) = ACTIVABLE"
    using wake_process_due [of k e es' rs] ok True es by auto
  have "dead_ok k' ds"
    using ok(3,9) k'(5,6,7) es by (subst dead_ok_cong [of _ k]) (auto simp: same_links_def)
  then have "lists_ok k' (pq_insert (prios k) e rs) es' ds"
    using assms k' es by (auto simp: lists_ok_def same_staticD)
  moreover have "same_links (- set es) k k'" using k'(5) es by (auto simp: same_links_def)
  ultimately show ?thesis using k' True es by (auto simp: woken_rs_def woken_es_def)
qed

subsection \<open>Context switches\<close>

text \<open>What a switch leaves alone: everything but the registers.\<close>

definition same_procs :: "kernel \<Rightarrow> kernel \<Rightarrow> bool" where
  "same_procs k k' \<longleftrightarrow>
     (\<forall>i. erase ((proc k i)\<lparr>regs := []\<rparr>) = erase ((proc k' i)\<lparr>regs := []\<rparr>)) \<and>
     nb_tick k' = nb_tick k \<and> process_alive k' = process_alive k \<and> exit_param k' = exit_param k"

lemma same_procs_refl [simp]: "same_procs k k"
  by (simp add: same_procs_def)

lemma same_procs_trans: "same_procs k k1 \<Longrightarrow> same_procs k1 k2 \<Longrightarrow> same_procs k k2"
  by (simp add: same_procs_def)

lemma erase_regs: "erase p = erase q \<Longrightarrow> erase (p\<lparr>regs := r\<rparr>) = erase (q\<lparr>regs := r\<rparr>)"
proof -
  have "erase (x\<lparr>regs := r\<rparr>) = (erase x)\<lparr>regs := r\<rparr>" for x by (simp add: erase_def)
  then show "erase p = erase q \<Longrightarrow> erase (p\<lparr>regs := r\<rparr>) = erase (q\<lparr>regs := r\<rparr>)" by simp
qed

lemma same_static_procs: "same_static k k' \<Longrightarrow> same_procs k k'"
  unfolding same_static_def same_procs_def by (blast intro: erase_regs)

lemma same_procsD:
  assumes "same_procs k k'"
  shows "pid (proc k' i) = pid (proc k i)" "prio (proc k' i) = prio (proc k i)"
    "premier_fils (proc k' i) = premier_fils (proc k i)" "pere (proc k' i) = pere (proc k i)"
    "frere_droit (proc k' i) = frere_droit (proc k i)" "retval (proc k' i) = retval (proc k i)"
    "retval_fils (proc k' i) = retval_fils (proc k i)" "nb_tick k' = nb_tick k"
    "process_alive k' = process_alive k" "exit_param k' = exit_param k"
proof -
  have "erase ((proc k' i)\<lparr>regs := []\<rparr>) = erase ((proc k i)\<lparr>regs := []\<rparr>)"
    using assms by (simp add: same_procs_def)
  from erase_eqD [OF this] show "pid (proc k' i) = pid (proc k i)" "prio (proc k' i) = prio (proc k i)"
    "premier_fils (proc k' i) = premier_fils (proc k i)" "pere (proc k' i) = pere (proc k i)"
    "frere_droit (proc k' i) = frere_droit (proc k i)" "retval (proc k' i) = retval (proc k i)"
    "retval_fils (proc k' i) = retval_fils (proc k i)"
    by simp_all
qed (use assms in \<open>simp_all add: same_procs_def\<close>)

lemma same_procs_prios: "same_procs k k' \<Longrightarrow> prios k' = prios k"
  by (simp add: prios_def fun_eq_iff same_procsD)

lemma ctx_sw_simps [simp]:
  "head_queue (ctx_sw a b k) = head_queue k" "endormi_list (ctx_sw a b k) = endormi_list k"
  "endormi_tail (ctx_sw a b k) = endormi_tail k" "dead_list (ctx_sw a b k) = dead_list k"
  "dead_tail (ctx_sw a b k) = dead_tail k" "actif (ctx_sw a b k) = actif k"
  "nb_tick (ctx_sw a b k) = nb_tick k" "process_alive (ctx_sw a b k) = process_alive k"
  "exit_param (ctx_sw a b k) = exit_param k"
  "state (proc (ctx_sw a b k) i) = state (proc k i)" "suiv (proc (ctx_sw a b k) i) = suiv (proc k i)"
  "wake (ctx_sw a b k) i = wake k i" "pid (proc (ctx_sw a b k) i) = pid (proc k i)"
  "prio (proc (ctx_sw a b k) i) = prio (proc k i)"
  by (simp_all add: ctx_sw_def Let_def)

lemma ctx_sw_regs:
  "regs (proc (ctx_sw a b k) a) = cpu_regs k"
  "i \<noteq> a \<Longrightarrow> regs (proc (ctx_sw a b k) i) = regs (proc k i)"
  "cpu_regs (ctx_sw a b k) = (if a = b then cpu_regs k else regs (proc k b))"
  by (simp_all add: ctx_sw_def Let_def)

lemma same_procs_ctx_sw: "same_procs k (ctx_sw a b k)"
  by (auto simp: same_procs_def ctx_sw_def Let_def erase_def)

lemma lists_ok_ctx_sw [simp]: "lists_ok (ctx_sw a b k) rs es ds = lists_ok k rs es ds"
proof -
  have "ready_ok (ctx_sw a b k) rs = ready_ok k rs" by (rule ready_ok_cong) simp_all
  moreover have "sleep_ok (ctx_sw a b k) es = sleep_ok k es"
    by (rule sleep_ok_cong) (simp_all add: same_links_def)
  moreover have "dead_ok (ctx_sw a b k) ds = dead_ok k ds"
    by (rule dead_ok_cong) (simp_all add: same_links_def)
  ultimately show ?thesis by (simp add: lists_ok_def)
qed

lemma lists_ok_actif [simp]: "lists_ok (k\<lparr>actif := x\<rparr>) rs es ds = lists_ok k rs es ds"
proof -
  have "ready_ok (k\<lparr>actif := x\<rparr>) rs = ready_ok k rs" by (rule ready_ok_cong) simp_all
  moreover have "sleep_ok (k\<lparr>actif := x\<rparr>) es = sleep_ok k es"
    by (rule sleep_ok_cong) (simp_all add: same_links_def)
  moreover have "dead_ok (k\<lparr>actif := x\<rparr>) ds = dead_ok k ds"
    by (rule dead_ok_cong) (simp_all add: same_links_def)
  ultimately show ?thesis by (simp add: lists_ok_def)
qed

subsection \<open>The election\<close>

text \<open>
  The abstract scheduler. \<open>blocked\<close> tells that the running process \<open>a\<close> has just gone to sleep.
  It keeps the processor when no process of at least its priority is ready; otherwise the last
  process of the queue is elected and \<open>a\<close>, unless it sleeps, goes back to the queue.
\<close>

definition schedule :: "(nat \<Rightarrow> u32) \<Rightarrow> bool \<Rightarrow> nat \<Rightarrow> nat list \<Rightarrow> nat \<times> nat list" where
  "schedule p blocked a rs =
     (if rs \<noteq> [] \<and> (p a \<le> p (last rs) \<or> blocked)
      then (last rs, if blocked then butlast rs else pq_insert p a (butlast rs))
      else (a, rs))"

lemma schedule_highest:
  assumes "sorted_prio p rs" and "schedule p False a rs = (b, rs')"
  shows "\<forall>r\<in>set rs'. p r \<le> p b" "p a \<le> p b" "sorted_prio p rs'"
proof -
  have le: "r \<in> set rs \<Longrightarrow> p r \<le> p (last rs)" for r by (rule sorted_prio_last [OF assms(1)])
  show "\<forall>r\<in>set rs'. p r \<le> p b"
  proof (cases "rs \<noteq> [] \<and> p a \<le> p (last rs)")
    case True
    then show ?thesis using assms(2) le by (auto simp: schedule_def dest!: in_set_butlastD)
  next
    case False
    then have "rs' = rs" "b = a" "rs \<noteq> [] \<longrightarrow> p (last rs) \<le> p a"
      using assms(2) by (auto simp: schedule_def split: if_splits)
    then show ?thesis using le by (cases "rs = []") (auto intro: order_trans)
  qed
  show "p a \<le> p b" "sorted_prio p rs'"
    using assms sorted_prio_butlast [OF assms(1)]
    by (auto simp: schedule_def sorted_pq_insert split: if_splits)
qed

lemma schedule_set:
  assumes "schedule p False a rs = (b, rs')" and "distinct (a # rs)"
  shows "distinct (b # rs')" "set (b # rs') = set (a # rs)"
  using assms by (cases rs rule: rev_cases; auto simp: schedule_def split: if_splits)+

text \<open>The election on the pointers, once \<open>wake_process\<close> has run.\<close>

lemma ordonnance_stay:
  assumes wake: "wake_process k0 = ret k" and rs: "ready_ok k rs" and run: "running k a"
    and stay: "rs = [] \<or> \<not> prio (proc k a) \<le> prio (proc k (last rs)) \<and> state (proc k a) \<noteq> ENDORMI"
  shows "ordonnance k0 = ret (ctx_sw a a k)"
proof -
  have rep: "queue_rep (head_queue k) rs" using rs by (simp add: ready_ok_def)
  have id: "k\<lparr>actif := Some a\<rparr> = k" using run by (simp add: running_def)
  show ?thesis
    using run stay queue_empty_rep [OF rep] pq.rep_top [OF rep]
    by (auto simp: ordonnance_def wake running_def Let_def table_index_pid id)
qed

lemma ordonnance_elect:
  assumes wake: "wake_process k0 = ret k" and ok: "ready_ok k (rs @ [b])" and run: "running k a"
    and b: "b < PROCESS_TABLE_SIZE" "pid (proc k b) = int b" "b \<noteq> a"
    and go: "prio (proc k a) \<le> prio (proc k b) \<or> state (proc k a) = ENDORMI"
    and k1: "extract_activable k = ret (Some b, k1)" "pid (proc k1 b) = int b"
      "state (proc k1 a) = state (proc k a)" "actif k1 = Some a"
    and k2: "(if state (proc k a) \<noteq> ENDORMI then insert_activable a k1 else ret k1) = ret k2"
  shows "ordonnance k0 = ret (ctx_sw a b (k2\<lparr>actif := Some b\<rparr>))"
proof -
  have rep: "queue_rep (head_queue k) (rs @ [b])" using ok by (simp add: ready_ok_def)
  show ?thesis
    using run go b k2 queue_empty_rep [OF rep] pq.rep_top [OF rep]
    by (auto simp: ordonnance_def wake running_def Let_def table_index_pid k1 split: if_splits)
qed

text \<open>
  The election on the pointers, once \<open>wake_process\<close> has run: the lists become those of the
  abstract scheduler, the elected process runs, and the registers were switched.
\<close>

lemma ordonnance_after_wake:
  assumes wake: "wake_process k0 = ret k" and ok: "lists_ok k rs es ds" and run: "running k a"
    and notin: "a \<notin> set rs" "a \<notin> set ds"
    and el: "schedule (prios k) (state (proc k a) = ENDORMI) a rs = (b, rs')"
  shows "\<exists>k'. ordonnance k0 = ret k' \<and> lists_ok k' rs' es ds \<and> running k' b \<and> same_procs k k' \<and>
    (b \<noteq> a \<longrightarrow> state (proc k' b) = ACTIVABLE) \<and> (b = a \<longrightarrow> state (proc k' a) = state (proc k a)) \<and>
    regs (proc k' a) = cpu_regs k \<and>
    cpu_regs k' = (if b = a then cpu_regs k else regs (proc k b))"
proof (cases "rs \<noteq> [] \<and> (prios k a \<le> prios k (last rs) \<or> state (proc k a) = ENDORMI)")
  case False
  then have b: "b = a" "rs' = rs" using el by (auto simp: schedule_def split: if_splits)
  have "ordonnance k0 = ret (ctx_sw a a k)"
    by (rule ordonnance_stay [OF wake lists_okD(1) [OF ok] run]) (use False in \<open>auto simp: prios_def\<close>)
  then show ?thesis using ok run b
    by (simp add: running_def same_procs_ctx_sw ctx_sw_regs)
next
  case True
  note oks = lists_okD [OF ok]
  let ?blocked = "state (proc k a) = ENDORMI" and ?rs = "butlast rs"
  have b: "b = last rs" and rs: "rs = ?rs @ [b]"
    and rs': "rs' = (if ?blocked then ?rs else pq_insert (prios k) a ?rs)"
    using True el by (auto simp: schedule_def split: if_splits)
  have bin: "b \<in> set rs" using True b by simp
  have ba: "b \<noteq> a" using bin notin(1) by auto
  have bp: "b < PROCESS_TABLE_SIZE" "pid (proc k b) = int b" using oks(10,11) bin by auto
  have st_b: "state (proc k b) = ACTIVABLE" using oks(1) bin by (simp add: ready_ok_def)
  have rdy: "ready_ok k (?rs @ [b])" using oks(1) rs by simp
  obtain q where q: "extract_activable k = ret (Some b, upd b (\<lambda>p. p\<lparr>suiv := None\<rparr>) (k\<lparr>head_queue := q\<rparr>))"
    "ready_ok (upd b (\<lambda>p. p\<lparr>suiv := None\<rparr>) (k\<lparr>head_queue := q\<rparr>)) ?rs"
    using extract_activable_ok [OF rdy] by blast
  define k1 where "k1 = upd b (\<lambda>p. p\<lparr>suiv := None\<rparr>) (k\<lparr>head_queue := q\<rparr>)"
  have pr1: "prios k1 = prios k" by (auto simp: prios_def fun_eq_iff k1_def)
  have a_rs: "a \<notin> set ?rs" using notin(1) by (auto dest: in_set_butlastD)
  obtain k2 where k2: "(if \<not> ?blocked then insert_activable a k1 else ret k1) = ret k2"
    "ready_ok k2 rs'" "same_static k k2" "same_links (- {a, b}) k k2"
    "endormi_list k2 = endormi_list k" "endormi_tail k2 = endormi_tail k"
    "dead_list k2 = dead_list k" "dead_tail k2 = dead_tail k"
    "state (proc k2 b) = ACTIVABLE" "?blocked \<longrightarrow> same_links {a} k k2"
  proof (cases ?blocked)
    case True
    have "same_static k k1" by (auto simp: k1_def same_static_def erase_def)
    moreover have "same_links (- {a, b}) k k1" "same_links {a} k k1"
      using ba by (auto simp: k1_def same_links_def)
    ultimately show ?thesis
      using that [of k1] True q(2) rs' st_b by (simp add: k1_def)
  next
    case False
    obtain q2 where q2: "insert_activable a k1 = ret ((upd a set_activable k1)\<lparr>head_queue := q2\<rparr>)"
      "ready_ok ((upd a set_activable k1)\<lparr>head_queue := q2\<rparr>) rs'"
      using insert_activable_ok [of k1 ?rs a] q(2) a_rs rs' False pr1 by (auto simp: k1_def)
    let ?k2 = "(upd a set_activable k1)\<lparr>head_queue := q2\<rparr>"
    have "same_static k ?k2" by (auto simp: k1_def same_static_def erase_def)
    moreover have "same_links (- {a, b}) k ?k2" by (auto simp: k1_def same_links_def)
    ultimately show ?thesis
      using that [of ?k2] False q2 st_b ba by (simp add: k1_def)
  qed
  have "ordonnance k0 = ret (ctx_sw a b (k2\<lparr>actif := Some b\<rparr>))"
  proof (rule ordonnance_elect [OF wake rdy run bp ba _ _ _ _ _ k2(1)])
    show "prio (proc k a) \<le> prio (proc k b) \<or> state (proc k a) = ENDORMI"
      using True b by (simp add: prios_def)
  qed (use q(1) bp run ba in \<open>simp_all add: k1_def running_def\<close>)
  moreover have "lists_ok k2 rs' es ds"
  proof -
    have "b \<notin> set es" "b \<notin> set ds" using bin oks(7,8) by auto
    moreover have "a \<notin> set es \<or> ?blocked" using oks(2) by (auto simp: sleep_ok_def)
    ultimately have "sleep_ok k2 es"
      using k2(4,5,6,10) oks(2) by (subst sleep_ok_cong [of _ k]) (auto simp: same_links_def)
    moreover have "dead_ok k2 ds"
      using k2(4,7,8) oks(3) notin(2) \<open>b \<notin> set ds\<close>
      by (subst dead_ok_cong [of _ k]) (auto simp: same_links_def)
    moreover have "distinct (rs' @ es @ ds)"
      using oks(4-9) notin(2) a_rs rs' \<open>a \<notin> set es \<or> ?blocked\<close>
      by (auto simp: distinct_butlast dest: in_set_butlastD)
    moreover have "\<forall>i\<in>set (rs' @ es @ ds). i < PROCESS_TABLE_SIZE \<and> pid (proc k2 i) = int i"
      using oks(10,11) run rs' same_staticD(1) [OF k2(3)]
      by (auto simp: running_def dest: in_set_butlastD split: if_splits)
    ultimately show ?thesis using k2(2) by (simp add: lists_ok_def)
  qed
  moreover have "same_procs k (ctx_sw a b (k2\<lparr>actif := Some b\<rparr>))"
    using same_static_procs [OF k2(3)] same_procs_ctx_sw [of "k2\<lparr>actif := Some b\<rparr>" a b]
    by (simp add: same_procs_def)
  ultimately show ?thesis
    using bp ba k2(9) same_staticD [OF k2(3)]
    by (simp add: running_def ctx_sw_regs)
qed

subsection \<open>The whole call\<close>

text \<open>
  A running process calls the scheduler: one due sleeper is woken, then the election takes
  place. The kernel is well formed again, for the process that was elected.
\<close>

lemma kinvD:
  assumes "kinv k a rs es ds"
  shows "lists_ok k rs es ds" "running k a" "a \<notin> set rs" "a \<notin> set es" "a \<notin> set ds"
    "state (proc k a) \<noteq> ENDORMI" "actif k = Some a" "a < PROCESS_TABLE_SIZE" "pid (proc k a) = int a"
    "ready_ok k rs" "sleep_ok k es" "dead_ok k ds"
  using assms by (auto simp: kinv_def running_def lists_ok_def)

lemma running_same_static: "same_static k k' \<Longrightarrow> running k a \<Longrightarrow> running k' a"
  by (simp add: running_def same_staticD)

lemma in_woken_rs: "i \<in> set (woken_rs k rs es) \<Longrightarrow> i \<in> set rs \<union> set es"
  using set_woken [of k rs es] by blast

lemma in_woken_es: "i \<in> set (woken_es k es) \<Longrightarrow> i \<in> set es"
  by (cases es) (auto simp: woken_es_def split: if_splits)

lemma ordonnance_running:
  assumes inv: "kinv k a rs es ds"
    and el: "schedule (prios k) False a (woken_rs k rs es) = (b, rs')"
  shows "\<exists>k'. ordonnance k = ret k' \<and> kinv k' b rs' (woken_es k es) ds \<and> same_procs k k' \<and>
    (b \<noteq> a \<longrightarrow> state (proc k' b) = ACTIVABLE) \<and> (b = a \<longrightarrow> state (proc k' a) = state (proc k a)) \<and>
    regs (proc k' a) = cpu_regs k \<and> cpu_regs k' = (if b = a then cpu_regs k else regs (proc k b))"
proof -
  note i = kinvD [OF inv]
  obtain k1 where k1: "wake_process k = ret k1" "lists_ok k1 (woken_rs k rs es) (woken_es k es) ds"
    "same_static k k1" "same_links (- set es) k k1"
    using wake_process_ok [OF i(1)] by blast
  have st: "state (proc k1 a) = state (proc k a)" using k1(4) i(4) by (simp add: same_links_def)
  have nrs: "a \<notin> set (woken_rs k rs es)" and nes: "a \<notin> set (woken_es k es)"
    using i(3,4) in_woken_rs in_woken_es by blast+
  have el1: "schedule (prios k1) (state (proc k1 a) = ENDORMI) a (woken_rs k rs es) = (b, rs')"
    using el st i(6) same_static_prios [OF k1(3)] by simp
  obtain k' where k': "ordonnance k = ret k'" "lists_ok k' rs' (woken_es k es) ds" "running k' b"
    "same_procs k1 k'" "b \<noteq> a \<longrightarrow> state (proc k' b) = ACTIVABLE"
    "b = a \<longrightarrow> state (proc k' a) = state (proc k1 a)" "regs (proc k' a) = cpu_regs k1"
    "cpu_regs k' = (if b = a then cpu_regs k1 else regs (proc k1 b))"
    using ordonnance_after_wake [OF k1(1,2) running_same_static [OF k1(3) i(2)] nrs i(5) el1] by blast
  have d: "distinct (a # woken_rs k rs es)" using nrs lists_okD(4) [OF k1(2)] by simp
  note sch = schedule_set [OF el d]
  have "b \<notin> set rs'" using sch(1) by simp
  moreover have "b \<notin> set (woken_es k es) \<and> b \<notin> set ds"
    using sch(2) nes i(5) lists_okD(7,8) [OF k1(2)] by auto
  moreover have "state (proc k' b) \<noteq> ENDORMI" using k'(5,6) st i(6) by (cases "b = a") auto
  ultimately have "kinv k' b rs' (woken_es k es) ds" using k'(2,3) by (simp add: kinv_def)
  moreover have "same_procs k k'"
    using same_procs_trans [OF same_static_procs [OF k1(3)] k'(4)] .
  ultimately show ?thesis using k' st same_staticD [OF k1(3)] by auto
qed

text \<open>
  The running process has just been put among the sleepers: \<open>dors\<close> and \<open>sleep_until\<close>.
\<close>

definition asleep :: "kernel \<Rightarrow> nat \<Rightarrow> nat list \<Rightarrow> nat list \<Rightarrow> nat list \<Rightarrow> bool" where
  "asleep k a rs es ds \<longleftrightarrow> lists_ok k rs es ds \<and> running k a \<and> a \<in> set es"

lemma ordonnance_asleep:
  assumes inv: "asleep k a rs es ds" and other: "\<not> (due k es \<and> hd es = a)"
    and some: "woken_rs k rs es = rs' @ [b]"
  shows "\<exists>k'. ordonnance k = ret k' \<and> kinv k' b rs' (woken_es k es) ds \<and> same_procs k k' \<and>
    a \<in> set (woken_es k es) \<and> regs (proc k' a) = cpu_regs k \<and> cpu_regs k' = regs (proc k b)"
proof -
  have i: "lists_ok k rs es ds" "running k a" "a \<in> set es"
    using inv by (auto simp: asleep_def)
  note oks = lists_okD [OF i(1)]
  obtain k1 where k1: "wake_process k = ret k1" "lists_ok k1 (woken_rs k rs es) (woken_es k es) ds"
    "same_static k k1"
    using wake_process_ok [OF i(1)] by blast
  have aes: "a \<in> set (woken_es k es)"
    using other i(3) by (cases es) (auto simp: woken_es_def)
  note oks1 = lists_okD [OF k1(2)]
  have nrs: "a \<notin> set (woken_rs k rs es)" and nds: "a \<notin> set ds"
    using aes oks1(7,9) by auto
  have st: "state (proc k1 a) = ENDORMI" using oks1(2) aes by (simp add: sleep_ok_def)
  have el: "schedule (prios k1) (state (proc k1 a) = ENDORMI) a (woken_rs k rs es) = (b, rs')"
    using st some by (simp add: schedule_def)
  have ba: "b \<noteq> a" using nrs some by auto
  obtain k' where k': "ordonnance k = ret k'" "lists_ok k' rs' (woken_es k es) ds" "running k' b"
    "same_procs k1 k'" "state (proc k' b) = ACTIVABLE" "regs (proc k' a) = cpu_regs k1"
    "cpu_regs k' = regs (proc k1 b)"
    using ordonnance_after_wake [OF k1(1,2) running_same_static [OF k1(3) i(2)] nrs nds el] ba by auto
  have "b \<notin> set rs'" "b \<notin> set (woken_es k es)" "b \<notin> set ds"
    using some oks1(4,7,8) by auto
  then have "kinv k' b rs' (woken_es k es) ds" using k'(2,3,5) by (simp add: kinv_def)
  then show ?thesis
    using k' aes same_staticD [OF k1(3)] same_procs_trans [OF same_static_procs [OF k1(3)] k'(4)]
    by auto
qed

text \<open>
  A sleeper that is due at once is woken by its own call of the scheduler, and is then both
  running and in the queue. When the queue is otherwise empty, or holds only lower priorities,
  it is taken out again. Otherwise it is added a second time, and the assertion of the queue
  stops the kernel.
\<close>

lemma ordonnance_self_wake_panic:
  assumes inv: "asleep k a rs (a # es) ds" and due: "due k (a # es)"
    and r: "rs \<noteq> []" "prios k a \<le> prios k (last rs)"
  shows "ordonnance k = err Panic"
proof -
  have i: "lists_ok k rs (a # es) ds" "running k a" using inv by (auto simp: asleep_def)
  note oks = lists_okD [OF i(1)]
  obtain k1 where k1: "wake_process k = ret k1" "lists_ok k1 (pq_insert (prios k) a rs) es ds"
    "same_static k k1" "state (proc k1 a) = ACTIVABLE"
    using wake_process_ok [OF i(1)] due by (auto simp: woken_rs_def woken_es_def)
  let ?ws = "pq_insert (prios k) a rs"
  have nrs: "a \<notin> set rs" using oks(7) by auto
  have "\<not> (\<forall>x\<in>set rs. prios k x < prios k a)" using r by (meson last_in_set not_le)
  then have "dropWhile (\<lambda>x. prios k x < prios k a) rs \<noteq> []" by simp
  then obtain y ys where dw: "dropWhile (\<lambda>x. prios k x < prios k a) rs = y # ys"
    by (meson neq_Nil_conv)
  have "last rs = last (takeWhile (\<lambda>x. prios k x < prios k a) rs @ y # ys)"
    unfolding dw [symmetric] by simp
  then have last: "last ?ws = last rs" by (simp add: pq_insert_def dw)
  have but: "a \<in> set (butlast ?ws)" by (simp add: pq_insert_def dw butlast_append)
  have ws: "?ws = butlast ?ws @ [last rs]" using last by (metis append_butlast_last_id pq_insert_neq_Nil)
  have rdy: "ready_ok k1 (butlast ?ws @ [last rs])" using lists_okD(1) [OF k1(2)] ws by simp
  have rep: "queue_rep (head_queue k1) (butlast ?ws @ [last rs])" using rdy by (simp add: ready_ok_def)
  obtain q where q: "extract_activable k1 =
      ret (Some (last rs), upd (last rs) (\<lambda>p. p\<lparr>suiv := None\<rparr>) (k1\<lparr>head_queue := q\<rparr>))"
    "ready_ok (upd (last rs) (\<lambda>p. p\<lparr>suiv := None\<rparr>) (k1\<lparr>head_queue := q\<rparr>)) (butlast ?ws)"
    using extract_activable_ok [OF rdy] by blast
  have la: "last rs \<noteq> a" using nrs r(1) by auto
  have "prio (proc k1 a) \<le> prio (proc k1 (last rs))"
    using r(2) same_staticD(2) [OF k1(3)] by (simp add: prios_def)
  then show ?thesis
    using i(2) queue_empty_rep [OF rep] pq.rep_top [OF rep] la q(1) insert_activable_busy [OF q(2) but]
      same_staticD(9) [OF k1(3)] k1(1,4)
    by (simp add: ordonnance_def running_def Let_def)
qed

lemma sorted_woken: "kinv k a rs es ds \<Longrightarrow> sorted_prio (prios k) (woken_rs k rs es)"
  using kinvD(10) [of k a rs es ds] by (auto simp: woken_rs_def ready_ok_def intro: sorted_pq_insert)

end
