(* ===== verification/Proc_Calls.thy ===== *)
theory Proc_Calls
  imports Scheduler
begin

text \<open>
  The system calls of proc.c on well-formed kernels: reading and changing priorities, sleeping,
  killing a process that waits in a list, and listing the queue. Each lemma gives the result of
  the call and the lists it leaves.
\<close>

subsection \<open>Reading a priority\<close>

lemma getprio_queue:
  assumes "\<forall>i\<in>set rs. pid (proc k i) = int i"
  shows "list_each (getprio_body n) rs k =
    (if 0 \<le> n \<and> nat n \<in> set rs then ret (Inl (sint (prio (proc k (nat n))))) else ret (Inr k))"
  using assms by (induction rs) (auto simp: getprio_body_def)

lemma getprio_endormi_path:
  assumes "lpath (\<lambda>i. suiv (proc k i)) p es" and "\<forall>i\<in>set es. pid (proc k i) = int i"
  shows "getprio_endormi n p k =
    (if 0 \<le> n \<and> nat n \<in> set es then ret (sint (prio (proc k (nat n)))) else ret (-1))"
  using assms
proof (induction es arbitrary: p)
  case Nil
  then show ?case by (subst getprio_endormi.simps) simp
next
  case (Cons e es)
  then show ?case by (subst getprio_endormi.simps) auto
qed

lemma getprio_ok:
  assumes inv: "kinv k a rs es ds"
  shows "getprio n k =
    ret (if 0 \<le> n \<and> nat n \<in> set (a # rs @ es) then sint (prio (proc k (nat n))) else -1)"
proof -
  note i = kinvD [OF inv]
  note oks = lists_okD [OF i(1)]
  have rep: "queue_rep (head_queue k) rs" using i(10) by (simp add: ready_ok_def)
  have each: "queue_for_each head_queue (getprio_body n) k = list_each (getprio_body n) rs k"
    using rep by (intro queue_for_each_rep) (auto simp: getprio_body_def split: if_splits)
  have "lpath (\<lambda>i. suiv (proc k i)) (endormi_list k) es" using i(11) by (simp add: sleep_ok_def)
  then have sl: "getprio_endormi n (endormi_list k) k =
      (if 0 \<le> n \<and> nat n \<in> set es then ret (sint (prio (proc k (nat n)))) else ret (-1))"
    using oks(11) by (intro getprio_endormi_path) auto
  have rs: "\<forall>i\<in>set rs. pid (proc k i) = int i" using oks(11) by auto
  have "0 \<le> n \<and> nat n \<in> set (a # rs @ es) \<Longrightarrow> n \<le> int PROCESS_TABLE_SIZE - 1"
    using i(8) oks(10) by fastforce
  then show ?thesis
    using i(7,9) each getprio_queue [OF rs] sl by (auto simp: getprio_def)
qed

subsection \<open>Changing a priority\<close>

abbreviation set_prio :: "nat \<Rightarrow> int \<Rightarrow> kernel \<Rightarrow> kernel" where
  "set_prio i np k \<equiv> upd i (\<lambda>p. p\<lparr>prio := word_of_int np\<rparr>) k"

lemma prios_set_prio: "prios (set_prio i np k) = (prios k)(i := word_of_int np)"
  by (auto simp: prios_def fun_eq_iff)

text \<open>
  The loop over the queue goes on from the new place of the process it has moved, so it may
  see some processes twice and others never; the process itself is moved once.
\<close>

lemma chprio_body_other: "pid (proc k t) \<noteq> n \<Longrightarrow> chprio_body n np t (old, k) = ret (Inr (old, k))"
  by (simp add: chprio_body_def)

lemma chprio_skip:
  assumes "chain (next (head_queue k)) u (map Link ys) Head"
    and "\<forall>i\<in>set ys. pid (proc k i) \<noteq> n"
  shows "queue_for_each_from (head_queue \<circ> snd) (chprio_body n np) (next (head_queue k) u) (old, k) =
    ret (Inr (old, k))"
  using assms
proof (induction ys arbitrary: u)
  case Nil
  then show ?case by (subst queue_for_each_from.simps) simp
next
  case (Cons y ys)
  have "queue_for_each_from (head_queue \<circ> snd) (chprio_body n np) (next (head_queue k) u) (old, k) =
      queue_for_each_from (head_queue \<circ> snd) (chprio_body n np) (next (head_queue k) (Link y)) (old, k)"
    using Cons.prems by (subst queue_for_each_from.simps) (simp add: chprio_body_other)
  also have "\<dots> = ret (Inr (old, k))" by (rule Cons.IH) (use Cons.prems in auto)
  finally show ?case .
qed

lemma chprio_reach:
  assumes "chain (next (head_queue k)) u (map Link (ys @ t # zs)) Head"
    and "\<forall>i\<in>set ys. pid (proc k i) \<noteq> n"
  shows "queue_for_each_from (head_queue \<circ> snd) (chprio_body n np) (next (head_queue k) u) (old, k) =
    queue_for_each_from (head_queue \<circ> snd) (chprio_body n np) (Some (Link t)) (old, k)"
  using assms
proof (induction ys arbitrary: u)
  case Nil
  then show ?case by simp
next
  case (Cons y ys)
  have n: "next (head_queue k) u = Some (Link y)" using Cons.prems by simp
  have "queue_for_each_from (head_queue \<circ> snd) (chprio_body n np) (Some (Link y)) (old, k) =
      queue_for_each_from (head_queue \<circ> snd) (chprio_body n np) (next (head_queue k) (Link y)) (old, k)"
    using Cons.prems(2) by (subst queue_for_each_from.simps) (simp add: chprio_body_other)
  also have "\<dots> = queue_for_each_from (head_queue \<circ> snd) (chprio_body n np) (Some (Link t)) (old, k)"
    by (rule Cons.IH) (use Cons.prems in auto)
  finally show ?case by (simp only: n)
qed

lemma queue_rep_suffix:
  assumes "queue_rep l (as @ t # bs)"
  shows "chain (next l) (Link t) (map Link bs) Head"
  using assms by (simp add: queue_rep_def chain_append)

lemma chprio_queue_other:
  assumes "queue_rep (head_queue k) rs" and "\<forall>i\<in>set rs. pid (proc k i) \<noteq> n"
  shows "queue_for_each (head_queue \<circ> snd) (chprio_body n np) (old, k) = ret (Inr (old, k))"
  using assms chprio_skip [of k Head rs n np old] by (simp add: queue_for_each_def queue_rep_def)

lemma chprio_queue_found:
  assumes rdy: "ready_ok k (as @ t # bs)" and pids: "\<forall>i\<in>set (as @ t # bs). pid (proc k i) = int i"
  shows "\<exists>q. queue_for_each (head_queue \<circ> snd) (chprio_body (int t) np) (old, k) =
      ret (Inr (sint (prio (proc k t)), (set_prio t np k)\<lparr>head_queue := q\<rparr>)) \<and>
    ready_ok ((set_prio t np k)\<lparr>head_queue := q\<rparr>)
      (pq_insert ((prios k)(t := word_of_int np)) t (as @ bs))"
proof -
  have rep: "queue_rep (head_queue k) (as @ t # bs)" using rdy by (simp add: ready_ok_def)
  have d: "distinct (as @ t # bs)" by (rule queue_rep_distinct [OF rep])
  obtain q1 where q1: "queue_del t (head_queue k) = ret q1" "queue_rep q1 (as @ bs)"
    using queue_del_rep [OF rep] by blast
  let ?p = "(prios k)(t := word_of_int np)"
  let ?k2 = "set_prio t np (k\<lparr>head_queue := q1\<rparr>)"
  have p2: "prios ?k2 = ?p" by (auto simp: prios_def fun_eq_iff)
  obtain q where q: "queue_add ?p t q1 = ret q" "queue_rep q (pq_insert ?p t (as @ bs))"
    using pq.rep_add [OF q1(2), of t ?p] d by auto
  let ?k = "(set_prio t np k)\<lparr>head_queue := q\<rparr>"
  have k: "?k2\<lparr>head_queue := q\<rparr> = ?k" by (simp add: upd_def)
  have body: "chprio_body (int t) np t (old, k) = ret (Inr (sint (prio (proc k t)), ?k))"
    using pids q1(1) q(1) k by (simp add: chprio_body_def Let_def p2)
  obtain us vs where ins: "pq_insert ?p t (as @ bs) = us @ t # vs"
    and uv: "us @ vs = as @ bs"
    unfolding pq_insert_def by (metis takeWhile_dropWhile_id)
  have tail: "chain (next (head_queue ?k)) (Link t) (map Link vs) Head"
    using queue_rep_suffix [of q us t vs] q(2) ins by simp
  have vs: "\<forall>i\<in>set vs. pid (proc ?k i) \<noteq> int t"
  proof
    fix i assume "i \<in> set vs"
    then have "i \<in> set (as @ bs)" using uv by (metis in_set_conv_decomp append_assoc append_Cons)
    then show "pid (proc ?k i) \<noteq> int t" using pids d by auto
  qed
  have "queue_for_each (head_queue \<circ> snd) (chprio_body (int t) np) (old, k) =
      queue_for_each_from (head_queue \<circ> snd) (chprio_body (int t) np) (Some (Link t)) (old, k)"
    unfolding queue_for_each_def
    using rep pids d chprio_reach [of k Head as t bs "int t"] by (auto simp: queue_rep_def)
  also have "\<dots> = queue_for_each_from (head_queue \<circ> snd) (chprio_body (int t) np)
      (next (head_queue ?k) (Link t)) (sint (prio (proc k t)), ?k)"
    by (subst queue_for_each_from.simps) (simp add: body)
  also have "\<dots> = ret (Inr (sint (prio (proc k t)), ?k))" by (rule chprio_skip [OF tail vs])
  finally have run: "queue_for_each (head_queue \<circ> snd) (chprio_body (int t) np) (old, k) =
      ret (Inr (sint (prio (proc k t)), ?k))" .
  have pk: "prios ?k = ?p" by (auto simp: prios_def fun_eq_iff)
  have "sorted_prio (prios k) (as @ bs)"
    using rdy d sorted_prio_remove1 [of "prios k" "as @ t # bs" t]
    by (simp add: ready_ok_def remove1_append)
  moreover have "sorted_prio ?p (as @ bs) = sorted_prio (prios k) (as @ bs)"
    using d by (intro sorted_prio_cong) auto
  ultimately have "ready_ok ?k (pq_insert ?p t (as @ bs))"
    using rdy q(2) unfolding ready_ok_def pk by (auto intro: sorted_pq_insert)
  with run show ?thesis by blast
qed

lemma chprio_endormi_other:
  assumes "lpath (\<lambda>i. suiv (proc k i)) p es" and "\<forall>i\<in>set es. pid (proc k i) \<noteq> n"
  shows "chprio_endormi n np p old k = ret (old, k)"
  using assms
proof (induction es arbitrary: p)
  case Nil
  then show ?case by (subst chprio_endormi.simps) simp
next
  case (Cons e es)
  then show ?case by (subst chprio_endormi.simps) simp
qed

lemma chprio_endormi_found:
  assumes "lpath (\<lambda>i. suiv (proc k i)) p (as @ t # bs)" and "\<forall>i\<in>set (as @ t # bs). pid (proc k i) = int i"
  shows "chprio_endormi (int t) np p old k = ret (sint (prio (proc k t)), set_prio t np k)"
  using assms
proof (induction as arbitrary: p)
  case Nil
  have t: "t \<notin> set bs" using lpath_distinct [OF Nil(1)] by simp
  have "chprio_endormi (int t) np (suiv (proc k t)) (sint (prio (proc k t))) (set_prio t np k) =
      ret (sint (prio (proc k t)), set_prio t np k)"
  proof (rule chprio_endormi_other)
    have "lpath (\<lambda>i. suiv (proc (set_prio t np k) i)) (suiv (proc k t)) bs =
        lpath (\<lambda>i. suiv (proc k i)) (suiv (proc k t)) bs"
      by (rule lpath_cong) simp
    then show "lpath (\<lambda>i. suiv (proc (set_prio t np k) i)) (suiv (proc k t)) bs"
      using Nil by simp
  qed (use Nil t in auto)
  then show ?case using Nil by (subst chprio_endormi.simps) (simp add: Let_def)
next
  case (Cons e as)
  have "e \<noteq> t" using lpath_distinct [OF Cons.prems(1)] by auto
  then show ?case using Cons by (subst chprio_endormi.simps) simp
qed

lemma sleep_ok_set_prio [simp]: "sleep_ok (set_prio i np k) es = sleep_ok k es"
  by (rule sleep_ok_cong) (auto simp: same_links_def)

lemma dead_ok_set_prio [simp]: "dead_ok (set_prio i np k) ds = dead_ok k ds"
  by (rule dead_ok_cong) (auto simp: same_links_def)

lemma sleep_ok_queue [simp]: "sleep_ok (k\<lparr>head_queue := q\<rparr>) es = sleep_ok k es"
  by (rule sleep_ok_cong) (auto simp: same_links_def)

lemma dead_ok_queue [simp]: "dead_ok (k\<lparr>head_queue := q\<rparr>) ds = dead_ok k ds"
  by (rule dead_ok_cong) (auto simp: same_links_def)

lemma ready_ok_set_prio: "i \<notin> set rs \<Longrightarrow> ready_ok (set_prio i np k) rs = ready_ok k rs"
  by (rule ready_ok_cong) auto

text \<open>The queue after a change of priority.\<close>

definition reprio :: "(nat \<Rightarrow> u32) \<Rightarrow> nat \<Rightarrow> nat list \<Rightarrow> nat list" where
  "reprio p t rs = (if t \<in> set rs then pq_insert p t (remove1 t rs) else rs)"

lemma set_reprio [simp]: "set (reprio p t rs) = set rs" if "distinct rs"
  using that by (auto simp: reprio_def)

lemma distinct_reprio [simp]: "distinct (reprio p t rs)" if "distinct rs"
  using that by (auto simp: reprio_def)

text \<open>
  A call of \<open>chprio\<close> with valid arguments on a process that runs, is ready or sleeps: the
  priority is changed, a ready process moves to its new place, and then the scheduler runs.
\<close>

lemma chprio_ok:
  assumes inv: "kinv k a rs es ds" and t: "t \<in> set (a # rs @ es)" and np: "1 \<le> np" "np \<le> MAX_PRIO"
  shows "\<exists>q. chprio (int t) np k =
      bindr (ordonnance ((set_prio t np k)\<lparr>head_queue := q\<rparr>)) (\<lambda>k'. ret (sint (prio (proc k t)), k')) \<and>
    kinv ((set_prio t np k)\<lparr>head_queue := q\<rparr>) a (reprio ((prios k)(t := word_of_int np)) t rs) es ds"
proof -
  note i = kinvD [OF inv]
  note oks = lists_okD [OF i(1)]
  let ?p = "(prios k)(t := word_of_int np)"
  have rs: "\<forall>i\<in>set rs. pid (proc k i) = int i" and es: "\<forall>i\<in>set es. pid (proc k i) = int i"
    using oks(11) by auto
  have rep: "queue_rep (head_queue k) rs" using i(10) by (simp add: ready_ok_def)
  have path: "lpath (\<lambda>i. suiv (proc k i)) (endormi_list k) es" using i(11) by (simp add: sleep_ok_def)
  have t30: "t < PROCESS_TABLE_SIZE" using t i(8) oks(10) by auto
  define step where "step q = (set_prio t np k)\<lparr>head_queue := q\<rparr>" for q
  have step0: "step (head_queue k) = set_prio t np k" by (simp add: step_def upd_def)
  have keep: "kinv (step q) a (reprio ?p t rs) es ds" if "ready_ok (step q) (reprio ?p t rs)" for q
  proof -
    have "distinct (reprio ?p t rs @ es @ ds)" using oks by auto
    then show ?thesis using that i oks(10,11) oks(4)
      by (auto simp: kinv_def lists_ok_def running_def step_def)
  qed
  have valid: "\<not> (int t < 0 \<or> int t > int PROCESS_TABLE_SIZE - 1 \<or> np < 1 \<or> np > MAX_PRIO)"
    using t30 np by auto
  show ?thesis
  proof (cases "t \<in> set rs")
    case True
    then obtain as bs where ab: "rs = as @ t # bs" by (meson split_list)
    have "t \<notin> set as" using oks(4) ab by auto
    then have re: "reprio ?p t rs = pq_insert ?p t (as @ bs)" by (simp add: reprio_def ab remove1_append)
    obtain q where q: "queue_for_each (head_queue \<circ> snd) (chprio_body (int t) np) (-1, k) =
        ret (Inr (sint (prio (proc k t)), step q))" "ready_ok (step q) (reprio ?p t rs)"
      using chprio_queue_found [of k as t bs np "-1"] i(10) rs ab re unfolding step_def by auto
    have ta: "t \<noteq> a" using True i(3) by auto
    have tes: "t \<notin> set es" using True oks(7) by auto
    have "lpath (\<lambda>i. suiv (proc (step q) i)) (endormi_list k) es =
        lpath (\<lambda>i. suiv (proc k i)) (endormi_list k) es"
      by (rule lpath_cong) (simp add: step_def)
    then have "chprio_endormi (int t) np (endormi_list (step q)) (sint (prio (proc k t))) (step q) =
        ret (sint (prio (proc k t)), step q)"
      using path es tes by (intro chprio_endormi_other) (auto simp: step_def)
    then have "chprio (int t) np k =
        bindr (ordonnance (step q)) (\<lambda>k'. ret (sint (prio (proc k t)), k'))"
      using valid i(7,9) ta q(1) by (simp add: chprio_def)
    then show ?thesis using keep [OF q(2)] unfolding step_def by blast
  next
    case False
    have re: "reprio ?p t rs = rs" using False by (simp add: reprio_def)
    have "ready_ok (step (head_queue k)) rs"
      using i(10) ready_ok_set_prio [OF False] by (simp add: step0)
    then have inv': "kinv (step (head_queue k)) a (reprio ?p t rs) es ds" by (intro keep) (simp add: re)
    have "chprio (int t) np k =
        bindr (ordonnance (step (head_queue k))) (\<lambda>k'. ret (sint (prio (proc k t)), k'))"
    proof (cases "t = a")
      case True
      then show ?thesis using valid i(7,9) by (simp add: chprio_def step0)
    next
      case ta: False
      then have "t \<in> set es" using t False by simp
      then obtain as bs where ab: "es = as @ t # bs" by (meson split_list)
      have "\<forall>i\<in>set rs. pid (proc k i) \<noteq> int t" using rs False by auto
      note q = chprio_queue_other [OF rep this]
      show ?thesis
        using valid i(7,9) ta q chprio_endormi_found [of k _ as t bs] path es ab
        by (simp add: chprio_def step0)
    qed
    then show ?thesis using inv' unfolding step_def by blast
  qed
qed

lemma chprio_invalid:
  assumes "n < 0 \<or> n > 29 \<or> np < 1 \<or> np > 256"
  shows "chprio n np k = ret (-1, k)"
  using assms by (simp add: chprio_def PROCESS_TABLE_SIZE_def MAX_PRIO_def)

subsection \<open>Sleeping\<close>

text \<open>\<open>dors\<close> is \<open>sleep_until\<close>: its argument is compared with the clock as an absolute time.\<close>

lemma dors_is_sleep_until: "dors n k = sleep_until (real (unat n)) k"
  by (simp add: dors_def sleep_until_def)

abbreviation now :: "kernel \<Rightarrow> real" where
  "now k \<equiv> real (unat (nb_tick k))"

lemma fall_asleep:
  assumes inv: "kinv k a rs es ds"
  shows "\<exists>k1. sleep_until t k = ordonnance k1 \<and> asleep k1 a rs (sl_insert ((wake k)(a := t)) a es) ds \<and>
    same_static k k1 \<and> wake k1 a = t \<and> (\<forall>e\<in>set es. wake k1 e = wake k e)"
proof -
  note i = kinvD [OF inv]
  note oks = lists_okD [OF i(1)]
  let ?es = "sl_insert ((wake k)(a := t)) a es"
  obtain k1 where k1: "insert_endormi a t k = ret k1" "sleep_ok k1 ?es" "same_static k k1"
    "same_links (- set (a # es)) k k1" "head_queue k1 = head_queue k" "dead_list k1 = dead_list k"
    "dead_tail k1 = dead_tail k"
    using insert_endormi_ok [OF i(11,4)] by blast
  have "ready_ok k1 rs"
  proof (subst ready_ok_cong [of _ _ k])
    show "state (proc k1 i) = state (proc k i) \<and> prio (proc k1 i) = prio (proc k i)"
      if "i \<in> set rs" for i
      using that oks(7) i(3) k1(4) same_staticD(2) [OF k1(3)] by (auto simp: same_links_def)
  qed (use i(10) k1(5) in simp_all)
  moreover have "dead_ok k1 ds"
    using i(5,12) oks(9) k1(4,6,7) by (subst dead_ok_cong [of _ k]) (auto simp: same_links_def)
  ultimately have "asleep k1 a rs ?es ds"
    using i k1(2) oks same_staticD(1,9) [OF k1(3)]
    by (auto simp: asleep_def lists_ok_def running_def)
  moreover have "sleep_until t k = ordonnance k1" using i(7) k1(1) by (simp add: sleep_until_def)
  moreover have wk: "wake k1 = (wake k)(a := t)"
  proof -
    have "insert_endormi a t k = ret (endormi_linked a
        (takeWhile (\<lambda>x. wake (upd a (sleeper t) k) x \<le> wake (upd a (sleeper t) k) a) es)
        (dropWhile (\<lambda>x. wake (upd a (sleeper t) k) x \<le> wake (upd a (sleeper t) k) a) es)
        (upd a (sleeper t) k))"
      using i(4,11) by (intro insert_endormi_is_linked) (simp_all add: sleep_ok_def)
    then show ?thesis using k1(1) by auto
  qed
  then have "wake k1 a = t" "\<forall>e\<in>set es. wake k1 e = wake k e"
    using i(4) by (auto simp: fun_eq_iff)
  ultimately show ?thesis using k1(3) by blast
qed

lemma sl_insert_late:
  assumes "es \<noteq> []" and "tm (hd es) \<le> tm a"
  shows "sl_insert tm a es = hd es # sl_insert tm a (tl es)"
  using assms by (cases es) (auto simp: sl_insert_def)

lemma sl_insert_first: "es = [] \<or> tm a < tm (hd es) \<Longrightarrow> sl_insert tm a es = a # es"
  by (cases es) (auto simp: sl_insert_def)

text \<open>A process that sleeps until a time to come leaves the processor to the last of the queue.\<close>

lemma sleep_until_future:
  assumes inv: "kinv k a rs es ds" and t: "now k < t" and some: "woken_rs k rs es = rs' @ [b]"
  shows "\<exists>k'. sleep_until t k = ret k' \<and>
    kinv k' b rs' (sl_insert ((wake k)(a := t)) a (woken_es k es)) ds \<and> same_procs k k' \<and>
    regs (proc k' a) = cpu_regs k \<and> cpu_regs k' = regs (proc k b)"
proof -
  note i = kinvD [OF inv]
  let ?tm = "(wake k)(a := t)"
  let ?es = "sl_insert ?tm a es"
  obtain k1 where k1: "sleep_until t k = ordonnance k1" "asleep k1 a rs ?es ds"
    "same_static k k1" "wake k1 a = t" "\<forall>e\<in>set es. wake k1 e = wake k e"
    using fall_asleep [OF inv] by blast
  have nb: "nb_tick k1 = nb_tick k" and pr: "prios k1 = prios k"
    using same_staticD [OF k1(3)] same_static_prios [OF k1(3)] by simp_all
  have hd: "?es = (if es \<noteq> [] \<and> wake k (hd es) \<le> t then hd es # sl_insert ?tm a (tl es) else a # es)"
    using i(4) sl_insert_late [of es ?tm a] sl_insert_first [of es ?tm a]
    by (cases es) auto
  have due: "due k1 ?es \<longleftrightarrow> due k es"
    using t nb k1(4,5) i(4) unfolding hd by (cases es) (auto simp: due_def)
  have self: "\<not> (due k1 ?es \<and> hd ?es = a)"
    using t nb k1(4) by (auto simp: due_def)
  have first: "due k es \<Longrightarrow> ?es = hd es # sl_insert ?tm a (tl es)"
    using t unfolding hd by (auto simp: due_def)
  have rs1: "woken_rs k1 rs ?es = woken_rs k rs es"
    using due first pr by (auto simp: woken_rs_def)
  have es1: "woken_es k1 ?es = sl_insert ?tm a (woken_es k es)"
    using due first by (auto simp: woken_es_def)
  obtain k' where k': "ordonnance k1 = ret k'" "kinv k' b rs' (woken_es k1 ?es) ds" "same_procs k1 k'"
    "regs (proc k' a) = cpu_regs k1" "cpu_regs k' = regs (proc k1 b)"
    using ordonnance_asleep [OF k1(2) self, of rs' b] some rs1 by auto
  have "same_procs k k'" using same_procs_trans [OF same_static_procs [OF k1(3)] k'(3)] .
  then show ?thesis using k' k1(1) same_staticD [OF k1(3)] unfolding es1 by auto
qed

text \<open>A sleep that is already over, in front of the other sleepers, stops the kernel.\<close>

lemma sleep_until_past_panic:
  assumes inv: "kinv k a rs es ds" and t: "t \<le> now k" and first: "es = [] \<or> t < wake k (hd es)"
    and rs: "rs \<noteq> []" "prios k a \<le> prios k (last rs)"
  shows "sleep_until t k = err Panic"
proof -
  note i = kinvD [OF inv]
  have "es = [] \<or> hd es \<noteq> a" using i(4) by (cases es) auto
  then have es: "sl_insert ((wake k)(a := t)) a es = a # es"
    using first by (intro sl_insert_first) auto
  obtain k1 where k1: "sleep_until t k = ordonnance k1" "asleep k1 a rs (a # es) ds"
    "same_static k k1" "wake k1 a = t"
    using fall_asleep [OF inv, of t] es by auto
  have "due k1 (a # es)" using k1(4) t same_staticD [OF k1(3)] by (simp add: due_def)
  then show ?thesis
    using ordonnance_self_wake_panic [OF k1(2) _ rs(1)] rs(2) same_static_prios [OF k1(3)] k1(1) by simp
qed

subsection \<open>Killing a process of a list\<close>

lemma kill_body_other: "pid (proc k t) \<noteq> n \<Longrightarrow> kill_body n t k = ret (Inr k)"
  by (simp add: kill_body_def)

lemma kill_queue_found:
  assumes rdy: "ready_ok k (as @ t # bs)" and pids: "\<forall>i\<in>set (as @ t # bs). pid (proc k i) = int i"
  shows "\<exists>q. queue_for_each head_queue (kill_body (int t)) k =
      ret (Inl (0, (upd t (\<lambda>p. p\<lparr>state := ZOMBIE\<rparr>) k)\<lparr>head_queue := q\<rparr>)) \<and>
    ready_ok ((upd t (\<lambda>p. p\<lparr>state := ZOMBIE\<rparr>) k)\<lparr>head_queue := q\<rparr>) (as @ bs)"
proof -
  have rep: "queue_rep (head_queue k) (as @ t # bs)" using rdy by (simp add: ready_ok_def)
  have d: "distinct (as @ t # bs)" by (rule queue_rep_distinct [OF rep])
  obtain q where q: "queue_del t (head_queue k) = ret q" "queue_rep q (as @ bs)"
    using queue_del_rep [OF rep] by blast
  let ?k = "(upd t (\<lambda>p. p\<lparr>state := ZOMBIE\<rparr>) k)\<lparr>head_queue := q\<rparr>"
  have walk: "queue_for_each_from head_queue (kill_body (int t)) (next (head_queue k) u) k = ret (Inl (0, ?k))"
    if "chain (next (head_queue k)) u (map Link (ys @ t # bs)) Head" "\<forall>i\<in>set ys. pid (proc k i) \<noteq> int t"
    for u ys
    using that
  proof (induction ys arbitrary: u)
    case Nil
    then show ?case using pids q(1)
      by (subst queue_for_each_from.simps) (simp add: kill_body_def Let_def)
  next
    case (Cons y ys)
    then show ?case by (subst queue_for_each_from.simps) (simp add: kill_body_other)
  qed
  have run: "queue_for_each head_queue (kill_body (int t)) k = ret (Inl (0, ?k))"
    unfolding queue_for_each_def by (rule walk [of Head as]) (use rep d pids in \<open>auto simp: queue_rep_def\<close>)
  have "prios ?k = prios k" by (auto simp: prios_def fun_eq_iff)
  then have "ready_ok ?k (as @ bs)"
    using rdy q(2) d sorted_prio_remove1 [of "prios k" "as @ t # bs" t]
    by (auto simp: ready_ok_def remove1_append)
  with run show ?thesis by blast
qed

lemma kill_queue_other:
  assumes "queue_rep (head_queue k) rs" and "\<forall>i\<in>set rs. pid (proc k i) \<noteq> n"
  shows "queue_for_each head_queue (kill_body n) k = ret (Inr k)"
proof -
  have "list_each (kill_body n) rs k = ret (Inr k)"
    using assms(2) by (induction rs) (auto simp: kill_body_other)
  moreover have "queue_for_each head_queue (kill_body n) k = list_each (kill_body n) rs k"
    using assms(1) by (intro queue_for_each_rep) (auto simp: kill_body_def bindr_eq_ret split: if_splits)
  ultimately show ?thesis by simp
qed

lemma kill_ready:
  assumes inv: "kinv k a rs es ds" and t: "t \<in> set rs" "t \<noteq> 0"
  shows "\<exists>k'. kill (int t) k = ret (0, k') \<and> kinv k' a (remove1 t rs) es ds \<and>
    state (proc k' t) = ZOMBIE \<and> process_alive k' = process_alive k \<and>
    (\<forall>p. premier_fils (proc k' p) = premier_fils (proc k p) \<and> dernier_fils (proc k' p) = dernier_fils (proc k p))"
proof -
  note i = kinvD [OF inv]
  note oks = lists_okD [OF i(1)]
  obtain as bs where ab: "rs = as @ t # bs" using t(1) by (meson split_list)
  have rm: "remove1 t rs = as @ bs" using oks(4) ab by (simp add: remove1_append)
  obtain q where q: "queue_for_each head_queue (kill_body (int t)) k =
      ret (Inl (0, (upd t (\<lambda>p. p\<lparr>state := ZOMBIE\<rparr>) k)\<lparr>head_queue := q\<rparr>))"
    "ready_ok ((upd t (\<lambda>p. p\<lparr>state := ZOMBIE\<rparr>) k)\<lparr>head_queue := q\<rparr>) (as @ bs)"
    using kill_queue_found [of k as t bs] i(10) oks(11) ab by auto
  let ?k = "(upd t (\<lambda>p. p\<lparr>state := ZOMBIE\<rparr>) k)\<lparr>head_queue := q\<rparr>"
  have t30: "t < PROCESS_TABLE_SIZE" and ta: "t \<noteq> a" using t(1) oks(10) i(3) by auto
  have kill: "kill (int t) k = ret (0, ?k)"
    using t(2) t30 ta i(7,9) q(1) by (simp add: kill_def)
  have tes: "t \<notin> set es" "t \<notin> set ds" using t(1) oks(7,8) by auto
  have "sleep_ok ?k es" "dead_ok ?k ds"
    using i(11,12) tes sleep_ok_cong [of es "k" "upd t (\<lambda>p. p\<lparr>state := ZOMBIE\<rparr>) k"]
      dead_ok_cong [of ds "k" "upd t (\<lambda>p. p\<lparr>state := ZOMBIE\<rparr>) k"]
    by (auto simp: same_links_def)
  moreover have "distinct ((as @ bs) @ es @ ds)" using oks(4-9) ab by auto
  ultimately have "kinv ?k a (as @ bs) es ds"
    using i q(2) oks(10,11) ab ta by (auto simp: kinv_def lists_ok_def running_def)
  then show ?thesis using kill rm by auto
qed

text \<open>Unlinking a sleeper: the first one, and one behind another.\<close>

lemma tail_if [simp]:
  "(if c then k\<lparr>endormi_tail := x\<rparr> else k) = k\<lparr>endormi_tail := if c then x else endormi_tail k\<rparr>"
  by simp

lemma sleep_ok_drop_first:
  assumes ok: "sleep_ok k (h # es)" and k1: "k1 = upd h (\<lambda>p. p\<lparr>suiv := None\<rparr>)
    ((if endormi_list k = endormi_tail k then k\<lparr>endormi_tail := None\<rparr> else k)
      \<lparr>endormi_list := suiv (proc k h)\<rparr>)"
  shows "sleep_ok k1 es"
proof -
  have path: "lpath (\<lambda>i. suiv (proc k i)) (Some h) (h # es)"
    and hd: "endormi_list k = Some h" and tl: "endormi_tail k = last_opt (h # es)"
    using ok by (auto simp: sleep_ok_def)
  have d: "h \<notin> set es" using lpath_distinct [OF path] by simp
  have "lpath (\<lambda>i. suiv (proc k1 i)) (suiv (proc k h)) es = lpath (\<lambda>i. suiv (proc k i)) (suiv (proc k h)) es"
    using d by (intro lpath_cong) (auto simp: k1)
  moreover have "wake k1 = wake k" by (auto simp: k1 fun_eq_iff)
  moreover have "endormi_tail k1 = last_opt es"
    using hd tl d by (cases "es = []") (auto simp: k1 last_opt_def)
  moreover have "\<forall>i\<in>set es. state (proc k1 i) = ENDORMI" using ok d by (auto simp: k1 sleep_ok_def)
  moreover have "endormi_list k1 = suiv (proc k h)" by (simp add: k1)
  ultimately show ?thesis using ok path unfolding sleep_ok_def by (simp add: \<open>wake k1 = wake k\<close>)
qed

lemma sleep_ok_drop_inner:
  assumes ok: "sleep_ok k (as @ t # bs)" and as: "as \<noteq> []"
    and k1: "k1 = upd t (\<lambda>p. p\<lparr>suiv := None\<rparr>) (upd (last as) (\<lambda>p. p\<lparr>suiv := suiv (proc k t)\<rparr>)
      (if bs = [] then k\<lparr>endormi_tail := Some (last as)\<rparr> else k))"
  shows "sleep_ok k1 (as @ bs)"
proof -
  have path: "lpath (\<lambda>i. suiv (proc k i)) (endormi_list k) (as @ t # bs)"
    using ok by (simp add: sleep_ok_def)
  have d: "distinct (as @ t # bs)" by (rule lpath_distinct [OF path])
  have tl: "last as \<noteq> t" using d as by auto
  have "(\<lambda>i. suiv (proc k1 i)) = (\<lambda>i. suiv (proc k i))(last as := suiv (proc k t), t := None)"
    using tl by (auto simp: k1 fun_eq_iff)
  then have "lpath (\<lambda>i. suiv (proc k1 i)) (endormi_list k1) (as @ bs)"
    using lpath_remove [OF path as d] by (simp add: k1)
  moreover have "endormi_tail k1 = last_opt (as @ bs)"
    using ok as by (auto simp: k1 sleep_ok_def last_opt_def)
  moreover have wk: "wake k1 = wake k" by (auto simp: k1 fun_eq_iff)
  have "sorted (map (wake k1) (as @ bs))"
    using ok unfolding wk sleep_ok_def by (auto simp: sorted_append)
  moreover have "\<forall>i\<in>set (as @ bs). state (proc k1 i) = ENDORMI"
    using ok d by (auto simp: k1 sleep_ok_def)
  ultimately show ?thesis unfolding sleep_ok_def by blast
qed

lemma sleep_del_loop_found:
  assumes "lpath (\<lambda>i. suiv (proc k i)) p (ys @ t # bs)" and "\<forall>i\<in>set (ys @ t # bs). pid (proc k i) = int i"
    and "endormi_tail k = Some (last (t # bs))"
    and "insert_mort t (upd t (\<lambda>p. p\<lparr>suiv := None\<rparr>) (upd (last (q # ys)) (\<lambda>p. p\<lparr>suiv := suiv (proc k t)\<rparr>)
      (if bs = [] then k\<lparr>endormi_tail := Some (last (q # ys))\<rparr> else k))) = ret k'"
    and "suiv (proc k' t) = None"
  shows "sleep_del_loop (int t) p q k = ret k'"
  using assms
proof (induction ys arbitrary: p q)
  case Nil
  have d: "distinct (t # bs)" using lpath_distinct [OF Nil(1)] by simp
  obtain z where z: "endormi_tail k = Some z" "pid (proc k z) = int z" "int t = int z \<longleftrightarrow> bs = []"
    using Nil(2,3) d last_in_set [of "t # bs"] by (cases bs rule: rev_cases) auto
  have p: "p = Some t" "pid (proc k t) = int t" using Nil(1,2) by auto
  have "sleep_del_loop (int t) None t k' = ret k'" by (subst sleep_del_loop.simps) simp
  moreover have "insert_mort t (upd t (\<lambda>p. p\<lparr>suiv := None\<rparr>) (upd q (\<lambda>p. p\<lparr>suiv := suiv (proc k t)\<rparr>)
      (k\<lparr>endormi_tail := if bs = [] then Some q else Some z\<rparr>))) = ret k'"
    using Nil(4) z(1) by (cases "bs = []") simp_all
  ultimately show ?case
    using Nil(5) z p by (subst sleep_del_loop.simps) (cases "bs = []"; simp add: Let_def)
next
  case (Cons y ys)
  have "y \<noteq> t" using lpath_distinct [OF Cons.prems(1)] by auto
  moreover have "sleep_del_loop (int t) (suiv (proc k y)) y k = ret k'"
    by (rule Cons.IH) (use Cons.prems in auto)
  ultimately show ?case using Cons.prems(1,2) by (subst sleep_del_loop.simps) simp
qed

text \<open>A sleeper that was unlinked joins the dead processes.\<close>

lemma bury_sleeper:
  assumes inv: "kinv k a rs es ds" and t: "t \<in> set es" and set: "set es' = set es - {t}" "distinct es'"
    and es': "sleep_ok k1 es'" and same: "same_static k k1" "head_queue k1 = head_queue k"
    "dead_list k1 = dead_list k" "dead_tail k1 = dead_tail k" "same_links (- set es) k k1"
  shows "\<exists>k'. insert_mort t k1 = ret k' \<and> kinv k' a rs es' (ds @ [t]) \<and> state (proc k' t) = MORT \<and>
    suiv (proc k' t) = None \<and> process_alive k' = process_alive k \<and>
    (\<forall>p. premier_fils (proc k' p) = premier_fils (proc k p) \<and> dernier_fils (proc k' p) = dernier_fils (proc k p))"
proof -
  note i = kinvD [OF inv]
  note oks = lists_okD [OF i(1)]
  have tds: "t \<notin> set ds" using t oks(9) by auto
  have "dead_ok k1 ds"
    using i(12) oks(9) same(3,4,5) by (subst dead_ok_cong [of _ k]) (auto simp: same_links_def)
  then obtain k' where k': "insert_mort t k1 = ret k'" "dead_ok k' (ds @ [t])" "same_static k1 k'"
    "same_links (- set (t # ds)) k1 k'" "head_queue k' = head_queue k1"
    "endormi_list k' = endormi_list k1" "endormi_tail k' = endormi_tail k1"
    using insert_mort_ok [of k1 ds t] tds by blast
  note st = same_static_trans [OF same(1) k'(3)]
  have "sleep_ok k' es'"
    using es' k'(4,6,7) set(1) oks(9) by (subst sleep_ok_cong [of _ k1]) (auto simp: same_links_def)
  moreover have "ready_ok k' rs"
  proof (subst ready_ok_cong [of _ _ k])
    show "state (proc k' i) = state (proc k i) \<and> prio (proc k' i) = prio (proc k i)" if "i \<in> set rs" for i
    proof -
      have "i \<notin> set es" "i \<notin> set (t # ds)" using that oks(7,8) t by auto
      then show ?thesis using k'(4) same(5) same_staticD(2) [OF st] by (simp add: same_links_def)
    qed
  qed (use i(10) k'(5) same(2) in simp_all)
  moreover have "distinct (rs @ es' @ ds @ [t])" using oks(4-9) set t by auto
  moreover have "\<forall>i\<in>set (rs @ es' @ ds @ [t]). i < PROCESS_TABLE_SIZE \<and> pid (proc k' i) = int i"
    using oks(10,11) set(1) t same_staticD(1) [OF st] by auto
  moreover have "a \<noteq> t" using i(4) t by auto
  then have "state (proc k' a) = state (proc k a)"
    using i(4,5) k'(4) same(5) by (simp add: same_links_def)
  ultimately have "kinv k' a rs es' (ds @ [t])"
    using i set t k'(2) same_staticD [OF st] by (auto simp: kinv_def lists_ok_def running_def)
  moreover have "state (proc k' t) = MORT" using k'(2) by (simp add: dead_ok_def)
  moreover have "suiv (proc k' t) = None"
    using k'(2) lpath_last [of "\<lambda>i. suiv (proc k' i)" "dead_list k'" "ds @ [t]"] by (simp add: dead_ok_def)
  ultimately show ?thesis using k'(1) same_staticD [OF st] by auto
qed

text \<open>
  A sleeper dies, but the value is 0 only when it was the first of the list: \<open>sleep_del\<close>
  returns -1 for the others although it has removed them, and so does \<open>kill\<close>.
\<close>

lemma kill_sleeper:
  assumes inv: "kinv k a rs es ds" and t: "t \<in> set es" "t \<noteq> 0"
  shows "\<exists>k'. kill (int t) k = ret (if t = hd es then 0 else -1, k') \<and>
    kinv k' a rs (remove1 t es) (ds @ [t]) \<and> state (proc k' t) = MORT \<and> process_alive k' = process_alive k \<and>
    (\<forall>p. premier_fils (proc k' p) = premier_fils (proc k p) \<and> dernier_fils (proc k' p) = dernier_fils (proc k p))"
proof -
  note i = kinvD [OF inv]
  note oks = lists_okD [OF i(1)]
  have rep: "queue_rep (head_queue k) rs" using i(10) by (simp add: ready_ok_def)
  have nrs: "\<forall>i\<in>set rs. pid (proc k i) \<noteq> int t" using t(1) oks(7,11) by fastforce
  have path: "lpath (\<lambda>i. suiv (proc k i)) (endormi_list k) es" and tl: "endormi_tail k = last_opt es"
    using i(11) by (simp_all add: sleep_ok_def)
  have "t < PROCESS_TABLE_SIZE" "t \<noteq> a" using t oks(10) i(4) by auto
  then have kill: "kill (int t) k =
      bindr (sleep_del (int t) k) (\<lambda>(v, k2). if v = 0 then ret (0, k2) else ret (-1, k2))"
    using t(2) i(7,9) kill_queue_other [OF rep nrs] by (simp add: kill_def)
  have pids: "\<forall>i\<in>set es. pid (proc k i) = int i" using oks(11) by auto
  obtain h es1 where es: "es = h # es1" using t(1) by (cases es) auto
  have set: "set (remove1 t es) = set es - {t}" "distinct (remove1 t es)" using oks(5) by auto
  show ?thesis
  proof (cases "h = t")
    case True
    define k1 where "k1 = upd h (\<lambda>p. p\<lparr>suiv := None\<rparr>)
      ((if endormi_list k = endormi_tail k then k\<lparr>endormi_tail := None\<rparr> else k)
        \<lparr>endormi_list := suiv (proc k h)\<rparr>)"
    have "sleep_ok k1 es1" using sleep_ok_drop_first [OF _ k1_def, of es1] i(11) es by simp
    then have "sleep_ok k1 (remove1 t es)" using es True by simp
    moreover have "same_static k k1" "same_links (- set es) k k1"
      using t(1) True by (auto simp: k1_def same_static_def same_links_def)
    ultimately obtain k' where k': "insert_mort t k1 = ret k'" "kinv k' a rs (remove1 t es) (ds @ [t])"
      "state (proc k' t) = MORT" "process_alive k' = process_alive k"
      "\<forall>p. premier_fils (proc k' p) = premier_fils (proc k p) \<and> dernier_fils (proc k' p) = dernier_fils (proc k p)"
      using bury_sleeper [OF inv t(1) set, of k1] by (auto simp: k1_def)
    have "sleep_del (int t) k = ret (0, k')"
      using path pids es True k'(1) by (auto simp: sleep_del_def k1_def Let_def)
    then show ?thesis using kill k' es True by simp
  next
    case False
    then obtain as bs where ab: "es = as @ t # bs" "as \<noteq> []"
      using t(1) es by (metis append_Nil list.sel(1) split_list)
    then obtain ys where as: "as = h # ys" using es by (cases as) auto
    define k1 where "k1 = upd t (\<lambda>p. p\<lparr>suiv := None\<rparr>) (upd (last as) (\<lambda>p. p\<lparr>suiv := suiv (proc k t)\<rparr>)
      (if bs = [] then k\<lparr>endormi_tail := Some (last as)\<rparr> else k))"
    have rm: "remove1 t es = as @ bs" using oks(5) ab by (simp add: remove1_append)
    have "sleep_ok k1 (remove1 t es)"
      unfolding rm by (rule sleep_ok_drop_inner [OF _ ab(2) k1_def]) (use i(11) ab in simp)
    moreover have "last as \<in> set es" using ab by simp
    then have "same_static k k1" "same_links (- set es) k k1"
      using t(1) by (auto simp: k1_def same_static_def same_links_def)
    ultimately obtain k' where k': "insert_mort t k1 = ret k'" "kinv k' a rs (remove1 t es) (ds @ [t])"
      "state (proc k' t) = MORT" "suiv (proc k' t) = None" "process_alive k' = process_alive k"
      "\<forall>p. premier_fils (proc k' p) = premier_fils (proc k p) \<and> dernier_fils (proc k' p) = dernier_fils (proc k p)"
      using bury_sleeper [OF inv t(1) set, of k1] by (auto simp: k1_def)
    have "sleep_del_loop (int t) (suiv (proc k h)) h k = ret k'"
      by (rule sleep_del_loop_found [of _ _ ys _ bs])
        (use path pids tl ab as k' in \<open>auto simp: k1_def last_opt_def\<close>)
    then have "sleep_del (int t) k = ret (-1, k')"
      using path pids es False by (auto simp: sleep_del_def)
    then show ?thesis using kill k' es False by auto
  qed
qed

subsection \<open>Listing the queue\<close>

lemma display_queue_ok:
  assumes "queue_rep (head_queue k) rs"
  shows "display_queue normal k =
    ret (map (\<lambda>i. (name (proc k i), sint (prio (proc k i)))) (if normal then rs else rev rs))"
proof -
  have each: "list_each display_body xs (out, k) =
      ret (Inr (out @ map (\<lambda>i. (name (proc k i), sint (prio (proc k i)))) xs, k))" for xs out
    by (induction xs arbitrary: out) (auto simp: display_body_def)
  have "queue_for_each (head_queue \<circ> snd) display_body ([], k) = list_each display_body rs ([], k)"
    using assms by (intro queue_for_each_rep) (auto simp: display_body_def)
  moreover have "queue_for_each_prev (head_queue \<circ> snd) display_body ([], k) = list_each display_body (rev rs) ([], k)"
    using assms by (intro queue_for_each_prev_rep) (auto simp: display_body_def)
  ultimately show ?thesis by (simp add: display_queue_def each)
qed

end
