(* ===== verification/Proc_Life.thy ===== *)
theory Proc_Life
  imports Proc_Calls
begin

text \<open>
  The life of a process in proc.c: its creation by \<open>start\<close>, its end in \<open>fin_processus\<close>, the
  collection of its exit value by \<open>waitpid\<close>, and the boot of the process table. The second part
  of the theory is the family tree of the processes, as far as these calls follow it.
\<close>

subsection \<open>The end of a process\<close>

text \<open>What the loop over the children leaves alone: everything but the lists and \<open>pere\<close>.\<close>

definition same_kin :: "kernel \<Rightarrow> kernel \<Rightarrow> bool" where
  "same_kin k k' \<longleftrightarrow>
     (\<forall>i. erase ((proc k i)\<lparr>pere := None\<rparr>) = erase ((proc k' i)\<lparr>pere := None\<rparr>)) \<and>
     actif k' = actif k \<and> nb_tick k' = nb_tick k \<and> process_alive k' = process_alive k \<and>
     cpu_regs k' = cpu_regs k \<and> exit_param k' = exit_param k \<and> head_queue k' = head_queue k \<and>
     endormi_list k' = endormi_list k \<and> endormi_tail k' = endormi_tail k"

lemma same_kin_refl [simp]: "same_kin k k"
  by (simp add: same_kin_def)

lemma same_kin_trans: "same_kin k k1 \<Longrightarrow> same_kin k1 k2 \<Longrightarrow> same_kin k k2"
  by (simp add: same_kin_def)

lemma same_kin_pere [simp]: "same_kin k (upd c (\<lambda>p. p\<lparr>pere := None\<rparr>) k)"
  by (simp add: same_kin_def)

lemma erase_pere: "erase p = erase q \<Longrightarrow> erase (p\<lparr>pere := r\<rparr>) = erase (q\<lparr>pere := r\<rparr>)"
proof -
  have "erase (x\<lparr>pere := r\<rparr>) = (erase x)\<lparr>pere := r\<rparr>" for x by (simp add: erase_def)
  then show "erase p = erase q \<Longrightarrow> erase (p\<lparr>pere := r\<rparr>) = erase (q\<lparr>pere := r\<rparr>)" by simp
qed

lemma same_static_kin:
  assumes "same_static k k'" and "head_queue k' = head_queue k" and "endormi_list k' = endormi_list k"
    and "endormi_tail k' = endormi_tail k"
  shows "same_kin k k'"
  using assms unfolding same_static_def same_kin_def by (blast intro: erase_pere)

lemma same_kinD:
  assumes "same_kin k k'"
  shows "pid (proc k' i) = pid (proc k i)" "prio (proc k' i) = prio (proc k i)"
    "premier_fils (proc k' i) = premier_fils (proc k i)" "regs (proc k' i) = regs (proc k i)"
    "frere_droit (proc k' i) = frere_droit (proc k i)" "retval (proc k' i) = retval (proc k i)"
    "retval_fils (proc k' i) = retval_fils (proc k i)"
    "actif k' = actif k" "nb_tick k' = nb_tick k" "process_alive k' = process_alive k"
    "cpu_regs k' = cpu_regs k" "exit_param k' = exit_param k" "head_queue k' = head_queue k"
    "endormi_list k' = endormi_list k" "endormi_tail k' = endormi_tail k"
    "dernier_fils (proc k' i) = dernier_fils (proc k i)"
proof -
  have "erase ((proc k' i)\<lparr>pere := None\<rparr>) = erase ((proc k i)\<lparr>pere := None\<rparr>)"
    using assms by (simp add: same_kin_def)
  from erase_eqD [OF this] show "pid (proc k' i) = pid (proc k i)" "prio (proc k' i) = prio (proc k i)"
    "premier_fils (proc k' i) = premier_fils (proc k i)" "regs (proc k' i) = regs (proc k i)"
    "frere_droit (proc k' i) = frere_droit (proc k i)" "retval (proc k' i) = retval (proc k i)"
    "retval_fils (proc k' i) = retval_fils (proc k i)" "dernier_fils (proc k' i) = dernier_fils (proc k i)"
    by simp_all
qed (use assms in \<open>simp_all add: same_kin_def\<close>)

text \<open>The zombies among the children, in the order of the list.\<close>

abbreviation zombies :: "kernel \<Rightarrow> nat list \<Rightarrow> nat list" where
  "zombies k cs \<equiv> filter (\<lambda>c. state (proc k c) = ZOMBIE) cs"

lemma fin_children_ok:
  assumes "lpath (\<lambda>i. frere_droit (proc k i)) p cs" and "dead_ok k ds"
  shows "\<exists>k'. fin_children_loop p k = ret k' \<and> dead_ok k' (ds @ zombies k cs) \<and> same_kin k k' \<and>
    same_links (- set (ds @ zombies k cs)) k k' \<and>
    (\<forall>i. pere (proc k' i) = (if i \<in> set cs then None else pere (proc k i)))"
  using assms
proof (induction cs arbitrary: p k ds)
  case Nil
  then show ?case by (subst fin_children_loop.simps) (simp add: same_links_def)
next
  case (Cons c cs)
  let ?k1 = "upd c (\<lambda>p. p\<lparr>pere := None\<rparr>) k"
  have d: "c \<notin> set cs" using lpath_distinct [OF Cons.prems(1)] by simp
  have path: "p = Some c" "lpath (\<lambda>i. frere_droit (proc k i)) (frere_droit (proc k c)) cs"
    using Cons.prems(1) by simp_all
  have dead1: "dead_ok ?k1 ds"
    using Cons.prems(2) by (subst dead_ok_cong [of _ k]) (auto simp: same_links_def)
  show ?case
  proof (cases "state (proc k c) = ZOMBIE")
    case True
    have cds: "c \<notin> set ds" using True Cons.prems(2) by (auto simp: dead_ok_def)
    obtain k2 where k2: "insert_mort c ?k1 = ret k2" "dead_ok k2 (ds @ [c])" "same_static ?k1 k2"
      "same_links (- set (c # ds)) ?k1 k2" "head_queue k2 = head_queue ?k1"
      "endormi_list k2 = endormi_list ?k1" "endormi_tail k2 = endormi_tail ?k1"
      "\<forall>i\<in>set ds. state (proc k2 i) = state (proc ?k1 i)"
      using insert_mort_ok [OF dead1 cds] by blast
    have kin: "same_kin k k2"
      using same_kin_trans [OF same_kin_pere same_static_kin [OF k2(3,5,6,7)]] .
    have "lpath (\<lambda>i. frere_droit (proc k2 i)) (frere_droit (proc k c)) cs"
      using path(2) same_kinD(5) [OF kin] by simp
    from Cons.IH [OF this k2(2)] obtain k' where k': "fin_children_loop (frere_droit (proc k c)) k2 = ret k'"
      "dead_ok k' ((ds @ [c]) @ zombies k2 cs)" "same_kin k2 k'"
      "same_links (- set ((ds @ [c]) @ zombies k2 cs)) k2 k'"
      "\<forall>i. pere (proc k' i) = (if i \<in> set cs then None else pere (proc k2 i))" by blast
    have "state (proc k2 i) = ZOMBIE \<longleftrightarrow> state (proc k i) = ZOMBIE" if "i \<in> set cs" for i
    proof (cases "i \<in> set ds")
      case True
      then show ?thesis using k2(8) by (simp add: upd_def)
    next
      case False
      moreover have "i \<noteq> c" using that d by auto
      ultimately show ?thesis using k2(4) by (auto simp: same_links_def)
    qed
    then have z: "zombies k2 cs = zombies k cs" by (intro filter_cong) auto
    have "same_links (- set (ds @ zombies k (c # cs))) k k'"
      using k2(4) k'(4) True by (auto simp: same_links_def z)
    moreover have "pere (proc k2 i) = (if i = c then None else pere (proc k i))" for i
      using same_staticD(4) [OF k2(3)] by simp
    moreover have "fin_children_loop p k = ret k'"
      using path(1) True k2(1) k'(1) by (subst fin_children_loop.simps) (simp add: Let_def)
    ultimately show ?thesis
      using k'(2,5) same_kin_trans [OF kin k'(3)] True by (auto simp: z)
  next
    case False
    have "lpath (\<lambda>i. frere_droit (proc ?k1 i)) (frere_droit (proc k c)) cs"
      using path(2) by (subst lpath_cong [of _ _ "\<lambda>i. frere_droit (proc k i)"]) auto
    from Cons.IH [OF this dead1] obtain k' where k': "fin_children_loop (frere_droit (proc k c)) ?k1 = ret k'"
      "dead_ok k' (ds @ zombies ?k1 cs)" "same_kin ?k1 k'"
      "same_links (- set (ds @ zombies ?k1 cs)) ?k1 k'"
      "\<forall>i. pere (proc k' i) = (if i \<in> set cs then None else pere (proc ?k1 i))" by blast
    have z: "zombies ?k1 cs = zombies k cs" by (rule filter_cong) (use d in auto)
    have "fin_children_loop p k = ret k'"
      using path(1) False k'(1) by (subst fin_children_loop.simps) (simp add: Let_def)
    moreover have "same_links (- set (ds @ zombies k (c # cs))) k k'"
      using k'(4) False by (auto simp: same_links_def z split: if_splits)
    moreover have "dead_ok k' (ds @ zombies k (c # cs))" using k'(2) False unfolding z by simp
    ultimately show ?thesis
      using k'(5) same_kin_trans [OF same_kin_pere k'(3)] by auto
  qed
qed

lemma fin_unlink_zombie: "state (proc k a) = ZOMBIE \<Longrightarrow> fin_unlink_loop a prec cur k = ret k"
  by (subst fin_unlink_loop.simps) (simp split: option.split)

text \<open>
  A process that has a father ends: it becomes a zombie that keeps its exit value, its zombie
  children die, its other children lose their father, and the last process of the queue runs.
\<close>

lemma exit_ok:
  assumes inv: "kinv k a (rs @ [b]) es ds" and f: "pere (proc k a) = Some f"
    and path: "lpath (\<lambda>i. frere_droit (proc k i)) (premier_fils (proc k a)) cs" and acs: "a \<notin> set cs"
    and pids: "\<forall>c\<in>set cs. c < PROCESS_TABLE_SIZE \<and> pid (proc k c) = int c"
  shows "\<exists>k'. exit v k = ret k' \<and> kinv k' b rs es (ds @ zombies k cs) \<and>
    state (proc k' a) = ZOMBIE \<and> retval (proc k' a) = Some a \<and> exit_param k' a = v \<and>
    process_alive k' = process_alive k - 1 \<and> cpu_regs k' = regs (proc k b) \<and>
    (\<forall>c. pere (proc k' c) = (if c \<in> set cs then None else pere (proc k c))) \<and>
    (\<forall>c. frere_droit (proc k' c) = frere_droit (proc k c) \<and>
         premier_fils (proc k' c) = premier_fils (proc k c) \<and>
         dernier_fils (proc k' c) = dernier_fils (proc k c) \<and> pid (proc k' c) = pid (proc k c)) \<and>
    prios k' = prios k"
proof -
  note i = kinvD [OF inv]
  note oks = lists_okD [OF i(1)]
  define k0 where "k0 = upd a (\<lambda>p. p\<lparr>retval := Some a\<rparr>) (k\<lparr>exit_param := (exit_param k)(a := v)\<rparr>)"
  define k2 where "k2 = upd f (\<lambda>p. p\<lparr>pid_ret_fils := int a\<rparr>) (upd a (\<lambda>p. p\<lparr>state := ZOMBIE\<rparr>) k0)"
  have st2: "state (proc k2 i) = (if i = a then ZOMBIE else state (proc k i))" for i
    by (simp add: k2_def k0_def)
  have fld2: "pid (proc k2 i) = pid (proc k i)" "prio (proc k2 i) = prio (proc k i)"
    "suiv (proc k2 i) = suiv (proc k i)" "wake k2 i = wake k i" "regs (proc k2 i) = regs (proc k i)"
    "frere_droit (proc k2 i) = frere_droit (proc k i)" "premier_fils (proc k2 i) = premier_fils (proc k i)"
    "pere (proc k2 i) = pere (proc k i)" "dernier_fils (proc k2 i) = dernier_fils (proc k i)" for i
    by (simp_all add: k2_def k0_def)
  have glob2: "head_queue k2 = head_queue k" "actif k2 = Some a" "process_alive k2 = process_alive k"
    "endormi_list k2 = endormi_list k" "endormi_tail k2 = endormi_tail k" "dead_list k2 = dead_list k"
    "dead_tail k2 = dead_tail k" "exit_param k2 = (exit_param k)(a := v)" "nb_tick k2 = nb_tick k"
    using i(7) by (simp_all add: k2_def k0_def)
  have ret2: "retval (proc k2 a) = Some a" by (simp add: k2_def k0_def)
  have lnk: "same_links (- {a}) k k2" by (simp add: same_links_def st2 fld2)
  have dead2: "dead_ok k2 ds"
    using i(5,12) lnk glob2 by (subst dead_ok_cong [of _ k]) (auto simp: same_links_def)
  have path2: "lpath (\<lambda>i. frere_droit (proc k2 i)) (premier_fils (proc k2 a)) cs"
    using path by (simp add: fld2)
  have z2: "zombies k2 cs = zombies k cs" by (rule filter_cong) (use acs in \<open>auto simp: st2\<close>)
  obtain k3 where k3: "fin_children_loop (premier_fils (proc k2 a)) k2 = ret k3"
    "dead_ok k3 (ds @ zombies k cs)" "same_kin k2 k3" "same_links (- set (ds @ zombies k cs)) k2 k3"
    "\<forall>i. pere (proc k3 i) = (if i \<in> set cs then None else pere (proc k i))"
    using fin_children_ok [OF path2 dead2] z2 by (auto simp: fld2)
  note kin = same_kinD [OF k3(3)]
  have zst: "c \<in> set (zombies k cs) \<Longrightarrow> c \<notin> set (rs @ [b] @ es @ ds)" for c
    using oks(1,2,3) by (auto simp: ready_ok_def sleep_ok_def dead_ok_def)
  have ast: "state (proc k3 a) = ZOMBIE" using k3(4) i(5) acs by (simp add: same_links_def st2)
  have st3: "state (proc k3 i) = state (proc k i) \<and> suiv (proc k3 i) = suiv (proc k i) \<and> wake k3 i = wake k i"
    if "i \<in> set (rs @ [b] @ es)" for i
  proof -
    have "i \<noteq> a" "i \<notin> set ds" "i \<notin> set (zombies k cs)" using that i(3,4) oks(8,9) zst by auto
    then show ?thesis using k3(4) by (simp add: same_links_def st2 fld2)
  qed
  have rdy3: "ready_ok k3 (rs @ [b])"
    using i(10) st3 kin(2,13) glob2(1) by (subst ready_ok_cong [of _ _ k]) (auto simp: fld2)
  have sl3: "sleep_ok k3 es"
    using i(11) st3 kin(14,15) glob2 by (subst sleep_ok_cong [of _ k]) (auto simp: same_links_def)
  obtain q where q: "extract_activable k3 = ret (Some b, upd b (\<lambda>p. p\<lparr>suiv := None\<rparr>) (k3\<lparr>head_queue := q\<rparr>))"
    "ready_ok (upd b (\<lambda>p. p\<lparr>suiv := None\<rparr>) (k3\<lparr>head_queue := q\<rparr>)) rs"
    using extract_activable_ok [OF rdy3] by blast
  define k5 where "k5 = upd b (\<lambda>p. p\<lparr>suiv := None\<rparr>) (k3\<lparr>head_queue := q\<rparr>)"
  define k' where "k' = ctx_sw a b (k5\<lparr>process_alive := process_alive k5 - 1, actif := Some b\<rparr>)"
  have ab: "b \<noteq> a" "b < PROCESS_TABLE_SIZE" "pid (proc k b) = int b" using i(3) oks(10,11) by auto
  have "fin_processus k0 = ret k'"
  proof -
    have "actif k0 = Some a" "pere (proc k0 a) = Some f" "pid (proc (upd a (\<lambda>p. p\<lparr>state := ZOMBIE\<rparr>) k0) a) = int a"
      using f i(7,9) by (simp_all add: k0_def)
    moreover have "pere (proc k3 a) = Some f" using k3(5) acs f by simp
    moreover have "pid (proc k3 a) = int a" "pid (proc k3 b) = int b" using kin(1) i(9) ab by (simp_all add: fld2)
    ultimately show ?thesis
      using k3(1) q(1) ab i(8) unfolding fin_processus_def
      by (simp add: Let_def k2_def [symmetric] fin_unlink_zombie [OF ast] k5_def [symmetric] k'_def
          table_index_pid) (simp add: k5_def table_index_pid)
  qed
  then have "exit v k = ret k'" using i(7) by (simp add: exit_def k0_def)
  moreover have "kinv k' b rs es (ds @ zombies k cs)"
  proof -
    let ?k = "k5\<lparr>process_alive := process_alive k5 - 1, actif := Some b\<rparr>"
    have "ready_ok ?k rs" using q(2) by (subst ready_ok_cong [of _ _ k5]) (auto simp: k5_def)
    moreover have "b \<notin> set es" "b \<notin> set (ds @ zombies k cs)" using oks(7,8) zst [of b] by auto
    then have "sleep_ok ?k es" "dead_ok ?k (ds @ zombies k cs)"
      using sl3 k3(2) sleep_ok_cong [of es k3 ?k] dead_ok_cong [of "ds @ zombies k cs" k3 ?k]
      by (auto simp: same_links_def k5_def)
    moreover have "distinct (rs @ es @ ds @ zombies k cs)"
      using oks(4-9) zst lpath_distinct [OF path] by (auto simp: disjoint_iff)
    moreover have "\<forall>i\<in>set (rs @ es @ ds @ zombies k cs). i < PROCESS_TABLE_SIZE \<and> pid (proc ?k i) = int i"
      using oks(10,11) pids kin(1) by (auto simp: k5_def fld2)
    ultimately have "lists_ok ?k rs es (ds @ zombies k cs)" by (simp add: lists_ok_def)
    moreover have "state (proc ?k b) = ACTIVABLE" using rdy3 by (simp add: k5_def ready_ok_def)
    ultimately show ?thesis
      using ab oks(4) \<open>b \<notin> set es\<close> \<open>b \<notin> set (ds @ zombies k cs)\<close> kin(1)
      by (simp add: k'_def kinv_def running_def) (simp add: k5_def fld2)
  qed
  moreover have "state (proc k' a) = ZOMBIE" using ast ab by (simp add: k'_def k5_def)
  moreover have "retval (proc k' a) = Some a" "exit_param k' a = v"
    "process_alive k' = process_alive k - 1" "cpu_regs k' = regs (proc k b)"
    "\<forall>c. pere (proc k' c) = (if c \<in> set cs then None else pere (proc k c))"
    using ab ret2 kin glob2 k3(5) by (auto simp: k'_def k5_def ctx_sw_def Let_def fld2)
  moreover have "\<forall>c. frere_droit (proc k' c) = frere_droit (proc k c) \<and>
      premier_fils (proc k' c) = premier_fils (proc k c) \<and>
      dernier_fils (proc k' c) = dernier_fils (proc k c) \<and> pid (proc k' c) = pid (proc k c)"
    "prios k' = prios k"
    using kin by (auto simp: k'_def k5_def ctx_sw_def Let_def fld2 prios_def fun_eq_iff)
  ultimately show ?thesis by blast
qed

text \<open>A process whose father has ended cannot end: the code follows its NULL \<open>pere\<close>.\<close>

lemma exit_orphan:
  assumes inv: "kinv k a rs es ds" and f: "pere (proc k a) = None"
    and path: "lpath (\<lambda>i. frere_droit (proc k i)) (premier_fils (proc k a)) cs"
  shows "exit v k = err Null_Deref"
proof -
  note i = kinvD [OF inv]
  define k0 where "k0 = upd a (\<lambda>p. p\<lparr>retval := Some a\<rparr>) (k\<lparr>exit_param := (exit_param k)(a := v)\<rparr>)"
  have k0: "frere_droit (proc k0 i) = frere_droit (proc k i)" "premier_fils (proc k0 i) = premier_fils (proc k i)"
    "pere (proc k0 i) = pere (proc k i)" "actif k0 = Some a" for i
    using i(7) by (simp_all add: k0_def)
  have "dead_ok k0 ds"
    using i(12) by (subst dead_ok_cong [of _ k]) (auto simp: same_links_def k0_def)
  then obtain k2 where k2: "insert_mort a k0 = ret k2" "dead_ok k2 (ds @ [a])" "same_static k0 k2"
    using insert_mort_ok [of k0 ds a] i(5) by blast
  have "lpath (\<lambda>i. frere_droit (proc k2 i)) (premier_fils (proc k2 a)) cs"
    using path k0 same_staticD [OF k2(3)] by simp
  then obtain k3 where k3: "fin_children_loop (premier_fils (proc k2 a)) k2 = ret k3"
    "\<forall>i. pere (proc k3 i) = (if i \<in> set cs then None else pere (proc k2 i))"
    using fin_children_ok [OF _ k2(2)] by blast
  have "pere (proc k3 a) = None" using k3(2) k0 f same_staticD [OF k2(3)] by simp
  then have "fin_processus k0 = err Null_Deref"
    using k0 f k2(1) k3(1) by (simp add: fin_processus_def)
  then show ?thesis using i(7) by (simp add: exit_def k0_def)
qed

subsection \<open>Creation\<close>

text \<open>The children of a process, as a list of process numbers.\<close>

definition children :: "kernel \<Rightarrow> nat \<Rightarrow> nat list \<Rightarrow> bool" where
  "children k p cs \<longleftrightarrow>
     lpath (\<lambda>i. frere_droit (proc k i)) (premier_fils (proc k p)) cs \<and>
     dernier_fils (proc k p) = last_opt cs"

text \<open>A process that has a first child has a last child: all that \<open>start\<close> needs of the tree.\<close>

definition fam_ok :: "kernel \<Rightarrow> bool" where
  "fam_ok k \<longleftrightarrow> (\<forall>p. premier_fils (proc k p) \<noteq> None \<longrightarrow> dernier_fils (proc k p) \<noteq> None)"

abbreviation forget_kids :: "process \<Rightarrow> process" where
  "forget_kids p \<equiv> p\<lparr>premier_fils := None, dernier_fils := None, frere_droit := None\<rparr>"

definition same_but_kids :: "kernel \<Rightarrow> kernel \<Rightarrow> bool" where
  "same_but_kids k k' \<longleftrightarrow>
     (\<forall>i. forget_kids (proc k i) = forget_kids (proc k' i)) \<and>
     k\<lparr>process_tab := process_tab k'\<rparr> = k'"

lemma forget_kidsD:
  assumes "forget_kids p = forget_kids q"
  shows "pid p = pid q" "name p = name q" "state p = state q" "regs p = regs q"
    "exec_stack p = exec_stack q" "time_to_wake p = time_to_wake q" "prio p = prio q" "suiv p = suiv q"
    "pere p = pere q" "retval p = retval q"
  using assms by (cases p; cases q; simp)+

lemma same_but_kidsD:
  assumes "same_but_kids k k'"
  shows "pid (proc k' i) = pid (proc k i)" "state (proc k' i) = state (proc k i)"
    "regs (proc k' i) = regs (proc k i)" "exec_stack (proc k' i) = exec_stack (proc k i)"
    "wake k' i = wake k i" "prio (proc k' i) = prio (proc k i)" "suiv (proc k' i) = suiv (proc k i)"
    "pere (proc k' i) = pere (proc k i)"
    "actif k' = actif k" "process_alive k' = process_alive k" "head_queue k' = head_queue k"
    "endormi_list k' = endormi_list k" "endormi_tail k' = endormi_tail k" "dead_list k' = dead_list k"
    "dead_tail k' = dead_tail k" "nb_tick k' = nb_tick k" "cpu_regs k' = cpu_regs k"
proof -
  have "forget_kids (proc k' i) = forget_kids (proc k i)" using assms by (simp add: same_but_kids_def)
  from forget_kidsD [OF this] show "pid (proc k' i) = pid (proc k i)" "state (proc k' i) = state (proc k i)"
    "regs (proc k' i) = regs (proc k i)" "exec_stack (proc k' i) = exec_stack (proc k i)"
    "wake k' i = wake k i" "prio (proc k' i) = prio (proc k i)" "suiv (proc k' i) = suiv (proc k i)"
    "pere (proc k' i) = pere (proc k i)" by simp_all
next
  have "k' = k\<lparr>process_tab := process_tab k'\<rparr>" using assms by (simp add: same_but_kids_def)
  then show "actif k' = actif k" "process_alive k' = process_alive k" "head_queue k' = head_queue k"
    "endormi_list k' = endormi_list k" "endormi_tail k' = endormi_tail k" "dead_list k' = dead_list k"
    "dead_tail k' = dead_tail k" "nb_tick k' = nb_tick k" "cpu_regs k' = cpu_regs k"
    by (metis kernel.select_convs kernel.surjective kernel.update_convs(1))+
qed

lemma start_adopt_ok:
  assumes a: "actif k = Some a" and fam: "fam_ok k"
  shows "\<exists>k'. start_adopt n k = ret k' \<and> same_but_kids k k' \<and> fam_ok k' \<and>
    (\<forall>p. p \<noteq> a \<longrightarrow> premier_fils (proc k' p) = premier_fils (proc k p) \<and>
                      dernier_fils (proc k' p) = dernier_fils (proc k p)) \<and>
    dernier_fils (proc k' a) = Some n \<and>
    premier_fils (proc k' a) = (if premier_fils (proc k a) = None then Some n else premier_fils (proc k a)) \<and>
    (\<forall>i. frere_droit (proc k' i) =
      (if premier_fils (proc k a) \<noteq> None \<and> dernier_fils (proc k a) = Some i then Some n
       else frere_droit (proc k i)))"
proof (cases "premier_fils (proc k a)")
  case None
  then show ?thesis using assms by (simp add: start_adopt_def same_but_kids_def fam_ok_def upd_def)
next
  case (Some c)
  then obtain d where d: "dernier_fils (proc k a) = Some d" using fam by (auto simp: fam_ok_def)
  show ?thesis
    using a Some d fam by (cases "a = d") (auto simp: start_adopt_def same_but_kids_def fam_ok_def upd_def)
qed

lemma children_adopt:
  assumes ch: "children k a cs" and n: "n \<notin> set cs" "frere_droit (proc k n) = None"
    and last: "dernier_fils (proc k' a) = Some n"
    and first: "premier_fils (proc k' a) = (if premier_fils (proc k a) = None then Some n else premier_fils (proc k a))"
    and br: "\<forall>i. frere_droit (proc k' i) =
      (if premier_fils (proc k a) \<noteq> None \<and> dernier_fils (proc k a) = Some i then Some n
       else frere_droit (proc k i))"
  shows "children k' a (cs @ [n])"
proof (cases "cs = []")
  case True
  then show ?thesis using ch n(2) last first br by (simp add: children_def)
next
  case False
  have path: "lpath (\<lambda>i. frere_droit (proc k i)) (premier_fils (proc k a)) (cs @ [])"
    using ch by (simp add: children_def)
  have nn: "premier_fils (proc k a) \<noteq> None" "dernier_fils (proc k a) = Some (last cs)"
    using ch False by (cases cs; auto simp: children_def last_opt_def)+
  have "last cs \<noteq> n" using n(1) False by auto
  then have "(\<lambda>i. frere_droit (proc k' i)) = (\<lambda>i. frere_droit (proc k i))(last cs := Some n, n := hd_opt [])"
    using br nn n(2) by (auto simp: fun_eq_iff)
  then have "lpath (\<lambda>i. frere_droit (proc k' i)) (premier_fils (proc k a)) (cs @ [n])"
    using lpath_insert [OF path False] lpath_distinct [OF path] n(1) by simp
  then show ?thesis using first last nn by (simp add: children_def)
qed

text \<open>
  The slot of a new process: a dead one if there is one, otherwise the slot whose number is
  the count of the living processes.
\<close>

definition next_slot :: "kernel \<Rightarrow> nat list \<Rightarrow> nat" where
  "next_slot k ds = (if ds = [] then unat (process_alive k) else hd ds)"

lemma start_index_ok:
  assumes dead: "dead_ok k ds" and n: "next_slot k ds < PROCESS_TABLE_SIZE"
    and pids: "\<forall>d\<in>set ds. pid (proc k d) = int d"
  shows "\<exists>k1. start_index k = ret (next_slot k ds, k1) \<and> dead_ok k1 (tl ds) \<and>
    process_tab k1 = process_tab k \<and> head_queue k1 = head_queue k \<and> endormi_list k1 = endormi_list k \<and>
    endormi_tail k1 = endormi_tail k \<and> actif k1 = actif k \<and> process_alive k1 = process_alive k \<and>
    nb_tick k1 = nb_tick k \<and> cpu_regs k1 = cpu_regs k"
proof (cases ds)
  case Nil
  have "unat (process_alive k) < 30" using n Nil by (simp add: next_slot_def PROCESS_TABLE_SIZE_def)
  then have "uint (process_alive k) < 30" by (metis of_nat_less_iff of_nat_numeral uint_nat)
  then have "sint (process_alive k) = int (unat (process_alive k))"
    by (subst sint_uint, subst signed_take_bit_int_eq_self)
      (auto intro: order_trans [OF _ uint_ge_0])
  moreover define m where "m = unat (process_alive k)"
  ultimately have "sint (process_alive k) = int m" and "m < PROCESS_TABLE_SIZE"
    using n Nil by (simp_all add: next_slot_def)
  then have "start_index k = ret (m, k)"
    using Nil dead extract_mort_none [of k] by (simp add: start_index_def)
  then show ?thesis using Nil dead by (simp add: next_slot_def m_def)
next
  case (Cons d ds')
  then obtain k1 where "extract_mort k = (Some d, k1)" "dead_ok k1 ds'" "process_tab k1 = process_tab k"
    "head_queue k1 = head_queue k" "endormi_list k1 = endormi_list k" "endormi_tail k1 = endormi_tail k"
    "actif k1 = actif k" "process_alive k1 = process_alive k" "nb_tick k1 = nb_tick k"
    "cpu_regs k1 = cpu_regs k"
    using extract_mort_ok [of k d ds'] dead by blast
  then show ?thesis using Cons n pids by (simp add: start_index_def next_slot_def)
qed

lemma start_fill_simps [simp]:
  "head_queue (start_fill ad n pt pr nm arg k) = head_queue k"
  "endormi_list (start_fill ad n pt pr nm arg k) = endormi_list k"
  "endormi_tail (start_fill ad n pt pr nm arg k) = endormi_tail k"
  "dead_list (start_fill ad n pt pr nm arg k) = dead_list k"
  "dead_tail (start_fill ad n pt pr nm arg k) = dead_tail k"
  "actif (start_fill ad n pt pr nm arg k) = actif k"
  "process_alive (start_fill ad n pt pr nm arg k) = process_alive k"
  "nb_tick (start_fill ad n pt pr nm arg k) = nb_tick k"
  "cpu_regs (start_fill ad n pt pr nm arg k) = cpu_regs k"
  "i \<noteq> n \<Longrightarrow> proc (start_fill ad n pt pr nm arg k) i = proc k i"
  "state (proc (start_fill ad n pt pr nm arg k) i) = state (proc k i)"
  "wake (start_fill ad n pt pr nm arg k) i = wake k i"
  by (simp_all add: start_fill_def)

text \<open>The entry frame of a new stack: the code, the return address and the argument.\<close>

definition entry_frame :: "addresses \<Rightarrow> nat \<Rightarrow> u32 \<Rightarrow> u32 \<Rightarrow> process \<Rightarrow> bool" where
  "entry_frame ad n pt arg p \<longleftrightarrow>
     regs p ! 1 = exec_stack_at ad n + 4 * of_nat (STACK_SIZE_INTEGER - 3) \<and>
     exec_stack p (STACK_SIZE_INTEGER - 3) = pt \<and>
     exec_stack p (STACK_SIZE_INTEGER - 2) = fin_processus_at ad \<and>
     exec_stack p (STACK_SIZE_INTEGER - 1) = arg"

lemma start_fill_frame:
  "length (regs (proc k n)) = 5 \<Longrightarrow> entry_frame ad n pt arg (proc (start_fill ad n pt pr nm arg k) n)"
  by (simp add: entry_frame_def start_fill_def STACK_SIZE_INTEGER_def)

lemma fam_ok_fill:
  assumes "process_tab k1 = process_tab k" and "fam_ok k"
  shows "fam_ok (start_fill ad n pt pr nm arg k1)"
  using assms by (simp add: fam_ok_def start_fill_def)

text \<open>
  \<open>start\<close> on a well-formed kernel whose next slot is free: the new process is ready, it is the
  last child of the running one, and its stack and registers make the first switch to it enter
  \<open>pt_func\<close> and return into \<open>fin_processus\<close>.
\<close>

lemma start_ok:
  assumes inv: "kinv k a rs es ds" and fam: "fam_ok k" and n: "n = next_slot k ds"
    and free: "0 < n" "n < PROCESS_TABLE_SIZE" "n \<notin> set (a # rs @ es)"
    and room: "process_alive k \<noteq> of_nat PROCESS_TABLE_SIZE" and ss: "ssize < 0xffffffff"
    and nm: "length nm < 15"
  shows "\<exists>k'. start ad pt ssize pr nm arg k = ret (int n, k') \<and>
    kinv k' a (pq_insert ((prios k)(n := word_of_int pr)) n rs) es (tl ds) \<and> fam_ok k' \<and>
    prios k' = (prios k)(n := word_of_int pr) \<and> process_alive k' = process_alive k + 1 \<and>
    pere (proc k' n) = Some a \<and>
    (length (regs (proc k n)) = 5 \<longrightarrow> entry_frame ad n pt arg (proc k' n)) \<and>
    (\<forall>cs. children k a cs \<and> n \<notin> set cs \<longrightarrow> children k' a (cs @ [n]) \<and> children k' n []) \<and>
    nb_tick k' = nb_tick k"
proof -
  note i = kinvD [OF inv]
  note oks = lists_okD [OF i(1)]
  obtain k1 where k1: "start_index k = ret (n, k1)" "dead_ok k1 (tl ds)" "process_tab k1 = process_tab k"
    "head_queue k1 = head_queue k" "endormi_list k1 = endormi_list k" "endormi_tail k1 = endormi_tail k"
    "actif k1 = actif k" "process_alive k1 = process_alive k" "nb_tick k1 = nb_tick k"
    using start_index_ok [OF i(12)] free(2) oks(11) unfolding n by auto
  define kf where "kf = start_fill ad n pt pr nm arg k1"
  have af: "actif kf = Some a" and famf: "fam_ok kf"
    using i(7) k1(7) fam_ok_fill [OF k1(3) fam] by (simp_all add: kf_def)
  obtain k2 where k2: "start_adopt n kf = ret k2" "same_but_kids kf k2" "fam_ok k2"
    "dernier_fils (proc k2 a) = Some n"
    "premier_fils (proc k2 a) = (if premier_fils (proc kf a) = None then Some n else premier_fils (proc kf a))"
    "\<forall>i. frere_droit (proc k2 i) =
      (if premier_fils (proc kf a) \<noteq> None \<and> dernier_fils (proc kf a) = Some i then Some n
       else frere_droit (proc kf i))"
    "\<forall>p. p \<noteq> a \<longrightarrow> premier_fils (proc k2 p) = premier_fils (proc kf p) \<and>
        dernier_fils (proc k2 p) = dernier_fils (proc kf p)"
    using start_adopt_ok [OF af famf] by blast
  note kd = same_but_kidsD [OF k2(2)]
  have nds: "n \<notin> set (tl ds)" using oks(6) n by (cases ds) (auto simp: next_slot_def)
  have old: "proc kf i = proc k i" if "i \<noteq> n" for i using that k1(3) by (simp add: kf_def)
  have pr2: "prios k2 = (prios k)(n := word_of_int pr)"
  proof
    fix i show "prios k2 i = ((prios k)(n := word_of_int pr)) i"
      using old [of i] by (cases "i = n") (simp_all add: prios_def kd kf_def start_fill_def)
  qed
  have keep: "suiv (proc k2 i) = suiv (proc k i)" "state (proc k2 i) = state (proc k i)"
    "wake k2 i = wake k i" "prio (proc k2 i) = prio (proc k i)" if "i \<noteq> n" for i
    using old [OF that] by (simp_all add: kd)
  have g2: "head_queue k2 = head_queue k" "endormi_list k2 = endormi_list k" "endormi_tail k2 = endormi_tail k"
    "actif k2 = Some a" "process_alive k2 = process_alive k" "dead_list k2 = dead_list k1"
    "dead_tail k2 = dead_tail k1" "nb_tick k2 = nb_tick k"
    using k1 i(7) by (simp_all add: kd kf_def)
  have ne: "i \<in> set rs \<Longrightarrow> i \<noteq> n" "i \<in> set es \<Longrightarrow> i \<noteq> n" "i \<in> set (tl ds) \<Longrightarrow> i \<noteq> n" for i
    using free(3) nds by auto
  have rdy: "ready_ok k2 rs"
    using i(10) keep ne g2 by (subst ready_ok_cong [of _ _ k]) auto
  have sl: "sleep_ok k2 es"
    using i(11) keep ne g2 by (subst sleep_ok_cong [of _ k]) (auto simp: same_links_def)
  have dd: "dead_ok k2 (tl ds)"
    using k1(2,3) keep ne g2 by (subst dead_ok_cong [of _ k1]) (auto simp: same_links_def)
  obtain q where q: "insert_activable n k2 = ret ((upd n set_activable k2)\<lparr>head_queue := q\<rparr>)"
    "ready_ok ((upd n set_activable k2)\<lparr>head_queue := q\<rparr>) (pq_insert (prios k2) n rs)"
    using insert_activable_ok [OF rdy] free(3) by auto
  define k' where "k' = (upd n set_activable k2)\<lparr>head_queue := q, process_alive := process_alive k2 + 1\<rparr>"
  have pid_n: "pid (proc k2 n) = int n" by (simp add: kd kf_def start_fill_def)
  have "\<not> (pr \<ge> MAX_PRIO \<and> pr < 0)" by (simp add: MAX_PRIO_def)
  then have "start ad pt ssize pr nm arg k = ret (int n, k')"
    using ss room k1(1) nm k2(1) q(1) free(1) pid_n
    by (simp add: start_def kf_def k'_def not_le)
  moreover have "kinv k' a (pq_insert ((prios k)(n := word_of_int pr)) n rs) es (tl ds)"
  proof -
    have "ready_ok k' (pq_insert (prios k2) n rs)"
      using q(2) by (subst ready_ok_cong [of _ _ "(upd n set_activable k2)\<lparr>head_queue := q\<rparr>"])
        (auto simp: k'_def)
    moreover have "sleep_ok k' es" "dead_ok k' (tl ds)"
      using sl dd free(3) nds sleep_ok_cong [of es k2 k'] dead_ok_cong [of "tl ds" k2 k']
      by (auto simp: same_links_def k'_def)
    moreover have "distinct (pq_insert (prios k2) n rs @ es @ tl ds)"
    proof -
      have "set (tl ds) \<subseteq> set ds" by (cases ds) auto
      then show ?thesis using oks(4-9) free(3) nds by (auto simp: distinct_tl)
    qed
    moreover have "pid (proc k' i) = int i" if "i \<in> set (n # a # rs @ es @ ds)" for i
      using that oks(11) i(9) pid_n old [of i] by (cases "i = n") (auto simp: k'_def kd)
    then have "\<forall>i\<in>set (pq_insert (prios k2) n rs @ es @ tl ds). i < PROCESS_TABLE_SIZE \<and> pid (proc k' i) = int i"
      using oks(10) free(2) by (cases ds) auto
    ultimately have "lists_ok k' (pq_insert (prios k2) n rs) es (tl ds)" by (simp add: lists_ok_def)
    moreover have "state (proc k' a) \<noteq> ENDORMI" using i(6) free(3) keep(2) [of a] by (auto simp: k'_def)
    moreover have "a \<notin> set (tl ds)" using i(5) by (cases ds) auto
    moreover have "pid (proc k' a) = int a" "actif k' = Some a"
      using \<open>\<And>i. i \<in> set (n # a # rs @ es @ ds) \<Longrightarrow> pid (proc k' i) = int i\<close> g2 by (simp_all add: k'_def)
    ultimately show ?thesis
      using i free(3) by (auto simp: kinv_def running_def pr2)
  qed
  moreover have "fam_ok k'" using k2(3) by (simp add: fam_ok_def k'_def)
  moreover have "prios k' = (prios k)(n := word_of_int pr)"
    using pr2 by (auto simp: prios_def fun_eq_iff k'_def)
  moreover have "process_alive k' = process_alive k + 1" "nb_tick k' = nb_tick k"
    using g2 by (simp_all add: k'_def)
  moreover have "pere (proc k' n) = Some a"
    using i(7) k1(7) kd(8) [of n] by (simp add: k'_def kf_def start_fill_def)
  moreover have "length (regs (proc k n)) = 5 \<longrightarrow> entry_frame ad n pt arg (proc k' n)"
    using start_fill_frame [of k1 n ad pt arg pr nm] k1(3) kd
    by (simp add: k'_def entry_frame_def kf_def)
  moreover have "children k' a (cs @ [n]) \<and> children k' n []" if "children k a cs \<and> n \<notin> set cs" for cs
  proof
    have an: "a \<noteq> n" using free(3) by auto
    have "lpath (\<lambda>i. frere_droit (proc kf i)) (premier_fils (proc kf a)) cs =
        lpath (\<lambda>i. frere_droit (proc k i)) (premier_fils (proc k a)) cs"
    proof -
      have "frere_droit (proc kf x) = frere_droit (proc k x)" if "x \<in> set cs" for x
        using that old [of x] \<open>children k a cs \<and> n \<notin> set cs\<close> by (cases "x = n") auto
      then show ?thesis using old [OF an] by (subst lpath_cong [of _ _ "\<lambda>i. frere_droit (proc k i)"]) auto
    qed
    then have "children kf a cs" using that old [OF an] by (simp add: children_def)
    moreover have "frere_droit (proc kf n) = None" by (simp add: kf_def start_fill_def)
    ultimately have "children k2 a (cs @ [n])"
      using that k2(4,5,6) by (intro children_adopt [of kf a cs n k2]) auto
    moreover have "frere_droit (proc k' i) = frere_droit (proc k2 i)" for i by (simp add: k'_def)
    ultimately show "children k' a (cs @ [n])" using an by (simp add: children_def) (simp add: k'_def)
    have "premier_fils (proc k2 n) = None" "dernier_fils (proc k2 n) = None"
      using k2(7) an by (auto simp: kf_def start_fill_def)
    then show "children k' n []" by (simp add: children_def k'_def)
  qed
  ultimately show ?thesis by blast
qed

subsection \<open>Waiting for a child\<close>

text \<open>Nothing happens while the process waits: no other process needs to run.\<close>

definition quiet :: "nat \<Rightarrow> kernel \<Rightarrow> kernel res" where
  "quiet n k = ret k"

lemma waitpid_search_found:
  assumes "lpath (\<lambda>i. frere_droit (proc k i)) p (as @ c # bs)"
    and "\<forall>i\<in>set (as @ c # bs). pid (proc k i) = int i" and "state (proc k c) \<noteq> MORT"
  shows "waitpid_search (int c) p k = ret True"
  using assms
proof (induction as arbitrary: p)
  case Nil
  then show ?case by (subst waitpid_search.simps) simp
next
  case (Cons x as)
  have d: "distinct (x # as @ c # bs)" using lpath_distinct [OF Cons.prems(1)] by simp
  have "frere_droit (proc k x) = Some (hd (as @ c # bs))"
    using Cons.prems(1) by (cases as) auto
  moreover have "hd (as @ c # bs) \<noteq> x" using d by (cases as) auto
  moreover have "p = Some x" "pid (proc k x) \<noteq> int c" using Cons.prems(1,2) d by auto
  moreover have "waitpid_search (int c) (frere_droit (proc k x)) k = ret True"
    by (rule Cons.IH) (use Cons.prems in auto)
  ultimately show ?case by (subst waitpid_search.simps) simp
qed

lemma waitpid_search_absent:
  assumes "lpath (\<lambda>i. frere_droit (proc k i)) p cs" and "\<forall>i\<in>set cs. pid (proc k i) \<noteq> n"
  shows "waitpid_search n p k = ret False"
  using assms
proof (induction cs arbitrary: p)
  case Nil
  then show ?case by (subst waitpid_search.simps) simp
next
  case (Cons x cs)
  then show ?case by (subst waitpid_search.simps) auto
qed

text \<open>
  The loop of \<open>pid_dun_fils_termine\<close> on a list of children in which \<open>c\<close> is the first that
  matches: it collects \<open>c\<close>. The call of \<open>chprio\<close> on the way has no effect on a zombie, since
  \<open>getprio\<close> does not find it.
\<close>

lemma pid_dun_fils_loop_found:
  assumes inv: "kinv k a rs es ds"
    and c: "c \<notin> set (a # rs @ es)" "state (proc k c) = ZOMBIE" "param = -1 \<or> param = int c"
    and path: "lpath (\<lambda>i. frere_droit (proc k i)) p (ys @ c # bs)"
    and pids: "\<forall>i\<in>set (ys @ c # bs). pid (proc k i) = int i"
    and skip: "\<forall>y\<in>set ys. param = -1 \<longrightarrow> state (proc k y) \<noteq> ZOMBIE"
    and ins: "insert_mort c (upd a (\<lambda>q. q\<lparr>retval_fils := retval (proc k c)\<rparr>) k) = ret k'"
  shows "\<exists>m. pid_dun_fils_loop quiet param p n k = ret (int c, m, k')"
  using path pids skip
proof (induction ys arbitrary: p n)
  case Nil
  then show ?case using kinvD(7) [OF inv] c(2,3) ins
    by (subst pid_dun_fils_loop.simps) (auto simp: quiet_def)
next
  case (Cons y ys)
  note i = kinvD [OF inv]
  have d: "distinct (y # ys @ c # bs)" using lpath_distinct [OF Cons.prems(1)] by simp
  obtain g where g: "frere_droit (proc k y) = Some g" "g \<in> set (ys @ c # bs)"
    using Cons.prems(1) by (cases ys) auto
  have py: "p = Some y" "pid (proc k y) = int y" "pid (proc k g) = int g"
    using Cons.prems(1,2) g(2) by auto
  have yg: "y \<noteq> g" using d g(2) by auto
  have no: "\<not> (state (proc k y) = ZOMBIE \<and> (param = -1 \<or> pid (proc k y) = param))"
    using Cons.prems(3) c(3) py d by auto
  have path': "lpath (\<lambda>i. frere_droit (proc k i)) (Some g) (ys @ c # bs)"
    using Cons.prems(1) g(1) by simp
  have IH: "\<exists>m. pid_dun_fils_loop quiet param (Some g) n k = ret (int c, m, k')" for n
    by (rule Cons.IH [OF path']) (use Cons.prems in auto)
  show ?case
  proof (cases "param = pid (proc k g) \<and> prio (proc k g) < prio (proc k a)")
    case True
    then have "param = int c" using c(3) py(3) by auto
    then have "getprio param k = ret (-1)" using getprio_ok [OF inv, of param] c(1) by simp
    moreover have "chprio param 0 k = ret (-1, k)" by (rule chprio_invalid) simp
    ultimately show ?thesis
      using True py no yg g(1) i(7) IH [of "n + 2"]
      by (subst pid_dun_fils_loop.simps) (simp add: quiet_def [abs_def])
  next
    case False
    then show ?thesis
      using py no g(1) i(7) IH [of "n + 1"]
      by (subst pid_dun_fils_loop.simps) (auto simp: quiet_def [abs_def] Let_def)
  qed
qed

text \<open>A zombie that was collected joins the dead processes.\<close>

lemma bury_zombie:
  assumes inv: "kinv k a rs es ds" and c: "c \<notin> set (a # rs @ es)" "state (proc k c) = ZOMBIE"
    and cc: "c < PROCESS_TABLE_SIZE" "pid (proc k c) = int c"
  shows "\<exists>k'. insert_mort c (upd a (\<lambda>q. q\<lparr>retval_fils := r\<rparr>) k) = ret k' \<and>
    kinv k' a rs es (ds @ [c]) \<and> state (proc k' c) = MORT \<and> retval_fils (proc k' a) = r \<and>
    exit_param k' = exit_param k"
proof -
  note i = kinvD [OF inv]
  note oks = lists_okD [OF i(1)]
  let ?k = "upd a (\<lambda>q. q\<lparr>retval_fils := r\<rparr>) k"
  have cds: "c \<notin> set ds" using c(2) i(12) by (auto simp: dead_ok_def)
  have "dead_ok ?k ds" using i(12) by (subst dead_ok_cong [of _ k]) (auto simp: same_links_def)
  then obtain k' where k': "insert_mort c ?k = ret k'" "dead_ok k' (ds @ [c])" "same_static ?k k'"
    "same_links (- set (c # ds)) ?k k'" "head_queue k' = head_queue ?k"
    "endormi_list k' = endormi_list ?k" "endormi_tail k' = endormi_tail ?k"
    using insert_mort_ok [of ?k ds c] cds by blast
  note st = same_staticD [OF k'(3)]
  have keep: "suiv (proc k' x) = suiv (proc k x) \<and> state (proc k' x) = state (proc k x) \<and> wake k' x = wake k x"
    if "x \<in> set (a # rs @ es)" for x
  proof -
    have "x \<notin> set (c # ds)" using that c(1) i(5) oks(8,9) by auto
    then show ?thesis using k'(4) by (simp add: same_links_def)
  qed
  have "ready_ok k' rs"
    using i(10) k'(5) keep st(2) by (subst ready_ok_cong [of _ _ k]) auto
  moreover have "sleep_ok k' es"
    using i(11) k'(6,7) keep by (subst sleep_ok_cong [of _ k]) (auto simp: same_links_def)
  moreover have "distinct (rs @ es @ ds @ [c])" using oks(4-9) c(1) cds by auto
  moreover have "\<forall>x\<in>set (rs @ es @ ds @ [c]). x < PROCESS_TABLE_SIZE \<and> pid (proc k' x) = int x"
    using oks(10,11) cc st(1) by auto
  ultimately have "kinv k' a rs es (ds @ [c])"
    using i c(1) k'(2) st keep [of a] by (auto simp: kinv_def lists_ok_def running_def)
  moreover have "state (proc k' c) = MORT" using k'(2) by (simp add: dead_ok_def)
  ultimately show ?thesis using k'(1) st by simp
qed

lemma kinv_retval_fils:
  "kinv (upd a (\<lambda>q. q\<lparr>retval_fils := r\<rparr>) k) a rs es ds = kinv k a rs es ds"
proof -
  let ?k = "upd a (\<lambda>q. q\<lparr>retval_fils := r\<rparr>) k"
  have "ready_ok ?k rs = ready_ok k rs" by (rule ready_ok_cong) auto
  moreover have "sleep_ok ?k es = sleep_ok k es" by (rule sleep_ok_cong) (auto simp: same_links_def)
  moreover have "dead_ok ?k ds = dead_ok k ds" by (rule dead_ok_cong) (auto simp: same_links_def)
  ultimately show ?thesis by (auto simp: kinv_def lists_ok_def running_def)
qed

text \<open>
  \<open>waitpid\<close> on a child that has ended: the value is the number of the child, and the exit value
  of the child goes through \<open>retvalp\<close>. With a negative argument it is the first zombie of the list.
\<close>

lemma waitpid_zombie:
  assumes inv: "kinv k a rs es ds"
    and path: "lpath (\<lambda>i. frere_droit (proc k i)) (premier_fils (proc k a)) (as @ c # bs)"
    and pids: "\<forall>i\<in>set (as @ c # bs). pid (proc k i) = int i"
    and c: "c \<notin> set (a # rs @ es)" "c < PROCESS_TABLE_SIZE" "state (proc k c) = ZOMBIE" "retval (proc k c) = Some r"
    and q: "q = int c \<and> 0 < c \<or> q = -1 \<and> (\<forall>y\<in>set as. state (proc k y) \<noteq> ZOMBIE)"
  shows "\<exists>m k'. waitpid quiet False q n k = ret (int c, Some (exit_param k r), m, k') \<and>
    kinv k' a rs es (ds @ [c]) \<and> state (proc k' c) = MORT"
proof -
  note i = kinvD [OF inv]
  have pc: "pid (proc k c) = int c" using pids by simp
  obtain k' where k': "insert_mort c (upd a (\<lambda>p. p\<lparr>retval_fils := retval (proc k c)\<rparr>) k) = ret k'"
    "kinv k' a rs es (ds @ [c])" "state (proc k' c) = MORT" "retval_fils (proc k' a) = Some r"
    "exit_param k' = exit_param k"
    using bury_zombie [OF inv c(1,3,2) pc] c(4) by metis
  have "q = -1 \<or> q = int c" using q by auto
  moreover have "\<forall>y\<in>set as. q = -1 \<longrightarrow> state (proc k y) \<noteq> ZOMBIE" using q by auto
  ultimately obtain m where m: "pid_dun_fils_loop quiet q (premier_fils (proc k a)) n k = ret (int c, m, k')"
    using pid_dun_fils_loop_found [OF inv c(1,3) _ path pids _ k'(1)] by metis
  have "premier_fils (proc k a) \<noteq> None" using path by (cases as) auto
  moreover have "0 < q \<Longrightarrow> waitpid_search q (premier_fils (proc k a)) k = ret True"
    using q waitpid_search_found [OF path pids] c(3) by auto
  ultimately have "waitpid quiet False q n k = ret (int c, Some (exit_param k r), m,
      upd a (\<lambda>p. p\<lparr>retval_fils := None\<rparr>) k')"
    using q i(7) m k'(4,5) kinvD(7) [OF k'(2)]
    by (auto simp: waitpid_def pid_dun_fils_termine_def waitpid_loop.simps)
  moreover have "kinv (upd a (\<lambda>p. p\<lparr>retval_fils := None\<rparr>) k') a rs es (ds @ [c])"
    using k'(2) by (simp add: kinv_retval_fils)
  ultimately show ?thesis using k'(3) by auto
qed

lemma waitpid_not_a_child:
  assumes a: "actif k = Some a"
    and path: "lpath (\<lambda>i. frere_droit (proc k i)) (premier_fils (proc k a)) cs"
    and no: "\<forall>i\<in>set cs. pid (proc k i) \<noteq> q" and q: "0 \<le> q \<or> cs = []"
  shows "waitpid env null q n k = ret (-1, None, n, k)"
proof -
  have "premier_fils (proc k a) = None" if "cs = []" using path that by simp
  then have "\<not> (q < 0 \<and> premier_fils (proc k a) \<noteq> None)" using q by auto
  then show ?thesis
    using a waitpid_search_absent [OF path no] by (cases "q < 0") (auto simp: waitpid_def)
qed

text \<open>The value of \<open>exit\<close> reaches the father: from the end of the child to the father's \<open>waitpid\<close>.\<close>

lemma exit_then_waitpid:
  assumes inv: "kinv k a (rs @ [f]) es ds" and f: "pere (proc k a) = Some f"
    and mine: "lpath (\<lambda>i. frere_droit (proc k i)) (premier_fils (proc k a)) cs" "a \<notin> set cs"
      "\<forall>c\<in>set cs. c < PROCESS_TABLE_SIZE \<and> pid (proc k c) = int c"
    and his: "lpath (\<lambda>i. frere_droit (proc k i)) (premier_fils (proc k f)) (as @ a # bs)"
      "\<forall>c\<in>set (as @ a # bs). pid (proc k c) = int c" and a0: "0 < a"
  shows "\<exists>k1 m k2. exit v k = ret k1 \<and> actif k1 = Some f \<and>
    waitpid quiet False (int a) n k1 = ret (int a, Some v, m, k2) \<and>
    kinv k2 f rs es ((ds @ zombies k cs) @ [a])"
proof -
  note i = kinvD [OF inv]
  obtain k1 where k1: "exit v k = ret k1" "kinv k1 f rs es (ds @ zombies k cs)"
    "state (proc k1 a) = ZOMBIE" "retval (proc k1 a) = Some a" "exit_param k1 a = v"
    "\<forall>c. frere_droit (proc k1 c) = frere_droit (proc k c) \<and>
         premier_fils (proc k1 c) = premier_fils (proc k c) \<and> pid (proc k1 c) = pid (proc k c)"
    using exit_ok [OF inv f mine] by blast
  have "lpath (\<lambda>i. frere_droit (proc k1 i)) (premier_fils (proc k1 f)) (as @ a # bs)"
    "\<forall>c\<in>set (as @ a # bs). pid (proc k1 c) = int c"
    using his k1(6) by simp_all
  moreover have "a \<notin> set (f # rs @ es)" using i(3,4) by auto
  ultimately show ?thesis
    using waitpid_zombie [OF k1(2) _ _ _ i(8) k1(3,4), of as bs "int a" n] a0 k1(1,5) kinvD(7) [OF k1(2)]
    by auto
qed

end
