(* ===== verification/Kernel_Run.thy ===== *)
theory Kernel_Run
  imports Proc_Life
begin

text \<open>
  Runs of the kernel: the state after the boot, the calls and interrupts as steps, and the
  invariant of every reachable state. The second part is about calls that leave the good
  behaviour: a slot that is reused too early, and a wait that never ends.
\<close>

subsection \<open>The boot\<close>

text \<open>The static storage is zero; the head of the queue points to itself.\<close>

definition zero_process :: process where
  "zero_process = \<lparr>pid = 0, name = '''', state = ELU, regs = [0, 0, 0, 0, 0], exec_stack = (\<lambda>_. 0),
     time_to_wake = 0, prio = 0, suiv = None, premier_fils = None, dernier_fils = None, pere = None,
     frere_droit = None, retval = None, retval_fils = None, pid_ret_fils = 0\<rparr>"

definition boot_kernel :: kernel where
  "boot_kernel = \<lparr>process_tab = (\<lambda>_. zero_process), head_queue = LIST_HEAD, process_alive = 0,
     endormi_list = None, endormi_tail = None, dead_list = None, dead_tail = None, actif = None,
     nb_tick = 0, cpu_regs = [0, 0, 0, 0, 0], exit_param = (\<lambda>_. 0)\<rparr>"

lemma init_process_ok:
  "\<exists>k'. init_process ad boot_kernel = ret k' \<and> kinv k' 0 [] [] [] \<and> fam_ok k' \<and>
     process_alive k' = 1 \<and> prios k' = (\<lambda>_. 0)(0 := 1) \<and> entry_frame ad 0 (idle_at ad) 0 (proc k' 0) \<and>
     nb_tick k' = 0"
proof -
  let ?kf = "start_fill ad 0 (idle_at ad) 1 ''idle'' 0 boot_kernel"
  let ?k' = "?kf\<lparr>process_alive := 1, actif := Some 0\<rparr>"
  have p: "pid (proc ?kf 0) = 0" by (simp add: start_fill_def)
  have "init_process ad boot_kernel = ret ?k'"
    by (simp add: init_process_def start_def start_index_def extract_mort_def boot_kernel_def
        PROCESS_TABLE_SIZE_def MAX_PRIO_def Let_def start_adopt_def start_fill_def)
  moreover have "kinv ?k' 0 [] [] []"
    using p queue_rep_LIST_HEAD
    by (simp add: kinv_def running_def lists_ok_def ready_ok_def sleep_ok_def dead_ok_def
        PROCESS_TABLE_SIZE_def sorted_prio_def) (simp add: boot_kernel_def zero_process_def)
  moreover have "fam_ok ?k'"
    by (simp add: fam_ok_def start_fill_def boot_kernel_def zero_process_def)
  moreover have "prios ?k' = (\<lambda>_. 0)(0 := 1)"
    by (auto simp: prios_def fun_eq_iff start_fill_def boot_kernel_def zero_process_def)
  moreover have "entry_frame ad 0 (idle_at ad) 0 (proc ?k' 0)"
    using start_fill_frame [of boot_kernel 0 ad "idle_at ad" 0 1 "''idle''"]
    by (simp add: boot_kernel_def zero_process_def)
  moreover have "nb_tick ?k' = 0" by (simp add: start_fill_def boot_kernel_def)
  ultimately show ?thesis by fastforce
qed

subsection \<open>Steps\<close>

text \<open>
  What the running process may do. The premises beside the call are what the callers of this
  kernel have to observe: the slot \<open>start\<close> takes is not in use, idle neither sleeps nor ends,
  a sleep ends in the future, and a process that ends has a father and an intact list of children.
  \<open>tick\<close> is the interrupt of the clock without its call of the scheduler, which is \<open>yield\<close>.
\<close>

definition slot_usable :: "kernel \<Rightarrow> bool" where
  "slot_usable k =
     (case start_index k of
        Some (Inr (n, k1)) \<Rightarrow>
          n > 0 \<and> actif k \<noteq> Some n \<and> state (proc k n) \<noteq> ACTIVABLE \<and> state (proc k n) \<noteq> ENDORMI
      | _ \<Rightarrow> True)"

inductive kstep :: "addresses \<Rightarrow> kernel \<Rightarrow> kernel \<Rightarrow> bool" for ad :: addresses where
  tick: "kstep ad k (k\<lparr>nb_tick := nb_tick k + 1\<rparr>)"
| yield: "ordonnance k = ret k' \<Longrightarrow> kstep ad k k'"
| create: "start ad pt ssize pr nm arg k = ret (n, k') \<Longrightarrow> slot_usable k \<Longrightarrow> kstep ad k k'"
| sleep: "sleep_until t k = ret k' \<Longrightarrow> now k < t \<Longrightarrow> actif k \<noteq> Some 0 \<Longrightarrow> kstep ad k k'"
| change: "chprio n np k = ret (old, k') \<Longrightarrow> kstep ad k k'"
| kill: "kill n k = ret (v, k') \<Longrightarrow> actif k \<noteq> Some (nat n) \<Longrightarrow> kstep ad k k'"
| quit: "exit v k = ret k' \<Longrightarrow> actif k = Some a \<Longrightarrow> a \<noteq> 0 \<Longrightarrow> pere (proc k a) = Some f \<Longrightarrow>
    lpath (\<lambda>i. frere_droit (proc k i)) (premier_fils (proc k a)) cs \<Longrightarrow> a \<notin> set cs \<Longrightarrow>
    \<forall>c\<in>set cs. c < PROCESS_TABLE_SIZE \<and> pid (proc k c) = int c \<Longrightarrow> kstep ad k k'"

inductive reach :: "addresses \<Rightarrow> kernel \<Rightarrow> bool" for ad :: addresses where
  boot: "init_process ad boot_kernel = ret k \<Longrightarrow> reach ad k"
| step: "reach ad k \<Longrightarrow> kstep ad k k' \<Longrightarrow> reach ad k'"

definition good :: "kernel \<Rightarrow> bool" where
  "good k \<longleftrightarrow> (\<exists>a rs es ds. kinv k a rs es ds \<and> 0 \<in> set (a # rs) \<and> fam_ok k)"

text \<open>Frames keep the family.\<close>

lemma same_procs_fam: "same_procs k k' \<Longrightarrow> fam_ok k' = fam_ok k"
proof -
  assume "same_procs k k'"
  then have "erase ((proc k' i)\<lparr>regs := []\<rparr>) = erase ((proc k i)\<lparr>regs := []\<rparr>)" for i
    by (simp add: same_procs_def)
  from erase_eqD(5,6) [OF this] show ?thesis by (simp add: fam_ok_def)
qed

lemma fam_ok_prio [simp]: "fam_ok ((set_prio i np k)\<lparr>head_queue := q\<rparr>) = fam_ok k"
  by (auto simp: fam_ok_def)

subsection \<open>Every step keeps the kernel good\<close>

lemma kinv_tick: "kinv (k\<lparr>nb_tick := x\<rparr>) a rs es ds = kinv k a rs es ds"
proof -
  let ?k = "k\<lparr>nb_tick := x\<rparr>"
  have "ready_ok ?k rs = ready_ok k rs" by (rule ready_ok_cong) auto
  moreover have "sleep_ok ?k es = sleep_ok k es" by (rule sleep_ok_cong) (auto simp: same_links_def)
  moreover have "dead_ok ?k ds = dead_ok k ds" by (rule dead_ok_cong) (auto simp: same_links_def)
  ultimately show ?thesis by (simp add: kinv_def lists_ok_def running_def)
qed

lemma good_ordonnance:
  assumes inv: "kinv k a rs es ds" and idle: "0 \<in> set (a # rs)" and fam: "fam_ok k"
  shows "\<exists>k'. ordonnance k = ret k' \<and> good k'"
proof -
  obtain b rs' where el: "schedule (prios k) False a (woken_rs k rs es) = (b, rs')" by fastforce
  obtain k' where k': "ordonnance k = ret k'" "kinv k' b rs' (woken_es k es) ds" "same_procs k k'"
    using ordonnance_running [OF inv el] by blast
  note i = kinvD [OF inv]
  have "distinct (a # woken_rs k rs es)"
    using lists_okD(4,5,7) [OF i(1)] i(3,4)
    by (cases es) (auto simp: woken_rs_def due_def)
  note sch = schedule_set [OF el this]
  have "0 \<in> set (a # woken_rs k rs es)" using idle by (auto simp: woken_rs_def)
  then have "0 \<in> set (b # rs')" using sch(2) by simp
  then show ?thesis using k' same_procs_fam [OF k'(3)] fam unfolding good_def by blast
qed

lemma start_index_slot:
  assumes "dead_ok k ds" and "start_index k = ret (n, k1)" and pids: "\<forall>d\<in>set ds. pid (proc k d) = int d"
  shows "n = next_slot k ds" "n < PROCESS_TABLE_SIZE"
proof -
  have "n = next_slot k ds \<and> n < PROCESS_TABLE_SIZE"
  proof (cases ds)
    case Nil
    then have "start_index k = (if 0 \<le> sint (process_alive k) \<and> sint (process_alive k) < int PROCESS_TABLE_SIZE
        then ret (nat (sint (process_alive k)), k) else err Out_Of_Bounds)"
      using extract_mort_none [of k] assms(1) by (simp add: start_index_def Let_def)
    then have n: "0 \<le> sint (process_alive k)" "n < PROCESS_TABLE_SIZE" "n = nat (sint (process_alive k))"
      using assms(2) by (auto split: if_splits)
    have "unat (process_alive k) = nat (sint (process_alive k))"
      using sint_nonneg [OF n(1)] by simp
    then show ?thesis using n Nil by (simp add: next_slot_def)
  next
    case (Cons d ds')
    then obtain k1 where "extract_mort k = (Some d, k1)" "process_tab k1 = process_tab k"
      using extract_mort_ok [of k d ds'] assms(1) by blast
    then show ?thesis using assms(2) pids Cons by (simp add: start_index_def next_slot_def split: if_splits)
  qed
  then show "n = next_slot k ds" "n < PROCESS_TABLE_SIZE" by simp_all
qed

lemma good_start:
  assumes inv: "kinv k a rs es ds" and idle: "0 \<in> set (a # rs)" and fam: "fam_ok k"
    and run: "start ad pt ssize pr nm arg k = ret (v, k')" and usable: "slot_usable k"
  shows "good k'"
proof (cases "ssize \<ge> 0xffffffff \<or> (pr \<ge> MAX_PRIO \<and> pr < 0) \<or> process_alive k = of_nat PROCESS_TABLE_SIZE")
  case True
  then have "k' = k" using run by (auto simp: start_def split: if_splits)
  then show ?thesis using assms unfolding good_def by blast
next
  case False
  note i = kinvD [OF inv]
  note oks = lists_okD [OF i(1)]
  have "\<exists>n k1. start_index k = ret (n, k1)"
    using False run by (auto simp: start_def bindr_eq_ret)
  then obtain n k1 where n: "start_index k = ret (n, k1)" by blast
  have pids: "\<forall>d\<in>set ds. pid (proc k d) = int d" using oks(11) by auto
  note slot = start_index_slot [OF i(12) n pids]
  have nm: "length nm < 15" using False run n by (auto simp: start_def split: if_splits)
  have u: "0 < n" "actif k \<noteq> Some n" "state (proc k n) \<noteq> ACTIVABLE" "state (proc k n) \<noteq> ENDORMI"
    using usable n by (auto simp: slot_usable_def ret_def)
  have free: "n \<notin> set (a # rs @ es)"
    using u i(7,10,11) by (auto simp: ready_ok_def sleep_ok_def)
  obtain k2 where "start ad pt ssize pr nm arg k = ret (int n, k2)"
    "kinv k2 a (pq_insert ((prios k)(n := word_of_int pr)) n rs) es (tl ds)" "fam_ok k2"
    using start_ok [OF inv fam slot(1) u(1) slot(2) free _ _ nm] False by (metis not_le)
  moreover have "0 \<in> set (a # pq_insert ((prios k)(n := word_of_int pr)) n rs)" using idle by auto
  ultimately show ?thesis using run unfolding good_def by (metis ret_inject prod.inject)
qed

lemma good_sleep:
  assumes inv: "kinv k a rs es ds" and idle: "0 \<in> set (a # rs)" and fam: "fam_ok k"
    and t: "now k < t" and a: "a \<noteq> 0"
  shows "\<exists>k'. sleep_until t k = ret k' \<and> good k'"
proof -
  have "0 \<in> set (woken_rs k rs es)" using idle a by (auto simp: woken_rs_def)
  then obtain rs' b where rb: "woken_rs k rs es = rs' @ [b]" by (cases "woken_rs k rs es" rule: rev_cases) auto
  obtain k' where k': "sleep_until t k = ret k'"
    "kinv k' b rs' (sl_insert ((wake k)(a := t)) a (woken_es k es)) ds" "same_procs k k'"
    using sleep_until_future [OF inv t rb] by blast
  have "0 \<in> set (b # rs')" using \<open>0 \<in> set (woken_rs k rs es)\<close> rb by auto
  then show ?thesis using k' same_procs_fam [OF k'(3)] fam unfolding good_def by blast
qed

lemma chprio_absent:
  assumes inv: "kinv k a rs es ds" and n: "0 \<le> n" "n < int PROCESS_TABLE_SIZE" "nat n \<notin> set (a # rs @ es)"
    and np: "1 \<le> np" "np \<le> MAX_PRIO"
  shows "chprio n np k = bindr (ordonnance k) (\<lambda>k'. ret (-1, k'))"
proof -
  note i = kinvD [OF inv]
  note oks = lists_okD [OF i(1)]
  have "queue_rep (head_queue k) rs" "lpath (\<lambda>i. suiv (proc k i)) (endormi_list k) es"
    using i(10,11) by (simp_all add: ready_ok_def sleep_ok_def)
  moreover have "\<forall>i\<in>set (rs @ es). pid (proc k i) \<noteq> n" using oks(11) n by auto
  moreover have "pid (proc k a) \<noteq> n" using i(9) n by auto
  ultimately show ?thesis
    using n np i(7) chprio_queue_other [of k rs n np "-1"] chprio_endormi_other [of k _ es n np "-1"]
    by (simp add: chprio_def)
qed

lemma good_chprio:
  assumes inv: "kinv k a rs es ds" and idle: "0 \<in> set (a # rs)" and fam: "fam_ok k"
  shows "\<exists>v k'. chprio n np k = ret (v, k') \<and> good k'"
proof (cases "n < 0 \<or> n > 29 \<or> np < 1 \<or> np > 256")
  case True
  then show ?thesis using chprio_invalid assms unfolding good_def by blast
next
  case False
  then have n: "0 \<le> n" "n < int PROCESS_TABLE_SIZE" "1 \<le> np" "np \<le> MAX_PRIO"
    by (simp_all add: PROCESS_TABLE_SIZE_def MAX_PRIO_def)
  show ?thesis
  proof (cases "nat n \<in> set (a # rs @ es)")
    case True
    obtain q where q: "chprio (int (nat n)) np k =
        bindr (ordonnance ((set_prio (nat n) np k)\<lparr>head_queue := q\<rparr>)) (\<lambda>k'. ret (sint (prio (proc k (nat n))), k'))"
      "kinv ((set_prio (nat n) np k)\<lparr>head_queue := q\<rparr>) a
        (reprio ((prios k)(nat n := word_of_int np)) (nat n) rs) es ds"
      using chprio_ok [OF inv True n(3,4)] by blast
    have "distinct rs" using kinvD(1) [OF inv] lists_okD(4) by blast
    then have "0 \<in> set (a # reprio ((prios k)(nat n := word_of_int np)) (nat n) rs)" using idle by simp
    from good_ordonnance [OF q(2) this] fam q(1) n(1) show ?thesis by auto
  next
    case False
    then show ?thesis
      using chprio_absent [OF inv n(1,2) False n(3,4)] good_ordonnance [OF inv idle fam] by auto
  qed
qed

lemma kill_absent:
  assumes inv: "kinv k a rs es ds" and n: "n \<le> 0 \<or> int PROCESS_TABLE_SIZE \<le> n \<or> nat n \<notin> set (a # rs @ es)"
  shows "kill n k = ret (-1, k)"
proof (cases "n \<le> 0 \<or> n > int PROCESS_TABLE_SIZE - 1")
  case True
  then show ?thesis by (simp add: kill_def)
next
  case False
  note i = kinvD [OF inv]
  note oks = lists_okD [OF i(1)]
  have rep: "queue_rep (head_queue k) rs" and path: "lpath (\<lambda>i. suiv (proc k i)) (endormi_list k) es"
    using i(10,11) by (simp_all add: ready_ok_def sleep_ok_def)
  have ne: "\<forall>i\<in>set rs. pid (proc k i) \<noteq> n" "\<forall>i\<in>set es. pid (proc k i) \<noteq> n" "pid (proc k a) \<noteq> n"
    using oks(11) i(9) n False by auto
  have loop: "sleep_del_loop n p q k = ret k"
    if "lpath (\<lambda>i. suiv (proc k i)) p xs" "\<forall>i\<in>set xs. pid (proc k i) \<noteq> n" for p q xs
    using that
  proof (induction xs arbitrary: p q)
    case Nil
    then show ?case by (subst sleep_del_loop.simps) simp
  next
    case (Cons x xs)
    then show ?case by (subst sleep_del_loop.simps) simp
  qed
  have "sleep_del n k = ret (-1, k)"
    using path ne(2) by (cases es) (auto simp: sleep_del_def loop)
  then show ?thesis using False i(7) ne kill_queue_other [OF rep ne(1)] by (simp add: kill_def)
qed

lemma good_kill:
  assumes inv: "kinv k a rs es ds" and idle: "0 \<in> set (a # rs)" and fam: "fam_ok k" and n: "nat n \<noteq> a"
  shows "\<exists>v k'. kill n k = ret (v, k') \<and> good k'"
proof -
  consider "n \<le> 0 \<or> int PROCESS_TABLE_SIZE \<le> n \<or> nat n \<notin> set (a # rs @ es)"
    | "0 < n" "nat n \<in> set rs" | "0 < n" "nat n \<in> set es"
    using n by (cases "n \<le> 0"; cases "nat n \<in> set rs"; cases "nat n \<in> set es") simp_all
  then show ?thesis
  proof cases
    case 1
    then show ?thesis using kill_absent [OF inv] assms unfolding good_def by blast
  next
    case 2
    then obtain k' where k': "kill n k = ret (0, k')" "kinv k' a (remove1 (nat n) rs) es ds"
      "\<forall>p. premier_fils (proc k' p) = premier_fils (proc k p) \<and> dernier_fils (proc k' p) = dernier_fils (proc k p)"
      using kill_ready [OF inv, of "nat n"] by auto
    have "0 \<in> set (a # remove1 (nat n) rs)" using idle 2(1) by auto
    moreover have "fam_ok k'" using fam k'(3) by (simp add: fam_ok_def)
    ultimately show ?thesis using k'(1,2) unfolding good_def by blast
  next
    case 3
    then obtain v k' where k': "kill n k = ret (v, k')" "kinv k' a rs (remove1 (nat n) es) (ds @ [nat n])"
      "\<forall>p. premier_fils (proc k' p) = premier_fils (proc k p) \<and> dernier_fils (proc k' p) = dernier_fils (proc k p)"
      using kill_sleeper [OF inv, of "nat n"] by auto
    moreover have "fam_ok k'" using fam k'(3) by (simp add: fam_ok_def)
    ultimately show ?thesis using idle unfolding good_def by blast
  qed
qed

lemma good_exit:
  assumes inv: "kinv k a rs es ds" and idle: "0 \<in> set (a # rs)" and fam: "fam_ok k" and a: "a \<noteq> 0"
    and f: "pere (proc k a) = Some f"
    and path: "lpath (\<lambda>i. frere_droit (proc k i)) (premier_fils (proc k a)) cs" "a \<notin> set cs"
      "\<forall>c\<in>set cs. c < PROCESS_TABLE_SIZE \<and> pid (proc k c) = int c"
  shows "\<exists>k'. exit v k = ret k' \<and> good k'"
proof -
  obtain rs' b where rb: "rs = rs' @ [b]" using idle a by (cases rs rule: rev_cases) auto
  obtain k' where k': "exit v k = ret k'" "kinv k' b rs' es (ds @ zombies k cs)"
    "\<forall>c. frere_droit (proc k' c) = frere_droit (proc k c) \<and>
         premier_fils (proc k' c) = premier_fils (proc k c) \<and>
         dernier_fils (proc k' c) = dernier_fils (proc k c) \<and> pid (proc k' c) = pid (proc k c)"
    using exit_ok [OF inv [unfolded rb] f path] by blast
  have "fam_ok k'" using fam k'(3) by (simp add: fam_ok_def)
  moreover have "0 \<in> set (b # rs')" using idle a rb by auto
  ultimately show ?thesis using k'(1,2) unfolding good_def by blast
qed

text \<open>The invariant of the kernel, over one step and over all runs.\<close>

lemma good_step:
  assumes "kstep ad k k'" and "good k"
  shows "good k'"
proof -
  obtain a rs es ds where g: "kinv k a rs es ds" "0 \<in> set (a # rs)" "fam_ok k"
    using assms(2) by (auto simp: good_def)
  note act = kinvD(7) [OF g(1)]
  from assms(1) show ?thesis
  proof (cases rule: kstep.cases)
    case tick
    have "kinv k' a rs es ds" "fam_ok k'" unfolding tick using g by (simp_all add: kinv_tick fam_ok_def)
    then show ?thesis using g(2) unfolding good_def by blast
  next
    case yield
    then show ?thesis using good_ordonnance [OF g] by auto
  next
    case create
    then show ?thesis using good_start [OF g] by blast
  next
    case (sleep t)
    then show ?thesis using good_sleep [OF g, of t] act by auto
  next
    case (change n np old)
    then show ?thesis using good_chprio [OF g, of n np] by auto
  next
    case (kill n v)
    then show ?thesis using good_kill [OF g, of n] act by auto
  next
    case (quit v b f cs)
    then show ?thesis using good_exit [OF g, of f cs v] act by auto
  qed
qed

lemma good_reach: "reach ad k \<Longrightarrow> good k"
proof (induction rule: reach.induct)
  case (boot k)
  then show ?case using init_process_ok [of ad] unfolding good_def by fastforce
next
  case (step k k')
  then show ?case using good_step by blast
qed

subsection \<open>Turns\<close>

text \<open>The scheduler called \<open>n\<close> times, as the interrupts of the clock do.\<close>

fun yields :: "nat \<Rightarrow> kernel \<Rightarrow> kernel res" where
  "yields 0 k = ret k"
| "yields (Suc n) k = bindr (ordonnance k) (yields n)"

lemma pq_insert_equal: "\<forall>x\<in>set xs. p x = p e \<Longrightarrow> pq_insert p e xs = e # xs"
  by (cases xs) (auto simp: pq_insert_def)

lemma schedule_equal:
  assumes "\<forall>x\<in>set rs. p x = p a" and "rs \<noteq> []"
  shows "schedule p False a rs = (last rs, a # butlast rs)"
  using assms by (auto simp: schedule_def intro!: pq_insert_equal dest: in_set_butlastD)

text \<open>Among equal priorities the turns go round: the list of the processes is rotated.\<close>

lemma yields_rotate:
  assumes "kinv k a rs [] ds" and "\<forall>r\<in>set rs. prios k r = prios k a"
  shows "\<exists>k' b rs'. yields n k = ret k' \<and> kinv k' b rs' [] ds \<and> rev (b # rs') = rotate n (rev (a # rs))"
  using assms
proof (induction n arbitrary: k a rs)
  case 0
  then show ?case by auto
next
  case (Suc n)
  have w: "woken_rs k rs [] = rs" "woken_es k [] = []" by (simp_all add: woken_rs_def woken_es_def due_def)
  define b rs' where "b = (if rs = [] then a else last rs)" and "rs' = (if rs = [] then [] else a # butlast rs)"
  have el: "schedule (prios k) False a (woken_rs k rs []) = (b, rs')"
    using schedule_equal [of rs "prios k" a] Suc.prems(2)
    by (auto simp: w b_def rs'_def schedule_def)
  have rot: "rev (b # rs') = rotate1 (rev (a # rs))"
    by (cases rs rule: rev_cases) (auto simp: b_def rs'_def)
  obtain k1 where k1: "ordonnance k = ret k1" "kinv k1 b rs' [] ds" "same_procs k k1"
    using ordonnance_running [OF Suc.prems(1) el] w by auto
  have "\<forall>r\<in>set rs'. prios k1 r = prios k1 b"
    using Suc.prems(2) same_procs_prios [OF k1(3)]
    by (cases rs rule: rev_cases) (auto simp: b_def rs'_def)
  from Suc.IH [OF k1(2) this] obtain k' c rs'' where k':
    "yields n k1 = ret k'" "kinv k' c rs'' [] ds" "rev (c # rs'') = rotate n (rev (b # rs'))"
    by blast
  have "rotate n (rotate1 (rev (a # rs))) = rotate (Suc n) (rev (a # rs))"
    by (simp add: rotate1_rotate_swap)
  then show ?case using k1(1) k' rot by (intro exI [of _ k'] exI [of _ c] exI [of _ rs'']) simp
qed

lemma yields_fair:
  assumes inv: "kinv k a rs [] ds" and eq: "\<forall>r\<in>set rs. prios k r = prios k a" and r: "r \<in> set rs"
  shows "\<exists>n \<le> length rs. \<exists>k'. yields n k = ret k' \<and> running k' r"
proof -
  let ?l = "rev (a # rs)"
  have "r \<in> set ?l" using r by simp
  then obtain i where i: "i < length ?l" "?l ! i = r" by (metis in_set_conv_nth)
  have "i < length rs"
  proof (rule ccontr)
    assume "\<not> i < length rs"
    then have "i = length (rev rs)" using i(1) by simp
    then have "r = a" using i(2) by (simp add: nth_append)
    then show False using r kinvD(3) [OF inv] by simp
  qed
  obtain k' b rs' where k': "yields (Suc i) k = ret k'" "kinv k' b rs' [] ds"
    "rev (b # rs') = rotate (Suc i) ?l"
    using yields_rotate [OF inv eq] by blast
  have "last (rotate (Suc i) ?l) = ?l ! ((length ?l - 1 + Suc i) mod length ?l)"
    by (simp add: last_conv_nth nth_rotate ac_simps del: rotate_Suc rev.simps)
  also have "(length ?l - 1 + Suc i) mod length ?l = i" using i(1) \<open>i < length rs\<close> by (simp add: mod_if)
  finally have "last (rev (b # rs')) = r" using k'(3) i(2) by simp
  then have "b = r" by simp
  then show ?thesis using k'(1) kinvD(2) [OF k'(2)] \<open>i < length rs\<close> by (intro exI [of _ "Suc i"]) auto
qed

subsection \<open>A slot that is taken too early\<close>

text \<open>
  \<open>start\<close> counts the living processes to find a slot. After the end of a process the count is
  one less although its slot stays taken until it is collected, so the count is the number of a
  slot in use: when that process is in the queue, the assertion of the queue stops the kernel.
\<close>

lemma start_slot_in_use:
  assumes inv: "kinv k a rs es []" and fam: "fam_ok k" and n: "n = unat (process_alive k)"
    and busy: "n \<in> set rs" "0 < n" and ss: "ssize < 0xffffffff" and nm: "length nm < 15"
  shows "start ad pt ssize pr nm arg k = err Panic"
proof -
  note i = kinvD [OF inv]
  note oks = lists_okD [OF i(1)]
  have n30: "n < PROCESS_TABLE_SIZE" using busy oks(10) by auto
  have slot: "next_slot k [] = n" using n by (simp add: next_slot_def)
  obtain k1 where k1: "start_index k = ret (n, k1)" "head_queue k1 = head_queue k" "actif k1 = actif k"
    "process_tab k1 = process_tab k"
    using start_index_ok [OF i(12)] n30 slot by auto
  have "actif (start_fill ad n pt pr nm arg k1) = Some a" "fam_ok (start_fill ad n pt pr nm arg k1)"
    using k1 i(7) fam_ok_fill [OF k1(4) fam] by simp_all
  from start_adopt_ok [OF this] obtain k2 where k2:
    "start_adopt n (start_fill ad n pt pr nm arg k1) = ret k2"
    "same_but_kids (start_fill ad n pt pr nm arg k1) k2" by blast
  have "head_queue k2 = head_queue k" using same_but_kidsD [OF k2(2)] k1 by simp
  then have "insert_activable n k2 = err Panic"
    using queue_add_busy [of "head_queue k" rs n] i(10) busy(1)
    by (simp add: insert_activable_def ready_ok_def Let_def)
  moreover have "\<not> (pr \<ge> MAX_PRIO \<and> pr < 0)" by (simp add: MAX_PRIO_def)
  moreover have "process_alive k \<noteq> of_nat PROCESS_TABLE_SIZE"
    using n n30 by (auto simp: PROCESS_TABLE_SIZE_def)
  ultimately show ?thesis using ss nm k1(1) k2(1) busy(2) by (simp add: start_def not_le)
qed

subsection \<open>A wait that never ends\<close>

text \<open>
  \<open>waitpid(-1, ...)\<close> of a process all of whose children are dead and collected: they are still
  in its list of children, none is a zombie, and the loop goes round for ever.
\<close>

definition all_collected :: "kernel \<Rightarrow> nat \<Rightarrow> nat list \<Rightarrow> bool" where
  "all_collected k a cs \<longleftrightarrow> actif k = Some a \<and>
     lpath (\<lambda>i. frere_droit (proc k i)) (premier_fils (proc k a)) cs \<and> cs \<noteq> [] \<and>
     (\<forall>c\<in>set cs. state (proc k c) = MORT \<and> pid (proc k c) = int c)"

lemma collected_next:
  assumes "all_collected k a cs" and "c \<in> set cs"
  shows "\<exists>g\<in>set cs. (case frere_droit (proc k c) of None \<Rightarrow> premier_fils (proc k a) | Some g \<Rightarrow> Some g) = Some g"
proof -
  obtain as bs where cs: "cs = as @ c # bs" using assms(2) by (meson split_list)
  have path: "lpath (\<lambda>i. frere_droit (proc k i)) (premier_fils (proc k a)) ((as @ [c]) @ bs)"
    using assms(1) cs by (simp add: all_collected_def)
  have "frere_droit (proc k c) = hd_opt bs" using lpath_append [OF path] by simp
  moreover have "premier_fils (proc k a) = hd_opt cs" using lpath_hd [OF path] cs by simp
  ultimately show ?thesis using cs by (cases bs; cases as) auto
qed

lemma pid_dun_fils_loop_hangs:
  assumes "pid_dun_fils_loop env param p n k = Some r"
  shows "env = quiet \<longrightarrow> param = -1 \<longrightarrow> all_collected k a cs \<longrightarrow> \<not> (\<exists>c\<in>set cs. p = Some c)"
proof (rule pid_dun_fils_loop.raw_induct [where P = "\<lambda>env param p n k r.
    env = quiet \<longrightarrow> param = -1 \<longrightarrow> all_collected k a cs \<longrightarrow> \<not> (\<exists>c\<in>set cs. p = Some c)", OF _ assms], intro impI notI)
  fix loop env param fils n k0 y
  assume IH: "\<And>env param fils n k0 y. loop env param fils n k0 = Some y \<Longrightarrow>
      env = quiet \<longrightarrow> param = -1 \<longrightarrow> all_collected k0 a cs \<longrightarrow> \<not> (\<exists>c\<in>set cs. fils = Some c)"
    and run: "bindr (env n k0) (\<lambda>k. bindr (deref fils) (\<lambda>f. bindr (deref (actif k)) (\<lambda>a.
       if state (proc k f) = ZOMBIE \<and> (param = -1 \<or> pid (proc k f) = param) then
         let pid_fils = pid (proc k f); k1 = upd a (\<lambda>p. p\<lparr>retval_fils := retval (proc k f)\<rparr>) k
         in bindr (insert_mort f k1) (\<lambda>k2. ret (pid_fils, n + 1, k2))
       else
         let fils1 = case frere_droit (proc k f) of None \<Rightarrow> premier_fils (proc k a) | Some g \<Rightarrow> Some g
         in bindr (deref fils1) (\<lambda>g.
              if param = pid (proc k g) \<and> prio (proc k g) < prio (proc k a) then
                bindr (getprio param k) (\<lambda>p. bindr (chprio param (p + 1) k)
                  (\<lambda>(_, k1). bindr (env (n + 1) k1) (loop env param fils1 (n + 2))))
              else loop env param fils1 (n + 1) k)))) = Some y"
    and e: "env = quiet" "param = -1" and col: "all_collected k0 a cs" and "\<exists>c\<in>set cs. fils = Some c"
  then obtain c where c: "fils = Some c" "c \<in> set cs" by blast
  obtain g where g: "g \<in> set cs"
    "(case frere_droit (proc k0 c) of None \<Rightarrow> premier_fils (proc k0 a) | Some g \<Rightarrow> Some g) = Some g"
    using collected_next [OF col c(2)] by blast
  have "actif k0 = Some a" "state (proc k0 c) = MORT" "pid (proc k0 g) = int g"
    using col c(2) g(1) by (simp_all add: all_collected_def)
  then have "loop quiet (-1) (Some g) (n + 1) k0 = Some y"
    using run e c(1) g(2) by (simp add: quiet_def Let_def)
  from IH [OF this] show False using col g(1) by simp
qed

lemma waitpid_hangs:
  assumes "all_collected k a cs" and "q < 0"
  shows "waitpid quiet null q n k = None"
proof -
  obtain c where c: "premier_fils (proc k a) = Some c" "c \<in> set cs"
    using assms(1) lpath_hd by (cases cs) (auto simp: all_collected_def)
  have "pid_dun_fils_loop quiet (-1) (Some c) n k = None"
    using pid_dun_fils_loop_hangs [of quiet "-1" "Some c" n k _ a cs] assms(1) c(2)
    by (cases "pid_dun_fils_loop quiet (-1) (Some c) n k") auto
  then have "waitpid_loop quiet (-1) (\<lambda>v. \<not> v < 0) n k = None"
    using assms(1) c(1) by (subst waitpid_loop.simps) (simp add: pid_dun_fils_termine_def all_collected_def)
  then show ?thesis using assms c(1) by (simp add: waitpid_def all_collected_def)
qed

end
