(* ===== verification/Kernel_Props.thy ===== *)
theory Kernel_Props
  imports Kernel_Run
begin

text \<open>
  The properties of the processes and of the scheduler (shared/queue.h, kernel/proc.c,
  kernel/ctx_sw.S), each with a witness on a small kernel in which process 1 runs, the queue
  holds the processes 0, 2 and 3, process 4 sleeps until the time 50 and process 5 is dead.
\<close>

subsection \<open>A small kernel\<close>

definition sample_links :: links where
  "sample_links = \<lparr>
     prev = [Head \<mapsto> Link 3, Link 3 \<mapsto> Link 2, Link 2 \<mapsto> Link 0, Link 0 \<mapsto> Head],
     next = [Head \<mapsto> Link 0, Link 0 \<mapsto> Link 2, Link 2 \<mapsto> Link 3, Link 3 \<mapsto> Head]\<rparr>"

definition sample_state :: "nat \<Rightarrow> process_state" where
  "sample_state i =
     (if i = 4 then ENDORMI else if i = 5 then MORT else if i = 6 then ZOMBIE else ACTIVABLE)"

definition sample_prio :: "nat \<Rightarrow> u32" where
  "sample_prio i = (if i = 0 then 1 else if i = 2 then 3 else 5)"

definition sample_process :: "nat \<Rightarrow> process" where
  "sample_process i = zero_process\<lparr>pid := int i, state := sample_state i, prio := sample_prio i,
     time_to_wake := (if i = 4 then 50 else 0), regs := [of_nat i, 0, 0, 0, 0],
     pere := (if i = 1 then Some 3 else None),
     premier_fils := (if i = 3 then Some 1 else None),
     dernier_fils := (if i = 3 then Some 1 else None)\<rparr>"

definition sample :: kernel where
  "sample = \<lparr>process_tab = sample_process, head_queue = sample_links, process_alive = 6,
     endormi_list = Some 4, endormi_tail = Some 4, dead_list = Some 5, dead_tail = Some 5,
     actif = Some 1, nb_tick = 10, cpu_regs = [7, 7, 7, 7, 7], exit_param = (\<lambda>_. 0)\<rparr>"

lemmas sample_simps = sample_def sample_process_def sample_state_def sample_prio_def sample_links_def
  zero_process_def

lemma kinv_sample: "kinv sample 1 [0, 2, 3] [4] [5]"
proof -
  have "queue_rep sample_links [0, 2, 3]"
    by (auto simp: queue_rep_def sample_links_def)
  then have "ready_ok sample [0, 2, 3]"
    by (simp add: ready_ok_def sorted_prio_def prios_def) (simp add: sample_simps)
  moreover have "sleep_ok sample [4]" "dead_ok sample [5]"
    by (simp_all add: sleep_ok_def dead_ok_def) (simp_all add: sample_simps)
  ultimately show ?thesis
    by (simp add: kinv_def lists_ok_def running_def PROCESS_TABLE_SIZE_def)
      (simp add: sample_simps)
qed

lemma prios_sample: "prios sample = sample_prio"
  by (auto simp: prios_def fun_eq_iff sample_def sample_process_def zero_process_def)

lemma not_due_sample: "\<not> due sample [4]"
  by (simp add: due_def) (simp add: sample_simps)

lemma woken_sample: "woken_rs sample [0, 2, 3] [4] = [0, 2, 3]" "woken_es sample [4] = [4]"
  by (simp_all add: woken_rs_def woken_es_def not_due_sample)

lemma fam_ok_sample: "fam_ok sample"
  by (simp add: fam_ok_def sample_simps)

definition sample_addresses :: addresses where
  "sample_addresses = \<lparr>exec_stack_at = (\<lambda>i. 0x10000 * of_nat i), fin_processus_at = 0x2000, idle_at = 0x1000\<rparr>"

definition peers :: kernel where
  "peers = sample\<lparr>process_tab := (\<lambda>i. (sample_process i)\<lparr>prio := 5\<rparr>),
     endormi_list := None, endormi_tail := None\<rparr>"

lemma kinv_peers: "kinv peers 1 [0, 2, 3] [] [5]"
proof -
  have "queue_rep sample_links [0, 2, 3]"
    by (auto simp: queue_rep_def sample_links_def)
  then have "ready_ok peers [0, 2, 3]"
    by (simp add: ready_ok_def sorted_prio_def prios_def peers_def) (simp add: sample_simps)
  moreover have "sleep_ok peers []" "dead_ok peers [5]"
    by (simp_all add: sleep_ok_def dead_ok_def peers_def) (simp_all add: sample_simps)
  ultimately show ?thesis
    by (simp add: kinv_def lists_ok_def running_def PROCESS_TABLE_SIZE_def)
      (simp add: peers_def sample_simps)
qed

lemma prios_peers: "prios peers = (\<lambda>_. 5)"
  by (auto simp: prios_def fun_eq_iff peers_def)

subsection \<open>The scheduler\<close>



text \<open>
  C2: The scheduler on the pointers refines the abstract scheduler: one due sleeper joins the
  queue, the process that \<open>schedule\<close> elects gets the processor, the lists become those of
  \<open>schedule\<close>, the registers of the old process are saved and those of the new one are loaded.
\<close>

theorem ordonnance_refines_schedule:
  assumes "kinv k a rs es ds" and "schedule (prios k) False a (woken_rs k rs es) = (b, rs')"
  shows "\<exists>k'. ordonnance k = ret k' \<and> kinv k' b rs' (woken_es k es) ds \<and> same_procs k k' \<and>
    (b \<noteq> a \<longrightarrow> state (proc k' b) = ACTIVABLE) \<and> (b = a \<longrightarrow> state (proc k' a) = state (proc k a)) \<and>
    regs (proc k' a) = cpu_regs k \<and> cpu_regs k' = (if b = a then cpu_regs k else regs (proc k b))"
  using assms by (rule ordonnance_running)

lemma ordonnance_refines_schedule_witness:
  "\<exists>k'. ordonnance sample = ret k' \<and> kinv k' 3 [0, 2, 1] [4] [5] \<and> cpu_regs k' = [3, 0, 0, 0, 0]"
proof -
  have "schedule (prios sample) False 1 (woken_rs sample [0, 2, 3] [4]) = (3, [0, 2, 1])"
    by (simp add: woken_sample prios_sample schedule_def pq_insert_def sample_prio_def)
  from ordonnance_refines_schedule [OF kinv_sample this] show ?thesis
    by (simp add: woken_sample) (auto simp: sample_simps)
qed

text \<open>
  C3: Fair turns: among processes of equal priority and without sleepers, every ready process
  gets the processor after at most as many calls of the scheduler as there are ready processes.
\<close>

theorem round_robin_fair:
  assumes "kinv k a rs [] ds" and "\<forall>r\<in>set rs. prios k r = prios k a" and "r \<in> set rs"
  shows "\<exists>n \<le> length rs. \<exists>k'. yields n k = ret k' \<and> running k' r"
  using assms by (rule yields_fair)

lemma round_robin_fair_witness:
  "\<exists>n \<le> 3. \<exists>k'. yields n peers = ret k' \<and> running k' 0"
  using round_robin_fair [OF kinv_peers, of 0] by (simp add: prios_peers numeral_3_eq_3)

text \<open>
  C4: A process that has gone to sleep until a time to come leaves the processor to the last of
  the queue, and stands among the sleepers behind those that wake no later than itself.
\<close>

theorem sleep_until_leaves_processor:
  assumes "kinv k a rs es ds" and "now k < t" and "woken_rs k rs es = rs' @ [b]"
  shows "\<exists>k'. sleep_until t k = ret k' \<and>
    kinv k' b rs' (sl_insert ((wake k)(a := t)) a (woken_es k es)) ds \<and> same_procs k k' \<and>
    regs (proc k' a) = cpu_regs k \<and> cpu_regs k' = regs (proc k b)"
  using assms by (rule sleep_until_future)

lemma sleep_until_leaves_processor_witness:
  "\<exists>k'. sleep_until 60 sample = ret k' \<and> kinv k' 3 [0, 2] [4, 1] [5]"
proof -
  have "now sample < 60" by (simp add: sample_simps)
  moreover have "woken_rs sample [0, 2, 3] [4] = [0, 2] @ [3]" by (simp add: woken_sample)
  moreover have "sl_insert ((wake sample)(1 := 60)) 1 (woken_es sample [4]) = [4, 1]"
    by (simp add: woken_sample sl_insert_def) (simp add: sample_simps)
  ultimately show ?thesis
    using sleep_until_leaves_processor [OF kinv_sample, of 60 "[0, 2]" 3] by metis
qed

text \<open>
  C5: A sleep whose end is already past, in front of the other sleepers, while a process of at
  least the same priority is ready, stops the kernel: the process is woken by its own call of the
  scheduler, is added to the queue twice, and the assertion of the queue fails.
\<close>

theorem sleep_in_the_past_panics:
  assumes "kinv k a rs es ds" and "t \<le> now k" and "es = [] \<or> t < wake k (hd es)"
    and "rs \<noteq> []" and "prios k a \<le> prios k (last rs)"
  shows "sleep_until t k = err Panic"
  using assms by (rule sleep_until_past_panic)

lemma sleep_in_the_past_panics_witness: "dors 3 sample = err Panic"
proof -
  have "sleep_until 3 sample = err Panic"
    by (rule sleep_in_the_past_panics [OF kinv_sample])
      (simp_all add: prios_sample sample_prio_def, simp_all add: sample_simps)
  then show ?thesis by (simp add: dors_is_sleep_until)
qed

text \<open>
  Waking takes one sleeper only: when the first sleeper is due it is moved to the queue, and
  the others stay asleep, even those whose time is past.
\<close>

theorem wake_process_wakes_one:
  assumes "sleep_ok k (e # es)" and "ready_ok k rs" and "e \<notin> set rs" and "due k (e # es)"
  shows "\<exists>k'. wake_process k = ret k' \<and> ready_ok k' (pq_insert (prios k) e rs) \<and>
    sleep_ok k' es \<and> same_static k k' \<and> same_links (- {e}) k k' \<and>
    dead_list k' = dead_list k \<and> dead_tail k' = dead_tail k \<and> state (proc k' e) = ACTIVABLE"
  using assms by (rule wake_process_due)

lemma wake_process_wakes_one_witness:
  "\<exists>k'. wake_process (sample\<lparr>nb_tick := 80\<rparr>) = ret k' \<and> ready_ok k' [0, 2, 4, 3] \<and> sleep_ok k' []"
proof -
  let ?k = "sample\<lparr>nb_tick := 80\<rparr>"
  have inv: "kinv ?k 1 [0, 2, 3] [4] [5]" using kinv_sample by (simp add: kinv_tick)
  have due: "due ?k [4]" by (simp add: due_def) (simp add: sample_simps)
  have "prios ?k = sample_prio" using prios_sample by (simp add: prios_def fun_eq_iff)
  then have "pq_insert (prios ?k) 4 [0, 2, 3] = [0, 2, 4, 3]"
    by (simp add: pq_insert_def sample_prio_def)
  then show ?thesis
    using wake_process_wakes_one [OF kinvD(11) [OF inv] kinvD(10) [OF inv] _ due] by auto
qed

subsection \<open>The life of a process\<close>





text \<open>A process that has no father cannot end: \<open>fin_processus\<close> follows the NULL pointer \<open>pere\<close>.\<close>

theorem exit_without_father:
  assumes "kinv k a rs es ds" and "pere (proc k a) = None"
    and "lpath (\<lambda>i. frere_droit (proc k i)) (premier_fils (proc k a)) cs"
  shows "exit v k = err Null_Deref"
  using assms by (rule exit_orphan)

lemma exit_without_father_witness: "exit 0 (upd 1 (\<lambda>p. p\<lparr>pere := None\<rparr>) peers) = err Null_Deref"
proof -
  let ?k = "upd 1 (\<lambda>p. p\<lparr>pere := None\<rparr>) peers"
  have "ready_ok ?k [0, 2, 3] = ready_ok peers [0, 2, 3]" by (rule ready_ok_cong) auto
  moreover have "sleep_ok ?k [] = sleep_ok peers []" by (rule sleep_ok_cong) (auto simp: same_links_def)
  moreover have "dead_ok ?k [5] = dead_ok peers [5]" by (rule dead_ok_cong) (auto simp: same_links_def)
  ultimately have "kinv ?k 1 [0, 2, 3] [] [5]"
    using kinv_peers by (simp add: kinv_def lists_ok_def running_def)
  from exit_without_father [OF this, of "[]" 0] show ?thesis
    by (simp add: peers_def sample_simps upd_def)
qed

text \<open>
  \<open>start\<close> finds its slot by counting the living processes: when the slot of that number is
  in use by a ready process, the assertion of the queue stops the kernel.
\<close>

theorem start_in_used_slot_panics:
  assumes "kinv k a rs es []" and "fam_ok k" and "n = unat (process_alive k)"
    and "n \<in> set rs" and "0 < n" and "ssize < 0xffffffff" and "length nm < 15"
  shows "start ad pt ssize pr nm arg k = err Panic"
  using assms by (rule start_slot_in_use)

lemma start_in_used_slot_panics_witness:
  "start sample_addresses 0 512 4 ''p'' 0 (sample\<lparr>process_alive := 3, dead_list := None, dead_tail := None\<rparr>) = err Panic"
proof -
  let ?k = "sample\<lparr>process_alive := 3, dead_list := None, dead_tail := None\<rparr>"
  have "ready_ok ?k [0, 2, 3] = ready_ok sample [0, 2, 3]" by (rule ready_ok_cong) auto
  moreover have "sleep_ok ?k [4] = sleep_ok sample [4]" by (rule sleep_ok_cong) (auto simp: same_links_def)
  moreover have "dead_ok ?k []" by (simp add: dead_ok_def)
  ultimately have "kinv ?k 1 [0, 2, 3] [4] []"
    using kinv_sample by (simp add: kinv_def lists_ok_def running_def)
  moreover have "fam_ok ?k" using fam_ok_sample by (simp add: fam_ok_def)
  ultimately show ?thesis by (rule start_in_used_slot_panics [where n = 3]) simp_all
qed



subsection \<open>Priorities, kill and the queue\<close>

text \<open>
  C9: \<open>chprio\<close> on a process that runs, is ready or sleeps: the old priority is returned, the
  new one is set, a ready process moves to its place in the queue, and the scheduler runs.
\<close>

theorem chprio_moves_process:
  assumes "kinv k a rs es ds" and "t \<in> set (a # rs @ es)" and "1 \<le> np" and "np \<le> MAX_PRIO"
  shows "\<exists>q. chprio (int t) np k =
      bindr (ordonnance ((set_prio t np k)\<lparr>head_queue := q\<rparr>)) (\<lambda>k'. ret (sint (prio (proc k t)), k')) \<and>
    kinv ((set_prio t np k)\<lparr>head_queue := q\<rparr>) a (reprio ((prios k)(t := word_of_int np)) t rs) es ds"
  using assms by (rule chprio_ok)

lemma chprio_moves_process_witness:
  "\<exists>q. kinv ((set_prio 0 9 sample)\<lparr>head_queue := q\<rparr>) 1 [2, 3, 0] [4] [5]"
proof -
  have "reprio ((prios sample)(0 := word_of_int 9)) 0 [0, 2, 3] = [2, 3, 0]"
    by (simp add: reprio_def prios_sample pq_insert_def sample_prio_def)
  then show ?thesis
    using chprio_moves_process [OF kinv_sample, of 0 9] by (auto simp: MAX_PRIO_def)
qed

text \<open>\<open>getprio\<close> finds the running process, the ready ones and the sleeping ones, and no other.\<close>

theorem getprio_finds:
  assumes "kinv k a rs es ds"
  shows "getprio n k =
    ret (if 0 \<le> n \<and> nat n \<in> set (a # rs @ es) then sint (prio (proc k (nat n))) else -1)"
  using assms by (rule getprio_ok)

lemma getprio_finds_witness: "getprio 2 sample = ret 3 \<and> getprio 5 sample = ret (-1)"
  using getprio_finds [OF kinv_sample, of 2] getprio_finds [OF kinv_sample, of 5]
  by (simp add: sample_simps)

text \<open>
  \<open>kill\<close> of a sleeper: the process is taken out of the sleepers and is dead, but the value is
  0 only when it was the first of the list; for any other sleeper it is -1.
\<close>

theorem kill_sleeper_result:
  assumes "kinv k a rs es ds" and "t \<in> set es" and "t \<noteq> 0"
  shows "\<exists>k'. kill (int t) k = ret (if t = hd es then 0 else -1, k') \<and>
    kinv k' a rs (remove1 t es) (ds @ [t]) \<and> state (proc k' t) = MORT"
  using kill_sleeper [OF assms] by blast

lemma kill_sleeper_result_witness:
  "\<exists>k'. kill 4 sample = ret (0, k') \<and> kinv k' 1 [0, 2, 3] [] [5, 4]"
  using kill_sleeper_result [OF kinv_sample, of 4] by auto

text \<open>
  \<open>kill\<close> of a ready process takes it out of the queue as a zombie; the order of the others
  and the count of the living processes do not change.
\<close>

theorem kill_ready_result:
  assumes "kinv k a rs es ds" and "t \<in> set rs" and "t \<noteq> 0"
  shows "\<exists>k'. kill (int t) k = ret (0, k') \<and> kinv k' a (remove1 t rs) es ds \<and>
    state (proc k' t) = ZOMBIE \<and> process_alive k' = process_alive k"
  using kill_ready [OF assms] by blast

lemma kill_ready_result_witness:
  "\<exists>k'. kill 2 sample = ret (0, k') \<and> kinv k' 1 [0, 3] [4] [5]"
  using kill_ready_result [OF kinv_sample, of 2] by auto

text \<open>
  C10: The priority queue is a stable priority queue: taking out all the elements that were added
  gives them by decreasing priority, and in the order of their addition among equals.
\<close>

theorem queue_is_stable_sort:
  assumes "distinct es"
  shows "bindr (queue_add_all p es LIST_HEAD) queue_drain = ret (rev (sort_key p (rev es)))"
  using assms by (rule queue_order)

lemma queue_is_stable_sort_witness:
  "bindr (queue_add_all sample_prio [3, 0, 1, 2] LIST_HEAD) queue_drain = ret [3, 1, 2, 0]"
  using queue_is_stable_sort [of "[3, 0, 1, 2]" sample_prio]
  by (simp add: sample_prio_def sort_key_def word_le_nat_alt)

text \<open>
  \<open>insert_endormi\<close> keeps the list of the sleepers sorted by wake-up time, and puts the new
  one behind those that wake no later.
\<close>

theorem insert_endormi_sorted:
  assumes "sleep_ok k es" and "e \<notin> set es"
  shows "\<exists>k'. insert_endormi e t k = ret k' \<and>
    sleep_ok k' (sl_insert ((wake k)(e := t)) e es) \<and> same_static k k' \<and>
    head_queue k' = head_queue k \<and> dead_list k' = dead_list k"
  using insert_endormi_ok [OF assms] by blast

lemma insert_endormi_sorted_witness:
  "\<exists>k'. insert_endormi 1 20 sample = ret k' \<and> sleep_ok k' [1, 4]"
proof -
  have "sl_insert ((wake sample)(1 := 20)) 1 [4] = [1, 4]"
    by (simp add: sl_insert_def) (simp add: sample_simps)
  then show ?thesis using insert_endormi_sorted [OF kinvD(11) [OF kinv_sample], of 1 20] by auto
qed

text \<open>
  What \<open>display_queue\<close> prints is the queue from the lowest place to the highest, or the
  other way round, one line for each ready process.
\<close>

theorem display_queue_lists:
  assumes "queue_rep (head_queue k) rs"
  shows "display_queue normal k =
    ret (map (\<lambda>i. (name (proc k i), sint (prio (proc k i)))) (if normal then rs else rev rs))"
  using assms by (rule display_queue_ok)

lemma display_queue_lists_witness:
  "display_queue False sample = ret [('''', 5), ('''', 3), ('''', 1)]"
proof -
  have "queue_rep (head_queue sample) [0, 2, 3]"
    using kinvD(10) [OF kinv_sample] by (simp add: ready_ok_def)
  from display_queue_lists [OF this, of False] show ?thesis by (simp add: sample_simps)
qed

end
