(* ===== verification/Hash_Probe.thy ===== *)
theory Hash_Probe
  imports Prelude
begin

text \<open>
  The order in which \<open>hash_lookup\<close> of kernel/hash.c visits the slots. The index follows
  \<open>index = 5 * index + perturb + 1\<close> while \<open>perturb\<close> is shifted out; once it is zero, the
  sequence modulo a power of two visits every slot, so a table with an empty slot is never
  searched for ever.
\<close>

subsection \<open>The congruential sequence\<close>

definition lcg :: "int \<Rightarrow> int" where
  "lcg x = 5 * x + 1"

lemma lcg_affine: "(lcg ^^ n) x = 5 ^ n * x + (lcg ^^ n) 0"
  by (induction n) (simp_all add: lcg_def algebra_simps)

lemma funpow_add_apply: "(f ^^ (m + n)) x = (f ^^ m) ((f ^^ n) x)"
  by (simp add: funpow_add)

lemma five_pow_dvd: "(2::int) ^ (k + 2) dvd 5 ^ 2 ^ k - 1"
proof (induction k)
  case 0
  then show ?case by simp
next
  case (Suc k)
  have "(5::int) ^ 2 ^ Suc k - 1 = (5 ^ 2 ^ k - 1) * (5 ^ 2 ^ k + 1)"
    by (simp add: power_mult [symmetric] algebra_simps power2_eq_square [symmetric])
  moreover have "even ((5::int) ^ 2 ^ k + 1)" by simp
  ultimately have "2 ^ (k + 2) * 2 dvd (5::int) ^ 2 ^ Suc k - 1"
    using mult_dvd_mono [OF Suc, of 2 "5 ^ 2 ^ k + 1"] by simp
  then show ?case by (simp add: mult.commute)
qed

lemma lcg_half_period: "\<exists>t. (lcg ^^ (2 ^ k)) 0 = 2 ^ k * (2 * t + 1)"
proof (induction k)
  case 0
  then show ?case by (intro exI [of _ 0]) (simp add: lcg_def)
next
  case (Suc k)
  then obtain t where t: "(lcg ^^ (2 ^ k)) 0 = 2 ^ k * (2 * t + 1)" by blast
  obtain u where u: "(5::int) ^ 2 ^ k - 1 = 2 ^ (k + 2) * u" using five_pow_dvd by (auto simp: dvd_def)
  let ?b = "2 ^ k * (2 * t + 1) :: int"
  have "(lcg ^^ (2 ^ Suc k)) 0 = (lcg ^^ (2 ^ k)) ((lcg ^^ (2 ^ k)) 0)"
    by (simp add: funpow_add_apply [symmetric] mult_2)
  also have "\<dots> = 5 ^ 2 ^ k * ?b + ?b" by (subst lcg_affine) (simp add: t)
  also have "\<dots> = (2 ^ (k + 2) * u + 1) * ?b + ?b" using u by (simp add: algebra_simps)
  also have "\<dots> = 2 ^ Suc k * (2 * (2 ^ k * u * (2 * t + 1) + t) + 1)"
    by (simp add: algebra_simps)
  finally show ?case by blast
qed

lemma lcg_shift: "(lcg ^^ (2 ^ k)) x mod 2 ^ Suc k = (x + 2 ^ k) mod 2 ^ Suc k"
proof -
  obtain t where t: "(lcg ^^ (2 ^ k)) 0 = 2 ^ k * (2 * t + 1)" using lcg_half_period by blast
  obtain u where u: "(5::int) ^ 2 ^ k - 1 = 2 ^ (k + 2) * u" using five_pow_dvd by (auto simp: dvd_def)
  have "(lcg ^^ (2 ^ k)) x - (x + 2 ^ k) = (5 ^ 2 ^ k - 1) * x + 2 ^ k * (2 * t)"
    by (subst lcg_affine) (simp add: t algebra_simps)
  also have "\<dots> = 2 ^ Suc k * (2 * u * x + t)" unfolding u by (simp add: algebra_simps)
  finally have "2 ^ Suc k dvd (lcg ^^ (2 ^ k)) x - (x + 2 ^ k)" by (simp only: dvd_triv_left)
  then show ?thesis by (simp only: mod_eq_dvd_iff)
qed

text \<open>Full period: modulo \<open>2 ^ k\<close> every value is reached in fewer than \<open>2 ^ k\<close> steps.\<close>

lemma lcg_full_period: "\<exists>n < 2 ^ k. (lcg ^^ n) x mod 2 ^ k = y mod 2 ^ k"
proof (induction k)
  case 0
  then show ?case by auto
next
  case (Suc k)
  then obtain n where n: "n < 2 ^ k" "(lcg ^^ n) x mod 2 ^ k = y mod 2 ^ k" by blast
  have "2 ^ k dvd (lcg ^^ n) x - y" using n(2) by (simp only: mod_eq_dvd_iff)
  then obtain q where q: "(lcg ^^ n) x = y + 2 ^ k * q" by (auto simp: dvd_def algebra_simps)
  show ?case
  proof (cases "even q")
    case True
    then obtain r where "q = 2 * r" by blast
    then have "(lcg ^^ n) x = y + 2 ^ Suc k * r" using q by simp
    then have "(lcg ^^ n) x mod 2 ^ Suc k = y mod 2 ^ Suc k" by simp
    then show ?thesis using n(1) by (intro exI [of _ n]) auto
  next
    case False
    then obtain r where "q = 2 * r + 1" by (blast elim: oddE)
    then have q': "(lcg ^^ n) x + 2 ^ k = y + 2 ^ Suc k * (r + 1)" using q by (simp add: algebra_simps)
    have "(lcg ^^ (2 ^ k + n)) x mod 2 ^ Suc k = ((lcg ^^ n) x + 2 ^ k) mod 2 ^ Suc k"
      unfolding funpow_add_apply by (rule lcg_shift)
    also have "\<dots> = y mod 2 ^ Suc k" unfolding q' by simp
    finally show ?thesis using n(1) by (intro exI [of _ "2 ^ k + n"]) auto
  qed
qed

subsection \<open>The slots that are visited\<close>

text \<open>The variables \<open>index\<close> and \<open>perturb\<close> at the start of the \<open>j\<close>-th turn of the loop.\<close>

fun probe :: "u32 \<Rightarrow> u32 \<Rightarrow> nat \<Rightarrow> u32 \<times> u32" where
  "probe m h 0 = (h AND m, h)"
| "probe m h (Suc j) = (let (i, p) = probe m h j in (5 * i + p + 1, drop_bit 5 p))"

definition probe_slot :: "u32 \<Rightarrow> u32 \<Rightarrow> nat \<Rightarrow> nat" where
  "probe_slot m h j = unat (fst (probe m h j) AND m)"

lemma probe_perturb: "snd (probe m h j) = drop_bit (5 * j) h"
  by (induction j) (auto simp: case_prod_beta Let_def ac_simps)

lemma drop_bit_35: "drop_bit (5 * (7 + n)) (h :: u32) = 0"
  by (rule bit_word_eqI) (auto simp: bit_simps dest: bit_imp_le_length)

lemma probe_lcg:
  "uint (fst (probe m h (7 + n))) mod 2 ^ 32 = (lcg ^^ n) (uint (fst (probe m h 7))) mod 2 ^ 32"
proof (induction n)
  case 0
  then show ?case by simp
next
  case (Suc n)
  have "snd (probe m h (7 + n)) = 0" by (simp only: probe_perturb drop_bit_35)
  then have "fst (probe m h (7 + Suc n)) = 5 * fst (probe m h (7 + n)) + 1"
    by (simp only: add_Suc_right probe.simps Let_def case_prod_beta fst_conv add_0_right)
  then have "uint (fst (probe m h (7 + Suc n))) mod 2 ^ 32 = (5 * uint (fst (probe m h (7 + n))) + 1) mod 2 ^ 32"
    by (simp add: uint_word_ariths mod_simps)
  also have "\<dots> = (5 * (uint (fst (probe m h (7 + n))) mod 2 ^ 32) + 1) mod 2 ^ 32"
    by (metis mod_add_left_eq mod_mult_right_eq)
  also have "\<dots> = (5 * (lcg ^^ n) (uint (fst (probe m h 7))) + 1) mod 2 ^ 32"
    unfolding Suc by (metis mod_add_left_eq mod_mult_right_eq)
  finally show ?case by (simp only: funpow.simps o_apply lcg_def [of "(lcg ^^ n) x" for x])
qed

definition mask_for :: "nat \<Rightarrow> u32" where
  "mask_for k = 2 ^ k - 1"

lemma and_mask_for: "k \<le> 32 \<Longrightarrow> w AND mask_for k = take_bit k w"
  by (simp add: mask_for_def take_bit_eq_mask mask_eq_exp_minus_1)

lemma unat_and_mask_for: "k \<le> 32 \<Longrightarrow> unat (w AND mask_for k) = unat w mod 2 ^ k"
  by (simp only: and_mask_for unsigned_take_bit_eq) (simp only: take_bit_eq_mod)

lemma probe_slot_less: "k \<le> 32 \<Longrightarrow> probe_slot (mask_for k) h j < 2 ^ k"
  by (simp add: probe_slot_def unat_and_mask_for)

text \<open>Every slot of a table of \<open>2 ^ k\<close> slots is visited within \<open>2 ^ k + 7\<close> turns.\<close>

lemma probe_covers:
  assumes "k \<le> 32" and "s < 2 ^ k"
  shows "\<exists>j < 2 ^ k + 7. probe_slot (mask_for k) h j = s"
proof -
  let ?x = "uint (fst (probe (mask_for k) h 7))"
  obtain n where n: "n < 2 ^ k" "(lcg ^^ n) ?x mod 2 ^ k = int s mod 2 ^ k"
    using lcg_full_period by blast
  have dvd: "(2::int) ^ k dvd 2 ^ 32" using assms(1) by (rule le_imp_power_dvd)
  let ?i = "fst (probe (mask_for k) h (7 + n))"
  have "uint ?i mod 2 ^ k = uint ?i mod 2 ^ 32 mod 2 ^ k"
    using dvd by (simp only: mod_mod_cancel)
  also have "\<dots> = (lcg ^^ n) ?x mod 2 ^ 32 mod 2 ^ k" by (simp only: probe_lcg)
  also have "\<dots> = (lcg ^^ n) ?x mod 2 ^ k" using dvd by (simp only: mod_mod_cancel)
  finally have "uint ?i mod 2 ^ k = int s" using n(2) assms(2) by simp
  then have "int (unat ?i mod 2 ^ k) = int s" by (simp add: zmod_int)
  then have "unat ?i mod 2 ^ k = s" by (simp only: of_nat_eq_iff)
  then have "probe_slot (mask_for k) h (7 + n) = s"
    using assms(1) by (simp add: probe_slot_def unat_and_mask_for)
  then show ?thesis using n(1) by (intro exI [of _ "7 + n"]) auto
qed

end
