(* ===== verification/Hash_Table.thy ===== *)
theory Hash_Table
  imports Hash_Probe
begin

text \<open>
  The generic hash table of kernel/hash.c: open addressing with deleted slots, the probe order
  of \<open>Hash_Probe\<close>, and a table that is doubled or halved. Keys and values are pointers, NULL
  is 0, and \<open>long\<close> has 32 bits. The counters \<open>fill\<close> and \<open>count\<close> are exact: they are bounded by
  the number of slots, which the 32-bit address space bounds. The argument \<open>ok\<close> of an operation
  is the outcome of the one call of \<open>mem_alloc\<close> it may make.
\<close>

subsection \<open>The code\<close>

definition HASH_MINSIZE :: int where "HASH_MINSIZE = 8"

datatype slot_mode = SL_EMPTY | SL_ACTIVE | SL_DELETED

record hash_slot =
  key :: u32
  "value" :: u32
  shash :: u32
  mode :: slot_mode

text \<open>The field \<open>mask\<close> is named \<open>imask\<close> here, and the \<open>hash\<close> of a slot \<open>shash\<close>.\<close>

record hash_t =
  fill :: int
  count :: int
  imask :: u32
  table :: "hash_slot list"
  hfunc :: "u32 \<Rightarrow> u32"
  cmp :: "u32 \<Rightarrow> u32 \<Rightarrow> bool"

definition empty_slot :: hash_slot where
  "empty_slot = \<lparr>key = 0, value = 0, shash = 0, mode = SL_EMPTY\<rparr>"

definition hash_initialize :: "bool \<Rightarrow> hash_t \<Rightarrow> int \<Rightarrow> int \<times> hash_t" where
  "hash_initialize ok m sz =
     (if \<not> ok then (-1, m)
      else (0, m\<lparr>fill := 0, count := 0, imask := word_of_int (sz - 1),
                 table := replicate (nat sz) empty_slot\<rparr>))"

text \<open>
  The loop of \<open>hash_lookup\<close>. A pointer to a slot is its index in the table.
\<close>

partial_function (option) hash_loop ::
  "hash_t \<Rightarrow> u32 \<Rightarrow> u32 \<Rightarrow> u32 \<Rightarrow> u32 \<Rightarrow> nat \<Rightarrow> nat option \<Rightarrow> nat res" where
  "hash_loop m k h index perturb slot freeslot =
     (if slot \<ge> length (table m) then err Out_Of_Bounds
      else
        let s = table m ! slot in
        if mode s = SL_EMPTY then ret (case freeslot of None \<Rightarrow> slot | Some f \<Rightarrow> f)
        else if mode s = SL_ACTIVE \<and> (key s = k \<or> shash s = h \<and> cmp m (key s) k) then ret slot
        else
          let freeslot1 = (if mode s = SL_DELETED \<and> freeslot = None then Some slot else freeslot);
              index1 = 5 * index + perturb + 1;
              slot1 = unat (index1 AND imask m);
              perturb1 = drop_bit 5 perturb
          in hash_loop m k h index1 perturb1 slot1 freeslot1)"

definition hash_lookup :: "hash_t \<Rightarrow> u32 \<Rightarrow> u32 \<Rightarrow> nat res" where
  "hash_lookup m k h =
     (let index = h AND imask m in hash_loop m k h index h (unat index) None)"

fun hash_copy :: "hash_t \<Rightarrow> hash_slot list \<Rightarrow> hash_t res" where
  "hash_copy m [] = ret m"
| "hash_copy m (old # olds) =
     (if mode old \<noteq> SL_ACTIVE then hash_copy m olds
      else bindr (hash_lookup m (key old) (hfunc m (key old))) (\<lambda>i.
        hash_copy
          (m\<lparr>table := (table m)[i := \<lparr>key = key old, value = value old, shash = shash old, mode = SL_ACTIVE\<rparr>],
             fill := fill m + 1, count := count m + 1\<rparr>) olds))"

text \<open>\<open>new_size <<= 1\<close> is done on a signed 32-bit value.\<close>

definition hash_update :: "bool \<Rightarrow> hash_t \<Rightarrow> (int \<times> hash_t) res" where
  "hash_update ok m =
     (let old_size = sint (imask m + 1);
          resize = (\<lambda>new_size.
            let old_table = table m;
                (v, m1) = hash_initialize ok m new_size
            in if v = -1 then ret (-1, m1)
               else bindr (hash_copy m1 old_table) (\<lambda>m2. ret (0, m2)))
      in
      if 3 * fill m \<ge> 2 * old_size then
        (let new_size = sint (word_of_int (2 * old_size) :: u32)
         in if new_size < old_size then ret (-1, m) else resize new_size)
      else if old_size > HASH_MINSIZE \<and> 4 * count m \<le> old_size then resize (old_size div 2)
      else ret (0, m))"

definition hash_init :: "bool \<Rightarrow> hash_t \<Rightarrow> (u32 \<Rightarrow> u32) \<Rightarrow> (u32 \<Rightarrow> u32 \<Rightarrow> bool) \<Rightarrow> int \<times> hash_t" where
  "hash_init ok m hf cf =
     (let (v, m1) = hash_initialize ok m HASH_MINSIZE
      in if v = -1 then (-1, m1) else (0, m1\<lparr>hfunc := hf, cmp := cf\<rparr>))"

text \<open>A destroyed table has no slots and no functions; the functions are never called again.\<close>

definition hash_destroy :: "hash_t \<Rightarrow> hash_t" where
  "hash_destroy m =
     m\<lparr>fill := 0, count := 0, imask := 0, table := [], hfunc := (\<lambda>_. 0), cmp := (\<lambda>_ _. False)\<rparr>"

definition hash_isset :: "hash_t option \<Rightarrow> u32 \<Rightarrow> bool res" where
  "hash_isset mp k =
     (case mp of
        None \<Rightarrow> ret False
      | Some m \<Rightarrow> bindr (hash_lookup m k (hfunc m k)) (\<lambda>i. ret (mode (table m ! i) = SL_ACTIVE)))"

definition hash_get :: "hash_t option \<Rightarrow> u32 \<Rightarrow> u32 \<Rightarrow> u32 res" where
  "hash_get mp k default_value =
     (case mp of
        None \<Rightarrow> ret default_value
      | Some m \<Rightarrow> bindr (hash_lookup m k (hfunc m k)) (\<lambda>i.
          if mode (table m ! i) = SL_ACTIVE then ret (value (table m ! i)) else ret default_value))"

definition hash_set :: "bool \<Rightarrow> hash_t option \<Rightarrow> u32 \<Rightarrow> u32 \<Rightarrow> (int \<times> hash_t option) res" where
  "hash_set ok mp k v =
     (case mp of
        None \<Rightarrow> ret (-1, None)
      | Some m \<Rightarrow>
          let h = hfunc m k in
          bindr (hash_lookup m k h) (\<lambda>i.
            let s = table m ! i in
            if mode s = SL_ACTIVE then ret (0, Some (m\<lparr>table := (table m)[i := s\<lparr>value := v\<rparr>]\<rparr>))
            else
              let m1 = m\<lparr>count := count m + 1\<rparr>;
                  m2 = (if mode s = SL_EMPTY then m1\<lparr>fill := fill m1 + 1\<rparr> else m1);
                  m3 = m2\<lparr>table := (table m2)[i := \<lparr>key = k, value = v, shash = h, mode = SL_ACTIVE\<rparr>]\<rparr>
              in bindr (hash_update ok m3) (\<lambda>(r, m4). ret (r, Some m4))))"

definition hash_del :: "bool \<Rightarrow> hash_t option \<Rightarrow> u32 \<Rightarrow> (int \<times> hash_t option) res" where
  "hash_del ok mp k =
     (case mp of
        None \<Rightarrow> ret (-1, None)
      | Some m \<Rightarrow>
          bindr (hash_lookup m k (hfunc m k)) (\<lambda>i.
            if mode (table m ! i) \<noteq> SL_ACTIVE then ret (0, Some m)
            else
              let m1 = m\<lparr>table := (table m)[i := \<lparr>key = 0, value = 0, shash = 0, mode = SL_DELETED\<rparr>],
                         count := count m - 1\<rparr>
              in bindr (hash_update ok m1) (\<lambda>(r, m2). ret (r, Some m2))))"

subsection \<open>What the table represents\<close>

text \<open>
  The laws of the two functions of a table: the comparison is an equivalence and equal keys have
  equal hash codes. They are assumptions on the client, stated as a locale and met by the two
  predefined pairs of functions.
\<close>

locale hash_funs =
  fixes hf :: "u32 \<Rightarrow> u32" and cf :: "u32 \<Rightarrow> u32 \<Rightarrow> bool"
  assumes cf_refl: "cf a a"
    and cf_sym: "cf a b \<Longrightarrow> cf b a"
    and cf_trans: "cf a b \<Longrightarrow> cf b c \<Longrightarrow> cf a c"
    and cf_hf: "cf a b \<Longrightarrow> hf a = hf b"
begin

lemma cf_commute: "cf a b = cf b a"
  using cf_sym by blast

lemma cf_cong: "cf a b \<Longrightarrow> cf a c = cf b c"
  using cf_sym cf_trans by blast

end

definition actives :: "hash_slot list \<Rightarrow> nat" where
  "actives t = length (filter (\<lambda>s. mode s = SL_ACTIVE) t)"

definition useds :: "hash_slot list \<Rightarrow> nat" where
  "useds t = length (filter (\<lambda>s. mode s \<noteq> SL_EMPTY) t)"

text \<open>The slot \<open>i\<close> is reached from the hash code \<open>h\<close> without passing an empty slot.\<close>

definition reached :: "hash_t \<Rightarrow> u32 \<Rightarrow> nat \<Rightarrow> bool" where
  "reached m h i \<longleftrightarrow>
     (\<exists>j. probe_slot (imask m) h j = i \<and>
          (\<forall>j'<j. mode (table m ! probe_slot (imask m) h j') \<noteq> SL_EMPTY))"

text \<open>
  The invariant, but for the empty slot that every search needs: \<open>hash_core\<close>. A table has \<open>2 ^ b\<close>
  slots.
\<close>

definition hash_core :: "hash_t \<Rightarrow> nat \<Rightarrow> bool" where
  "hash_core m b \<longleftrightarrow>
     b \<le> 32 \<and> length (table m) = 2 ^ b \<and> imask m = mask_for b \<and>
     count m = int (actives (table m)) \<and> fill m = int (useds (table m)) \<and>
     (\<forall>i<2 ^ b. mode (table m ! i) = SL_ACTIVE \<longrightarrow>
        shash (table m ! i) = hfunc m (key (table m ! i)) \<and> reached m (shash (table m ! i)) i) \<and>
     (\<forall>i<2 ^ b. \<forall>i'<2 ^ b. mode (table m ! i) = SL_ACTIVE \<and> mode (table m ! i') = SL_ACTIVE \<and>
        cmp m (key (table m ! i)) (key (table m ! i')) \<longrightarrow> i = i')"

definition hash_ok :: "hash_t \<Rightarrow> nat \<Rightarrow> bool" where
  "hash_ok m b \<longleftrightarrow> hash_core m b \<and> useds (table m) < 2 ^ b"

text \<open>The finite map from keys to values.\<close>

definition hash_map :: "hash_t \<Rightarrow> u32 \<Rightarrow> u32 option" where
  "hash_map m k =
     (case filter (\<lambda>s. mode s = SL_ACTIVE \<and> cmp m (key s) k) (table m) of
        [] \<Rightarrow> None
      | s # _ \<Rightarrow> Some (value s))"

end
