(* ===== verification/Hash_Ok.thy ===== *)
theory Hash_Ok
  imports Hash_Table
begin

text \<open>
  The hash table implements a finite map: every search ends, finds the slot of a key that is
  present and a free slot for a key that is absent, and the operations keep the invariant
  \<open>hash_ok\<close> and act on \<open>hash_map\<close> as the operations of a map do.
\<close>

subsection \<open>The search\<close>

definition hl :: "hash_t \<Rightarrow> u32 \<Rightarrow> u32 \<Rightarrow> nat \<Rightarrow> nat option \<Rightarrow> nat res" where
  "hl m k h j fs = hash_loop m k h (fst (probe (imask m) h j)) (snd (probe (imask m) h j))
     (probe_slot (imask m) h j) fs"

abbreviation slot_at :: "hash_t \<Rightarrow> u32 \<Rightarrow> nat \<Rightarrow> hash_slot" where
  "slot_at m h j \<equiv> table m ! probe_slot (imask m) h j"

definition hit :: "hash_t \<Rightarrow> u32 \<Rightarrow> u32 \<Rightarrow> hash_slot \<Rightarrow> bool" where
  "hit m k h s \<longleftrightarrow> mode s = SL_ACTIVE \<and> (key s = k \<or> shash s = h \<and> cmp m (key s) k)"

lemma hash_lookup_hl: "hash_lookup m k h = hl m k h 0 None"
  by (simp add: hash_lookup_def hl_def probe_slot_def Let_def)

lemma hl_step:
  assumes "probe_slot (imask m) h j < length (table m)"
  shows "hl m k h j fs =
    (if mode (slot_at m h j) = SL_EMPTY then
       ret (case fs of None \<Rightarrow> probe_slot (imask m) h j | Some f \<Rightarrow> f)
     else if hit m k h (slot_at m h j) then ret (probe_slot (imask m) h j)
     else hl m k h (Suc j) (if mode (slot_at m h j) = SL_DELETED \<and> fs = None
       then Some (probe_slot (imask m) h j) else fs))"
  using assms unfolding hl_def
  by (subst hash_loop.simps) (auto simp: hit_def Let_def case_prod_beta probe_slot_def)

definition stops :: "hash_t \<Rightarrow> u32 \<Rightarrow> u32 \<Rightarrow> nat \<Rightarrow> bool" where
  "stops m k h j \<longleftrightarrow> mode (slot_at m h j) = SL_EMPTY \<or> hit m k h (slot_at m h j)"

text \<open>
  From turn \<open>j\<close> to the first turn \<open>t\<close> at which the search stops. The slot that is returned is
  that of \<open>t\<close> or, when that one is empty, a deleted slot that was passed.
\<close>

lemma hl_result:
  assumes bound: "\<And>j. probe_slot (imask m) h j < length (table m)"
    and t: "stops m k h t" "\<And>j'. j' < t \<Longrightarrow> \<not> stops m k h j'" and j: "j \<le> t"
  shows "hl m k h j fs = ret
    (if mode (slot_at m h t) = SL_EMPTY then
       (case fs of
          Some f \<Rightarrow> f
        | None \<Rightarrow>
            (case filter (\<lambda>j'. mode (slot_at m h j') = SL_DELETED) [j..<t] of
               [] \<Rightarrow> probe_slot (imask m) h t
             | j' # _ \<Rightarrow> probe_slot (imask m) h j'))
     else probe_slot (imask m) h t)"
  using j
proof (induction "t - j" arbitrary: j fs)
  case 0
  then have "j = t" by simp
  then show ?case using t(1) by (subst hl_step [OF bound]) (auto simp: stops_def hit_def split: option.splits)
next
  case (Suc n)
  then have jt: "j < t" by simp
  then have ns: "\<not> stops m k h j" using t(2) by blast
  have up: "[j..<t] = j # [Suc j..<t]" using jt by (simp add: upt_conv_Cons)
  have IH: "\<And>fs. hl m k h (Suc j) fs = ret
    (if mode (slot_at m h t) = SL_EMPTY then
       (case fs of Some f \<Rightarrow> f | None \<Rightarrow>
            (case filter (\<lambda>j'. mode (slot_at m h j') = SL_DELETED) [Suc j..<t] of
               [] \<Rightarrow> probe_slot (imask m) h t | j' # _ \<Rightarrow> probe_slot (imask m) h j'))
     else probe_slot (imask m) h t)"
    by (rule Suc.hyps(1)) (use Suc.hyps(2) jt in auto)
  show ?case
    using ns by (subst hl_step [OF bound]) (auto simp: stops_def up IH split: option.splits)
qed

lemma hash_ok_bound:
  assumes "hash_ok m b"
  shows "probe_slot (imask m) h j < length (table m)" "probe_slot (imask m) h j < 2 ^ b"
  using assms probe_slot_less [of b h j] by (auto simp: hash_ok_def hash_core_def)

lemma useds_full: "(\<forall>i<length t. mode (t ! i) \<noteq> SL_EMPTY) \<Longrightarrow> useds t = length t"
  unfolding useds_def by (subst filter_True) (auto simp: in_set_conv_nth)

lemma hash_ok_stops:
  assumes "hash_ok m b"
  shows "\<exists>t. stops m k h t \<and> (\<forall>j<t. \<not> stops m k h j)"
proof -
  have len: "length (table m) = 2 ^ b" and u: "useds (table m) < 2 ^ b" and b: "b \<le> 32"
    and im: "imask m = mask_for b"
    using assms by (simp_all add: hash_ok_def hash_core_def)
  have "\<not> (\<forall>i<length (table m). mode (table m ! i) \<noteq> SL_EMPTY)"
    using useds_full [of "table m"] len u by auto
  then obtain i where i: "i < 2 ^ b" "mode (table m ! i) = SL_EMPTY" using len by auto
  obtain j where "probe_slot (imask m) h j = i" using probe_covers [OF b i(1)] im by auto
  then have "stops m k h j" using i by (simp add: stops_def)
  then show ?thesis using exists_least_iff [of "stops m k h"] by blast
qed

lemma hl_slot:
  assumes ok: "hash_ok m b" and t: "stops m k h t" "\<forall>j<t. \<not> stops m k h j"
  shows "\<exists>j\<le>t. hash_lookup m k h = ret (probe_slot (imask m) h j) \<and>
    (if mode (slot_at m h t) = SL_EMPTY then mode (slot_at m h j) \<noteq> SL_ACTIVE else j = t)"
proof -
  let ?d = "filter (\<lambda>j'. mode (slot_at m h j') = SL_DELETED) [0..<t]"
  have run: "hash_lookup m k h = ret
    (if mode (slot_at m h t) = SL_EMPTY then
       (case ?d of [] \<Rightarrow> probe_slot (imask m) h t | j' # _ \<Rightarrow> probe_slot (imask m) h j')
     else probe_slot (imask m) h t)"
    unfolding hash_lookup_hl using hl_result [OF hash_ok_bound(1) [OF ok] t(1)] t(2) by simp
  show ?thesis
  proof (cases ?d)
    case Nil
    then show ?thesis using run by (intro exI [of _ t]) auto
  next
    case (Cons j' js)
    then have "j' \<in> set ?d" by simp
    then have "j' < t" "mode (slot_at m h j') = SL_DELETED" by auto
    then show ?thesis using run Cons
      by (cases "mode (slot_at m h t) = SL_EMPTY") (auto intro: exI [of _ j'] exI [of _ t])
  qed
qed

text \<open>The result of a search, for a key and its hash code.\<close>

definition found :: "hash_t \<Rightarrow> nat \<Rightarrow> u32 \<Rightarrow> nat \<Rightarrow> bool" where
  "found m b k i \<longleftrightarrow> i < 2 ^ b \<and> mode (table m ! i) = SL_ACTIVE \<and> cmp m (key (table m ! i)) k"

definition absent :: "hash_t \<Rightarrow> nat \<Rightarrow> u32 \<Rightarrow> bool" where
  "absent m b k \<longleftrightarrow> (\<forall>i<2 ^ b. mode (table m ! i) = SL_ACTIVE \<longrightarrow> \<not> cmp m (key (table m ! i)) k)"

context hash_funs
begin

lemma lookup_ok:
  assumes ok: "hash_ok m b" and hf: "hfunc m = hf" and cf: "cmp m = cf"
  shows "\<exists>i<2 ^ b. hash_lookup m k (hf k) = ret i \<and>
    (found m b k i \<or> mode (table m ! i) \<noteq> SL_ACTIVE \<and> reached m (hf k) i \<and> absent m b k)"
proof -
  let ?h = "hf k"
  obtain t where t: "stops m k ?h t" "\<forall>j<t. \<not> stops m k ?h j" using hash_ok_stops [OF ok] by blast
  obtain j where j: "j \<le> t" "hash_lookup m k ?h = ret (probe_slot (imask m) ?h j)"
    "if mode (slot_at m ?h t) = SL_EMPTY then mode (slot_at m ?h j) \<noteq> SL_ACTIVE else j = t"
    using hl_slot [OF ok t] by blast
  let ?i = "probe_slot (imask m) ?h j"
  have ib: "?i < 2 ^ b" by (rule hash_ok_bound(2) [OF ok])
  show ?thesis
  proof (cases "mode (slot_at m ?h t) = SL_EMPTY")
    case False
    then have "j = t" "hit m k ?h (slot_at m ?h t)" using j(3) t(1) by (auto simp: stops_def)
    then have "found m b k ?i" using ib cf_refl by (auto simp: hit_def found_def cf)
    then show ?thesis using j(2) ib by blast
  next
    case True
    have "reached m ?h ?i"
      unfolding reached_def using t(2) j(1) by (intro exI [of _ j]) (auto simp: stops_def)
    moreover have "absent m b k"
      unfolding absent_def
    proof (intro allI impI notI)
      fix i' assume i': "i' < 2 ^ b" "mode (table m ! i') = SL_ACTIVE" "cmp m (key (table m ! i')) k"
      then have h: "shash (table m ! i') = ?h" "reached m ?h i'"
        using ok cf_hf [of "key (table m ! i')" k] by (auto simp: hash_ok_def hash_core_def hf cf)
      then obtain j' where j': "probe_slot (imask m) ?h j' = i'"
        "\<forall>j''<j'. mode (slot_at m ?h j'') \<noteq> SL_EMPTY" by (auto simp: reached_def)
      have "stops m k ?h j'" using j'(1) i' h(1) by (simp add: stops_def hit_def)
      then have "t \<le> j'" using t(2) by (meson not_le)
      moreover have "t \<noteq> j'" using True j'(1) i'(2) by auto
      ultimately show False using j'(2) True by auto
    qed
    ultimately show ?thesis using j(2,3) ib True by auto
  qed
qed

end

subsection \<open>Counting slots\<close>

lemma length_filter_update:
  "i < length xs \<Longrightarrow>
   length (filter P (xs[i := y])) + of_bool (P (xs ! i)) = length (filter P xs) + of_bool (P y)"
proof (induction xs arbitrary: i)
  case Nil
  then show ?case by simp
next
  case (Cons x xs)
  then show ?case by (cases i) auto
qed

lemma actives_update:
  "i < length t \<Longrightarrow> actives (t[i := s]) + of_bool (mode (t ! i) = SL_ACTIVE) =
     actives t + of_bool (mode s = SL_ACTIVE)"
  unfolding actives_def by (rule length_filter_update)

lemma useds_update:
  "i < length t \<Longrightarrow> useds (t[i := s]) + of_bool (mode (t ! i) \<noteq> SL_EMPTY) =
     useds t + of_bool (mode s \<noteq> SL_EMPTY)"
  unfolding useds_def by (rule length_filter_update)

lemma actives_le_useds: "actives t \<le> useds t"
  by (induction t) (auto simp: actives_def useds_def)

lemma useds_le_length: "useds t \<le> length t"
  by (simp add: useds_def)

lemma actives_pos: "i < length t \<Longrightarrow> mode (t ! i) = SL_ACTIVE \<Longrightarrow> 0 < actives t"
  unfolding actives_def using nth_mem [of i t] by (auto simp: filter_empty_conv)

lemma reached_mono:
  assumes "reached m h i" and "imask m' = imask m"
    and "\<And>p. mode (table m ! p) \<noteq> SL_EMPTY \<Longrightarrow> mode (table m' ! p) \<noteq> SL_EMPTY"
  shows "reached m' h i"
  using assms unfolding reached_def by metis

subsection \<open>Writing a slot\<close>

lemma absent_or_found: "absent m b k \<or> (\<exists>i. found m b k i)"
  by (auto simp: absent_def found_def)

lemma map_absent:
  assumes "length (table m) = 2 ^ b" and "absent m b k"
  shows "hash_map m k = None"
proof -
  have "filter (\<lambda>s. mode s = SL_ACTIVE \<and> cmp m (key s) k) (table m) = []"
    using assms by (auto simp: filter_empty_conv in_set_conv_nth absent_def)
  then show ?thesis by (simp add: hash_map_def)
qed

definition active_slot :: "u32 \<Rightarrow> u32 \<Rightarrow> u32 \<Rightarrow> hash_slot" where
  "active_slot k v h = \<lparr>key = k, value = v, shash = h, mode = SL_ACTIVE\<rparr>"

lemma active_slot_simps [simp]:
  "key (active_slot k v h) = k" "value (active_slot k v h) = v" "shash (active_slot k v h) = h"
  "mode (active_slot k v h) = SL_ACTIVE"
  by (simp_all add: active_slot_def)

context hash_funs
begin

lemma map_found:
  assumes core: "hash_core m b" and cf: "cmp m = cf" and f: "found m b k i"
  shows "hash_map m k = Some (value (table m ! i))"
proof -
  let ?P = "\<lambda>s. mode s = SL_ACTIVE \<and> cmp m (key s) k"
  have len: "length (table m) = 2 ^ b" using core by (simp add: hash_core_def)
  have "table m ! i \<in> set (filter ?P (table m))" using f len by (simp add: found_def)
  then obtain s ss where ss: "filter ?P (table m) = s # ss" by (cases "filter ?P (table m)") auto
  then have "s \<in> set (filter ?P (table m))" by simp
  then obtain i' where i': "i' < 2 ^ b" "s = table m ! i'" "mode s = SL_ACTIVE" "cf (key s) k"
    using len cf by (auto simp: in_set_conv_nth)
  have "cf (key (table m ! i)) (key (table m ! i'))"
    using f i' cf_trans cf_sym unfolding found_def cf by metis
  then have "i = i'" using core f i' unfolding hash_core_def found_def cf by blast
  then show ?thesis using ss i' by (simp add: hash_map_def)
qed

text \<open>A key is put into a free slot that its search reaches.\<close>

lemma put_core:
  assumes core: "hash_core m b" and hf: "hfunc m = hf" and cf: "cmp m = cf"
    and i: "i < 2 ^ b" "mode (table m ! i) \<noteq> SL_ACTIVE" "reached m (hf k) i" and abs: "absent m b k"
    and m': "m' = m\<lparr>table := (table m)[i := active_slot k v (hf k)], fill := fill m + of_bool (mode (table m ! i) = SL_EMPTY),
      count := count m + 1\<rparr>"
  shows "hash_core m' b" and "hash_map m' k' = (if cf k k' then Some v else hash_map m k')"
    and "useds (table m') = useds (table m) + of_bool (mode (table m ! i) = SL_EMPTY)"
proof -
  have len: "length (table m) = 2 ^ b" and im: "imask m' = imask m"
    using core by (simp_all add: hash_core_def m')
  have at: "table m' ! p = (if p = i then active_slot k v (hf k) else table m ! p)" for p
    using i(1) len by (simp add: m' nth_list_update)
  have keep: "reached m h p \<Longrightarrow> reached m' h p" for h p
    by (rule reached_mono [OF _ im]) (auto simp: at)
  have u: "useds (table m') = useds (table m) + of_bool (mode (table m ! i) = SL_EMPTY)"
    using useds_update [of i "table m" "active_slot k v (hf k)"] i(1) len by (auto simp: m')
  then show "useds (table m') = useds (table m) + of_bool (mode (table m ! i) = SL_EMPTY)" .
  have a: "actives (table m') = actives (table m) + 1"
    using actives_update [of i "table m" "active_slot k v (hf k)"] i(1,2) len by (auto simp: m')
  have fresh: "\<not> cf (key (table m ! p)) k" "\<not> cf k (key (table m ! p))"
    if "p < 2 ^ b" "mode (table m ! p) = SL_ACTIVE" for p
    using that abs cf_commute unfolding absent_def cf by metis+
  have hf': "hfunc m' = hf" and cf': "cmp m' = cf" by (simp_all add: m' hf cf)
  show core': "hash_core m' b"
    unfolding hash_core_def
  proof (intro conjI)
    show "count m' = int (actives (table m'))" "fill m' = int (useds (table m'))"
      using core u a by (simp_all add: hash_core_def m')
    show "\<forall>p<2 ^ b. mode (table m' ! p) = SL_ACTIVE \<longrightarrow>
        shash (table m' ! p) = hfunc m' (key (table m' ! p)) \<and> reached m' (shash (table m' ! p)) p"
      using core i(3) keep by (auto simp: at hash_core_def hf hf')
    show "\<forall>p<2 ^ b. \<forall>p'<2 ^ b. mode (table m' ! p) = SL_ACTIVE \<and> mode (table m' ! p') = SL_ACTIVE \<and>
        cmp m' (key (table m' ! p)) (key (table m' ! p')) \<longrightarrow> p = p'"
      using core fresh by (auto simp: at hash_core_def cf cf')
  qed (use core len in \<open>simp_all add: hash_core_def m'\<close>)
  show "hash_map m' k' = (if cf k k' then Some v else hash_map m k')"
  proof (cases "cf k k'")
    case True
    then have "found m' b k' i" using i(1) by (simp add: found_def at cf')
    from map_found [OF core' cf' this] show ?thesis using True by (simp add: at)
  next
    case False
    consider "absent m b k'" | p where "found m b k' p" using absent_or_found by blast
    then show ?thesis
    proof cases
      case 1
      then have "absent m' b k'" using False cf by (auto simp: absent_def at cf')
      then show ?thesis using 1 False map_absent len by (simp add: m')
    next
      case 2
      then have "p \<noteq> i" using i(2) by (auto simp: found_def)
      then have "found m' b k' p" using 2 by (simp add: found_def at cf' cf)
      then show ?thesis
        using map_found [OF core' cf'] map_found [OF core cf 2] False \<open>p \<noteq> i\<close> by (simp add: at)
    qed
  qed
qed

text \<open>The value of a key that is present is overwritten.\<close>

lemma overwrite_core:
  assumes core: "hash_core m b" and cf: "cmp m = cf" and f: "found m b k i"
    and m': "m' = m\<lparr>table := (table m)[i := (table m ! i)\<lparr>value := v\<rparr>]\<rparr>"
  shows "hash_core m' b" and "hash_map m' k' = (if cf k k' then Some v else hash_map m k')"
    and "useds (table m') = useds (table m)"
proof -
  have len: "length (table m) = 2 ^ b" and ib: "i < 2 ^ b" using core f by (simp_all add: hash_core_def found_def)
  have at: "table m' ! p = (if p = i then (table m ! i)\<lparr>value := v\<rparr> else table m ! p)" for p
    using ib len by (simp add: m' nth_list_update)
  have fld: "mode (table m' ! p) = mode (table m ! p)" "key (table m' ! p) = key (table m ! p)"
    "shash (table m' ! p) = shash (table m ! p)" for p
    by (simp_all add: at)
  have rc: "reached m' h p = reached m h p" for h p
    by (simp add: reached_def fld) (simp add: m')
  have glob: "imask m' = imask m" "cmp m' = cmp m" "hfunc m' = hfunc m" "count m' = count m"
    "fill m' = fill m" "length (table m') = length (table m)"
    by (simp_all add: m')
  show u: "useds (table m') = useds (table m)"
    using useds_update [of i "table m" "(table m ! i)\<lparr>value := v\<rparr>"] ib len by (auto simp: m' split: if_splits)
  have a: "actives (table m') = actives (table m)"
    using actives_update [of i "table m" "(table m ! i)\<lparr>value := v\<rparr>"] ib len by (auto simp: m' split: if_splits)
  show core': "hash_core m' b"
    using core unfolding hash_core_def fld rc glob u a .
  have cf': "cmp m' = cf" by (simp add: glob cf)
  have fnd: "found m' b k'' p = found m b k'' p" for k'' p by (simp add: found_def fld glob)
  show "hash_map m' k' = (if cf k k' then Some v else hash_map m k')"
  proof (cases "cf k k'")
    case True
    then have "found m b k' i" using f cf_trans by (auto simp: found_def cf)
    then show ?thesis using map_found [OF core' cf', of k' i] True fnd by (simp add: at)
  next
    case False
    consider "absent m b k'" | p where "found m b k' p" using absent_or_found by blast
    then show ?thesis
    proof cases
      case 1
      then have "absent m' b k'" by (simp add: absent_def fld glob)
      then show ?thesis using 1 False map_absent len glob by metis
    next
      case 2
      have "p \<noteq> i"
      proof
        assume "p = i"
        then have "cf k k'" using 2 f cf_sym cf_trans unfolding found_def cf by metis
        then show False using False by simp
      qed
      then show ?thesis
        using map_found [OF core' cf', of k' p] map_found [OF core cf 2] 2 fnd False by (simp add: at)
    qed
  qed
qed

text \<open>A key is deleted: its slot stays in use.\<close>

definition deleted_slot :: hash_slot where
  "deleted_slot = \<lparr>key = 0, value = 0, shash = 0, mode = SL_DELETED\<rparr>"

lemma delete_core:
  assumes core: "hash_core m b" and cf: "cmp m = cf" and f: "found m b k i"
    and m': "m' = m\<lparr>table := (table m)[i := deleted_slot], count := count m - 1\<rparr>"
  shows "hash_core m' b" and "hash_map m' k' = (if cf k k' then None else hash_map m k')"
    and "useds (table m') = useds (table m)"
proof -
  have len: "length (table m) = 2 ^ b" and ib: "i < 2 ^ b" and act: "mode (table m ! i) = SL_ACTIVE"
    using core f by (simp_all add: hash_core_def found_def)
  have at: "table m' ! p = (if p = i then deleted_slot else table m ! p)" for p
    using ib len by (simp add: m' nth_list_update)
  have dm: "mode deleted_slot = SL_DELETED" by (simp add: deleted_slot_def)
  have glob: "imask m' = imask m" "cmp m' = cmp m" "hfunc m' = hfunc m" "count m' = count m - 1"
    "fill m' = fill m" "length (table m') = length (table m)"
    by (simp_all add: m')
  have keep: "reached m h p \<Longrightarrow> reached m' h p" for h p
    by (rule reached_mono [OF _ glob(1)]) (auto simp: at dm)
  show u: "useds (table m') = useds (table m)"
    using useds_update [of i "table m" deleted_slot] ib len act by (auto simp: m' dm)
  have a: "actives (table m') + 1 = actives (table m)"
    using actives_update [of i "table m" deleted_slot] ib len act by (auto simp: m' dm)
  show core': "hash_core m' b"
    unfolding hash_core_def
  proof (intro conjI)
    show "count m' = int (actives (table m'))" using core a by (simp add: hash_core_def glob)
    show "\<forall>p<2 ^ b. mode (table m' ! p) = SL_ACTIVE \<longrightarrow>
        shash (table m' ! p) = hfunc m' (key (table m' ! p)) \<and> reached m' (shash (table m' ! p)) p"
      using core keep by (auto simp: at hash_core_def glob dm)
    show "\<forall>p<2 ^ b. \<forall>p'<2 ^ b. mode (table m' ! p) = SL_ACTIVE \<and> mode (table m' ! p') = SL_ACTIVE \<and>
        cmp m' (key (table m' ! p)) (key (table m' ! p')) \<longrightarrow> p = p'"
      using core by (auto simp: at hash_core_def glob dm)
  qed (use core u in \<open>simp_all add: hash_core_def glob\<close>)
  have cf': "cmp m' = cf" by (simp add: glob cf)
  have others: "found m' b k'' p \<longleftrightarrow> found m b k'' p \<and> p \<noteq> i" for k'' p
    by (auto simp: found_def at glob dm)
  have mine: "p = i" if "cf k k'" "found m b k' p" for p
  proof -
    have "cf (key (table m ! p)) (key (table m ! i))"
      using that f cf_trans cf_sym unfolding found_def cf by metis
    then show ?thesis using core that(2) f unfolding hash_core_def found_def cf by blast
  qed
  show "hash_map m' k' = (if cf k k' then None else hash_map m k')"
  proof (cases "\<exists>p. found m' b k' p")
    case True
    then obtain p where p: "found m' b k' p" by blast
    then have "\<not> cf k k'" using mine others by blast
    then show ?thesis
      using map_found [OF core' cf' p] map_found [OF core cf, of k' p] others p by (auto simp: at)
  next
    case False
    then have "absent m' b k'" using absent_or_found by blast
    then have none: "hash_map m' k' = None" using map_absent len glob by metis
    have "hash_map m k' = None" if "\<not> cf k k'"
    proof -
      have "\<not> found m b k' i" using that f cf_sym cf_trans unfolding found_def cf by metis
      then have "absent m b k'" using False others absent_or_found by metis
      then show ?thesis using map_absent len by blast
    qed
    then show ?thesis using none by simp
  qed
qed

end

subsection \<open>Rebuilding the table\<close>

text \<open>What the slots of a table tell about a key: the first active slot with an equal key.\<close>

definition slots_get :: "(u32 \<Rightarrow> u32 \<Rightarrow> bool) \<Rightarrow> hash_slot list \<Rightarrow> u32 \<Rightarrow> u32 option" where
  "slots_get c t k =
     (case filter (\<lambda>s. mode s = SL_ACTIVE \<and> c (key s) k) t of [] \<Rightarrow> None | s # _ \<Rightarrow> Some (value s))"

lemma hash_map_slots: "hash_map m = slots_get (cmp m) (table m)"
  by (simp add: hash_map_def slots_get_def fun_eq_iff)

lemma slots_get_Cons:
  "slots_get c (s # t) k =
     (if mode s = SL_ACTIVE \<and> c (key s) k then Some (value s) else slots_get c t k)"
  by (simp add: slots_get_def)

text \<open>The active slots of a table: their hash codes are right and their keys are different.\<close>

fun olds_ok :: "(u32 \<Rightarrow> u32) \<Rightarrow> (u32 \<Rightarrow> u32 \<Rightarrow> bool) \<Rightarrow> hash_slot list \<Rightarrow> bool" where
  "olds_ok hf c [] = True"
| "olds_ok hf c (s # t) =
     ((mode s = SL_ACTIVE \<longrightarrow> shash s = hf (key s) \<and>
        (\<forall>s'\<in>set t. mode s' = SL_ACTIVE \<longrightarrow> \<not> c (key s) (key s'))) \<and> olds_ok hf c t)"

lemma olds_okI:
  assumes "\<forall>i<length t. mode (t ! i) = SL_ACTIVE \<longrightarrow> shash (t ! i) = hf (key (t ! i))"
    and "\<forall>i<length t. \<forall>i'<length t. mode (t ! i) = SL_ACTIVE \<and> mode (t ! i') = SL_ACTIVE \<and>
      c (key (t ! i)) (key (t ! i')) \<longrightarrow> i = i'"
  shows "olds_ok hf c t"
  using assms
proof (induction t)
  case Nil
  then show ?case by simp
next
  case (Cons s t)
  have "olds_ok hf c t"
  proof (rule Cons.IH)
    show "\<forall>i<length t. mode (t ! i) = SL_ACTIVE \<longrightarrow> shash (t ! i) = hf (key (t ! i))"
      using Cons.prems(1) by (auto dest: spec [where x = "Suc i" for i])
    show "\<forall>i<length t. \<forall>i'<length t. mode (t ! i) = SL_ACTIVE \<and> mode (t ! i') = SL_ACTIVE \<and>
      c (key (t ! i)) (key (t ! i')) \<longrightarrow> i = i'"
    proof (intro allI impI)
      fix i i' assume "i < length t" "i' < length t"
        "mode (t ! i) = SL_ACTIVE \<and> mode (t ! i') = SL_ACTIVE \<and> c (key (t ! i)) (key (t ! i'))"
      then show "i = i'" using Cons.prems(2) [rule_format, of "Suc i" "Suc i'"] by simp
    qed
  qed
  moreover have "\<not> c (key s) (key s')" if s: "mode s = SL_ACTIVE" "s' \<in> set t" "mode s' = SL_ACTIVE" for s'
  proof
    assume "c (key s) (key s')"
    moreover obtain i where "i < length t" "t ! i = s'" using s(2) by (auto simp: in_set_conv_nth)
    ultimately show False using Cons.prems(2) [rule_format, of 0 "Suc i"] s by simp
  qed
  ultimately show ?case using Cons.prems(1) [rule_format, of 0] by simp
qed

definition no_deleted :: "hash_t \<Rightarrow> bool" where
  "no_deleted m \<longleftrightarrow> (\<forall>s\<in>set (table m). mode s \<noteq> SL_DELETED)"

lemma no_deleted_useds: "no_deleted m \<Longrightarrow> useds (table m) = actives (table m)"
proof -
  assume "no_deleted m"
  then have "\<forall>s\<in>set (table m). (mode s \<noteq> SL_EMPTY) = (mode s = SL_ACTIVE)"
    unfolding no_deleted_def by (metis slot_mode.exhaust slot_mode.distinct)
  then show ?thesis unfolding useds_def actives_def by (metis (mono_tags, lifting) filter_cong)
qed

context hash_funs
begin

lemma copy_ok:
  assumes "hash_core m b" and "no_deleted m" and "hfunc m = hf" and "cmp m = cf"
    and "olds_ok hf cf olds" and "useds (table m) + actives olds < 2 ^ b"
    and "\<forall>s\<in>set olds. mode s = SL_ACTIVE \<longrightarrow> absent m b (key s)"
  shows "\<exists>m'. hash_copy m olds = ret m' \<and> hash_core m' b \<and> no_deleted m' \<and>
    hfunc m' = hf \<and> cmp m' = cf \<and> useds (table m') = useds (table m) + actives olds \<and>
    (\<forall>k. hash_map m' k = (case slots_get cf olds k of None \<Rightarrow> hash_map m k | Some v \<Rightarrow> Some v))"
  using assms
proof (induction olds arbitrary: m)
  case Nil
  then show ?case by (simp add: actives_def slots_get_def)
next
  case (Cons s olds)
  show ?case
  proof (cases "mode s = SL_ACTIVE")
    case False
    then have "actives (s # olds) = actives olds" by (simp add: actives_def)
    then show ?thesis using Cons False by (simp add: slots_get_Cons)
  next
    case True
    have act: "actives (s # olds) = Suc (actives olds)" using True by (simp add: actives_def)
    have ok: "hash_ok m b" using Cons.prems(1,6) by (simp add: hash_ok_def)
    have abs: "absent m b (key s)" using Cons.prems(7) True by simp
    have hs: "shash s = hf (key s)" using Cons.prems(5) True by simp
    have len: "length (table m) = 2 ^ b" using Cons.prems(1) by (simp add: hash_core_def)
    obtain i where i: "i < 2 ^ b" "hash_lookup m (key s) (hf (key s)) = ret i"
      "mode (table m ! i) \<noteq> SL_ACTIVE" "reached m (hf (key s)) i"
      using lookup_ok [OF ok Cons.prems(3,4), of "key s"] abs by (auto simp: found_def absent_def)
    have "mode (table m ! i) \<noteq> SL_DELETED" using Cons.prems(2) i(1) len by (simp add: no_deleted_def)
    then have e: "mode (table m ! i) = SL_EMPTY" using i(3) by (cases "mode (table m ! i)") auto
    define m1 where "m1 = m\<lparr>table := (table m)[i := active_slot (key s) (value s) (hf (key s))],
      fill := fill m + of_bool (mode (table m ! i) = SL_EMPTY), count := count m + 1\<rparr>"
    note put = put_core [OF Cons.prems(1,3,4) i(1,3,4) abs m1_def]
    have flds: "hfunc m1 = hf" "cmp m1 = cf" using Cons.prems(3,4) by (simp_all add: m1_def)
    have nd: "no_deleted m1"
      using Cons.prems(2) by (auto simp: no_deleted_def m1_def dest!: set_update_subset_insert [THEN subsetD])
    have at: "table m1 ! p = (if p = i then active_slot (key s) (value s) (hf (key s)) else table m ! p)" for p
      using i(1) len by (simp add: m1_def nth_list_update)
    have abs1: "\<forall>s'\<in>set olds. mode s' = SL_ACTIVE \<longrightarrow> absent m1 b (key s')"
    proof (intro ballI impI)
      fix s' assume s': "s' \<in> set olds" "mode s' = SL_ACTIVE"
      then have "absent m b (key s')" "\<not> cf (key s) (key s')" using Cons.prems(5,7) True by auto
      then show "absent m1 b (key s')" by (auto simp: absent_def at flds Cons.prems(4))
    qed
    have "useds (table m1) + actives olds < 2 ^ b" using put(3) e Cons.prems(6) act by simp
    with Cons.IH [OF put(1) nd flds _ _ abs1] Cons.prems(5) obtain m' where m':
      "hash_copy m1 olds = ret m'" "hash_core m' b" "no_deleted m'" "hfunc m' = hf" "cmp m' = cf"
      "useds (table m') = useds (table m1) + actives olds"
      "\<forall>k. hash_map m' k = (case slots_get cf olds k of None \<Rightarrow> hash_map m1 k | Some v \<Rightarrow> Some v)"
      by auto
    have "hash_copy m (s # olds) = hash_copy m1 olds"
      using True i(2) Cons.prems(3) hs e by (simp add: m1_def active_slot_def)
    moreover have "hash_map m' k = (case slots_get cf (s # olds) k of None \<Rightarrow> hash_map m k | Some v \<Rightarrow> Some v)" for k
    proof (cases "cf (key s) k")
      case True
      have "\<not> (mode s' = SL_ACTIVE \<and> cf (key s') k)" if "s' \<in> set olds" for s'
      proof
        assume s': "mode s' = SL_ACTIVE \<and> cf (key s') k"
        then have "cf k (key s')" using cf_sym by blast
        then have "cf (key s) (key s')" using True cf_trans by blast
        then show False using Cons.prems(5) \<open>mode s = SL_ACTIVE\<close> that s' by simp
      qed
      then have "filter (\<lambda>s'. mode s' = SL_ACTIVE \<and> cf (key s') k) olds = []"
        by (simp add: filter_empty_conv)
      then have "slots_get cf olds k = None" by (simp add: slots_get_def)
      then show ?thesis using m'(7) put(2) True \<open>mode s = SL_ACTIVE\<close> by (simp add: slots_get_Cons)
    next
      case False
      then show ?thesis using m'(7) put(2) by (simp add: slots_get_Cons split: option.split)
    qed
    ultimately show ?thesis using m' put(3) e act by simp
  qed
qed

end

text \<open>A new table has only empty slots.\<close>

lemma fresh_table:
  assumes "b \<le> 32" and "table m = replicate (2 ^ b) empty_slot" and "imask m = mask_for b"
    and "count m = 0" and "fill m = 0"
  shows "hash_core m b" "no_deleted m" "useds (table m) = 0" "hash_map m = (\<lambda>_. None)" "absent m b k"
proof -
  have e: "mode empty_slot = SL_EMPTY" by (simp add: empty_slot_def)
  show "useds (table m) = 0" "hash_map m = (\<lambda>_. None)" "no_deleted m" "absent m b k"
    using assms(2) e by (simp_all add: useds_def hash_map_def no_deleted_def absent_def fun_eq_iff)
  show "hash_core m b" using assms e by (simp add: hash_core_def useds_def actives_def)
qed

lemma sint_two_pow: "k < 31 \<Longrightarrow> sint ((2::u32) ^ k) = 2 ^ k"
proof -
  assume k: "k < 31"
  have "(2::u32) ^ k = word_of_nat (2 ^ k)" by simp
  then have "unat ((2::u32) ^ k) = 2 ^ k"
    by (simp only: unsigned_of_nat) (use k in simp)
  moreover have "(2::nat) ^ k < 2 ^ 31" using k by (intro power_strict_increasing) auto
  ultimately show ?thesis using sint_small [of "2 ^ k"] by simp
qed

lemma old_size: "b < 31 \<Longrightarrow> sint (mask_for b + 1) = 2 ^ b"
  by (simp add: mask_for_def sint_two_pow)

text \<open>A table grows by at most one step, and only when the slots in use are two thirds of it.\<close>

definition grows :: "nat \<Rightarrow> nat \<Rightarrow> hash_t \<Rightarrow> nat \<Rightarrow> bool" where
  "grows u b m' b' \<longleftrightarrow> useds (table m') \<le> u \<and> (b' \<le> b \<or> b' = Suc b \<and> 2 * 2 ^ b \<le> 3 * u)"

lemma grows_refl: "useds (table m') \<le> u \<Longrightarrow> grows u b m' b"
  by (simp add: grows_def)

lemma grows_mono: "grows u b m' b' \<Longrightarrow> u \<le> u' \<Longrightarrow> grows u' b m' b'"
  by (auto simp: grows_def)

text \<open>The load: fewer than two thirds of the slots are in use. The table has at least 8 slots.\<close>

definition roomy :: "hash_t \<Rightarrow> nat \<Rightarrow> bool" where
  "roomy m b \<longleftrightarrow> 3 \<le> b \<and> 3 * useds (table m) < 2 * 2 ^ b"

context hash_funs
begin

lemma resize_ok:
  assumes core: "hash_core m b" and hf: "hfunc m = hf" and cf: "cmp m = cf"
    and c: "c \<le> 32" "actives (table m) < 2 ^ c"
    and m1: "(v, m1) = hash_initialize True m (2 ^ c)"
  shows "v = 0 \<and> (\<exists>m'. hash_copy m1 (table m) = ret m' \<and> hash_core m' c \<and> hfunc m' = hf \<and> cmp m' = cf \<and>
    useds (table m') = actives (table m) \<and> hash_map m' = hash_map m)"
proof -
  have "m1 = m\<lparr>fill := 0, count := 0, imask := mask_for c, table := replicate (2 ^ c) empty_slot\<rparr>" "v = 0"
    using m1 by (simp_all add: hash_initialize_def mask_for_def)
  then have f: "table m1 = replicate (2 ^ c) empty_slot" "imask m1 = mask_for c" "count m1 = 0" "fill m1 = 0"
    "hfunc m1 = hf" "cmp m1 = cf" using hf cf by simp_all
  note fresh = fresh_table [OF c(1) f(1-4)]
  have "olds_ok hf cf (table m)"
    by (rule olds_okI) (use core hf cf in \<open>auto simp: hash_core_def\<close>)
  with copy_ok [OF fresh(1,2) f(5,6)] fresh(3,5) c(2) obtain m' where m':
    "hash_copy m1 (table m) = ret m'" "hash_core m' c" "hfunc m' = hf" "cmp m' = cf"
    "useds (table m') = actives (table m)"
    "\<forall>k. hash_map m' k = (case slots_get cf (table m) k of None \<Rightarrow> hash_map m1 k | Some v \<Rightarrow> Some v)"
    by auto
  have "hash_map m' = hash_map m"
    using m'(6) fresh(4) by (auto simp: hash_map_slots [of m] cf fun_eq_iff split: option.splits)
  then show ?thesis using m' \<open>v = 0\<close> by blast
qed

lemma update_ok:
  assumes core: "hash_core m b" and hf: "hfunc m = hf" and cf: "cmp m = cf" and b: "3 \<le> b" "b \<le> 29"
  shows "\<exists>m' b'. hash_update True m = ret (0, m') \<and> hash_core m' b' \<and> roomy m' b' \<and> grows (useds (table m)) b m' b' \<and>
    hfunc m' = hf \<and> cmp m' = cf \<and> hash_map m' = hash_map m"
proof -
  have im: "sint (imask m + 1) = 2 ^ b" using core b by (simp add: hash_core_def old_size)
  have cnt: "count m = int (actives (table m))" "fill m = int (useds (table m))"
    and len: "length (table m) = 2 ^ b"
    using core by (simp_all add: hash_core_def)
  have le: "actives (table m) \<le> useds (table m)" "useds (table m) \<le> 2 ^ b"
    using actives_le_useds [of "table m"] useds_le_length [of "table m"] len by simp_all
  have dbl: "sint (2 * 2 ^ b :: u32) = 2 * 2 ^ b"
    using b sint_two_pow [of "Suc b"] by simp
  have resize: "\<exists>m'. (let old_table = table m; (v, m1) = hash_initialize True m (2 ^ c)
      in if v = -1 then ret (-1 :: int, m1) else bindr (hash_copy m1 old_table) (\<lambda>m2. ret (0, m2))) = ret (0, m') \<and>
      hash_core m' c \<and> hfunc m' = hf \<and> cmp m' = cf \<and> useds (table m') = actives (table m) \<and>
      hash_map m' = hash_map m" if "c \<le> 32" "actives (table m) < 2 ^ c" for c
  proof -
    obtain v m1 where i: "hash_initialize True m (2 ^ c) = (v, m1)" by fastforce
    show ?thesis using resize_ok [OF core hf cf that i [symmetric]] i by auto
  qed
  consider (grow) "3 * fill m \<ge> 2 * 2 ^ b"
    | (shrink) "\<not> 3 * fill m \<ge> 2 * 2 ^ b" "(2::int) ^ b > HASH_MINSIZE" "4 * count m \<le> 2 ^ b"
    | (keep) "\<not> 3 * fill m \<ge> 2 * 2 ^ b" "\<not> ((2::int) ^ b > HASH_MINSIZE \<and> 4 * count m \<le> 2 ^ b)"
    by blast
  then show ?thesis
  proof cases
    case grow
    have "(2::nat) ^ b < 2 ^ Suc b" by simp
    then have a: "actives (table m) < 2 ^ Suc b" using le by linarith
    have e: "hash_update True m = (let old_table = table m; (v, m1) = hash_initialize True m (2 ^ Suc b)
      in if v = -1 then ret (-1 :: int, m1) else bindr (hash_copy m1 old_table) (\<lambda>m2. ret (0, m2)))"
      using grow by (simp add: hash_update_def im dbl Let_def)
    obtain m' where m': "(let old_table = table m; (v, m1) = hash_initialize True m (2 ^ Suc b)
      in if v = -1 then ret (-1 :: int, m1) else bindr (hash_copy m1 old_table) (\<lambda>m2. ret (0, m2))) = ret (0, m')"
      "hash_core m' (Suc b)" "hfunc m' = hf" "cmp m' = cf" "useds (table m') = actives (table m)"
      "hash_map m' = hash_map m"
      using resize [of "Suc b"] b a by auto
    have "3 * actives (table m) < 4 * 2 ^ b"
    proof -
      have "(0::nat) < 2 ^ b" by simp
      then show ?thesis using le by linarith
    qed
    then have "roomy m' (Suc b)" using m'(5) b by (simp add: roomy_def)
    moreover have "hash_update True m = ret (0, m')" using e m'(1) by (rule trans)
    moreover have "int (2 * 2 ^ b) \<le> int (3 * useds (table m))" using grow cnt(2) by simp
    then have "grows (useds (table m)) b m' (Suc b)"
      using m'(5) le(1) by (simp only: of_nat_le_iff grows_def simp_thms)
    ultimately show ?thesis using m'(2,3,4,6) by (intro exI [of _ m'] exI [of _ "Suc b"] conjI)
  next
    case shrink
    have b4: "4 \<le> b"
    proof (rule ccontr)
      assume "\<not> 4 \<le> b"
      then have "b = 3" using b by simp
      then show False using shrink(2) by (simp add: HASH_MINSIZE_def)
    qed
    then obtain c where c: "b = Suc c" by (cases b) auto
    have four: "4 * actives (table m) \<le> 2 ^ b"
    proof -
      have "int (4 * actives (table m)) \<le> int (2 ^ b)" using shrink(3) cnt(1) by simp
      then show ?thesis by (simp only: of_nat_le_iff)
    qed
    have a: "actives (table m) < 2 ^ c" using four c by (cases "actives (table m)") auto
    have e: "hash_update True m = (let old_table = table m; (v, m1) = hash_initialize True m (2 ^ c)
      in if v = -1 then ret (-1 :: int, m1) else bindr (hash_copy m1 old_table) (\<lambda>m2. ret (0, m2)))"
      using shrink by (simp add: hash_update_def im Let_def c)
    obtain m' where m': "(let old_table = table m; (v, m1) = hash_initialize True m (2 ^ c)
      in if v = -1 then ret (-1 :: int, m1) else bindr (hash_copy m1 old_table) (\<lambda>m2. ret (0, m2))) = ret (0, m')"
      "hash_core m' c" "hfunc m' = hf" "cmp m' = cf" "useds (table m') = actives (table m)"
      "hash_map m' = hash_map m"
      using resize [of c] b c a by auto
    have "roomy m' c" using m'(5) four b4 c by (cases "actives (table m)") (auto simp: roomy_def)
    moreover have "hash_update True m = ret (0, m')" using e m'(1) by (rule trans)
    moreover have "grows (useds (table m)) b m' c" using c m'(5) le(1) by (simp add: grows_def)
    moreover note m'(2,3,4,6)
    ultimately show ?thesis by (intro exI [of _ m'] exI [of _ c] conjI)
  next
    case keep
    have "3 * useds (table m) < 2 * 2 ^ b"
    proof -
      have "int (3 * useds (table m)) < int (2 * 2 ^ b)" using keep(1) cnt(2) by simp
      then show ?thesis by (simp only: of_nat_less_iff)
    qed
    then show ?thesis using keep core hf cf b
      by (intro exI [of _ m] exI [of _ b]) (auto simp: hash_update_def im Let_def roomy_def grows_def)
  qed
qed

end

subsection \<open>The operations\<close>

text \<open>
  A usable table: the invariant holds, fewer than two thirds of its slots are in use, and it has
  not grown to the size at which doubling it would overflow.
\<close>

definition hash_rep :: "(u32 \<Rightarrow> u32) \<Rightarrow> (u32 \<Rightarrow> u32 \<Rightarrow> bool) \<Rightarrow> hash_t \<Rightarrow> nat \<Rightarrow> bool" where
  "hash_rep hf cf m b \<longleftrightarrow> hash_core m b \<and> roomy m b \<and> hfunc m = hf \<and> cmp m = cf"

lemma hash_rep_ok: "hash_rep hf cf m b \<Longrightarrow> hash_ok m b"
  by (auto simp: hash_rep_def hash_ok_def roomy_def)

context hash_funs
begin

lemma init_rep: "hash_init True m hf cf = (0, m') \<Longrightarrow> hash_rep hf cf m' 3 \<and> hash_map m' = (\<lambda>_. None)"
proof -
  assume "hash_init True m hf cf = (0, m')"
  then have m': "m' = m\<lparr>fill := 0, count := 0, imask := 7, table := replicate 8 empty_slot, hfunc := hf, cmp := cf\<rparr>"
    by (simp add: hash_init_def hash_initialize_def HASH_MINSIZE_def)
  have "table m' = replicate (2 ^ 3) empty_slot" "imask m' = mask_for 3" "count m' = 0" "fill m' = 0"
    by (simp_all add: m' mask_for_def)
  note fresh = fresh_table [OF _ this]
  show ?thesis using fresh by (simp add: hash_rep_def roomy_def) (simp add: m')
qed

lemma lookup_rep:
  assumes "hash_rep hf cf m b"
  shows "\<exists>i<2 ^ b. hash_lookup m k (hf k) = ret i \<and>
    (found m b k i \<and> hash_map m k = Some (value (table m ! i)) \<or>
     mode (table m ! i) \<noteq> SL_ACTIVE \<and> reached m (hf k) i \<and> absent m b k \<and> hash_map m k = None)"
proof -
  have m: "hfunc m = hf" "cmp m = cf" "hash_core m b" using assms by (simp_all add: hash_rep_def)
  have len: "length (table m) = 2 ^ b" using m(3) by (simp add: hash_core_def)
  obtain i where "i < 2 ^ b" "hash_lookup m k (hf k) = ret i"
    "found m b k i \<or> mode (table m ! i) \<noteq> SL_ACTIVE \<and> reached m (hf k) i \<and> absent m b k"
    using lookup_ok [OF hash_rep_ok [OF assms] m(1,2)] by blast
  then show ?thesis using map_found [OF m(3,2)] map_absent [OF len] by blast
qed

lemma get_rep:
  assumes "hash_rep hf cf m b"
  shows "hash_get (Some m) k d = ret (case hash_map m k of None \<Rightarrow> d | Some v \<Rightarrow> v)"
    and "hash_isset (Some m) k = ret (hash_map m k \<noteq> None)"
  using lookup_rep [OF assms, of k] assms
  by (auto simp: hash_get_def hash_isset_def hash_rep_def found_def)

lemma set_rep:
  assumes rep: "hash_rep hf cf m b" and b: "b \<le> 29"
  shows "\<exists>m' b'. hash_set True (Some m) k v = ret (0, Some m') \<and> hash_rep hf cf m' b' \<and>
    grows (useds (table m) + 1) b m' b' \<and>
    hash_map m' = (\<lambda>k'. if cf k k' then Some v else hash_map m k')"
proof -
  have m: "hfunc m = hf" "cmp m = cf" "hash_core m b" "roomy m b" using rep by (simp_all add: hash_rep_def)
  obtain i where i: "i < 2 ^ b" "hash_lookup m k (hf k) = ret i"
    "found m b k i \<or> mode (table m ! i) \<noteq> SL_ACTIVE \<and> reached m (hf k) i \<and> absent m b k"
    using lookup_rep [OF rep, of k] by blast
  show ?thesis
  proof (cases "found m b k i")
    case True
    define m' where "m' = m\<lparr>table := (table m)[i := (table m ! i)\<lparr>value := v\<rparr>]\<rparr>"
    note ow = overwrite_core [OF m(3,2) True m'_def]
    have "hash_set True (Some m) k v = ret (0, Some m')"
      using True i(2) m(1) by (simp add: hash_set_def found_def m'_def)
    moreover have "hash_rep hf cf m' b"
      using ow m by (simp add: hash_rep_def roomy_def) (simp add: m'_def)
    ultimately show ?thesis using ow(2,3) by (intro exI [of _ m'] exI [of _ b]) (auto intro: grows_refl)
  next
    case False
    then have free: "mode (table m ! i) \<noteq> SL_ACTIVE" "reached m (hf k) i" "absent m b k" using i(3) by auto
    define m3 where "m3 = m\<lparr>table := (table m)[i := active_slot k v (hf k)],
      fill := fill m + of_bool (mode (table m ! i) = SL_EMPTY), count := count m + 1\<rparr>"
    note put = put_core [OF m(3,1,2) i(1) free m3_def]
    have m3: "hfunc m3 = hf" "cmp m3 = cf" using m by (simp_all add: m3_def)
    have b3: "3 \<le> b" using m(4) by (simp add: roomy_def)
    obtain m' b' where u: "hash_update True m3 = ret (0, m')" "hash_core m' b'" "roomy m' b'" "grows (useds (table m3)) b m' b'"
      "hfunc m' = hf" "cmp m' = cf" "hash_map m' = hash_map m3"
      using update_ok [OF put(1) m3 b3 b] by blast
    have "hash_set True (Some m) k v = bindr (hash_update True m3) (\<lambda>(r, m4). ret (r, Some m4))"
    proof -
      have "m3 = (if mode (table m ! i) = SL_EMPTY
          then m\<lparr>count := count m + 1, fill := fill m + 1, table := (table m)[i := active_slot k v (hf k)]\<rparr>
          else m\<lparr>count := count m + 1, table := (table m)[i := active_slot k v (hf k)]\<rparr>)"
        by (cases m) (simp add: m3_def)
      then show ?thesis
        using free(1) i(2) m(1) by (cases "mode (table m ! i)") (simp_all add: hash_set_def active_slot_def)
    qed
    then have "hash_set True (Some m) k v = ret (0, Some m')" using u(1) by simp
    moreover have "grows (useds (table m) + 1) b m' b'" by (rule grows_mono [OF u(4)]) (simp add: put(3))
    ultimately show ?thesis using u put(2) by (intro exI [of _ m'] exI [of _ b']) (auto simp: hash_rep_def)
  qed
qed

lemma del_rep:
  assumes rep: "hash_rep hf cf m b" and b: "b \<le> 29"
  shows "\<exists>m' b'. hash_del True (Some m) k = ret (0, Some m') \<and> hash_rep hf cf m' b' \<and>
    grows (useds (table m)) b m' b' \<and>
    hash_map m' = (\<lambda>k'. if cf k k' then None else hash_map m k')"
proof -
  have m: "hfunc m = hf" "cmp m = cf" "hash_core m b" "roomy m b" using rep by (simp_all add: hash_rep_def)
  obtain i where i: "i < 2 ^ b" "hash_lookup m k (hf k) = ret i"
    "found m b k i \<or> mode (table m ! i) \<noteq> SL_ACTIVE \<and> absent m b k"
    using lookup_rep [OF rep, of k] by blast
  show ?thesis
  proof (cases "found m b k i")
    case False
    then have free: "mode (table m ! i) \<noteq> SL_ACTIVE" "absent m b k" using i(3) by auto
    have len: "length (table m) = 2 ^ b" using m(3) by (simp add: hash_core_def)
    have "absent m b k'" if "cf k k'" for k'
      using that free(2) cf_sym cf_trans unfolding absent_def m(2) by metis
    then have "hash_map m = (\<lambda>k'. if cf k k' then None else hash_map m k')"
      using map_absent [OF len] by (auto simp: fun_eq_iff)
    moreover have "hash_del True (Some m) k = ret (0, Some m)"
      using free(1) i(2) m(1) by (simp add: hash_del_def)
    ultimately show ?thesis using rep by (intro exI [of _ m] exI [of _ b]) (auto intro: grows_refl)
  next
    case True
    define m1 where "m1 = m\<lparr>table := (table m)[i := deleted_slot], count := count m - 1\<rparr>"
    note del = delete_core [OF m(3,2) True m1_def]
    have m1: "hfunc m1 = hf" "cmp m1 = cf" using m by (simp_all add: m1_def)
    have b3: "3 \<le> b" using m(4) by (simp add: roomy_def)
    obtain m' b' where u: "hash_update True m1 = ret (0, m')" "hash_core m' b'" "roomy m' b'" "grows (useds (table m1)) b m' b'"
      "hfunc m' = hf" "cmp m' = cf" "hash_map m' = hash_map m1"
      using update_ok [OF del(1) m1 b3 b] by blast
    have "hash_del True (Some m) k = bindr (hash_update True m1) (\<lambda>(r, m2). ret (r, Some m2))"
      using True i(2) m(1) by (simp add: hash_del_def Let_def m1_def deleted_slot_def found_def)
    then have "hash_del True (Some m) k = ret (0, Some m')" using u(1) by simp
    moreover have "grows (useds (table m)) b m' b'" using u(4) by (simp add: del(3))
    ultimately show ?thesis using u del(2) by (intro exI [of _ m'] exI [of _ b']) (auto simp: hash_rep_def)
  qed
qed

end

end
