(* ===== verification/Strings.thy ===== *)
theory Strings
  imports Prelude
begin

text \<open>
  The functions of shared/string.c (klibc) on a flat 32-bit memory: every address may be read
  and written, and NULL is the address 0. \<open>size_t\<close> has 32 bits. \<open>memcpy\<close>, \<open>memmove\<close> and
  \<open>memset\<close> are those of the i386 branch: copies by \<open>movsl\<close> and \<open>movsb\<close>, which read before they
  write. A loop \<open>while (n--)\<close> is a recursion on the number of turns; a loop that stops at a byte
  of the memory is a partial function, for it may go on for ever.
\<close>

type_synonym memory = "u32 \<Rightarrow> u8"

subsection \<open>Blocks of bytes\<close>

fun memccpy_loop :: "nat \<Rightarrow> u32 \<Rightarrow> u32 \<Rightarrow> u8 \<Rightarrow> memory \<Rightarrow> u32 \<times> memory" where
  "memccpy_loop 0 q p c m = (0, m)"
| "memccpy_loop (Suc n) q p c m =
     (let ch = m p; m1 = m(q := ch)
      in if ch = c then (q + 1, m1) else memccpy_loop n (q + 1) (p + 1) c m1)"

definition memccpy :: "u32 \<Rightarrow> u32 \<Rightarrow> int \<Rightarrow> u32 \<Rightarrow> memory \<Rightarrow> u32 \<times> memory" where
  "memccpy dst src c n m = memccpy_loop (unat n) dst src (word_of_int c) m"

fun memchr_loop :: "nat \<Rightarrow> u32 \<Rightarrow> u8 \<Rightarrow> memory \<Rightarrow> u32" where
  "memchr_loop 0 sp c m = 0"
| "memchr_loop (Suc n) sp c m = (if m sp = c then sp else memchr_loop n (sp + 1) c m)"

definition memchr :: "u32 \<Rightarrow> int \<Rightarrow> u32 \<Rightarrow> memory \<Rightarrow> u32" where
  "memchr s c n m = memchr_loop (unat n) s (word_of_int c) m"

fun memrchr_loop :: "nat \<Rightarrow> u32 \<Rightarrow> u8 \<Rightarrow> memory \<Rightarrow> u32" where
  "memrchr_loop 0 sp c m = 0"
| "memrchr_loop (Suc n) sp c m = (if m sp = c then sp else memrchr_loop n (sp - 1) c m)"

definition memrchr :: "u32 \<Rightarrow> int \<Rightarrow> u32 \<Rightarrow> memory \<Rightarrow> u32" where
  "memrchr s c n m = memrchr_loop (unat n) (s + n - 1) (word_of_int c) m"

fun memcmp_loop :: "nat \<Rightarrow> u32 \<Rightarrow> u32 \<Rightarrow> int \<Rightarrow> memory \<Rightarrow> int" where
  "memcmp_loop 0 c1 c2 d m = d"
| "memcmp_loop (Suc n) c1 c2 d m =
     (let d1 = uint (m c1) - uint (m c2)
      in if d1 \<noteq> 0 then d1 else memcmp_loop n (c1 + 1) (c2 + 1) d1 m)"

definition memcmp :: "u32 \<Rightarrow> u32 \<Rightarrow> u32 \<Rightarrow> memory \<Rightarrow> int" where
  "memcmp s1 s2 n m = memcmp_loop (unat n) s1 s2 0 m"

text \<open>\<open>rep movsl\<close>, \<open>rep movsb\<close> upwards and downwards: the counters \<open>p\<close> (esi) and \<open>q\<close> (edi).\<close>

fun rep_movsl :: "nat \<Rightarrow> u32 \<Rightarrow> u32 \<Rightarrow> memory \<Rightarrow> u32 \<times> u32 \<times> memory" where
  "rep_movsl 0 p q m = (p, q, m)"
| "rep_movsl (Suc n) p q m =
     rep_movsl n (p + 4) (q + 4)
       (m(q := m p, q + 1 := m (p + 1), q + 2 := m (p + 2), q + 3 := m (p + 3)))"

fun rep_movsb :: "nat \<Rightarrow> u32 \<Rightarrow> u32 \<Rightarrow> memory \<Rightarrow> u32 \<times> u32 \<times> memory" where
  "rep_movsb 0 p q m = (p, q, m)"
| "rep_movsb (Suc n) p q m = rep_movsb n (p + 1) (q + 1) (m(q := m p))"

fun rep_movsb_down :: "nat \<Rightarrow> u32 \<Rightarrow> u32 \<Rightarrow> memory \<Rightarrow> u32 \<times> u32 \<times> memory" where
  "rep_movsb_down 0 p q m = (p, q, m)"
| "rep_movsb_down (Suc n) p q m = rep_movsb_down n (p - 1) (q - 1) (m(q := m p))"

definition memcpy :: "u32 \<Rightarrow> u32 \<Rightarrow> u32 \<Rightarrow> memory \<Rightarrow> u32 \<times> memory" where
  "memcpy dst src n m =
     (let (p, q, m1) = rep_movsl (unat (drop_bit 2 n)) src dst m;
          (p', q', m2) = rep_movsb (unat (n AND 3)) p q m1
      in (dst, m2))"

definition memmove :: "u32 \<Rightarrow> u32 \<Rightarrow> u32 \<Rightarrow> memory \<Rightarrow> u32 \<times> memory" where
  "memmove dst src n m =
     (if dst < src then
        (let (p, q, m1) = rep_movsb (unat n) src dst m in (dst, m1))
      else
        (let (p, q, m1) = rep_movsb_down (unat n) (src + (n - 1)) (dst + (n - 1)) m in (dst, m1)))"

fun rep_stosl :: "nat \<Rightarrow> u32 \<Rightarrow> u32 \<Rightarrow> memory \<Rightarrow> u32 \<times> memory" where
  "rep_stosl 0 q a m = (q, m)"
| "rep_stosl (Suc n) q a m =
     rep_stosl n (q + 4) a
       (m(q := ucast a, q + 1 := ucast (drop_bit 8 a), q + 2 := ucast (drop_bit 16 a),
          q + 3 := ucast (drop_bit 24 a)))"

fun rep_stosb :: "nat \<Rightarrow> u32 \<Rightarrow> u32 \<Rightarrow> memory \<Rightarrow> u32 \<times> memory" where
  "rep_stosb 0 q a m = (q, m)"
| "rep_stosb (Suc n) q a m = rep_stosb n (q + 1) a (m(q := ucast a))"

definition memset :: "u32 \<Rightarrow> int \<Rightarrow> u32 \<Rightarrow> memory \<Rightarrow> u32 \<times> memory" where
  "memset dst c n m =
     (let a = ucast (word_of_int c :: u8) * 0x01010101;
          (q, m1) = rep_stosl (unat (drop_bit 2 n)) dst a m;
          (q', m2) = rep_stosb (unat (n AND 3)) q a m1
      in (dst, m2))"

fun memswap_loop :: "nat \<Rightarrow> u32 \<Rightarrow> u32 \<Rightarrow> memory \<Rightarrow> memory" where
  "memswap_loop 0 p q m = m"
| "memswap_loop (Suc n) p q m =
     (let tmp = m p; m1 = m(p := m q); m2 = m1(q := tmp) in memswap_loop n (p + 1) (q + 1) m2)"

definition memswap :: "u32 \<Rightarrow> u32 \<Rightarrow> u32 \<Rightarrow> memory \<Rightarrow> memory" where
  "memswap m1 m2 n m = memswap_loop (unat n) m1 m2 m"

subsection \<open>Searching a block in a block\<close>

partial_function (option) memmem_loop ::
  "u32 \<Rightarrow> u32 \<Rightarrow> u32 \<Rightarrow> u32 \<Rightarrow> u32 \<Rightarrow> u32 \<Rightarrow> u32 \<Rightarrow> memory \<Rightarrow> u32 res" where
  "memmem_loop y n x k l nm j m =
     (if j \<le> n - nm then
        (if m (x + 1) \<noteq> m (y + (j + 1)) then memmem_loop y n x k l nm (j + k) m
         else if memcmp (x + 2) (y + j + 2) (nm - 2) m = 0 \<and> m x = m (y + j) then ret (y + j)
         else memmem_loop y n x k l nm (j + l) m)
      else ret 0)"

fun memmem_one :: "nat \<Rightarrow> u32 \<Rightarrow> u32 \<Rightarrow> memory \<Rightarrow> u32" where
  "memmem_one 0 y x m = 0"
| "memmem_one (Suc n) y x m = (if m y = m x then y else memmem_one n (y + 1) x m)"

definition memmem :: "u32 \<Rightarrow> u32 \<Rightarrow> u32 \<Rightarrow> u32 \<Rightarrow> memory \<Rightarrow> u32 res" where
  "memmem haystack n needle nm m =
     (if nm > n \<or> nm = 0 \<or> n = 0 then ret 0
      else if 1 \<noteq> nm then
        (let (k, l) = (if m needle = m (needle + 1) then (2, 1) else (1, 2))
         in memmem_loop haystack n needle k l nm 0 m)
      else ret (memmem_one (unat n) haystack needle m))"

subsection \<open>Strings\<close>

partial_function (option) strlen_loop :: "u32 \<Rightarrow> memory \<Rightarrow> u32 res" where
  "strlen_loop ss m = (if m ss \<noteq> 0 then strlen_loop (ss + 1) m else ret ss)"

definition strlen :: "u32 \<Rightarrow> memory \<Rightarrow> u32 res" where
  "strlen s m = bindr (strlen_loop s m) (\<lambda>ss. ret (ss - s))"

fun strnlen_loop :: "nat \<Rightarrow> u32 \<Rightarrow> memory \<Rightarrow> u32" where
  "strnlen_loop 0 ss m = ss"
| "strnlen_loop (Suc n) ss m = (if m ss \<noteq> 0 then strnlen_loop n (ss + 1) m else ss)"

definition strnlen :: "u32 \<Rightarrow> u32 \<Rightarrow> memory \<Rightarrow> u32" where
  "strnlen s maxlen m = strnlen_loop (unat maxlen) s m - s"

partial_function (option) strchr_loop :: "u32 \<Rightarrow> u8 \<Rightarrow> memory \<Rightarrow> u32 res" where
  "strchr_loop s c m =
     (if m s \<noteq> c then (if m s = 0 then ret 0 else strchr_loop (s + 1) c m) else ret s)"

definition strchr :: "u32 \<Rightarrow> int \<Rightarrow> memory \<Rightarrow> u32 res" where
  "strchr s c m = strchr_loop s (word_of_int c) m"

partial_function (option) strrchr_loop :: "u32 \<Rightarrow> u8 \<Rightarrow> u32 \<Rightarrow> memory \<Rightarrow> u32 res" where
  "strrchr_loop s c found m =
     (if m s \<noteq> 0 then strrchr_loop (s + 1) c (if m s = c then s else found) m else ret found)"

definition strrchr :: "u32 \<Rightarrow> int \<Rightarrow> memory \<Rightarrow> u32 res" where
  "strrchr s c m = strrchr_loop s (word_of_int c) 0 m"

partial_function (option) strcmp :: "u32 \<Rightarrow> u32 \<Rightarrow> memory \<Rightarrow> int res" where
  "strcmp c1 c2 m =
     (let ch = m c1; d = uint ch - uint (m c2)
      in if d \<noteq> 0 \<or> ch = 0 then ret d else strcmp (c1 + 1) (c2 + 1) m)"

fun strncmp_loop :: "nat \<Rightarrow> u32 \<Rightarrow> u32 \<Rightarrow> int \<Rightarrow> memory \<Rightarrow> int" where
  "strncmp_loop 0 c1 c2 d m = d"
| "strncmp_loop (Suc n) c1 c2 d m =
     (let ch = m c1; d1 = uint ch - uint (m c2)
      in if d1 \<noteq> 0 \<or> ch = 0 then d1 else strncmp_loop n (c1 + 1) (c2 + 1) d1 m)"

definition strncmp :: "u32 \<Rightarrow> u32 \<Rightarrow> u32 \<Rightarrow> memory \<Rightarrow> int" where
  "strncmp s1 s2 n m = strncmp_loop (unat n) s1 s2 0 m"

partial_function (option) strcpy_loop :: "u32 \<Rightarrow> u32 \<Rightarrow> memory \<Rightarrow> memory res" where
  "strcpy_loop q p m =
     (let ch = m p; m1 = m(q := ch)
      in if ch \<noteq> 0 then strcpy_loop (q + 1) (p + 1) m1 else ret m1)"

definition strcpy :: "u32 \<Rightarrow> u32 \<Rightarrow> memory \<Rightarrow> (u32 \<times> memory) res" where
  "strcpy dst src m = bindr (strcpy_loop dst src m) (\<lambda>m1. ret (dst, m1))"

definition strcat :: "u32 \<Rightarrow> u32 \<Rightarrow> memory \<Rightarrow> (u32 \<times> memory) res" where
  "strcat dst src m =
     bindr (strchr dst 0 m) (\<lambda>e. bindr (strcpy e src m) (\<lambda>(_, m1). ret (dst, m1)))"

fun strncat_loop :: "nat \<Rightarrow> u32 \<Rightarrow> u32 \<Rightarrow> memory \<Rightarrow> memory" where
  "strncat_loop 0 q p m = m(q := 0)"
| "strncat_loop (Suc n) q p m =
     (let ch = m p; m1 = m(q := ch) in if ch = 0 then m1 else strncat_loop n (q + 1) (p + 1) m1)"

definition strncat :: "u32 \<Rightarrow> u32 \<Rightarrow> u32 \<Rightarrow> memory \<Rightarrow> (u32 \<times> memory) res" where
  "strncat dst src n m =
     bindr (strchr dst 0 m) (\<lambda>q. ret (dst, strncat_loop (unat n) q src m))"

text \<open>\<open>strlcat\<close>: skip to the end of \<open>dst\<close> within \<open>size\<close> bytes, then copy what fits.\<close>

partial_function (option) strlcat_skip :: "u32 \<Rightarrow> u32 \<Rightarrow> u32 \<Rightarrow> memory \<Rightarrow> (u32 \<times> u32) res" where
  "strlcat_skip bytes sz q m =
     (if bytes < sz \<and> m q \<noteq> 0 then strlcat_skip (bytes + 1) sz (q + 1) m else ret (bytes, q))"

partial_function (option) strlcat_copy ::
  "u32 \<Rightarrow> u32 \<Rightarrow> u32 \<Rightarrow> u32 \<Rightarrow> memory \<Rightarrow> (u32 \<times> u32 \<times> memory) res" where
  "strlcat_copy bytes sz q p m =
     (let ch = m p in
      if ch = 0 then ret (bytes, q, m)
      else if bytes + 1 < sz then strlcat_copy (bytes + 1) sz (q + 1) (p + 1) (m(q := ch))
      else strlcat_copy (bytes + 1) sz q (p + 1) m)"

definition strlcat :: "u32 \<Rightarrow> u32 \<Rightarrow> u32 \<Rightarrow> memory \<Rightarrow> (u32 \<times> memory) res" where
  "strlcat dst src sz m =
     bindr (strlcat_skip 0 sz dst m) (\<lambda>(bytes, q).
       if bytes = sz then bindr (strlen src m) (\<lambda>l. ret (bytes + l, m))
       else bindr (strlcat_copy bytes sz q src m) (\<lambda>(bytes1, q1, m1). ret (bytes1, m1(q1 := 0))))"

fun strncpy_loop :: "nat \<Rightarrow> u32 \<Rightarrow> u32 \<Rightarrow> memory \<Rightarrow> nat \<times> u32 \<times> memory" where
  "strncpy_loop 0 q p m = (0, q, m)"
| "strncpy_loop (Suc n) q p m =
     (let ch = m p; m1 = m(q := ch)
      in if ch = 0 then (n, q + 1, m1) else strncpy_loop n (q + 1) (p + 1) m1)"

definition strncpy :: "u32 \<Rightarrow> u32 \<Rightarrow> u32 \<Rightarrow> memory \<Rightarrow> u32 \<times> memory" where
  "strncpy dst src n m =
     (let (left, q, m1) = strncpy_loop (unat n) dst src m
      in (dst, snd (memset q 0 (of_nat left) m1)))"

subsection \<open>Spans and tokens\<close>

text \<open>\<open>__strxspn\<close>: the table \<open>matchmap\<close> is on the stack, apart from the memory of the strings.\<close>

partial_function (option) strxspn_map :: "u32 \<Rightarrow> (u8 \<Rightarrow> u8) \<Rightarrow> memory \<Rightarrow> (u8 \<Rightarrow> u8) res" where
  "strxspn_map p matchmap m =
     (if m p \<noteq> 0 then strxspn_map (p + 1) (matchmap(m p := 1)) m else ret matchmap)"

partial_function (option) strxspn_loop :: "u32 \<Rightarrow> (u8 \<Rightarrow> u8) \<Rightarrow> u8 \<Rightarrow> u32 \<Rightarrow> memory \<Rightarrow> u32 res" where
  "strxspn_loop s matchmap parity n m =
     (if matchmap (m s) XOR parity \<noteq> 0 then strxspn_loop (s + 1) matchmap parity (n + 1) m else ret n)"

definition strxspn :: "u32 \<Rightarrow> u32 \<Rightarrow> u8 \<Rightarrow> memory \<Rightarrow> u32 res" where
  "strxspn s mp parity m =
     bindr (strxspn_map mp (\<lambda>_. 0) m) (\<lambda>mm. strxspn_loop s (mm(0 := parity)) parity 0 m)"

definition strcspn :: "u32 \<Rightarrow> u32 \<Rightarrow> memory \<Rightarrow> u32 res" where
  "strcspn s reject m = strxspn s reject 1 m"

definition strspn :: "u32 \<Rightarrow> u32 \<Rightarrow> memory \<Rightarrow> u32 res" where
  "strspn s accept m = strxspn s accept 0 m"

definition strpbrk :: "u32 \<Rightarrow> u32 \<Rightarrow> memory \<Rightarrow> u32 res" where
  "strpbrk s accept m =
     bindr (strxspn s accept 1 m) (\<lambda>n. let ss = s + n in ret (if m ss \<noteq> 0 then ss else 0))"

text \<open>\<open>strsep\<close> returns the token, the new value of \<open>*stringp\<close> and the memory.\<close>

definition strsep :: "u32 \<Rightarrow> u32 \<Rightarrow> memory \<Rightarrow> (u32 \<times> u32 \<times> memory) res" where
  "strsep s delim m =
     (if s = 0 then ret (0, s, m)
      else bindr (strpbrk s delim m) (\<lambda>e.
        if e \<noteq> 0 then ret (s, e + 1, m(e := 0)) else ret (s, e, m)))"

definition strstr :: "u32 \<Rightarrow> u32 \<Rightarrow> memory \<Rightarrow> u32 res" where
  "strstr haystack needle m =
     bindr (strlen haystack m) (\<lambda>n. bindr (strlen needle m) (\<lambda>k. memmem haystack n needle k m))"

definition strtok :: "u32 \<Rightarrow> u32 \<Rightarrow> u32 \<Rightarrow> memory \<Rightarrow> (u32 \<times> u32 \<times> memory) res" where
  "strtok s delim holder m = strsep (if s \<noteq> 0 then s else holder) delim m"

end
