(* ===== verification/Strings_Ok.thy ===== *)
theory Strings_Ok
  imports Strings
begin

text \<open>
  What the functions of shared/string.c compute: blocks are copied, filled, compared and searched
  as the functions of the C library promise, on the conditions they need. A block of \<open>n\<close> bytes
  at \<open>q\<close> holds the addresses \<open>a\<close> with \<open>a - q < n\<close>, which is also right where it wraps around.
\<close>

subsection \<open>Copying a block\<close>

definition blit :: "memory \<Rightarrow> u32 \<Rightarrow> u32 \<Rightarrow> nat \<Rightarrow> memory" where
  "blit m p q n = (\<lambda>a. if unat (a - q) < n then m (p + (a - q)) else m a)"

lemma blit_0 [simp]: "blit m p q 0 = m"
  by (simp add: blit_def)

lemma unat_diff_Suc:
  fixes a q :: u32
  assumes "a \<noteq> q"
  shows "unat (a - q) = Suc (unat (a - (q + 1)))"
proof -
  have "a - q \<noteq> 0" using assms by simp
  then have "unat (a - q - 1) = unat (a - q) - 1" "0 < unat (a - q)"
    by (simp_all add: unat_minus_one unat_gt_0)
  then show ?thesis by (simp add: diff_diff_eq)
qed

lemma unat_minus_1_max: "unat (- 1 :: u32) = 2 ^ 32 - 1"
  by (simp add: unsigned_minus_1_eq_mask mask_eq_exp_minus_1)

lemma word_offset: "q + of_nat (unat (a - q)) = (a :: u32)"
  by simp

lemma blit_Suc:
  assumes "\<And>i. 0 < i \<Longrightarrow> i < Suc n \<Longrightarrow> p + of_nat i \<noteq> q" and "Suc n \<le> 2 ^ 32"
  shows "blit (m(q := m p)) (p + 1) (q + 1) n = blit m p q (Suc n)"
proof
  fix a
  show "blit (m(q := m p)) (p + 1) (q + 1) n a = blit m p q (Suc n) a"
  proof (cases "a = q")
    case True
    have "unat (q - (q + 1)) = 2 ^ 32 - 1" using unat_minus_1_max by simp
    then have "\<not> unat (q - (q + 1)) < n" using assms(2) by simp
    then show ?thesis using True by (simp add: blit_def)
  next
    case False
    have u: "unat (a - q) = Suc (unat (a - (q + 1)))" by (rule unat_diff_Suc [OF False])
    have eq: "p + 1 + (a - (q + 1)) = p + (a - q)" by simp
    have "p + (a - q) \<noteq> q" if "unat (a - (q + 1)) < n"
      using assms(1) [of "unat (a - q)"] that u by simp
    then show ?thesis using False u by (simp add: blit_def eq)
  qed
qed

lemma rep_movsb_ok:
  assumes "\<And>i j. j < i \<Longrightarrow> i < n \<Longrightarrow> q + of_nat j \<noteq> p + of_nat i" and "n \<le> 2 ^ 32"
  shows "rep_movsb n p q m = (p + of_nat n, q + of_nat n, blit m p q n)"
  using assms
proof (induction n arbitrary: p q m)
  case 0
  then show ?case by simp
next
  case (Suc n)
  have neq: "p + of_nat i \<noteq> q" if "0 < i" "i < Suc n" for i
    using Suc.prems(1) [OF that] by force
  have "rep_movsb n (p + 1) (q + 1) (m(q := m p)) =
    (p + 1 + of_nat n, q + 1 + of_nat n, blit (m(q := m p)) (p + 1) (q + 1) n)"
  proof (rule Suc.IH)
    fix i j assume "j < i" "i < n"
    then have "q + of_nat (Suc j) \<noteq> p + of_nat (Suc i)" by (intro Suc.prems(1)) simp_all
    then show "q + 1 + of_nat j \<noteq> p + 1 + of_nat i" by (simp add: add.assoc)
  qed (use Suc.prems(2) in simp)
  moreover have "blit (m(q := m p)) (p + 1) (q + 1) n = blit m p q (Suc n)"
    by (rule blit_Suc [OF neq Suc.prems(2)])
  ultimately show ?case by (simp add: algebra_simps)
qed

lemma rep_movsb_down_ok:
  assumes "\<And>i j. i < j \<Longrightarrow> j < n \<Longrightarrow> q + of_nat j \<noteq> p + of_nat i" and "n \<le> 2 ^ 32"
  shows "rep_movsb_down n (p + (of_nat n - 1)) (q + (of_nat n - 1)) m = (p - 1, q - 1, blit m p q n)"
  using assms
proof (induction n arbitrary: m)
  case 0
  then show ?case by simp
next
  case (Suc n)
  let ?m = "m(q + of_nat n := m (p + of_nat n))"
  have "rep_movsb_down n (p + (of_nat n - 1)) (q + (of_nat n - 1)) ?m = (p - 1, q - 1, blit ?m p q n)"
    by (rule Suc.IH) (use Suc.prems in auto)
  moreover have "blit ?m p q n = blit m p q (Suc n)"
  proof
    fix a
    have n: "unat (of_nat n :: u32) = n" by (rule unat_of_nat_u32) (use Suc.prems(2) in simp)
    have eqn: "unat (a - q) = n \<longleftrightarrow> a = q + of_nat n"
    proof
      assume "unat (a - q) = n"
      then show "a = q + of_nat n" using word_offset [of q a] by simp
    qed (simp add: n)
    have "p + (a - q) \<noteq> q + of_nat n" if "unat (a - q) < n"
    proof -
      have "p + of_nat (unat (a - q)) \<noteq> q + of_nat n" using Suc.prems(1) [of "unat (a - q)" n] that by force
      then show ?thesis by simp
    qed
    then show "blit ?m p q n a = blit m p q (Suc n) a"
      using eqn n by (auto simp: blit_def less_Suc_eq)
  qed
  ultimately show ?case by (simp add: algebra_simps)
qed

lemma rep_movsb_add:
  "rep_movsb (a + b) p q m = (case rep_movsb a p q m of (p', q', m') \<Rightarrow> rep_movsb b p' q' m')"
  by (induction a arbitrary: p q m) simp_all

text \<open>Two blocks that have no byte in common.\<close>

definition apart :: "u32 \<Rightarrow> u32 \<Rightarrow> nat \<Rightarrow> bool" where
  "apart q p n \<longleftrightarrow> (\<forall>i<n. \<forall>j<n. q + of_nat i \<noteq> p + of_nat j)"

lemma apart_shift: "apart q p (k + n) \<Longrightarrow> apart (q + of_nat k) (p + of_nat k) n"
  unfolding apart_def by (auto simp: of_nat_add [symmetric] add.assoc simp del: of_nat_add)

lemma apartD: "apart q p n \<Longrightarrow> i < n \<Longrightarrow> j < n \<Longrightarrow> q + of_nat i \<noteq> p + of_nat j"
  by (simp add: apart_def)

lemma rep_movsl_movsb: "apart q p (4 * n) \<Longrightarrow> rep_movsl n p q m = rep_movsb (4 * n) p q m"
proof (induction n arbitrary: p q m)
  case 0
  then show ?case by simp
next
  case (Suc n)
  let ?m = "m(q := m p, q + 1 := m (p + 1), q + 2 := m (p + 2), q + 3 := m (p + 3))"
  have ap: "apart (q + 4) (p + 4) (4 * n)" using apart_shift [of q p 4 "4 * n"] Suc.prems by simp
  have ne: "p + of_nat j \<noteq> q + of_nat i" if "i < 4" "j < 4" for i j
    using apartD [OF Suc.prems, of i j] that by simp
  have ne': "p + 1 \<noteq> q" "p + 2 \<noteq> q" "p + 3 \<noteq> q" "p + 2 \<noteq> q + 1" "p + 3 \<noteq> q + 1" "p + 3 \<noteq> q + 2"
    using ne [of 0 1] ne [of 0 2] ne [of 0 3] ne [of 1 2] ne [of 1 3] ne [of 2 3] by simp_all
  have "rep_movsb 4 p q m = (p + 4, q + 4, ?m)"
    using ne' by (simp add: numeral_eq_Suc add.assoc)
  then have "rep_movsb (4 + 4 * n) p q m = rep_movsb (4 * n) (p + 4) (q + 4) ?m"
    by (subst rep_movsb_add) simp
  then show ?case unfolding rep_movsl.simps Suc.IH [OF ap] by simp
qed

lemma unat_split4: "4 * unat (drop_bit 2 n) + unat (n AND 3) = unat (n :: u32)"
proof -
  have "n AND 3 = take_bit 2 n" by (simp add: take_bit_eq_mask mask_eq_exp_minus_1)
  then have "unat (n AND 3) = take_bit 2 (unat n)" by (simp only: unsigned_take_bit_eq)
  then have "unat (n AND 3) = unat n mod 4" by (simp add: take_bit_eq_mod)
  moreover have "unat (drop_bit 2 n) = unat n div 4" by (simp only: unat_drop_bit_eq) (simp add: drop_bit_eq_div)
  ultimately show ?thesis by simp
qed

lemma memcpy_blit: "apart dst src (unat n) \<Longrightarrow> memcpy dst src n m = (dst, blit m src dst (unat n))"
proof -
  assume ap: "apart dst src (unat n)"
  let ?l = "4 * unat (drop_bit 2 n)" and ?r = "unat (n AND 3)"
  have "apart dst src ?l" using ap unat_split4 [of n] by (auto simp: apart_def)
  then have "memcpy dst src n m = (case rep_movsb (?l + ?r) src dst m of (p, q, m1) \<Rightarrow> (dst, m1))"
    by (simp add: memcpy_def rep_movsl_movsb rep_movsb_add Let_def case_prod_beta)
  also have "rep_movsb (?l + ?r) src dst m = (src + of_nat (unat n), dst + of_nat (unat n), blit m src dst (unat n))"
    unfolding unat_split4 by (rule rep_movsb_ok) (use ap apartD unat_le_32 in force)+
  finally show ?thesis by simp
qed

lemma word_offset_neq:
  fixes a b :: u32
  assumes "unat a + i \<noteq> unat b + j" and "unat a + i < 2 ^ 32" and "unat b + j < 2 ^ 32"
  shows "a + of_nat i \<noteq> b + of_nat j"
proof
  assume "a + of_nat i = b + of_nat j"
  then have "(of_nat (unat a + i) :: u32) = of_nat (unat b + j)" by simp
  then have "unat (of_nat (unat a + i) :: u32) = unat (of_nat (unat b + j) :: u32)" by (simp only:)
  then show False using assms by (simp only: unat_of_nat_u32)
qed

lemma memmove_blit:
  assumes src: "unat src + unat n \<le> 2 ^ 32" and dst: "unat dst + unat n \<le> 2 ^ 32"
  shows "memmove dst src n m = (dst, blit m src dst (unat n))"
proof (cases "dst < src")
  case True
  then have lt: "unat dst < unat src" by (simp add: word_less_nat_alt)
  have "rep_movsb (unat n) src dst m = (src + of_nat (unat n), dst + of_nat (unat n), blit m src dst (unat n))"
    by (rule rep_movsb_ok) (rule word_offset_neq, use lt src dst unat_le_32 in auto)
  then show ?thesis using True by (simp add: memmove_def)
next
  case False
  then have ge: "unat src \<le> unat dst" by (simp add: word_le_nat_alt not_less)
  have "rep_movsb_down (unat n) (src + (of_nat (unat n) - 1)) (dst + (of_nat (unat n) - 1)) m =
    (src - 1, dst - 1, blit m src dst (unat n))"
    by (rule rep_movsb_down_ok) (rule word_offset_neq, use ge src dst unat_le_32 in auto)
  then show ?thesis using False by (simp add: memmove_def)
qed

lemma blit_read: "i < n \<Longrightarrow> n \<le> 2 ^ 32 \<Longrightarrow> blit m p q n (q + of_nat i) = m (p + of_nat i)"
  by (simp add: blit_def unat_of_nat_u32)

subsection \<open>Filling a block\<close>

definition fill_block :: "memory \<Rightarrow> u32 \<Rightarrow> nat \<Rightarrow> u8 \<Rightarrow> memory" where
  "fill_block m q n v = (\<lambda>a. if unat (a - q) < n then v else m a)"

lemma fill_block_0 [simp]: "fill_block m q 0 v = m"
  by (simp add: fill_block_def)

lemma fill_block_Suc:
  assumes "Suc n \<le> 2 ^ 32"
  shows "fill_block (m(q := v)) (q + 1) n v = fill_block m q (Suc n) v"
proof
  fix a
  show "fill_block (m(q := v)) (q + 1) n v a = fill_block m q (Suc n) v a"
    using unat_diff_Suc [of a q] by (cases "a = q") (simp_all add: fill_block_def)
qed

lemma rep_stosb_ok: "n \<le> 2 ^ 32 \<Longrightarrow> rep_stosb n q a m = (q + of_nat n, fill_block m q n (ucast a))"
  by (induction n arbitrary: q m) (simp_all add: fill_block_Suc algebra_simps)

lemma rep_stosb_add:
  "rep_stosb (k + n) q a m = (case rep_stosb k q a m of (q', m') \<Rightarrow> rep_stosb n q' a m')"
  by (induction k arbitrary: q m) simp_all

lemma times_01010101:
  fixes x :: nat
  assumes "x < 256"
  shows "x * 16843009 mod 256 = x" "x * 16843009 div 256 mod 256 = x"
    "x * 16843009 div 65536 mod 256 = x" "x * 16843009 div 16777216 mod 256 = x"
proof -
  have step: "(x + 256 * y) mod 256 = x" "(x + 256 * y) div 256 = y" for y :: nat using assms by simp_all
  have eqs: "x * 16843009 = x + 256 * (x * 65793)" "x * 65793 = x + 256 * (x * 257)" "x * 257 = x + 256 * x"
    by simp_all
  have d1: "x * 16843009 div 256 = x * 65793" and d2: "x * 65793 div 256 = x * 257" and d3: "x * 257 div 256 = x"
    using step(2) [of "x * 65793"] step(2) [of "x * 257"] step(2) [of x] by simp_all
  have "x * 16843009 div 65536 = x * 16843009 div 256 div 256"
    "x * 16843009 div 16777216 = x * 16843009 div 256 div 256 div 256"
    by (simp_all only: div_mult2_eq [symmetric]) simp_all
  then have d: "x * 16843009 div 65536 = x * 257" "x * 16843009 div 16777216 = x"
    by (simp_all only: d1 d2 d3)
  show "x * 16843009 mod 256 = x" "x * 16843009 div 256 mod 256 = x"
    "x * 16843009 div 65536 mod 256 = x" "x * 16843009 div 16777216 mod 256 = x"
    using step(1) [of "x * 65793"] step(1) [of "x * 257"] step(1) [of x] assms d d1
    by (simp_all add: mult.commute)
qed

lemma replicated_bytes:
  fixes c :: u8 and a :: u32
  assumes a: "a = ucast c * 0x01010101" and k: "k < 4"
  shows "(ucast (drop_bit (8 * k) a) :: u8) = c"
proof -
  have c: "unat c < 256" using unsigned_less [of c] by simp
  have "unat a = unat c * 16843009"
    using c by (simp add: a unat_word_ariths unsigned_ucast_eq take_bit_nat_eq_self)
  then have "unat (ucast (drop_bit (8 * k) a) :: u8) = (unat c * 16843009) div 2 ^ (8 * k) mod 256"
    by (simp only: unsigned_ucast_eq unat_drop_bit_eq) (simp add: drop_bit_eq_div take_bit_eq_mod)
  moreover have "(unat c * 16843009) div 2 ^ (8 * k) mod 256 = unat c"
  proof -
    have "k = 0 \<or> k = 1 \<or> k = 2 \<or> k = 3" using k by auto
    then show ?thesis using times_01010101 [OF c] by (elim disjE) simp_all
  qed
  ultimately show ?thesis by (simp add: unsigned_word_eqI)
qed

lemma rep_stosl_stosb:
  fixes c :: u8
  assumes a: "a = ucast c * 0x01010101"
  shows "rep_stosl n q a m = rep_stosb (4 * n) q a m"
proof (induction n arbitrary: q m)
  case 0
  then show ?case by simp
next
  case (Suc n)
  have b: "(ucast a :: u8) = c" "(ucast (drop_bit 8 a) :: u8) = c" "(ucast (drop_bit 16 a) :: u8) = c"
    "(ucast (drop_bit 24 a) :: u8) = c"
    using replicated_bytes [OF a, of 0] replicated_bytes [OF a, of 1] replicated_bytes [OF a, of 2]
      replicated_bytes [OF a, of 3] by simp_all
  have "rep_stosb (4 + 4 * n) q a m = rep_stosb (4 * n) (q + 4) a (m(q := c, q + 1 := c, q + 2 := c, q + 3 := c))"
    by (subst rep_stosb_add) (simp add: numeral_eq_Suc add.assoc b(1))
  then show ?case unfolding rep_stosl.simps b Suc.IH by simp
qed

lemma memset_fill: "memset dst c n m = (dst, fill_block m dst (unat n) (word_of_int c))"
proof -
  let ?a = "ucast (word_of_int c :: u8) * 0x01010101 :: u32"
  have a0: "(ucast ?a :: u8) = word_of_int c" using replicated_bytes [of ?a _ 0] by simp
  have "memset dst c n m =
    (dst, snd (rep_stosb (4 * unat (drop_bit 2 n) + unat (n AND 3)) dst ?a m))"
    unfolding memset_def Let_def rep_stosl_stosb [OF refl] rep_stosb_add by (simp add: case_prod_beta)
  also have "\<dots> = (dst, fill_block m dst (unat n) (word_of_int c))"
    unfolding unat_split4 rep_stosb_ok [OF unat_le_32] a0 by simp
  finally show ?thesis .
qed

subsection \<open>Comparing and searching bytes\<close>

lemma memcmp_loop_zero: "memcmp_loop n a b 0 m = 0 \<longleftrightarrow> (\<forall>i<n. m (a + of_nat i) = m (b + of_nat i))"
proof (induction n arbitrary: a b)
  case 0
  then show ?case by simp
next
  case (Suc n)
  have "(\<forall>i<Suc n. m (a + of_nat i) = m (b + of_nat i)) \<longleftrightarrow>
    m a = m b \<and> (\<forall>i<n. m (a + 1 + of_nat i) = m (b + 1 + of_nat i))"
    by (simp add: All_less_Suc2 add.assoc)
  then show ?case using Suc.IH [of "a + 1" "b + 1"] by (auto simp: Let_def uint_eq_iff)
qed

lemma memcmp_zero: "memcmp a b n m = 0 \<longleftrightarrow> (\<forall>i<unat n. m (a + of_nat i) = m (b + of_nat i))"
  by (simp add: memcmp_def memcmp_loop_zero)

text \<open>The sign of \<open>memcmp\<close> is decided by the first byte that differs.\<close>

lemma memcmp_loop_first:
  "i < n \<Longrightarrow> m (a + of_nat i) \<noteq> m (b + of_nat i) \<Longrightarrow> \<forall>j<i. m (a + of_nat j) = m (b + of_nat j) \<Longrightarrow>
   memcmp_loop n a b 0 m = uint (m (a + of_nat i)) - uint (m (b + of_nat i))"
proof (induction n arbitrary: a b i)
  case 0
  then show ?case by simp
next
  case (Suc n)
  show ?case
  proof (cases i)
    case 0
    then show ?thesis using Suc.prems(2) by (auto simp: Let_def uint_eq_iff)
  next
    case (Suc i')
    have "m (a + of_nat 0) = m (b + of_nat 0)" using Suc.prems(3) Suc by blast
    then have "m a = m b" by simp
    moreover have "\<forall>j<i'. m (a + 1 + of_nat j) = m (b + 1 + of_nat j)"
    proof (intro allI impI)
      fix j assume "j < i'"
      then have "m (a + of_nat (Suc j)) = m (b + of_nat (Suc j))" using Suc.prems(3) Suc by blast
      then show "m (a + 1 + of_nat j) = m (b + 1 + of_nat j)" by (simp add: add.assoc)
    qed
    moreover have "a + of_nat i = a + 1 + of_nat i'" "b + of_nat i = b + 1 + of_nat i'" by (simp_all add: Suc)
    moreover have "memcmp_loop (Suc n) a b 0 m = memcmp_loop n (a + 1) (b + 1) 0 m" if "m a = m b"
      using that by simp
    ultimately show ?thesis
      using Suc.IH [of i' "a + 1" "b + 1"] Suc.prems(1,2) Suc by (simp only: Suc_less_eq simp_thms True_implies_equals)
  qed
qed

lemma memchr_loop_ok:
  "memchr_loop n s c m = (if \<exists>i<n. m (s + of_nat i) = c then s + of_nat (LEAST i. m (s + of_nat i) = c) else 0)"
proof (induction n arbitrary: s)
  case 0
  then show ?case by simp
next
  case (Suc n)
  show ?case
  proof (cases "m s = c")
    case True
    then have "(LEAST i. m (s + of_nat i) = c) = 0" by (intro Least_equality) auto
    then show ?thesis using True by (auto intro: exI [of _ 0])
  next
    case False
    have ex: "(\<exists>i<Suc n. m (s + of_nat i) = c) \<longleftrightarrow> (\<exists>i<n. m (s + 1 + of_nat i) = c)"
      using False by (simp add: Ex_less_Suc2 add.assoc)
    have "(LEAST i. m (s + of_nat i) = c) = Suc (LEAST i. m (s + of_nat (Suc i)) = c)"
      if "m (s + 1 + of_nat i) = c" for i
      by (rule Least_Suc [of _ "Suc i"]) (use that False in \<open>simp_all add: add.assoc\<close>)
    then show ?thesis using Suc.IH [of "s + 1"] False ex by (auto simp: add.assoc)
  qed
qed

end
