(* ===== verification/Strings_Cstr.thy ===== *)
theory Strings_Cstr
  imports Strings_Ok
begin

text \<open>
  The functions on C strings: a string is the list of the bytes before its first NUL. The loops
  that look for the NUL end if and only if there is one; the results are those of the functions
  of lists.
\<close>

subsection \<open>Strings in memory\<close>

primrec cstr :: "memory \<Rightarrow> u32 \<Rightarrow> u8 list \<Rightarrow> bool" where
  "cstr m s [] \<longleftrightarrow> m s = 0"
| "cstr m s (b # bs) \<longleftrightarrow> b \<noteq> 0 \<and> m s = b \<and> cstr m (s + 1) bs"

lemma cstr_nth: "cstr m s bs \<Longrightarrow> i < length bs \<Longrightarrow> m (s + of_nat i) = bs ! i \<and> bs ! i \<noteq> 0"
proof (induction bs arbitrary: s i)
  case Nil
  then show ?case by simp
next
  case (Cons b bs)
  show ?case
  proof (cases i)
    case 0
    then show ?thesis using Cons.prems by simp
  next
    case (Suc i')
    then have "m (s + 1 + of_nat i') = bs ! i'" "bs ! i' \<noteq> 0" using Cons.IH [of "s + 1" i'] Cons.prems Suc by auto
    then show ?thesis using Suc by (simp add: add.assoc)
  qed
qed

lemma cstr_end: "cstr m s bs \<Longrightarrow> m (s + of_nat (length bs)) = 0"
proof (induction bs arbitrary: s)
  case (Cons b bs)
  then have "m (s + 1 + of_nat (length bs)) = 0" by simp
  then show ?case by (simp add: add.assoc)
qed simp

lemma cstr_iff:
  "cstr m s bs \<longleftrightarrow> (\<forall>i<length bs. m (s + of_nat i) = bs ! i \<and> bs ! i \<noteq> 0) \<and> m (s + of_nat (length bs)) = 0"
proof
  assume r: "(\<forall>i<length bs. m (s + of_nat i) = bs ! i \<and> bs ! i \<noteq> 0) \<and> m (s + of_nat (length bs)) = 0"
  then show "cstr m s bs"
  proof (induction bs arbitrary: s)
    case Nil
    then show ?case by simp
  next
    case (Cons b bs)
    have at: "m (s + of_nat i) = (b # bs) ! i \<and> (b # bs) ! i \<noteq> 0" if "i < Suc (length bs)" for i
      using Cons.prems that by simp
    have "cstr m (s + 1) bs"
      by (rule Cons.IH) (use at [of "Suc _"] Cons.prems in \<open>auto simp: add.assoc\<close>)
    then show ?case using at [of 0] by simp
  qed
qed (use cstr_nth cstr_end in blast)

lemma cstr_unique: "cstr m s bs \<Longrightarrow> cstr m s cs \<Longrightarrow> bs = cs"
proof (induction bs arbitrary: s cs)
  case Nil
  then show ?case by (cases cs) auto
next
  case (Cons b bs)
  then show ?case by (cases cs) auto
qed

lemma cstr_no_nul: "cstr m s bs \<Longrightarrow> 0 \<notin> set bs"
  by (induction bs arbitrary: s) auto

text \<open>A string is there as soon as the memory has a NUL.\<close>

lemma cstr_exists:
  assumes "m (s + of_nat n) = 0"
  shows "\<exists>bs. cstr m s bs \<and> length bs \<le> n"
  using assms
proof (induction n arbitrary: s)
  case 0
  then show ?case by (intro exI [of _ "[]"]) simp
next
  case (Suc n)
  show ?case
  proof (cases "m s = 0")
    case True
    then show ?thesis by (intro exI [of _ "[]"]) simp
  next
    case False
    have "m (s + 1 + of_nat n) = 0" using Suc.prems by (simp add: add.assoc)
    then obtain bs where "cstr m (s + 1) bs" "length bs \<le> n" using Suc.IH by blast
    then show ?thesis using False by (intro exI [of _ "m s # bs"]) simp
  qed
qed

lemma cstr_exists_iff: "(\<exists>bs. cstr m s bs) \<longleftrightarrow> (\<exists>a. m a = 0)"
proof
  assume "\<exists>a. m a = 0"
  then obtain a where "m (s + of_nat (unat (a - s))) = 0" by (auto simp: word_offset)
  then show "\<exists>bs. cstr m s bs" using cstr_exists by blast
qed (use cstr_end in blast)

lemma cstr_length: "cstr m s bs \<Longrightarrow> length bs < 2 ^ 32"
proof (rule ccontr)
  assume c: "cstr m s bs" and "\<not> length bs < 2 ^ 32"
  then have l: "2 ^ 32 \<le> length bs" by simp
  let ?i = "unat (s + of_nat (length bs) - s)"
  have "?i < 2 ^ LENGTH(32)" by (rule unsigned_less)
  then have "?i < length bs" using l by simp
  then have "m (s + of_nat ?i) \<noteq> 0" using cstr_nth [OF c] by metis
  then show False using cstr_end [OF c] by simp
qed

lemma cstr_cong: "(\<And>i. i \<le> length bs \<Longrightarrow> m' (s + of_nat i) = m (s + of_nat i)) \<Longrightarrow> cstr m' s bs = cstr m s bs"
  by (simp add: cstr_iff)

subsection \<open>Lengths and searches\<close>

lemma strlen_loop_ok: "cstr m s bs \<Longrightarrow> strlen_loop s m = ret (s + of_nat (length bs))"
proof (induction bs arbitrary: s)
  case Nil
  then show ?case by (subst strlen_loop.simps) simp
next
  case (Cons b bs)
  then show ?case by (subst strlen_loop.simps) (simp add: add.assoc)
qed

lemma strlen_ok: "cstr m s bs \<Longrightarrow> strlen s m = ret (of_nat (length bs))"
  by (simp add: strlen_def strlen_loop_ok)

lemma strlen_loop_result:
  assumes "strlen_loop s m = Some r"
  shows "\<exists>a. m a = 0"
  by (rule strlen_loop.raw_induct [where P = "\<lambda>s m r. \<exists>a. m a = 0", OF _ assms])
    (auto split: if_splits)

text \<open>\<open>strlen\<close> returns if and only if there is a NUL somewhere.\<close>

lemma strlen_diverges: "strlen s m = None \<longleftrightarrow> (\<forall>a. m a \<noteq> 0)"
proof
  assume n: "strlen s m = None"
  show "\<forall>a. m a \<noteq> 0"
  proof (rule ccontr)
    assume "\<not> (\<forall>a. m a \<noteq> 0)"
    then obtain bs where "cstr m s bs" using cstr_exists_iff by blast
    then show False using strlen_ok n by simp
  qed
next
  assume "\<forall>a. m a \<noteq> 0"
  then have "strlen_loop s m = None" using strlen_loop_result by (metis not_None_eq)
  then show "strlen s m = None" by (simp add: strlen_def)
qed

lemma strnlen_loop_ok: "cstr m s bs \<Longrightarrow> strnlen_loop n s m = s + of_nat (min n (length bs))"
proof (induction n arbitrary: s bs)
  case 0
  then show ?case by simp
next
  case (Suc n)
  then show ?case by (cases bs) (auto simp: add.assoc min_def)
qed

lemma strnlen_ok: "cstr m s bs \<Longrightarrow> strnlen s n m = of_nat (min (unat n) (length bs))"
  by (simp add: strnlen_def strnlen_loop_ok)

lemma strchr_loop_ok:
  "cstr m s bs \<Longrightarrow> strchr_loop s c m =
     ret (if c \<in> set bs \<or> c = 0 then s + of_nat (length (takeWhile (\<lambda>b. b \<noteq> c) bs)) else 0)"
proof (induction bs arbitrary: s)
  case Nil
  then show ?case by (subst strchr_loop.simps) auto
next
  case (Cons b bs)
  then have IH: "strchr_loop (s + 1) c m =
     ret (if c \<in> set bs \<or> c = 0 then s + 1 + of_nat (length (takeWhile (\<lambda>b. b \<noteq> c) bs)) else 0)" by simp
  show ?case using Cons.prems by (subst strchr_loop.simps) (auto simp: IH add.assoc)
qed

lemma strchr_end: "cstr m s bs \<Longrightarrow> strchr s 0 m = ret (s + of_nat (length bs))"
proof -
  assume c: "cstr m s bs"
  then have "takeWhile (\<lambda>b. b \<noteq> 0) bs = bs" using cstr_no_nul [OF c] by (auto simp: takeWhile_eq_all_conv)
  then show ?thesis using strchr_loop_ok [OF c, of 0] by (simp add: strchr_def del: takeWhile_eq_all_conv)
qed

subsection \<open>Comparison\<close>

text \<open>The comparison of two strings as lists of bytes.\<close>

fun cmp_bytes :: "u8 list \<Rightarrow> u8 list \<Rightarrow> int" where
  "cmp_bytes [] [] = 0"
| "cmp_bytes [] (b # bs) = - uint b"
| "cmp_bytes (a # as) [] = uint a"
| "cmp_bytes (a # as) (b # bs) = (if a = b then cmp_bytes as bs else uint a - uint b)"

lemma strcmp_cmp_bytes: "cstr m s as \<Longrightarrow> cstr m t bs \<Longrightarrow> strcmp s t m = ret (cmp_bytes as bs)"
proof (induction as bs arbitrary: s t rule: cmp_bytes.induct)
  case 1
  then show ?case by (subst strcmp.simps) (simp add: Let_def)
next
  case (2 b bs)
  then show ?case by (subst strcmp.simps) (simp add: Let_def)
next
  case (3 a as)
  then show ?case by (subst strcmp.simps) (simp add: Let_def uint_eq_0)
next
  case (4 a as b bs)
  then show ?case by (subst strcmp.simps) (auto simp: Let_def uint_eq_iff)
qed

lemma cmp_bytes_zero: "0 \<notin> set as \<Longrightarrow> 0 \<notin> set bs \<Longrightarrow> cmp_bytes as bs = 0 \<longleftrightarrow> as = bs"
  by (induction as bs rule: cmp_bytes.induct) (auto simp: uint_eq_iff uint_eq_0)

lemma strcmp_equal: "cstr m s as \<Longrightarrow> cstr m t bs \<Longrightarrow> \<exists>d. strcmp s t m = ret d \<and> (d = 0 \<longleftrightarrow> as = bs)"
  using strcmp_cmp_bytes cmp_bytes_zero cstr_no_nul by metis

lemma cmp_bytes_neg:
  "0 \<notin> set as \<Longrightarrow> 0 \<notin> set bs \<Longrightarrow> cmp_bytes as bs < 0 \<longleftrightarrow> (as, bs) \<in> lexord {(a, b). a < b}"
proof (induction as bs rule: cmp_bytes.induct)
  case (2 b bs)
  then have "0 < uint b" by (simp add: uint_pos)
  then show ?case by simp
next
  case (3 a as)
  then show ?case by simp
next
  case (4 a as b bs)
  then show ?case by (auto simp: word_less_def)
qed auto

lemma strncmp_ok:
  "cstr m s as \<Longrightarrow> cstr m t bs \<Longrightarrow> strncmp_loop n s t 0 m = cmp_bytes (take n as) (take n bs)"
proof (induction as bs arbitrary: s t n rule: cmp_bytes.induct)
  case 1
  then show ?case by (cases n) (simp_all add: Let_def)
next
  case (2 b bs)
  then show ?case by (cases n) (simp_all add: Let_def)
next
  case (3 a as)
  then show ?case by (cases n) (simp_all add: Let_def uint_eq_0)
next
  case (4 a as b bs)
  then show ?case by (cases n) (auto simp: Let_def uint_eq_iff)
qed

subsection \<open>Copying a string\<close>

text \<open>
  \<open>strcpy\<close> copies the string with its NUL, if no byte is read after it was written.
\<close>

lemma strcpy_loop_ok:
  assumes "cstr m p bs" and "\<And>i j. j < i \<Longrightarrow> i \<le> length bs \<Longrightarrow> q + of_nat j \<noteq> p + of_nat i"
  shows "strcpy_loop q p m = ret (blit m p q (Suc (length bs)))"
  using assms
proof (induction bs arbitrary: p q m)
  case Nil
  have "blit (m(q := m p)) (p + 1) (q + 1) 0 = blit m p q (Suc 0)" by (rule blit_Suc) auto
  then show ?case using Nil by (subst strcpy_loop.simps) (simp add: Let_def)
next
  case (Cons b bs)
  let ?m = "m(q := m p)"
  have neq: "p + of_nat i \<noteq> q" if "0 < i" "i < Suc (Suc (length bs))" for i
    using Cons.prems(2) [of 0 i] that by force
  have len: "Suc (Suc (length bs)) \<le> 2 ^ 32" using cstr_length [OF Cons.prems(1)] by simp
  have "cstr ?m (p + 1) bs = cstr m (p + 1) bs"
    by (rule cstr_cong) (use neq [of "Suc _"] in \<open>auto simp: add.assoc\<close>)
  then have "cstr ?m (p + 1) bs" using Cons.prems(1) by simp
  then have "strcpy_loop (q + 1) (p + 1) ?m = ret (blit ?m (p + 1) (q + 1) (Suc (length bs)))"
  proof (rule Cons.IH)
    fix i j assume "j < i" "i \<le> length bs"
    then have "q + of_nat (Suc j) \<noteq> p + of_nat (Suc i)" by (intro Cons.prems(2)) simp_all
    then show "q + 1 + of_nat j \<noteq> p + 1 + of_nat i" by (simp add: add.assoc)
  qed
  moreover have "blit ?m (p + 1) (q + 1) (Suc (length bs)) = blit m p q (Suc (Suc (length bs)))"
    by (rule blit_Suc [OF neq len])
  ultimately show ?case using Cons.prems(1) by (subst strcpy_loop.simps) (simp add: Let_def)
qed

lemma cstr_blit:
  assumes c: "cstr m p bs"
  shows "cstr (blit m p q (Suc (length bs))) q bs"
proof -
  have "blit m p q (Suc (length bs)) (q + of_nat i) = m (p + of_nat i)" if "i \<le> length bs" for i
    by (rule blit_read) (use that cstr_length [OF c] in auto)
  then show ?thesis using c by (simp add: cstr_iff)
qed

lemma strcpy_ok:
  assumes "cstr m src bs" and "apart dst src (Suc (length bs))"
  shows "strcpy dst src m = ret (dst, blit m src dst (Suc (length bs)))"
proof -
  have "strcpy_loop dst src m = ret (blit m src dst (Suc (length bs)))"
    by (rule strcpy_loop_ok [OF assms(1)]) (use assms(2) apartD in force)
  then show ?thesis by (simp add: strcpy_def)
qed

text \<open>
  \<open>strcat\<close> appends: the source must not meet the place where the copy goes, and the string that
  is extended must not meet it either, but at its end.
\<close>

lemma strcat_ok:
  assumes d: "cstr m dst as" and s: "cstr m src bs"
    and ap: "apart (dst + of_nat (length as)) src (Suc (length bs))"
    and room: "length as + length bs < 2 ^ 32"
  shows "\<exists>m'. strcat dst src m = ret (dst, m') \<and> cstr m' dst (as @ bs) \<and>
    (\<forall>a. unat (a - (dst + of_nat (length as))) > length bs \<longrightarrow> m' a = m a)"
proof -
  let ?e = "dst + of_nat (length as)"
  let ?m = "blit m src ?e (Suc (length bs))"
  have run: "strcat dst src m = ret (dst, ?m)"
    by (simp add: strcat_def strchr_end [OF d] strcpy_ok [OF s ap])
  have e: "cstr ?m ?e bs" by (rule cstr_blit [OF s])
  have keep: "?m (dst + of_nat i) = m (dst + of_nat i)" if "i < length as" for i
  proof -
    have "\<not> unat (dst + of_nat i - ?e) < Suc (length bs)"
    proof
      let ?k = "unat (dst + of_nat i - ?e)"
      assume k: "?k < Suc (length bs)"
      have "dst + of_nat i = ?e + of_nat ?k" by (rule word_offset [symmetric])
      then have "(of_nat i :: u32) = of_nat (length as + ?k)" by (simp add: add.assoc)
      then have "unat (of_nat i :: u32) = unat (of_nat (length as + ?k) :: u32)" by (simp only:)
      then have "i = length as + ?k" using that k room by (simp only: unat_of_nat_u32)
      then show False using that by simp
    qed
    then show ?thesis by (simp add: blit_def)
  qed
  have "cstr ?m dst (as @ bs)"
    unfolding cstr_iff
  proof (intro conjI allI impI)
    fix i assume i: "i < length (as @ bs)"
    show "?m (dst + of_nat i) = (as @ bs) ! i"
    proof (cases "i < length as")
      case True
      then show ?thesis using keep cstr_nth [OF d] by (simp add: nth_append)
    next
      case False
      then obtain k where k: "i = length as + k" by (metis le_add_diff_inverse not_less)
      then show ?thesis using cstr_nth [OF e, of k] i by (simp add: add.assoc)
    qed
    show "(as @ bs) ! i \<noteq> 0"
      using cstr_no_nul [OF d] cstr_no_nul [OF s] nth_mem [OF i] by auto
  next
    show "?m (dst + of_nat (length (as @ bs))) = 0" using cstr_end [OF e] by (simp add: add.assoc)
  qed
  then show ?thesis using run by (auto simp: blit_def)
qed

end
