(* ===== verification/Hash_Keys.thy ===== *)
theory Hash_Keys
  imports Hash_Ok Strings_Cstr
begin

text \<open>
  The two predefined pairs of functions of kernel/hash.c, for keys that are compared as pointers
  and for keys that are C strings, and the runs of operations on a table. Both pairs meet the laws
  of \<open>hash_funs\<close>; the lemmas on the table are then those of its two interpretations.
\<close>

subsection \<open>The code\<close>

definition hash_direct_cmp :: "u32 \<Rightarrow> u32 \<Rightarrow> bool" where
  "hash_direct_cmp key1 key2 \<longleftrightarrow> key1 = key2"

definition hash_direct_hfunc :: "u32 \<Rightarrow> u32" where
  "hash_direct_hfunc k = k"

definition hash_string_cmp :: "memory \<Rightarrow> u32 \<Rightarrow> u32 \<Rightarrow> bool res" where
  "hash_string_cmp mem key1 key2 = bindr (strcmp key1 key2 mem) (\<lambda>d. ret (d = 0))"

text \<open>The hash of Bernstein. \<open>char\<close> is signed, so a byte is extended with its sign.\<close>

partial_function (option) hash_string_loop :: "u32 \<Rightarrow> u32 \<Rightarrow> u32 \<Rightarrow> memory \<Rightarrow> u32 res" where
  "hash_string_loop k i h mem =
     (if mem (k + i) \<noteq> 0
      then hash_string_loop k (i + 1) ((push_bit 5 h + h) XOR scast (mem (k + i))) mem
      else ret h)"

definition hash_string_hfunc :: "memory \<Rightarrow> u32 \<Rightarrow> u32 res" where
  "hash_string_hfunc mem k = hash_string_loop k 0 5381 mem"

definition hash_init_direct :: "bool \<Rightarrow> hash_t \<Rightarrow> int \<times> hash_t" where
  "hash_init_direct ok m = hash_init ok m hash_direct_hfunc hash_direct_cmp"

text \<open>
  A table keeps its functions as values, and they read the strings in memory. The model fixes the
  memory when the table is made: the strings used as keys are not written while the table is in use.
  The calls return as soon as the memory has a NUL (\<open>hash_string_returns\<close>).
\<close>

definition returned :: "'a \<Rightarrow> 'a res \<Rightarrow> 'a" where
  "returned d r = (case r of Some (Inr x) \<Rightarrow> x | _ \<Rightarrow> d)"

lemma returned_ret [simp]: "returned d (ret x) = x"
  by (simp add: returned_def ret_def)

definition str_hf :: "memory \<Rightarrow> u32 \<Rightarrow> u32" where
  "str_hf mem k = returned 0 (hash_string_hfunc mem k)"

definition str_cf :: "memory \<Rightarrow> u32 \<Rightarrow> u32 \<Rightarrow> bool" where
  "str_cf mem k1 k2 = returned False (hash_string_cmp mem k1 k2)"

definition hash_init_string :: "bool \<Rightarrow> memory \<Rightarrow> hash_t \<Rightarrow> int \<times> hash_t" where
  "hash_init_string ok mem m = hash_init ok m (str_hf mem) (str_cf mem)"

subsection \<open>The functions on strings\<close>

definition str_hash :: "u8 list \<Rightarrow> u32" where
  "str_hash = foldl (\<lambda>h c. (33 * h) XOR scast c) 5381"

lemma push_bit_5_add: "push_bit 5 h + h = 33 * (h :: u32)"
  by (simp add: push_bit_eq_mult algebra_simps)

lemma hash_string_loop_ok:
  "cstr mem (k + i) bs \<Longrightarrow> hash_string_loop k i h mem = ret (foldl (\<lambda>h c. (33 * h) XOR scast c) h bs)"
proof (induction bs arbitrary: i h)
  case Nil
  then show ?case by (subst hash_string_loop.simps) simp
next
  case (Cons b bs)
  then have "cstr mem (k + (i + 1)) bs" by (simp add: add.assoc)
  then show ?case using Cons.IH Cons.prems
    by (subst hash_string_loop.simps) (simp add: push_bit_5_add)
qed

lemma hash_string_hfunc_ok: "cstr mem k bs \<Longrightarrow> hash_string_hfunc mem k = ret (str_hash bs)"
  by (simp add: hash_string_hfunc_def hash_string_loop_ok str_hash_def)

lemma hash_string_cmp_ok:
  assumes "cstr mem k1 as" and "cstr mem k2 bs"
  shows "hash_string_cmp mem k1 k2 = ret (as = bs)"
  using strcmp_equal [OF assms] by (auto simp: hash_string_cmp_def)

definition same_string :: "memory \<Rightarrow> u32 \<Rightarrow> u32 \<Rightarrow> bool" where
  "same_string mem k1 k2 \<longleftrightarrow> (\<exists>bs. cstr mem k1 bs \<and> cstr mem k2 bs)"

lemma hash_string_returns:
  assumes "mem a = 0"
  shows "\<exists>h. hash_string_hfunc mem k = ret h" and "hash_string_cmp mem k1 k2 = ret (same_string mem k1 k2)"
proof -
  obtain bs where "cstr mem k bs" using assms cstr_exists_iff by blast
  then show "\<exists>h. hash_string_hfunc mem k = ret h" using hash_string_hfunc_ok by blast
  obtain as bs where s: "cstr mem k1 as" "cstr mem k2 bs" using assms cstr_exists_iff by meson
  then have "same_string mem k1 k2 \<longleftrightarrow> as = bs" using cstr_unique unfolding same_string_def by blast
  then show "hash_string_cmp mem k1 k2 = ret (same_string mem k1 k2)" using hash_string_cmp_ok [OF s] by simp
qed

lemma str_cf_same: "mem a = 0 \<Longrightarrow> str_cf mem k1 k2 = same_string mem k1 k2"
  by (simp add: str_cf_def hash_string_returns(2))

lemma str_hf_same:
  assumes "same_string mem k1 k2"
  shows "str_hf mem k1 = str_hf mem k2"
proof -
  obtain bs where "cstr mem k1 bs" "cstr mem k2 bs" using assms by (auto simp: same_string_def)
  then show ?thesis by (simp add: str_hf_def hash_string_hfunc_ok)
qed

lemma same_string_refl: "mem a = 0 \<Longrightarrow> same_string mem k k"
  using cstr_exists_iff unfolding same_string_def by blast

lemma same_string_trans: "same_string mem k1 k2 \<Longrightarrow> same_string mem k2 k3 \<Longrightarrow> same_string mem k1 k3"
  unfolding same_string_def using cstr_unique by metis

subsection \<open>Runs of operations\<close>

datatype hash_op = Op_Set u32 u32 | Op_Del u32 | Op_Get u32 u32 | Op_Isset u32

text \<open>The results of a run: what the operations return, as a client sees them.\<close>

fun hash_run :: "hash_op list \<Rightarrow> hash_t \<Rightarrow> int list res" where
  "hash_run [] m = ret []"
| "hash_run (Op_Set k v # ops) m = bindr (hash_set True (Some m) k v) (\<lambda>(r, m1).
     bindr (deref m1) (\<lambda>m1. bindr (hash_run ops m1) (\<lambda>rs. ret (r # rs))))"
| "hash_run (Op_Del k # ops) m = bindr (hash_del True (Some m) k) (\<lambda>(r, m1).
     bindr (deref m1) (\<lambda>m1. bindr (hash_run ops m1) (\<lambda>rs. ret (r # rs))))"
| "hash_run (Op_Get k d # ops) m = bindr (hash_get (Some m) k d) (\<lambda>v.
     bindr (hash_run ops m) (\<lambda>rs. ret (uint v # rs)))"
| "hash_run (Op_Isset k # ops) m = bindr (hash_isset (Some m) k) (\<lambda>b.
     bindr (hash_run ops m) (\<lambda>rs. ret (of_bool b # rs)))"

text \<open>The specification: the same run on a map, whose keys are compared by \<open>eq\<close>.\<close>

fun map_run :: "(u32 \<Rightarrow> u32 \<Rightarrow> bool) \<Rightarrow> hash_op list \<Rightarrow> (u32 \<Rightarrow> u32 option) \<Rightarrow> int list" where
  "map_run eq [] f = []"
| "map_run eq (Op_Set k v # ops) f = 0 # map_run eq ops (\<lambda>k'. if eq k k' then Some v else f k')"
| "map_run eq (Op_Del k # ops) f = 0 # map_run eq ops (\<lambda>k'. if eq k k' then None else f k')"
| "map_run eq (Op_Get k d # ops) f = uint (case f k of None \<Rightarrow> d | Some v \<Rightarrow> v) # map_run eq ops f"
| "map_run eq (Op_Isset k # ops) f = of_bool (f k \<noteq> None) # map_run eq ops f"

fun sets :: "hash_op list \<Rightarrow> nat" where
  "sets [] = 0"
| "sets (Op_Set k v # ops) = Suc (sets ops)"
| "sets (Op_Del k # ops) = sets ops"
| "sets (Op_Get k d # ops) = sets ops"
| "sets (Op_Isset k # ops) = sets ops"

text \<open>
  After \<open>s\<close> insertions a table has at most \<open>s\<close> slots in use and, unless it has its first size, at
  most \<open>3 * s\<close> slots.
\<close>

definition after_sets :: "hash_t \<Rightarrow> nat \<Rightarrow> nat \<Rightarrow> bool" where
  "after_sets m b s \<longleftrightarrow> useds (table m) \<le> s \<and> (b = 3 \<or> 2 ^ b \<le> 3 * s)"

lemma after_sets_bound:
  assumes "after_sets m b s" and "3 * s < 2 ^ 30"
  shows "b \<le> 29"
proof (rule ccontr)
  assume "\<not> b \<le> 29"
  then have "(2::nat) ^ 30 \<le> 2 ^ b" "b \<noteq> 3" by (simp_all add: power_increasing del: power_numeral)
  then show False using assms by (auto simp: after_sets_def)
qed

lemma after_sets_grows:
  assumes "after_sets m b s" and "grows u b m' b'" and "u \<le> s'" and "s \<le> s'" and "3 \<le> b'"
  shows "after_sets m' b' s'"
proof -
  have "b' = 3 \<or> 2 ^ b' \<le> 3 * s'"
  proof (cases "b' \<le> b")
    case True
    then have "(2::nat) ^ b' \<le> 2 ^ b" by (simp add: power_increasing)
    then have "2 ^ b' \<le> 3 * s'" if "2 ^ b \<le> 3 * s" using that assms(4) by linarith
    moreover have "b = 3 \<longrightarrow> b' = 3" using True assms(5) by simp
    ultimately show ?thesis using assms(1) unfolding after_sets_def by blast
  next
    case False
    then show ?thesis using assms(2,3) by (auto simp: grows_def)
  qed
  then show ?thesis using assms(2,3) by (auto simp: after_sets_def grows_def)
qed

lemma hash_rep_3: "hash_rep hf cf m b \<Longrightarrow> 3 \<le> b"
  by (simp add: hash_rep_def roomy_def)

context hash_funs
begin

lemma run_rep:
  assumes "hash_rep hf cf m b" and "after_sets m b s" and "3 * (s + sets ops) < 2 ^ 30"
  shows "hash_run ops m = ret (map_run cf ops (hash_map m))"
  using assms
proof (induction ops arbitrary: m b s rule: sets.induct)
  case 1
  then show ?case by simp
next
  case (2 k v ops)
  have "b \<le> 29" by (rule after_sets_bound [OF 2(3)]) (use 2(4) in simp)
  then obtain m' b' where m': "hash_set True (Some m) k v = ret (0, Some m')" "hash_rep hf cf m' b'"
    "grows (useds (table m) + 1) b m' b'" "hash_map m' = (\<lambda>k'. if cf k k' then Some v else hash_map m k')"
    using set_rep [OF 2(2)] by blast
  have "after_sets m' b' (s + 1)"
    by (rule after_sets_grows [OF 2(3) m'(3) _ _ hash_rep_3 [OF m'(2)]]) (use 2(3) in \<open>auto simp: after_sets_def\<close>)
  then have "hash_run ops m' = ret (map_run cf ops (hash_map m'))"
    by (rule 2(1) [OF m'(2)]) (use 2(4) in simp)
  then show ?case using m' by simp
next
  case (3 k ops)
  have "b \<le> 29" by (rule after_sets_bound [OF 3(3)]) (use 3(4) in simp)
  then obtain m' b' where m': "hash_del True (Some m) k = ret (0, Some m')" "hash_rep hf cf m' b'"
    "grows (useds (table m)) b m' b'" "hash_map m' = (\<lambda>k'. if cf k k' then None else hash_map m k')"
    using del_rep [OF 3(2)] by blast
  have "after_sets m' b' s"
    by (rule after_sets_grows [OF 3(3) m'(3) _ _ hash_rep_3 [OF m'(2)]]) (use 3(3) in \<open>auto simp: after_sets_def\<close>)
  then have "hash_run ops m' = ret (map_run cf ops (hash_map m'))"
    by (rule 3(1) [OF m'(2)]) (use 3(4) in simp)
  then show ?case using m' by simp
next
  case (4 k d ops)
  have "hash_run ops m = ret (map_run cf ops (hash_map m))"
    by (rule 4(1) [OF 4(2,3)]) (use 4(4) in simp)
  then show ?case using get_rep(1) [OF 4(2)] by simp
next
  case (5 k ops)
  have "hash_run ops m = ret (map_run cf ops (hash_map m))"
    by (rule 5(1) [OF 5(2,3)]) (use 5(4) in simp)
  then show ?case using get_rep(2) [OF 5(2)] by simp
qed

lemma init_run:
  assumes "hash_init True m0 hf cf = (0, m)" and "3 * sets ops < 2 ^ 30"
  shows "hash_run ops m = ret (map_run cf ops (\<lambda>_. None))"
proof -
  have rep: "hash_rep hf cf m 3" "hash_map m = (\<lambda>_. None)" using init_rep [OF assms(1)] by auto
  have "table m = replicate 8 empty_slot"
    using assms(1) by (auto simp: hash_init_def hash_initialize_def HASH_MINSIZE_def)
  then have "after_sets m 3 0" by (simp add: after_sets_def useds_def empty_slot_def)
  from run_rep [OF rep(1) this] show ?thesis using assms(2) rep(2) by simp
qed

end

subsection \<open>The two interpretations\<close>

interpretation direct: hash_funs hash_direct_hfunc hash_direct_cmp
  by unfold_locales (auto simp: hash_direct_cmp_def hash_direct_hfunc_def)

text \<open>Every memory that has a NUL at \<open>a\<close> is of the form \<open>mem(a := 0)\<close>.\<close>

interpretation strings: hash_funs "str_hf (mem(a := 0))" "str_cf (mem(a := 0))" for mem a
proof -
  have cf: "str_cf (mem(a := 0)) = same_string (mem(a := 0))"
    using str_cf_same [of "mem(a := 0)" a] by (simp add: fun_eq_iff)
  show "hash_funs (str_hf (mem(a := 0))) (str_cf (mem(a := 0)))"
    unfolding cf
  proof
    show "same_string (mem(a := 0)) k k" for k by (rule same_string_refl [of _ a]) simp
    show "same_string (mem(a := 0)) k2 k1" if "same_string (mem(a := 0)) k1 k2" for k1 k2
      using that by (auto simp: same_string_def)
  qed (rule same_string_trans str_hf_same, assumption+)+
qed

end
