(* ===== verification/Strings_Search.thy ===== *)
theory Strings_Search
  imports Strings_Cstr
begin

text \<open>
  \<open>memmem\<close> (the algorithm "not so naive") finds the leftmost occurrence, and the functions that
  measure a span are those of lists.
\<close>

subsection \<open>The leftmost occurrence of a block\<close>

definition occurs :: "memory \<Rightarrow> u32 \<Rightarrow> u32 \<Rightarrow> nat \<Rightarrow> nat \<Rightarrow> bool" where
  "occurs m y x nm j \<longleftrightarrow> (\<forall>i<nm. m (y + of_nat (j + i)) = m (x + of_nat i))"

definition leftmost :: "memory \<Rightarrow> u32 \<Rightarrow> nat \<Rightarrow> u32 \<Rightarrow> nat \<Rightarrow> u32" where
  "leftmost m y n x nm =
     (case find (occurs m y x nm) [0..<Suc n - nm] of None \<Rightarrow> 0 | Some j \<Rightarrow> y + of_nat j)"

lemma find_upt_None: "(\<And>i. i < n \<Longrightarrow> \<not> P i) \<Longrightarrow> find P [0..<n] = None"
  by (simp add: find_None_iff)

lemma find_upt_Some: "j < n \<Longrightarrow> P j \<Longrightarrow> (\<And>i. i < j \<Longrightarrow> \<not> P i) \<Longrightarrow> find P [0..<n] = Some j"
  by (auto simp: find_Some_iff intro!: exI [of _ j])

lemma occurs_split:
  assumes "2 \<le> nm"
  shows "occurs m y x nm j \<longleftrightarrow> m (y + of_nat j) = m x \<and> m (y + of_nat (j + 1)) = m (x + 1) \<and>
    (\<forall>i<nm - 2. m (x + 2 + of_nat i) = m (y + of_nat j + 2 + of_nat i))"
proof -
  obtain r where r: "nm = Suc (Suc r)" using assms by (metis Suc_le_D numeral_2_eq_2 Suc_le_mono)
  have 1: "y + of_nat (j + Suc (Suc i)) = y + of_nat j + 2 + of_nat i"
    "x + of_nat (Suc (Suc i)) = x + 2 + of_nat i" for i
    by (simp_all add: algebra_simps)
  have "occurs m y x nm j \<longleftrightarrow> m (y + of_nat (j + 0)) = m (x + of_nat 0) \<and>
      m (y + of_nat (j + Suc 0)) = m (x + of_nat (Suc 0)) \<and>
      (\<forall>i<r. m (y + of_nat (j + Suc (Suc i))) = m (x + of_nat (Suc (Suc i))))"
    unfolding occurs_def r All_less_Suc2 by simp
  also have "\<dots> \<longleftrightarrow> m (y + of_nat j) = m x \<and> m (y + of_nat (j + 1)) = m (x + 1) \<and>
    (\<forall>i<r. m (x + 2 + of_nat i) = m (y + of_nat j + 2 + of_nat i))"
    unfolding 1 by auto
  finally show ?thesis using r by simp
qed

lemma memmem_loop_ok:
  fixes n nm :: u32
  assumes M: "2 \<le> unat nm" and N: "unat nm \<le> unat n"
    and kl: "if m x = m (x + 1) then k = 2 \<and> l = 1 else k = 1 \<and> l = 2"
    and j: "j \<le> unat n - unat nm + 2" and before: "\<And>i. i < j \<Longrightarrow> \<not> occurs m y x (unat nm) i"
  shows "memmem_loop y n x k l nm (of_nat j) m = ret (leftmost m y (unat n) x (unat nm))"
  using j before
proof (induction "unat n - unat nm + 3 - j" arbitrary: j rule: less_induct)
  case less
  let ?J = "of_nat j :: u32" and ?occ = "occurs m y x (unat nm)"
  have nb: "unat n < 2 ^ 32" by (rule unat_less_u32)
  have uj: "unat ?J = j" by (rule unat_of_nat_u32) (use less.prems(1) nb M N in linarith)
  have le: "?J \<le> n - nm \<longleftrightarrow> j \<le> unat n - unat nm"
    using N uj by (simp add: word_le_nat_alt unat_sub)
  have bound: "Suc (unat n) - unat nm = Suc (unat n - unat nm)" using N by simp
  show ?case
  proof (cases "j \<le> unat n - unat nm")
    case False
    then have "find ?occ [0..<Suc (unat n) - unat nm] = None"
      unfolding bound using less.prems(2) by (intro find_upt_None) auto
    then show ?thesis using False le by (subst memmem_loop.simps) (simp add: leftmost_def)
  next
    case True
    have sp: "?occ j \<longleftrightarrow> m (y + ?J) = m x \<and> m (y + (?J + 1)) = m (x + 1) \<and>
        (\<forall>i<unat nm - 2. m (x + 2 + of_nat i) = m (y + ?J + 2 + of_nat i))"
      using occurs_split [OF M, of m y x j] by (simp add: add.commute [of 1])
    have unm2: "unat (nm - 2) = unat nm - 2" using M by (simp add: unat_sub word_le_nat_alt)
    have go: "memmem_loop y n x k l nm (?J + of_nat d) m = ret (leftmost m y (unat n) x (unat nm))"
      if d: "d = 1 \<or> d = 2" and no: "\<not> ?occ j" "d = 2 \<Longrightarrow> \<not> ?occ (Suc j)" for d
    proof -
      have "\<not> ?occ i" if i: "i < j + d" for i
      proof -
        consider "i < j" | "i = j" | "i = Suc j" "d = 2" using i d by linarith
        then show ?thesis using less.prems(2) no by cases auto
      qed
      then have "memmem_loop y n x k l nm (of_nat (j + d)) m = ret (leftmost m y (unat n) x (unat nm))"
        by (intro less.hyps) (use d True in auto)
      then show ?thesis by simp
    qed
    have next_occ: "?occ (Suc j) \<Longrightarrow> m (y + (?J + 1)) = m x"
      using occurs_split [OF M, of m y x "Suc j"] by (simp add: add.commute)
    show ?thesis
    proof (cases "m (x + 1) = m (y + (?J + 1))")
      case ne: False
      have nj: "\<not> ?occ j" using ne sp by auto
      have "memmem_loop y n x k l nm (?J + k) m = ret (leftmost m y (unat n) x (unat nm))"
      proof (cases "m x = m (x + 1)")
        case eq: True
        have "\<not> ?occ (Suc j)" using next_occ ne eq by auto
        then show ?thesis using go [of 2] nj kl eq by simp
      next
        case False
        then show ?thesis using go [of 1] nj kl by simp
      qed
      then show ?thesis using True le ne by (subst memmem_loop.simps) simp
    next
      case eq1: True
      show ?thesis
      proof (cases "?occ j")
        case occ: True
        have "find ?occ [0..<Suc (unat n) - unat nm] = Some j"
          unfolding bound by (rule find_upt_Some) (use True occ less.prems(2) in auto)
        moreover have "memcmp (x + 2) (y + ?J + 2) (nm - 2) m = 0 \<and> m x = m (y + ?J)"
          using sp occ by (simp add: memcmp_zero unm2)
        ultimately show ?thesis using True le eq1 by (subst memmem_loop.simps) (simp add: leftmost_def)
      next
        case nocc: False
        have nm0: "\<not> (memcmp (x + 2) (y + ?J + 2) (nm - 2) m = 0 \<and> m x = m (y + ?J))"
          using sp nocc eq1 by (auto simp: memcmp_zero unm2)
        have "memmem_loop y n x k l nm (?J + l) m = ret (leftmost m y (unat n) x (unat nm))"
        proof (cases "m x = m (x + 1)")
          case True
          then show ?thesis using go [of 1] nocc kl by simp
        next
          case ne: False
          then have "\<not> ?occ (Suc j)" using next_occ eq1 by auto
          then show ?thesis using go [of 2] nocc kl ne by simp
        qed
        then show ?thesis using True le eq1 nm0 by (subst memmem_loop.simps) auto
      qed
    qed
  qed
qed

lemma memmem_one_ok:
  "(\<And>i. i < j \<Longrightarrow> m (y + of_nat i) \<noteq> m x) \<Longrightarrow>
   memmem_one n (y + of_nat j) x m = (case find (\<lambda>i. m (y + of_nat i) = m x) [0..<j + n] of None \<Rightarrow> 0 | Some i \<Rightarrow> y + of_nat i)"
proof (induction n arbitrary: j)
  case 0
  then have "find (\<lambda>i. m (y + of_nat i) = m x) [0..<j + 0] = None" by (intro find_upt_None) simp
  then show ?case by simp
next
  case (Suc n)
  show ?case
  proof (cases "m (y + of_nat j) = m x")
    case True
    have "find (\<lambda>i. m (y + of_nat i) = m x) [0..<j + Suc n] = Some j"
      by (rule find_upt_Some) (use True Suc.prems in auto)
    then show ?thesis using True by simp
  next
    case False
    have "memmem_one n (y + of_nat (Suc j)) x m =
      (case find (\<lambda>i. m (y + of_nat i) = m x) [0..<Suc j + n] of None \<Rightarrow> 0 | Some i \<Rightarrow> y + of_nat i)"
      by (rule Suc.IH) (use False Suc.prems in \<open>auto simp: less_Suc_eq\<close>)
    then show ?thesis using False by (simp add: ac_simps del: upt_Suc)
  qed
qed

text \<open>\<open>memmem\<close> always returns: the leftmost occurrence, or NULL.\<close>

lemma memmem_leftmost:
  "memmem y n x nm m = ret (if nm = 0 then 0 else leftmost m y (unat n) x (unat nm))"
proof -
  consider "nm = 0" | "n < nm" "nm \<noteq> 0" | "nm = 1" "nm \<le> n" | "2 \<le> unat nm" "nm \<le> n"
  proof -
    have "unat nm = 0 \<or> unat nm = 1 \<or> 2 \<le> unat nm" by linarith
    then have "nm = 0 \<or> nm = 1 \<or> 2 \<le> unat nm"
      by (auto simp: word_unat_eq_iff)
    then show ?thesis using that by (meson not_less)
  qed
  then show ?thesis
  proof cases
    case 1
    then show ?thesis by (simp add: memmem_def)
  next
    case 2
    then have "[0..<Suc (unat n) - unat nm] = []" by (simp add: word_less_nat_alt)
    then have "leftmost m y (unat n) x (unat nm) = 0" by (simp add: leftmost_def)
    then show ?thesis using 2 by (simp add: memmem_def)
  next
    case 3
    then have "n \<noteq> 0" by auto
    have o1: "occurs m y x 1 = (\<lambda>i. m (y + of_nat i) = m x)" by (simp add: occurs_def fun_eq_iff)
    have "memmem_one (unat n) y x m = leftmost m y (unat n) x 1"
      using memmem_one_ok [of 0 m y x "unat n"] o1 by (simp add: leftmost_def)
    then show ?thesis using 3 \<open>n \<noteq> 0\<close> by (simp add: memmem_def not_less)
  next
    case 4
    then have ne: "n \<noteq> 0" "nm \<noteq> 0" "nm \<noteq> 1" "\<not> n < nm" by auto
    have le: "unat nm \<le> unat n" using 4 by (simp add: word_le_nat_alt)
    have run: "memmem_loop y n x k l nm 0 m = ret (leftmost m y (unat n) x (unat nm))"
      if "if m x = m (x + 1) then k = 2 \<and> l = 1 else k = 1 \<and> l = 2" for k l
      using memmem_loop_ok [OF 4(1) le that, where j = 0 and y = y] by simp
    show ?thesis
      using run [of 2 1] run [of 1 2] 4 ne by (cases "m x = m (x + 1)") (simp_all add: memmem_def)
  qed
qed

text \<open>\<open>strstr\<close> on strings.\<close>

lemma strstr_leftmost:
  assumes "cstr m y hs" and "cstr m x ns"
  shows "strstr y x m = ret (if ns = [] then 0 else leftmost m y (length hs) x (length ns))"
proof -
  have u: "unat (of_nat (length hs) :: u32) = length hs" "unat (of_nat (length ns) :: u32) = length ns"
    using assms cstr_length unat_of_nat_u32 by blast+
  then have "(of_nat (length ns) :: u32) = 0 \<longleftrightarrow> ns = []" using unat_eq_zero [of "of_nat (length ns) :: u32"] by simp
  then show ?thesis using assms u by (simp add: strstr_def strlen_ok memmem_leftmost)
qed

subsection \<open>Spans\<close>

lemma strxspn_map_ok:
  "cstr m p bs \<Longrightarrow> strxspn_map p mm m = ret (\<lambda>c. if c \<in> set bs then 1 else mm c)"
proof (induction bs arbitrary: p mm)
  case Nil
  then show ?case by (subst strxspn_map.simps) simp
next
  case (Cons b bs)
  then show ?case by (subst strxspn_map.simps) (auto simp: fun_eq_iff)
qed

lemma strxspn_loop_ok:
  "cstr m s bs \<Longrightarrow> mm 0 XOR parity = 0 \<Longrightarrow>
   strxspn_loop s mm parity n m = ret (n + of_nat (length (takeWhile (\<lambda>c. mm c XOR parity \<noteq> 0) bs)))"
proof (induction bs arbitrary: s n)
  case Nil
  then show ?case by (subst strxspn_loop.simps) simp
next
  case (Cons b bs)
  then show ?case by (subst strxspn_loop.simps) (auto simp: add.assoc)
qed

lemma takeWhile_length_cong:
  "(\<And>x. x \<in> set xs \<Longrightarrow> P x = Q x) \<Longrightarrow> length (takeWhile P xs) = length (takeWhile Q xs)"
  by (rule arg_cong [where f = length]) (rule takeWhile_cong, simp_all)

lemma strspn_ok:
  assumes s: "cstr m s bs" and a: "cstr m a acc"
  shows "strspn s a m = ret (of_nat (length (takeWhile (\<lambda>c. c \<in> set acc) bs)))"
proof -
  let ?mm = "(\<lambda>c. if c \<in> set acc then 1 else 0 :: u8)(0 := 0)"
  have "strspn s a m = strxspn_loop s ?mm 0 0 m"
    by (simp add: strspn_def strxspn_def strxspn_map_ok [OF a])
  also have "\<dots> = ret (of_nat (length (takeWhile (\<lambda>c. ?mm c XOR 0 \<noteq> 0) bs)))"
    by (subst strxspn_loop_ok [OF s]) simp_all
  also have "length (takeWhile (\<lambda>c. ?mm c XOR 0 \<noteq> 0) bs) = length (takeWhile (\<lambda>c. c \<in> set acc) bs)"
    by (rule takeWhile_length_cong) (use cstr_no_nul [OF s] in auto)
  finally show ?thesis .
qed

lemma strxspn_reject:
  assumes s: "cstr m s bs" and a: "cstr m a rej"
  shows "strxspn s a 1 m = ret (of_nat (length (takeWhile (\<lambda>c. c \<notin> set rej) bs)))"
proof -
  let ?mm = "(\<lambda>c. if c \<in> set rej then 1 else 0 :: u8)(0 := 1)"
  have "strxspn s a 1 m = strxspn_loop s ?mm 1 0 m"
    by (simp add: strxspn_def strxspn_map_ok [OF a])
  also have "\<dots> = ret (of_nat (length (takeWhile (\<lambda>c. ?mm c XOR 1 \<noteq> 0) bs)))"
    by (subst strxspn_loop_ok [OF s]) simp_all
  also have "length (takeWhile (\<lambda>c. ?mm c XOR 1 \<noteq> 0) bs) = length (takeWhile (\<lambda>c. c \<notin> set rej) bs)"
    by (rule takeWhile_length_cong) (use cstr_no_nul [OF s] in auto)
  finally show ?thesis .
qed

lemma strcspn_ok:
  "cstr m s bs \<Longrightarrow> cstr m a rej \<Longrightarrow> strcspn s a m = ret (of_nat (length (takeWhile (\<lambda>c. c \<notin> set rej) bs)))"
  by (simp add: strcspn_def strxspn_reject)

subsection \<open>Tokens\<close>

lemma cstr_append:
  "cstr m s (as @ b # bs) \<longleftrightarrow>
     0 \<notin> set as \<and> b \<noteq> 0 \<and> (\<forall>i<length as. m (s + of_nat i) = as ! i) \<and> m (s + of_nat (length as)) = b \<and>
     cstr m (s + of_nat (length as) + 1) bs"
proof (induction as arbitrary: s)
  case Nil
  then show ?case by auto
next
  case (Cons a as)
  then show ?case by (auto simp: All_less_Suc2 add.assoc)
qed

text \<open>
  \<open>strsep\<close> cuts the first token at the first delimiter, writes the NUL there and leaves the rest
  in \<open>*stringp\<close>; without a delimiter the token is the whole string and the rest is NULL.
\<close>

lemma strsep_token:
  assumes s: "cstr m s bs" and d: "cstr m d ds" and nz: "s \<noteq> 0"
    and tok: "tok = takeWhile (\<lambda>c. c \<notin> set ds) bs" and e: "e = s + of_nat (length tok)" "e \<noteq> 0"
  shows "strsep s d m = (if tok = bs then ret (s, 0, m) else ret (s, e + 1, m(e := 0)))"
    and "tok \<noteq> bs \<Longrightarrow> cstr (m(e := 0)) s tok"
    and "tok \<noteq> bs \<Longrightarrow> cstr (m(e := 0)) (e + 1) (drop (Suc (length tok)) bs)"
proof -
  have pb: "strpbrk s d m = ret (if m e \<noteq> 0 then e else 0)"
    by (simp add: strpbrk_def strxspn_reject [OF s d] tok e(1))
  have split: "bs = tok @ dropWhile (\<lambda>c. c \<notin> set ds) bs" by (simp add: tok)
  have me: "m e = 0 \<longleftrightarrow> tok = bs"
  proof (cases "dropWhile (\<lambda>c. c \<notin> set ds) bs")
    case Nil
    then have "tok = bs" using split by (simp only: append_Nil2)
    then show ?thesis using cstr_end [OF s] e(1) by simp
  next
    case (Cons c cs)
    then have bs: "bs = tok @ c # cs" using split by simp
    then have "m e = c \<and> c \<noteq> 0" using s e(1) by (simp add: cstr_append)
    then show ?thesis using bs by auto
  qed
  show "strsep s d m = (if tok = bs then ret (s, 0, m) else ret (s, e + 1, m(e := 0)))"
    using nz e(2) me pb by (simp add: strsep_def)
  assume ne: "tok \<noteq> bs"
  then obtain c cs where bs: "bs = tok @ c # cs" using split by (cases "dropWhile (\<lambda>c. c \<notin> set ds) bs") auto
  have c: "cstr m s (tok @ c # cs)" using s bs by simp
  have len: "length tok + length cs + 1 < 2 ^ 32" using cstr_length [OF c] by simp
  have other: "s + of_nat i \<noteq> e" if "i \<noteq> length tok" "i < 2 ^ 32" for i
  proof
    assume "s + of_nat i = e"
    then have "unat (of_nat i :: u32) = unat (of_nat (length tok) :: u32)" using e(1) by simp
    then have "i = length tok" using that(2) len by (simp only: unat_of_nat_u32)
    then show False using that(1) by simp
  qed
  show "cstr (m(e := 0)) s tok"
    unfolding cstr_iff using c other len cstr_no_nul [OF s] bs
    by (auto simp: cstr_append e(1) [symmetric]) (metis nth_mem)
  have "cstr (m(e := 0)) (e + 1) cs = cstr m (e + 1) cs"
  proof (rule cstr_cong)
    fix i assume "i \<le> length cs"
    then have "s + of_nat (length tok + 1 + i) \<noteq> e" using len by (intro other) simp_all
    then have "e + 1 + of_nat i \<noteq> e" by (simp add: e(1) add.assoc)
    then show "(m(e := 0)) (e + 1 + of_nat i) = m (e + 1 + of_nat i)" by simp
  qed
  then show "cstr (m(e := 0)) (e + 1) (drop (Suc (length tok)) bs)"
    using c bs by (simp add: cstr_append e(1))
qed

end
