(* ===== verification/Library_Props.thy ===== *)
theory Library_Props
  imports Hash_Keys Strings_Search
begin

text \<open>
  The properties of the hash table (kernel/hash.c) and of the string functions
  (shared/string.c), each with the inputs it is applied to.
\<close>

subsection \<open>The hash table\<close>

lemma hash_loop_full:
  assumes go: "\<And>j. probe_slot (imask m) h j < length (table m) \<and> \<not> stops m k h j"
    and run: "hash_loop m k h i p sl fs = Some r"
    and at: "i = fst (probe (imask m) h j)" "p = snd (probe (imask m) h j)" "sl = probe_slot (imask m) h j"
  shows False
proof -
  let ?P = "\<lambda>m' k' h' i p sl (fs :: nat option) (r :: fault + nat). \<forall>j. m' = m \<and> k' = k \<and> h' = h \<and>
    i = fst (probe (imask m) h j) \<and> p = snd (probe (imask m) h j) \<and> sl = probe_slot (imask m) h j \<longrightarrow> False"
  have "?P m k h i p sl fs r"
  proof (rule hash_loop.raw_induct [where P = ?P, OF _ run])
    fix f m' k' h' i p sl fs r
    assume IH: "\<And>m' k' h' i p sl fs r. f m' k' h' i p sl fs = Some r \<Longrightarrow> ?P m' k' h' i p sl fs r"
    assume body: "(if length (table m') \<le> sl then err Out_Of_Bounds
      else let s = table m' ! sl in
        if mode s = SL_EMPTY then ret (case fs of None \<Rightarrow> sl | Some f \<Rightarrow> f)
        else if mode s = SL_ACTIVE \<and> (key s = k' \<or> shash s = h' \<and> cmp m' (key s) k') then ret sl
        else let freeslot1 = (if mode s = SL_DELETED \<and> fs = None then Some sl else fs);
              index1 = 5 * i + p + 1; slot1 = unat (index1 AND imask m'); perturb1 = drop_bit 5 p
          in f m' k' h' index1 perturb1 slot1 freeslot1) = Some r"
    show "?P m' k' h' i p sl fs r"
    proof (intro allI impI)
      fix j
      assume at: "m' = m \<and> k' = k \<and> h' = h \<and>
        i = fst (probe (imask m) h j) \<and> p = snd (probe (imask m) h j) \<and> sl = probe_slot (imask m) h j"
      have nx: "5 * i + p + 1 = fst (probe (imask m) h (Suc j))" "drop_bit 5 p = snd (probe (imask m) h (Suc j))"
        using at by (simp_all add: case_prod_beta Let_def)
      obtain fs' where "f m k h (5 * i + p + 1) (drop_bit 5 p) (unat ((5 * i + p + 1) AND imask m)) fs' = Some r"
        using body at go [of j] by (auto simp: Let_def stops_def hit_def split: if_splits)
      from IH [OF this, THEN spec [of _ "Suc j"]] nx show False
        by (simp add: probe_slot_def del: probe.simps)
    qed
  qed
  then show ?thesis using at by blast
qed

lemma hash_lookup_full:
  assumes len: "length (table m) = 2 ^ b" and im: "imask m = mask_for b" and b: "b \<le> 32"
    and full: "\<forall>s\<in>set (table m). mode s \<noteq> SL_EMPTY"
    and absent: "\<forall>s\<in>set (table m). mode s = SL_ACTIVE \<longrightarrow> key s \<noteq> k \<and> \<not> cmp m (key s) k"
  shows "hash_lookup m k h = None"
proof -
  have bound: "probe_slot (imask m) h j < length (table m)" for j
    using probe_slot_less [OF b, of h j] len im by simp
  then have go: "probe_slot (imask m) h j < length (table m) \<and> \<not> stops m k h j" for j
    using full absent nth_mem [OF bound [of j]] by (auto simp: stops_def hit_def)
  show ?thesis
  proof (rule ccontr)
    assume "hash_lookup m k h \<noteq> None"
    then obtain r where "hash_loop m k h (fst (probe (imask m) h 0)) (snd (probe (imask m) h 0))
      (probe_slot (imask m) h 0) None = Some r"
      by (auto simp: hash_lookup_hl hl_def)
    from hash_loop_full [OF go this refl refl refl] show False .
  qed
qed

lemma hash_init_direct_run:
  "hash_init_direct True m0 = (0, m) \<Longrightarrow> 3 * sets ops < 2 ^ 30 \<Longrightarrow>
   hash_run ops m = ret (map_run hash_direct_cmp ops (\<lambda>_. None))"
  unfolding hash_init_direct_def by (rule direct.init_run)

lemma hash_init_string_run:
  assumes "mem a = 0" and "hash_init_string True mem m0 = (0, m)" and "3 * sets ops < 2 ^ 30"
  shows "hash_run ops m = ret (map_run (same_string mem) ops (\<lambda>_. None))"
proof -
  have mem: "mem(a := 0) = mem" using assms(1) by auto
  have "hash_run ops m = ret (map_run (str_cf mem) ops (\<lambda>_. None))"
    using strings.init_run [of m0 mem a m ops] assms(2,3) unfolding mem hash_init_string_def by blast
  moreover have "str_cf mem = same_string mem" using str_cf_same [of mem a] assms(1) by (simp add: fun_eq_iff)
  ultimately show ?thesis by simp
qed

lemma init_returns:
  "\<exists>m. hash_init_direct True m0 = (0, m)" "\<exists>m. hash_init_string True mem m0 = (0, m)"
  by (simp_all add: hash_init_direct_def hash_init_string_def hash_init_def hash_initialize_def)

definition no_table :: hash_t where
  "no_table = \<lparr>fill = 0, count = 0, imask = 0, table = [], hfunc = (\<lambda>_. 0), cmp = (\<lambda>_ _. False)\<rparr>"

text \<open>
  C11: A table made by hash_init_direct behaves as a finite map from pointers to pointers: a run of
  any insertions, deletions, searches and tests, in any order, returns what the same run on a map
  returns. Allocations succeed, and there are fewer than 2^30 / 3 insertions, so that the size of
  the table cannot overflow.
\<close>

theorem hash_direct_is_map:
  assumes "3 * sets ops < 2 ^ 30"
  shows "hash_run ops (snd (hash_init_direct True m0)) = ret (map_run (\<lambda>k1 k2. k1 = k2) ops (\<lambda>_. None))"
proof -
  obtain m where m: "hash_init_direct True m0 = (0, m)" using init_returns(1) by blast
  have "hash_direct_cmp = (\<lambda>k1 k2. k1 = k2)" by (simp add: fun_eq_iff hash_direct_cmp_def)
  then show ?thesis using hash_init_direct_run [OF m assms] m by simp
qed

theorem hash_direct_is_map_witness:
  "hash_run [Op_Set 5 7, Op_Set 13 8, Op_Get 5 0, Op_Del 5, Op_Isset 5, Op_Get 13 0, Op_Get 5 9]
     (snd (hash_init_direct True no_table)) = ret [0, 0, 7, 0, 0, 8, 9]"
  by (subst hash_direct_is_map) simp_all

text \<open>
  C12: A table made by hash_init_string behaves as a finite map from strings to pointers: two keys
  are the same key when the strings at their addresses are equal, wherever they are.
\<close>

theorem hash_string_is_map:
  assumes "mem a = 0" and "3 * sets ops < 2 ^ 30"
  shows "hash_run ops (snd (hash_init_string True mem m0)) =
    ret (map_run (\<lambda>k1 k2. \<exists>bs. cstr mem k1 bs \<and> cstr mem k2 bs) ops (\<lambda>_. None))"
proof -
  obtain m where m: "hash_init_string True mem m0 = (0, m)" using init_returns(2) by blast
  have "same_string mem = (\<lambda>k1 k2. \<exists>bs. cstr mem k1 bs \<and> cstr mem k2 bs)"
    by (simp add: fun_eq_iff same_string_def)
  then show ?thesis using hash_init_string_run [OF assms(1) m assms(2)] m by simp
qed

text \<open>The string "ab" at 100 and at 200, and "a" at 300.\<close>

definition sample_memory :: memory where
  "sample_memory = (\<lambda>_. 0)(100 := 97, 101 := 98, 200 := 97, 201 := 98, 300 := 97)"

lemma sample_memory_cstr:
  "cstr sample_memory 100 [97, 98]" "cstr sample_memory 200 [97, 98]" "cstr sample_memory 300 [97]"
  by (simp_all add: sample_memory_def)

lemma sample_same_string:
  "(\<exists>bs. cstr sample_memory 100 bs \<and> cstr sample_memory 200 bs) = True"
  "(\<exists>bs. cstr sample_memory 100 bs \<and> cstr sample_memory 300 bs) = False"
proof -
  show "(\<exists>bs. cstr sample_memory 100 bs \<and> cstr sample_memory 200 bs) = True"
    using sample_memory_cstr(1,2) by (blast intro: exI [of _ "[97, 98]"])
  have "bs = [97, 98] \<and> bs = [97]" if "cstr sample_memory 100 bs" "cstr sample_memory 300 bs" for bs
    using cstr_unique [OF that(1) sample_memory_cstr(1)] cstr_unique [OF that(2) sample_memory_cstr(3)] by blast
  then show "(\<exists>bs. cstr sample_memory 100 bs \<and> cstr sample_memory 300 bs) = False" by fastforce
qed

theorem hash_string_is_map_witness:
  "hash_run [Op_Set 100 7, Op_Get 200 0, Op_Isset 300] (snd (hash_init_string True sample_memory no_table)) =
     ret [0, 7, 0]"
  by (subst hash_string_is_map [where a = 0])
    (simp_all add: sample_same_string, simp add: sample_memory_def)

text \<open>
  In a table without an empty slot the search for a key that is not there never ends. A table
  gets there when mem_alloc fails: hash_set then returns -1 but has put the key in the table.
\<close>

theorem hash_get_full_hangs:
  assumes "length (table m) = 2 ^ b" and "imask m = 2 ^ b - 1" and "b \<le> 32"
    and "\<forall>s\<in>set (table m). mode s \<noteq> SL_EMPTY"
    and "\<forall>s\<in>set (table m). mode s = SL_ACTIVE \<longrightarrow> key s \<noteq> k \<and> \<not> cmp m (key s) k"
  shows "hash_get (Some m) k d = None"
  using hash_lookup_full [of m b k "hfunc m k"] assms by (simp add: hash_get_def mask_for_def)

definition full_table :: hash_t where
  "full_table = \<lparr>fill = 8, count = 8, imask = 7,
     table = map (\<lambda>k. \<lparr>key = k, value = 1, shash = k, mode = SL_ACTIVE\<rparr>) [0, 1, 2, 3, 4, 5, 6, 7],
     hfunc = hash_direct_hfunc, cmp = hash_direct_cmp\<rparr>"

theorem hash_get_full_hangs_witness: "hash_get (Some full_table) 8 0 = None"
  by (rule hash_get_full_hangs [where b = 3]) (simp_all add: full_table_def hash_direct_cmp_def)

text \<open>
  When the table must grow and mem_alloc fails, hash_set reports -1 although the key is now in
  the table with its value.
\<close>

theorem hash_set_fails_but_inserts:
  assumes rep: "hash_rep hash_direct_hfunc hash_direct_cmp m b" and b: "b \<le> 29"
    and new: "hash_map m k = None" and grow: "2 * 2 ^ b \<le> 3 * (useds (table m) + 1)"
    and nodel: "\<forall>s\<in>set (table m). mode s \<noteq> SL_DELETED"
  shows "\<exists>m'. hash_set False (Some m) k v = ret (-1, Some m') \<and> hash_map m' = (hash_map m)(k \<mapsto> v)"
proof -
  have m: "hfunc m = hash_direct_hfunc" "cmp m = hash_direct_cmp" "hash_core m b"
    using rep by (simp_all add: hash_rep_def)
  have len: "length (table m) = 2 ^ b" and fill: "fill m = int (useds (table m))" and im: "imask m = mask_for b"
    using m(3) by (simp_all add: hash_core_def)
  obtain i where i: "i < 2 ^ b" "hash_lookup m k (hash_direct_hfunc k) = ret i" "mode (table m ! i) \<noteq> SL_ACTIVE"
    "reached m (hash_direct_hfunc k) i" "absent m b k"
    using direct.lookup_rep [OF rep, of k] new by auto
  have e: "mode (table m ! i) = SL_EMPTY"
    using nodel nth_mem [of i "table m"] i(1,3) len by (cases "mode (table m ! i)") auto
  define m3 where "m3 = m\<lparr>table := (table m)[i := active_slot k v (hash_direct_hfunc k)],
    fill := fill m + of_bool (mode (table m ! i) = SL_EMPTY), count := count m + 1\<rparr>"
  note put = direct.put_core [OF m(3,1,2) i(1,3,4,5) m3_def]
  have sz: "sint (imask m3 + 1) = 2 ^ b" using b old_size [of b] im by (simp add: m3_def)
  have "int (2 * 2 ^ b) \<le> int (3 * (useds (table m) + 1))" using grow by (simp only: of_nat_le_iff)
  then have "2 * 2 ^ b \<le> 3 * fill m3" using e fill by (simp add: m3_def)
  then have "hash_update False m3 = ret (-1, m3)"
    by (simp add: hash_update_def sz hash_initialize_def)
  moreover have "hash_set False (Some m) k v = bindr (hash_update False m3) (\<lambda>(r, m4). ret (r, Some m4))"
    using e i(2) m(1) by (cases m) (simp add: hash_set_def active_slot_def m3_def)
  moreover have "hash_map m3 = (hash_map m)(k \<mapsto> v)"
    using put(2) by (auto simp: fun_eq_iff hash_direct_cmp_def)
  ultimately show ?thesis by simp
qed

text \<open>Five keys in a table of eight slots: the next insertion makes it grow.\<close>

definition five_keys :: hash_t where
  "five_keys = \<lparr>fill = 5, count = 5, imask = 7,
     table = [active_slot 0 1 0, active_slot 1 1 1, active_slot 2 1 2, active_slot 3 1 3, active_slot 4 1 4,
              empty_slot, empty_slot, empty_slot],
     hfunc = hash_direct_hfunc, cmp = hash_direct_cmp\<rparr>"

lemma all_less_8: "(\<forall>i<8. P i) \<longleftrightarrow> P 0 \<and> P 1 \<and> P 2 \<and> P 3 \<and> P 4 \<and> P 5 \<and> P 6 \<and> P (7::nat)"
  by (simp add: numeral_eq_Suc All_less_Suc) blast

lemma reached_at_home: "i = unat (h AND imask m) \<Longrightarrow> reached m h i"
  unfolding reached_def by (intro exI [of _ 0]) (simp add: probe_slot_def)

lemma five_keys_slots:
  "table five_keys ! i = (if i < 5 then active_slot (of_nat i) 1 (of_nat i) else empty_slot)" if "i < 8"
proof -
  have "\<forall>i<8. table five_keys ! i = (if i < 5 then active_slot (of_nat i) 1 (of_nat i) else empty_slot)"
    unfolding all_less_8 by (simp add: five_keys_def)
  then show ?thesis using that by blast
qed

lemma five_keys_rep: "hash_rep hash_direct_hfunc hash_direct_cmp five_keys 3"
proof -
  have m: "mode empty_slot = SL_EMPTY" by (simp add: empty_slot_def)
  have act: "mode (table five_keys ! i) = SL_ACTIVE \<longleftrightarrow> i < 5" if "i < 8" for i
    using that by (simp add: five_keys_slots m)
  have key: "key (table five_keys ! i) = of_nat i" "shash (table five_keys ! i) = of_nat i" if "i < 5" for i
    using that by (simp_all add: five_keys_slots)
  have home: "reached five_keys (of_nat i) i" if "i < 5" for i
  proof (rule reached_at_home)
    have "of_nat i AND (7 :: u32) = of_nat i" using that by (auto simp: less_Suc_eq numeral_eq_Suc)
    then show "i = unat (of_nat i AND imask five_keys)" using that by (simp add: five_keys_def unat_of_nat_u32)
  qed
  have inj: "i = i'" if "i < 5" "i' < 5" "(of_nat i :: u32) = of_nat i'" for i i'
    using arg_cong [OF that(3), of unat] that(1,2) by (simp add: unat_of_nat_u32)
  have cnt: "actives (table five_keys) = 5" "useds (table five_keys) = 5" "length (table five_keys) = 8"
    "imask five_keys = 7" "count five_keys = 5" "fill five_keys = 5"
    "hfunc five_keys = hash_direct_hfunc" "cmp five_keys = hash_direct_cmp"
    by (simp_all add: five_keys_def actives_def useds_def m)
  have "hash_core five_keys 3"
    unfolding hash_core_def cnt using act key home inj
    by (auto simp: mask_for_def hash_direct_hfunc_def hash_direct_cmp_def)
  then show ?thesis by (simp add: hash_rep_def roomy_def cnt)
qed

theorem hash_set_fails_but_inserts_witness:
  "\<exists>m'. hash_set False (Some five_keys) 9 33 = ret (-1, Some m') \<and> hash_map m' = (hash_map five_keys)(9 \<mapsto> 33)"
proof (rule hash_set_fails_but_inserts [OF five_keys_rep])
  show "hash_map five_keys 9 = None"
    by (simp add: hash_map_def five_keys_def hash_direct_cmp_def empty_slot_def)
qed (simp_all add: five_keys_def useds_def empty_slot_def)

subsection \<open>Blocks of memory\<close>

text \<open>
  C13: memmove copies a block of \<open>n\<close> bytes even when source and destination overlap, in either
  direction: the destination holds what the source held before, and no other byte is written.
\<close>

theorem memmove_copies_overlapping:
  assumes "unat src + unat n \<le> 2 ^ 32" and "unat dst + unat n \<le> 2 ^ 32"
  shows "\<exists>m'. memmove dst src n m = (dst, m') \<and>
    (\<forall>i<unat n. m' (dst + of_nat i) = m (src + of_nat i)) \<and>
    (\<forall>a. unat n \<le> unat (a - dst) \<longrightarrow> m' a = m a)"
proof -
  have "blit m src dst (unat n) (dst + of_nat i) = m (src + of_nat i)" if "i < unat n" for i
    by (rule blit_read [OF that unat_le_32])
  then show ?thesis unfolding memmove_blit [OF assms] by (auto simp: blit_def)
qed

theorem memmove_copies_overlapping_witness:
  "\<exists>m'. memmove 101 100 3 sample_memory = (101, m') \<and> m' 101 = 97 \<and> m' 102 = 98 \<and> m' 103 = 0"
proof -
  obtain m' where m': "memmove 101 100 3 sample_memory = (101, m')"
    "\<forall>i<unat (3 :: u32). m' (101 + of_nat i) = sample_memory (100 + of_nat i)"
    using memmove_copies_overlapping [of 100 3 101 sample_memory] by auto
  then show ?thesis using spec [OF m'(2), of 0] spec [OF m'(2), of 1] spec [OF m'(2), of 2]
    by (simp add: sample_memory_def)
qed

text \<open>
  memcpy, which copies words of four bytes first, does on blocks that do not overlap what
  memmove does byte by byte.
\<close>

theorem memcpy_agrees_with_memmove:
  assumes "unat src + unat n \<le> 2 ^ 32" and "unat dst + unat n \<le> 2 ^ 32"
    and "unat src + unat n \<le> unat dst \<or> unat dst + unat n \<le> unat src"
  shows "memcpy dst src n m = memmove dst src n m"
proof -
  have "apart dst src (unat n)"
    unfolding apart_def
  proof (intro allI impI)
    fix i j assume "i < unat n" "j < unat n"
    then show "dst + of_nat i \<noteq> src + of_nat j" using assms by (intro word_offset_neq) auto
  qed
  then show ?thesis by (simp add: memcpy_blit memmove_blit [OF assms(1,2)])
qed

theorem memcpy_agrees_with_memmove_witness:
  "memcpy 200 100 7 sample_memory = memmove 200 100 7 sample_memory"
  by (rule memcpy_agrees_with_memmove) simp_all

text \<open>
  memset writes the low byte of \<open>c\<close> to the \<open>n\<close> bytes at \<open>dst\<close>, by words and then by bytes, and
  nothing else, also where the block wraps around the end of the address space.
\<close>

theorem memset_fills:
  "memset dst c n m = (dst, \<lambda>a. if unat (a - dst) < unat n then word_of_int c else m a)"
  by (simp add: memset_fill fill_block_def)

subsection \<open>Strings\<close>

text \<open>
  C14: memmem always returns, with the leftmost occurrence of the needle, and NULL only when there is
  none or the needle is empty.
\<close>

theorem memmem_finds_leftmost:
  assumes "nm \<noteq> 0"
  shows "\<exists>p. memmem y n x nm m = ret p \<and>
    ((\<exists>j. p = y + of_nat j \<and> j + unat nm \<le> unat n \<and>
        (\<forall>i<unat nm. m (y + of_nat (j + i)) = m (x + of_nat i)) \<and>
        (\<forall>j'<j. \<exists>i<unat nm. m (y + of_nat (j' + i)) \<noteq> m (x + of_nat i))) \<or>
     p = 0 \<and> (\<forall>j. j + unat nm \<le> unat n \<longrightarrow> (\<exists>i<unat nm. m (y + of_nat (j + i)) \<noteq> m (x + of_nat i))))"
proof -
  let ?find = "find (occurs m y x (unat nm)) [0..<Suc (unat n) - unat nm]"
  have run: "memmem y n x nm m = ret (leftmost m y (unat n) x (unat nm))"
    using assms by (simp add: memmem_leftmost)
  show ?thesis
  proof (cases ?find)
    case None
    then have "\<forall>j. j + unat nm \<le> unat n \<longrightarrow> \<not> occurs m y x (unat nm) j" by (auto simp: find_None_iff)
    then show ?thesis using run None by (auto simp: leftmost_def occurs_def)
  next
    case (Some j)
    then have j: "j < Suc (unat n) - unat nm" "occurs m y x (unat nm) j" "\<forall>j'<j. \<not> occurs m y x (unat nm) j'"
      by (auto simp: find_Some_iff)
    then have "j + unat nm \<le> unat n" by simp
    then show ?thesis using run Some j(2,3) by (auto simp: leftmost_def occurs_def intro!: exI [of _ j])
  qed
qed

theorem memmem_finds_leftmost_witness:
  "\<exists>p. memmem 100 101 300 1 sample_memory = ret p \<and> p = 100"
proof -
  obtain p where p: "memmem 100 101 300 1 sample_memory = ret p"
    "(\<exists>j. p = 100 + of_nat j \<and> (\<forall>j'<j. sample_memory (100 + of_nat j') \<noteq> sample_memory 300)) \<or>
     (\<forall>j\<le>100. sample_memory (100 + of_nat j) \<noteq> sample_memory 300)"
    using memmem_finds_leftmost [of 1 100 101 300 sample_memory] by auto
  have 0: "sample_memory (100 + of_nat 0) = sample_memory 300" by (simp add: sample_memory_def)
  have "p = 100 + of_nat 0"
    using p(2)
  proof (elim disjE exE conjE)
    fix j assume j: "p = 100 + of_nat j" "\<forall>j'<j. sample_memory (100 + of_nat j') \<noteq> sample_memory 300"
    then have "j = 0" using 0 by blast
    then show ?thesis using j(1) by simp
  qed (use 0 in blast)
  then show ?thesis using p(1) by simp
qed

text \<open>
  strcmp on two strings is 0 exactly when they are equal, and negative exactly when the first
  comes first in the lexicographic order of unsigned bytes.
\<close>

theorem strcmp_is_lexicographic:
  assumes "cstr m s as" and "cstr m t bs"
  shows "\<exists>d. strcmp s t m = ret d \<and> (d = 0 \<longleftrightarrow> as = bs) \<and> (d < 0 \<longleftrightarrow> (as, bs) \<in> lexord {(a, b). a < b})"
  using strcmp_cmp_bytes [OF assms] cmp_bytes_zero cmp_bytes_neg cstr_no_nul [OF assms(1)] cstr_no_nul [OF assms(2)]
  by blast

theorem strcmp_is_lexicographic_witness:
  "\<exists>d. strcmp 300 100 sample_memory = ret d \<and> d < 0"
  using strcmp_is_lexicographic [OF sample_memory_cstr(3,1)] by auto

text \<open>
  strlen returns the number of bytes before the first NUL, and it never returns exactly when
  the whole memory has no NUL.
\<close>

theorem strlen_returns_iff_nul:
  "(if \<exists>a. m a = 0 then \<exists>bs. cstr m s bs \<and> strlen s m = ret (of_nat (length bs)) else strlen s m = None)"
proof (cases "\<exists>a. m a = 0")
  case True
  then obtain bs where "cstr m s bs" using cstr_exists_iff by blast
  then show ?thesis using True strlen_ok by auto
next
  case False
  then show ?thesis using strlen_diverges by auto
qed

text \<open>
  strsep cuts a string at its first delimiter: the token and the rest are then two strings
  whose concatenation around the delimiter is the old string.
\<close>

theorem strsep_splits:
  assumes s: "cstr m s bs" and d: "cstr m d ds" and nz: "s \<noteq> 0" and nw: "unat s + length bs < 2 ^ 32"
    and c: "c \<in> set bs" "c \<in> set ds"
  shows "\<exists>tok delim rest e m'. bs = tok @ delim # rest \<and> delim \<in> set ds \<and> set tok \<inter> set ds = {} \<and>
    strsep s d m = ret (s, e, m') \<and> cstr m' s tok \<and> cstr m' e rest"
proof -
  let ?tok = "takeWhile (\<lambda>c. c \<notin> set ds) bs" and ?r = "dropWhile (\<lambda>c. c \<notin> set ds) bs"
  obtain delim rest where r: "?r = delim # rest"
    using c by (cases ?r) (auto simp: dropWhile_eq_Nil_conv)
  then have delim: "delim \<in> set ds" by (metis hd_dropWhile list.sel(1) list.simps(3))
  have bs: "bs = ?tok @ delim # rest" using takeWhile_dropWhile_id [of "\<lambda>c. c \<notin> set ds" bs] r by simp
  let ?e = "s + of_nat (length ?tok)"
  have "length ?tok \<le> length bs" by (rule length_takeWhile_le)
  then have "unat ?e = unat s + length ?tok"
    using nw unat_of_nat_u32 [of "length ?tok"] by (subst unat_add_lem [THEN iffD1]) simp_all
  then have e: "?e \<noteq> 0" using nz by (metis add_is_0 unat_eq_zero unsigned_0)
  have ne: "?tok \<noteq> bs" using r by (metis append_Nil2 bs list.simps(3) same_append_eq)
  note t = strsep_token [OF s d nz refl refl e]
  have "drop (Suc (length ?tok)) bs = rest" using arg_cong [OF bs, of "drop (Suc (length ?tok))"] by simp
  then have "cstr (m(?e := 0)) (?e + 1) rest" using t(3) [OF ne] by simp
  moreover have "set ?tok \<inter> set ds = {}" using set_takeWhileD by fastforce
  ultimately show ?thesis using t(1,2) ne bs delim by auto
qed

theorem strsep_splits_witness:
  "\<exists>e m'. strsep 100 300 (sample_memory(102 := 97, 300 := 98)) = ret (100, e, m') \<and> cstr m' 100 [97] \<and> cstr m' e [97]"
proof -
  let ?m = "sample_memory(102 := 97, 300 := 98)"
  have "cstr ?m 100 [97, 98, 97]" "cstr ?m 300 [98]" by (simp_all add: sample_memory_def)
  from strsep_splits [OF this, of 98] obtain tok delim rest e m' where
    "[97, 98, 97] = tok @ delim # rest" "delim \<in> set [98 :: u8]" "set tok \<inter> set [98] = {}"
    "strsep 100 300 ?m = ret (100, e, m')" "cstr m' 100 tok" "cstr m' e rest"
    by auto
  moreover from this(1-3) have "tok = [97] \<and> rest = [97]" by (auto simp: Cons_eq_append_conv)
  ultimately show ?thesis by auto
qed

end
