(* ===== verification/Fifo.thy ===== *)
theory Fifo
  imports Scheduler "HOL-Library.Signed_Division"
begin

text \<open>
  The lists of waiting processes of kernel/fifo_process.c: circular, singly linked, named by a
  pointer to their last element. An element is allocated with \<open>mem_alloc\<close> and given back with
  \<open>mem_free\<close>: the heap of the elements is a map from addresses, and using an address that is not
  in it is the fault \<open>Bad_Address\<close>. The allocator is a parameter.
\<close>

subsection \<open>The code\<close>

record fifo_node =
  node_proc :: nat
  node_next :: "nat option"

type_synonym node_heap = "nat \<Rightarrow> fifo_node option"

text \<open>
  The allocator of shared/malloc.c, as far as its clients see it: the address of a new element,
  or \<open>None\<close> for NULL, and the words of a new block of a given number of bytes.
\<close>

record allocator =
  new_node :: "node_heap \<Rightarrow> nat option"
  new_block :: "u32 \<Rightarrow> int list option"

definition init_list :: "nat option" where
  "init_list = None"

definition is_empty :: "nat option \<Rightarrow> bool" where
  "is_empty fifo \<longleftrightarrow> fifo = None"

definition node_at :: "node_heap \<Rightarrow> nat option \<Rightarrow> fifo_node res" where
  "node_at h p = bindr (deref p) (\<lambda>a. case h a of None \<Rightarrow> err Bad_Address | Some n \<Rightarrow> ret n)"

definition set_next :: "nat option \<Rightarrow> nat option \<Rightarrow> node_heap \<Rightarrow> node_heap res" where
  "set_next p q h = bindr (node_at h p) (\<lambda>n. bindr (deref p) (\<lambda>a. ret (h(a \<mapsto> n\<lparr>node_next := q\<rparr>))))"

definition init_element :: "allocator \<Rightarrow> nat \<Rightarrow> node_heap \<Rightarrow> (nat option \<times> node_heap) res" where
  "init_element al p h =
     bindr (deref (new_node al h)) (\<lambda>a. ret (Some a, h(a \<mapsto> \<lparr>node_proc = p, node_next = None\<rparr>)))"

definition add_process :: "allocator \<Rightarrow> nat option \<Rightarrow> nat \<Rightarrow> node_heap \<Rightarrow> (nat option \<times> node_heap) res" where
  "add_process al fifo p h =
     bindr (init_element al p h) (\<lambda>(new, h1).
       if is_empty fifo then bindr (set_next new new h1) (\<lambda>h2. ret (new, h2))
       else
         bindr (node_at h1 fifo) (\<lambda>n.
         bindr (set_next new (node_next n) h1) (\<lambda>h2.
         bindr (set_next fifo new h2) (\<lambda>h3. ret (new, h3)))))"

definition destroy_element :: "nat option \<Rightarrow> node_heap \<Rightarrow> node_heap" where
  "destroy_element p h = (case p of None \<Rightarrow> h | Some a \<Rightarrow> h(a := None))"

text \<open>The result has the new list, the process that was extracted and the heap.\<close>

definition extract_process :: "nat option \<Rightarrow> node_heap \<Rightarrow> (nat option \<times> nat option \<times> node_heap) res" where
  "extract_process fifo h =
     (if is_empty fifo then ret (None, None, h)
      else
        bindr (node_at h fifo) (\<lambda>n.
        let temp = node_next n in
        bindr (node_at h temp) (\<lambda>t.
        bindr
          (if node_next n = fifo then ret (None, h)
           else bindr (set_next fifo (node_next t) h) (\<lambda>h1. ret (fifo, h1)))
          (\<lambda>(fifo1, h1). ret (fifo1, Some (node_proc t), destroy_element temp h1)))))"

partial_function (option) contains_loop :: "nat option \<Rightarrow> int \<Rightarrow> kernel \<Rightarrow> node_heap \<Rightarrow> bool res" where
  "contains_loop tmp n k h =
     (if is_empty tmp then ret False
      else bindr (node_at h tmp) (\<lambda>t.
        if pid (proc k (node_proc t)) = n then ret True else contains_loop (node_next t) n k h))"

definition contains :: "nat option \<Rightarrow> int \<Rightarrow> kernel \<Rightarrow> node_heap \<Rightarrow> bool res" where
  "contains fifo n k h = contains_loop fifo n k h"

partial_function (option) getSize_loop :: "nat option \<Rightarrow> int \<Rightarrow> node_heap \<Rightarrow> int res" where
  "getSize_loop temp sz h =
     (if is_empty temp then ret sz
      else bindr (node_at h temp) (\<lambda>t. getSize_loop (node_next t) (sz + 1) h))"

definition getSize :: "nat option \<Rightarrow> node_heap \<Rightarrow> int res" where
  "getSize fifo h = getSize_loop fifo 0 h"

subsection \<open>What a list represents\<close>

definition node_of :: "node_heap \<Rightarrow> nat \<Rightarrow> nat \<Rightarrow> bool" where
  "node_of h a p \<longleftrightarrow> map_option node_proc (h a) = Some p"

text \<open>
  \<open>fifo_rep h p as ps\<close>: the list with last element \<open>p\<close> has the elements \<open>as\<close>, first in first,
  with the processes \<open>ps\<close>.
\<close>

definition nexts :: "node_heap \<Rightarrow> nat \<Rightarrow> nat option" where
  "nexts h a = Option.bind (h a) node_next"

definition fifo_rep :: "node_heap \<Rightarrow> nat option \<Rightarrow> nat list \<Rightarrow> nat list \<Rightarrow> bool" where
  "fifo_rep h p as ps \<longleftrightarrow>
     (case p of
        None \<Rightarrow> as = [] \<and> ps = []
      | Some l \<Rightarrow> as \<noteq> [] \<and> last as = l \<and> distinct as \<and> chain (nexts h) l (butlast as) l \<and>
          list_all2 (node_of h) as ps)"

text \<open>The documented behaviour of \<open>mem_alloc\<close>: it never returns the address of an element in use.\<close>

definition fresh_alloc :: "allocator \<Rightarrow> bool" where
  "fresh_alloc al \<longleftrightarrow> (\<forall>h a. new_node al h = Some a \<longrightarrow> h a = None)"

lemma fifo_rep_None [simp]: "fifo_rep h None as ps \<longleftrightarrow> as = [] \<and> ps = []"
  by (simp add: fifo_rep_def)

lemma fifo_rep_Some:
  "fifo_rep h (Some l) as ps \<longleftrightarrow> as \<noteq> [] \<and> last as = l \<and> distinct as \<and> chain (nexts h) l (butlast as) l \<and>
     list_all2 (node_of h) as ps"
  by (simp add: fifo_rep_def)

lemma fifo_rep_nodes: "fifo_rep h p as ps \<Longrightarrow> a \<in> set as \<Longrightarrow> h a \<noteq> None"
  by (cases p) (auto simp: fifo_rep_def node_of_def list_all2_conv_all_nth in_set_conv_nth)

lemma fifo_rep_length: "fifo_rep h p as ps \<Longrightarrow> length as = length ps"
  by (cases p) (auto simp: fifo_rep_def dest: list_all2_lengthD)

lemma fifo_rep_empty: "fifo_rep h p as ps \<Longrightarrow> p = None \<longleftrightarrow> ps = []"
  by (cases p) (auto simp: fifo_rep_def)

lemma set_next_ok: "h a = Some n \<Longrightarrow> set_next (Some a) q h = ret (h(a \<mapsto> n\<lparr>node_next := q\<rparr>))"
  by (simp add: set_next_def node_at_def)

text \<open>\<open>add_process\<close> puts a process at the end.\<close>

lemma add_process_ok:
  assumes rep: "fifo_rep h p as ps" and e: "new_node al h = Some e" and fr: "fresh_alloc al"
  shows "\<exists>h'. add_process al p i h = ret (Some e, h') \<and> fifo_rep h' (Some e) (as @ [e]) (ps @ [i]) \<and>
    (\<forall>b. b \<notin> set as \<and> b \<noteq> e \<longrightarrow> h' b = h b) \<and> (\<forall>b\<in>set as. h' b \<noteq> None)"
proof -
  have he: "h e = None" using e fr by (auto simp: fresh_alloc_def)
  let ?h1 = "h(e \<mapsto> \<lparr>node_proc = i, node_next = None\<rparr>)"
  show ?thesis
  proof (cases p)
    case None
    let ?h2 = "?h1(e \<mapsto> \<lparr>node_proc = i, node_next = Some e\<rparr>)"
    have "add_process al p i h = ret (Some e, ?h2)"
      using None by (simp add: add_process_def init_element_def e is_empty_def set_next_def node_at_def)
    moreover have "fifo_rep ?h2 (Some e) [e] [i]" by (simp add: fifo_rep_def nexts_def node_of_def)
    ultimately show ?thesis using rep None by auto
  next
    case (Some l)
    then have r: "as \<noteq> []" "last as = l" "distinct as" "chain (nexts h) l (butlast as) l"
      "list_all2 (node_of h) as ps"
      using rep by (simp_all add: fifo_rep_Some)
    have as: "as = butlast as @ [l]" using r(1,2) append_butlast_last_id [of as] by simp
    have ea: "e \<notin> set as" using fifo_rep_nodes [OF rep, of e] he by blast
    have la: "l \<in> set as" using r(1,2) by auto
    obtain n where n: "h l = Some n" using fifo_rep_nodes [OF rep la] by auto
    have el: "e \<noteq> l" using ea la by auto
    let ?h3 = "?h1(e \<mapsto> \<lparr>node_proc = i, node_next = node_next n\<rparr>, l \<mapsto> n\<lparr>node_next := Some e\<rparr>)"
    have run: "add_process al p i h = ret (Some e, ?h3)"
      using Some n el by (simp add: add_process_def init_element_def e is_empty_def set_next_def node_at_def)
    have nx: "nexts ?h3 = (nexts h)(e := node_next n, l := Some e)"
      by (auto simp: nexts_def fun_eq_iff)
    have hd: "node_next n = Some (hd (butlast as @ [l]))"
      using chain_hd [OF r(4)] n by (simp add: nexts_def)
    have "distinct (butlast as @ [l])" using r(3) as by simp
    then have dist: "distinct (l # butlast as)" by simp
    have "chain (nexts ?h3) e as e"
    proof -
      have up: "chain (nexts ?h3) a xs l = chain (nexts h) a xs l"
        if "l \<notin> set (a # xs)" "e \<notin> set (a # xs)" for a xs
        unfolding nx by (rule chain_cong) (use that in auto)
      show ?thesis
      proof (cases "butlast as")
        case Nil
        then have "as = [l]" using as by simp
        then show ?thesis using hd Nil el by (simp add: nexts_def)
      next
        case (Cons b bs)
        have "e \<notin> set (butlast as)" using ea by (meson in_set_butlastD)
        then have "chain (nexts ?h3) b bs l"
          using up [of b bs] dist r(4) Cons by simp
        moreover have "as = b # bs @ l # []" using as Cons by simp
        moreover have "nexts ?h3 l = Some e" by (simp add: nexts_def)
        moreover have "nexts ?h3 e = Some b" using hd Cons el by (simp add: nexts_def)
        ultimately show ?thesis using chain_append [of "nexts ?h3" b bs l "[]" e] by simp
      qed
    qed
    moreover have "list_all2 (node_of ?h3) as ps"
      by (rule list_all2_mono [OF r(5)]) (use n he in \<open>auto simp: node_of_def\<close>)
    moreover have "node_of ?h3 e i" using el by (simp add: node_of_def)
    ultimately have "fifo_rep ?h3 (Some e) (as @ [e]) (ps @ [i])"
      using r(3) ea by (simp add: fifo_rep_Some list_all2_appendI)
    moreover have "\<forall>b\<in>set as. ?h3 b \<noteq> None" using fifo_rep_nodes [OF rep] by auto
    ultimately show ?thesis using run la by auto
  qed
qed

text \<open>\<open>extract_process\<close> takes the first one.\<close>

lemma extract_process_ok:
  assumes rep: "fifo_rep h (Some l) (a # as) (i # ps)"
  shows "\<exists>h'. extract_process (Some l) h = ret (if as = [] then None else Some l, Some i, h') \<and>
    fifo_rep h' (if as = [] then None else Some l) as ps \<and> h' a = None \<and>
    (\<forall>b. b \<notin> set (a # as) \<longrightarrow> h' b = h b)"
proof -
  have r: "last (a # as) = l" "distinct (a # as)" "chain (nexts h) l (butlast (a # as)) l"
    "node_of h a i" "list_all2 (node_of h) as ps"
    using rep by (simp_all add: fifo_rep_Some)
  have nodes: "h b \<noteq> None" if "b \<in> set (a # as)" for b using fifo_rep_nodes [OF rep that] .
  have "l \<in> set (a # as)" using r(1) last_in_set [of "a # as"] by auto
  then obtain n where n: "h l = Some n" using nodes by auto
  obtain t where t: "h a = Some t" "node_proc t = i" using r(4) by (auto simp: node_of_def)
  show ?thesis
  proof (cases as)
    case Nil
    then have "l = a" "node_next n = Some a" using r(1,3) n by (simp_all add: nexts_def)
    then have "extract_process (Some l) h = ret (None, Some i, h(a := None))"
      using n t by (simp add: extract_process_def is_empty_def node_at_def destroy_element_def)
    then show ?thesis using Nil r(5) by auto
  next
    case (Cons b bs)
    have al: "a \<noteq> l" using r(1,2) Cons by (auto split: if_splits)
    have nx: "node_next n = Some a" using r(3) n Cons by (simp add: nexts_def)
    have tx: "nexts h a = Some (hd (butlast as @ [l]))" using r(3) Cons chain_hd by fastforce
    let ?h' = "(h(l \<mapsto> n\<lparr>node_next := node_next t\<rparr>))(a := None)"
    have run: "extract_process (Some l) h = ret (Some l, Some i, ?h')"
      using n t nx al by (simp add: extract_process_def is_empty_def node_at_def destroy_element_def set_next_ok)
    have "last as = l" using r(1) Cons by simp
    then have as: "as = butlast as @ [l]" using Cons append_butlast_last_id [of as] by simp
    have nh: "nexts ?h' = (nexts h)(l := node_next t, a := None)" by (auto simp: nexts_def fun_eq_iff)
    have tnx: "node_next t = Some (hd (butlast as @ [l]))" using tx t by (simp add: nexts_def)
    have "distinct (butlast as @ [l])" using r(2) as by simp
    then have dist: "distinct (l # butlast as)" by simp
    have "chain (nexts ?h') l (butlast as) l"
    proof (cases "butlast as")
      case Nil
      then show ?thesis using tnx al by (simp add: nexts_def)
    next
      case (Cons c cs)
      have c: "chain (nexts h) c cs l" using r(3) \<open>as = b # bs\<close> Cons by (auto split: if_splits)
      have "a \<notin> set (butlast as)" using r(2) by (auto dest: in_set_butlastD)
      then have "chain (nexts ?h') c cs l = chain (nexts h) c cs l"
        unfolding nh using dist Cons by (intro chain_cong) auto
      then show ?thesis using c Cons tnx al by (simp add: nexts_def)
    qed
    moreover have "list_all2 (node_of ?h') as ps"
    proof -
      have "node_of ?h' b p = node_of h b p" if "b \<in> set as" for b p
        using that n r(2) by (auto simp: node_of_def)
      then have "list_all2 (node_of ?h') as ps = list_all2 (node_of h) as ps"
        by (rule list.rel_cong [OF refl refl])
      then show ?thesis using r(5) by simp
    qed
    ultimately have "fifo_rep ?h' (Some l) as ps" using r(2) \<open>last as = l\<close> Cons by (simp add: fifo_rep_Some)
    then show ?thesis using run Cons \<open>l \<in> set (a # as)\<close> by auto
  qed
qed

subsection \<open>The two searches never end on a list with an element\<close>

lemma node_at_in: "h a = Some n \<Longrightarrow> node_at h (Some a) = ret n"
  by (simp add: node_at_def)

lemma fifo_rep_next:
  assumes "fifo_rep h (Some l) as ps" and "a \<in> set as"
  shows "\<exists>b\<in>set as. nexts h a = Some b"
proof -
  have r: "as \<noteq> []" "last as = l" "distinct as" "chain (nexts h) l (butlast as) l"
    using assms(1) by (simp_all add: fifo_rep_Some)
  have as: "as = butlast as @ [l]" using r(1,2) append_butlast_last_id [of as] by simp
  have gen: "chain f x xs y \<Longrightarrow> z \<in> set (x # xs) \<Longrightarrow> \<exists>b\<in>set (xs @ [y]). f z = Some b" for f and x y z :: nat and xs
    by (induction xs arbitrary: x) auto
  have "a \<in> set (l # butlast as)" using assms(2) arg_cong [OF as, of set] by auto
  then show ?thesis using gen [OF r(4)] as by metis
qed

lemma getSize_loop_diverges:
  assumes rep: "fifo_rep h (Some l) as ps" and a: "a \<in> set as"
  shows "getSize_loop (Some a) sz h = None"
proof (rule ccontr)
  assume "getSize_loop (Some a) sz h \<noteq> None"
  then obtain r where run: "getSize_loop (Some a) sz h = Some r" by blast
  let ?P = "\<lambda>p (sz :: int) h' (r :: fault + int). h' = h \<longrightarrow> p \<notin> Some ` set as"
  have "?P (Some a) sz h r"
  proof (rule getSize_loop.raw_induct [where P = ?P, OF _ run])
    fix f p sz h' r
    assume IH: "\<And>p sz h' r. f p sz h' = Some r \<Longrightarrow> ?P p sz h' r"
    assume body: "(if is_empty p then ret sz else bindr (node_at h' p) (\<lambda>t. f (node_next t) (sz + 1) h')) = Some r"
    show "?P p sz h' r"
    proof (intro impI notI)
      assume h': "h' = h" and "p \<in> Some ` set as"
      then obtain b where b: "p = Some b" "b \<in> set as" by blast
      obtain n where n: "h b = Some n" using fifo_rep_nodes [OF rep b(2)] by auto
      obtain c where c: "c \<in> set as" "node_next n = Some c"
        using fifo_rep_next [OF rep b(2)] n by (auto simp: nexts_def)
      have "f (Some c) (sz + 1) h = Some r" using body b n c h' by (simp add: is_empty_def node_at_in)
      from IH [OF this] show False using c by simp
    qed
  qed
  then show False using a by simp
qed

lemma contains_loop_diverges:
  assumes rep: "fifo_rep h (Some l) as ps" and a: "a \<in> set as" and no: "\<forall>p\<in>set ps. pid (proc k p) \<noteq> n"
  shows "contains_loop (Some a) n k h = None"
proof (rule ccontr)
  assume "contains_loop (Some a) n k h \<noteq> None"
  then obtain r where run: "contains_loop (Some a) n k h = Some r" by blast
  let ?P = "\<lambda>p n' k' h' (r :: fault + bool). h' = h \<and> k' = k \<and> n' = n \<longrightarrow> p \<notin> Some ` set as"
  have "?P (Some a) n k h r"
  proof (rule contains_loop.raw_induct [where P = ?P, OF _ run])
    fix f p n' k' h' r
    assume IH: "\<And>p n' k' h' r. f p n' k' h' = Some r \<Longrightarrow> ?P p n' k' h' r"
    assume body: "(if is_empty p then ret False else bindr (node_at h' p) (\<lambda>t.
      if pid (proc k' (node_proc t)) = n' then ret True else f (node_next t) n' k' h')) = Some r"
    show "?P p n' k' h' r"
    proof (intro impI notI, elim conjE)
      assume eq: "h' = h" "k' = k" "n' = n" and "p \<in> Some ` set as"
      then obtain b where b: "p = Some b" "b \<in> set as" by blast
      obtain m where m: "h b = Some m" using fifo_rep_nodes [OF rep b(2)] by auto
      have l2: "list_all2 (node_of h) as ps" using rep by (simp add: fifo_rep_Some)
      obtain i where i: "i < length as" "as ! i = b" using b(2) by (auto simp: in_set_conv_nth)
      then have "node_of h b (ps ! i)" "ps ! i \<in> set ps"
        using l2 by (auto simp: list_all2_conv_all_nth)
      then have ne: "pid (proc k (node_proc m)) \<noteq> n" using no m by (auto simp: node_of_def)
      obtain c where c: "c \<in> set as" "node_next m = Some c"
        using fifo_rep_next [OF rep b(2)] m by (auto simp: nexts_def)
      have "f (Some c) n k h = Some r" using body b m c eq ne by (simp add: is_empty_def node_at_in)
      from IH [OF this] show False using c by simp
    qed
  qed
  then show False using a by simp
qed

end
