(* ===== verification/Message.thy ===== *)
theory Message
  imports Fifo
begin

text \<open>
  The message queues of kernel/message.c. A call that finds the queue full, or empty, gives up the
  processor in the middle: it is \<open>Waiting\<close> then, and the rest of its code (\<open>psend_end\<close>,
  \<open>preceive_end\<close>) runs when its process is elected again, on the state of that time. The handlers
  of the calls that do not wait run through.
\<close>

subsection \<open>The data of message.h\<close>

definition NBQUEUE :: int where "NBQUEUE = 10"

text \<open>\<open>tab_messages\<close>: NULL, a block that was given back, or a block of words.\<close>

datatype block = Null_Block | Freed_Block | Block "int list"

text \<open>The field \<open>prod\<close> is named \<open>prodl\<close> here, and \<open>size\<close> is \<open>fsize\<close>.\<close>

record fifo_messages =
  consum :: "nat option"
  prodl :: "nat option"
  tab_messages :: block
  fsize :: int
  nbElement :: int
  down :: int
  fid :: int
  used :: bool

record ipc =
  kern :: kernel
  nodes :: node_heap
  fifo_tab :: "nat \<Rightarrow> fifo_messages"
  shouldReceiveNegativeOne :: "nat option"

datatype 'a call = Done 'a | Waiting

definition upd_fifo :: "nat \<Rightarrow> (fifo_messages \<Rightarrow> fifo_messages) \<Rightarrow> ipc \<Rightarrow> ipc" where
  "upd_fifo i f s = s\<lparr>fifo_tab := (fifo_tab s)(i := f (fifo_tab s i))\<rparr>"

text \<open>Signed 32-bit arithmetic, and the accesses to the table.\<close>

definition s32 :: "int \<Rightarrow> int" where
  "s32 x = sint (word_of_int x :: u32)"

definition tab_get :: "block \<Rightarrow> int \<Rightarrow> int res" where
  "tab_get b i =
     (case b of
        Null_Block \<Rightarrow> err Null_Deref
      | Freed_Block \<Rightarrow> err Bad_Address
      | Block xs \<Rightarrow> if 0 \<le> i \<and> i < int (length xs) then ret (xs ! nat i) else err Out_Of_Bounds)"

definition tab_set :: "block \<Rightarrow> int \<Rightarrow> int \<Rightarrow> block res" where
  "tab_set b i x =
     (case b of
        Null_Block \<Rightarrow> err Null_Deref
      | Freed_Block \<Rightarrow> err Bad_Address
      | Block xs \<Rightarrow> if 0 \<le> i \<and> i < int (length xs) then ret (Block (xs[nat i := x])) else err Out_Of_Bounds)"

text \<open>C's remainder; a zero divisor is the processor's exception.\<close>

definition rem_int :: "int \<Rightarrow> int \<Rightarrow> int res" where
  "rem_int a b = (if b = 0 then err Divide_Error else ret (a smod b))"

subsection \<open>Creation and deletion\<close>

definition initialisation_fifo_tab :: "ipc \<Rightarrow> ipc" where
  "initialisation_fifo_tab s =
     s\<lparr>fifo_tab := (\<lambda>i. if int i < NBQUEUE then (fifo_tab s i)\<lparr>used := False\<rparr> else fifo_tab s i)\<rparr>"

definition free_fid :: "ipc \<Rightarrow> nat option" where
  "free_fid s = find (\<lambda>i. \<not> used (fifo_tab s i)) [0..<nat NBQUEUE]"

definition pcreate :: "allocator \<Rightarrow> int \<Rightarrow> ipc \<Rightarrow> int \<times> ipc" where
  "pcreate al cnt s =
     (if cnt < 1 then (-1, s)
      else
        case free_fid s of
          None \<Rightarrow> (-1, s)
        | Some i \<Rightarrow>
            (int i,
             upd_fifo i (\<lambda>f. f\<lparr>fid := int i, down := 0, fsize := cnt, consum := init_list, prodl := init_list,
               used := True, nbElement := 0,
               tab_messages := (case new_block al (4 * word_of_int cnt) of None \<Rightarrow> Null_Block | Some xs \<Rightarrow> Block xs)\<rparr>) s))"

definition bad_fid :: "int \<Rightarrow> ipc \<Rightarrow> bool" where
  "bad_fid n s \<longleftrightarrow> n < 0 \<or> n \<ge> NBQUEUE \<or> \<not> used (fifo_tab s (nat n))"

text \<open>
  A waiting process is made ready and would be noted in \<open>shouldReceiveNegativeOne\<close>, but the
  result of \<open>add_process\<close>, the new value of the list, is not stored.
\<close>

definition release :: "allocator \<Rightarrow> nat option \<Rightarrow> ipc \<Rightarrow> ipc res" where
  "release al tmp s =
     bindr (deref tmp) (\<lambda>p.
     bindr (insert_activable p (kern s)) (\<lambda>k1.
     bindr (add_process al (shouldReceiveNegativeOne s) p (nodes s)) (\<lambda>(_, h1).
     ret (s\<lparr>kern := k1, nodes := h1\<rparr>))))"

partial_function (option) release_consum :: "allocator \<Rightarrow> nat \<Rightarrow> ipc \<Rightarrow> ipc res" where
  "release_consum al i s =
     (if is_empty (consum (fifo_tab s i)) then ret s
      else
        bindr (extract_process (consum (fifo_tab s i)) (nodes s)) (\<lambda>(c, tmp, h1).
        bindr (release al tmp (upd_fifo i (\<lambda>f. f\<lparr>consum := c\<rparr>) (s\<lparr>nodes := h1\<rparr>))) (\<lambda>s1.
        release_consum al i s1)))"

text \<open>The second loop stores the rest of \<open>prod\<close> in \<open>consum\<close>.\<close>

partial_function (option) release_prod :: "allocator \<Rightarrow> nat \<Rightarrow> ipc \<Rightarrow> ipc res" where
  "release_prod al i s =
     (if is_empty (prodl (fifo_tab s i)) then ret s
      else
        bindr (extract_process (prodl (fifo_tab s i)) (nodes s)) (\<lambda>(c, tmp, h1).
        bindr (release al tmp (upd_fifo i (\<lambda>f. f\<lparr>consum := c\<rparr>) (s\<lparr>nodes := h1\<rparr>))) (\<lambda>s1.
        release_prod al i s1)))"

definition pdelete :: "allocator \<Rightarrow> int \<Rightarrow> ipc \<Rightarrow> (int \<times> ipc) res" where
  "pdelete al n s =
     (if bad_fid n s then ret (-1, s)
      else
        let i = nat n;
            s1 = upd_fifo i (\<lambda>f. f\<lparr>used := False\<rparr>) s;
            s2 = upd_fifo i (\<lambda>f. f\<lparr>tab_messages := (if tab_messages f = Null_Block then Null_Block else Freed_Block)\<rparr>) s1
        in bindr (release_consum al i s2) (\<lambda>s3. bindr (release_prod al i s3) (\<lambda>s4. ret (0, s4))))"

definition preset :: "allocator \<Rightarrow> int \<Rightarrow> ipc \<Rightarrow> (int \<times> ipc) res" where
  "preset al n s =
     (if bad_fid n s then ret (-1, s)
      else
        let i = nat n; s1 = upd_fifo i (\<lambda>f. f\<lparr>down := 0, nbElement := 0\<rparr>) s
        in bindr (release_consum al i s1) (\<lambda>s3. bindr (release_prod al i s3) (\<lambda>s4. ret (0, s4))))"

subsection \<open>Sending and receiving\<close>

text \<open>The caller goes to sleep and the scheduler runs; it is \<open>None\<close> when another process runs then.\<close>

definition sleep_here :: "nat \<Rightarrow> ipc \<Rightarrow> (bool \<times> ipc) res" where
  "sleep_here me s =
     (let k = upd me (\<lambda>p. p\<lparr>state := ENDORMI\<rparr>) (kern s)
      in bindr (ordonnance k) (\<lambda>k1. ret (actif k1 = Some me, s\<lparr>kern := k1\<rparr>)))"

text \<open>The end of \<open>psend\<close>, from the test of \<open>shouldReceiveNegativeOne\<close> on; \<open>me\<close> is its variable \<open>tmp\<close>.\<close>

definition psend_end :: "nat \<Rightarrow> nat \<Rightarrow> int \<Rightarrow> ipc \<Rightarrow> (int \<times> ipc) res" where
  "psend_end i me message s =
     bindr (contains (shouldReceiveNegativeOne s) (pid (proc (kern s) me)) (kern s) (nodes s)) (\<lambda>b.
       if b then ret (-1, s)
       else
         let f = fifo_tab s i in
         bindr (rem_int (s32 (down f + nbElement f)) (fsize f)) (\<lambda>x.
         bindr (tab_set (tab_messages f) x message) (\<lambda>t.
         let s1 = upd_fifo i (\<lambda>f. f\<lparr>tab_messages := t, nbElement := s32 (nbElement f + 1)\<rparr>) s in
         if is_empty (prodl (fifo_tab s1 i)) then ret (0, s1)
         else
           bindr (extract_process (prodl (fifo_tab s1 i)) (nodes s1)) (\<lambda>(c, tmp, h1).
           bindr (deref tmp) (\<lambda>p.
           bindr (insert_activable p (kern s1)) (\<lambda>k1.
           ret (0, (upd_fifo i (\<lambda>f. f\<lparr>prodl := c\<rparr>) s1)\<lparr>nodes := h1, kern := k1\<rparr>)))))))"

definition psend :: "allocator \<Rightarrow> int \<Rightarrow> int \<Rightarrow> ipc \<Rightarrow> (int call \<times> ipc) res" where
  "psend al n message s =
     (if bad_fid n s then ret (Done (-1), s)
      else
        let i = nat n in
        bindr (deref (actif (kern s))) (\<lambda>me.
        bindr
          (if nbElement (fifo_tab s i) = fsize (fifo_tab s i) then
             bindr (add_process al (consum (fifo_tab s i)) me (nodes s)) (\<lambda>(c, h1).
               sleep_here me (upd_fifo i (\<lambda>f. f\<lparr>consum := c\<rparr>) (s\<lparr>nodes := h1\<rparr>)))
           else ret (True, s))
          (\<lambda>(running, s1).
            if running then bindr (psend_end i me message s1) (\<lambda>(r, s2). ret (Done r, s2))
            else ret (Waiting, s1))))"

text \<open>The result of \<open>preceive\<close> has the word written to \<open>*message\<close>, if one is.\<close>

definition preceive_end :: "nat \<Rightarrow> nat \<Rightarrow> ipc \<Rightarrow> ((int \<times> int option) \<times> ipc) res" where
  "preceive_end i me s =
     bindr (contains (shouldReceiveNegativeOne s) (pid (proc (kern s) me)) (kern s) (nodes s)) (\<lambda>b.
       if b then ret ((-1, None), s)
       else
         let f = fifo_tab s i in
         bindr (tab_get (tab_messages f) (down f)) (\<lambda>x.
         let s1 = upd_fifo i (\<lambda>f. f\<lparr>nbElement := s32 (nbElement f - 1),
                    down := (if s32 (down f + 1) = fsize f then 0 else s32 (down f + 1))\<rparr>) s in
         if is_empty (consum (fifo_tab s1 i)) then ret ((0, Some x), s1)
         else
           bindr (extract_process (consum (fifo_tab s1 i)) (nodes s1)) (\<lambda>(c, tmp, h1).
           bindr (deref tmp) (\<lambda>p.
           bindr (insert_activable p (kern s1)) (\<lambda>k1.
           ret ((0, Some x), (upd_fifo i (\<lambda>f. f\<lparr>consum := c\<rparr>) s1)\<lparr>nodes := h1, kern := k1\<rparr>))))))"

definition preceive :: "allocator \<Rightarrow> int \<Rightarrow> ipc \<Rightarrow> ((int \<times> int option) call \<times> ipc) res" where
  "preceive al n s =
     (if bad_fid n s then ret (Done (-1, None), s)
      else
        let i = nat n in
        bindr (deref (actif (kern s))) (\<lambda>me.
        bindr
          (if nbElement (fifo_tab s i) = 0 then
             bindr (add_process al (consum (fifo_tab s i)) me (nodes s)) (\<lambda>(c, h1).
               sleep_here me (upd_fifo i (\<lambda>f. f\<lparr>prodl := c\<rparr>) (s\<lparr>nodes := h1\<rparr>)))
           else ret (True, s))
          (\<lambda>(running, s1).
            if running then bindr (preceive_end i me s1) (\<lambda>(r, s2). ret (Done r, s2))
            else ret (Waiting, s1))))"

text \<open>\<open>pcount\<close> returns 0 and what it writes to \<open>*count\<close>, if it writes.\<close>

definition pcount :: "int \<Rightarrow> ipc \<Rightarrow> (int \<times> int option) res" where
  "pcount n s =
     (if n < 0 \<or> n \<ge> NBQUEUE then ret (-1, None)
      else
        let f = fifo_tab s (nat n) in
        bindr (getSize (consum f) (nodes s)) (\<lambda>c.
        bindr (getSize (prodl f) (nodes s)) (\<lambda>d.
        let d1 = d + nbElement f in
        ret (0, if c \<noteq> 0 then Some (- c) else if d1 \<noteq> 0 then Some d1 else None))))"

end
