(* ===== verification/Message_Ok.thy ===== *)
theory Message_Ok
  imports Message
begin

text \<open>
  The message queues: a queue nobody waits on is a bounded first-in first-out buffer; a call on a
  full or an empty queue puts its process in the list of those that wait and elects another one;
  the next call of the other kind makes the first of them ready again.
\<close>

subsection \<open>Signed arithmetic\<close>

lemma s32_id: "- (2 ^ 31) \<le> x \<Longrightarrow> x < 2 ^ 31 \<Longrightarrow> s32 x = x"
  unfolding s32_def by (subst signed_of_int) (simp add: signed_take_bit_int_eq_self)

lemma rem_int_nat: "0 < n \<Longrightarrow> rem_int (int a) (int n) = ret (int (a mod n))"
  by (cases "a = 0") (simp_all add: rem_int_def smod_int_alt_def zmod_int)

subsection \<open>The circular buffer\<close>

definition ring :: "int list \<Rightarrow> nat \<Rightarrow> nat \<Rightarrow> int list" where
  "ring ts d n = map (\<lambda>j. ts ! ((d + j) mod length ts)) [0..<n]"

lemma length_ring [simp]: "length (ring ts d n) = n"
  by (simp add: ring_def)

lemma ring_send:
  assumes "n < length ts" and "d < length ts"
  shows "ring (ts[(d + n) mod length ts := x]) d (Suc n) = ring ts d n @ [x]"
proof -
  let ?N = "length ts"
  have N: "0 < ?N" using assms(1) by linarith
  have "(d + n) mod ?N \<noteq> (d + j) mod ?N" if "j < n" for j
  proof
    assume "(d + n) mod ?N = (d + j) mod ?N"
    then have "?N dvd (d + n) - (d + j)" using that by (metis mod_eq_dvd_iff_nat nat_add_left_cancel_le less_imp_le)
    then have "?N \<le> n - j" using that by (auto dest: dvd_imp_le)
    then show False using assms(1) by simp
  qed
  then show ?thesis using N by (auto simp: ring_def nth_list_update)
qed

lemma ring_receive:
  assumes "d < length ts"
  shows "ring ts d (Suc n) = ts ! d # ring ts (if Suc d = length ts then 0 else Suc d) n"
proof -
  let ?N = "length ts"
  have eq: "((if Suc d = ?N then 0 else Suc d) + j) mod ?N = (d + Suc j) mod ?N" for j
  proof (cases "Suc d = ?N")
    case True
    then have "d + Suc j = ?N + j" by simp
    then have "(d + Suc j) mod ?N = j mod ?N" by (simp only: mod_add_self1)
    then show ?thesis using True by simp
  qed simp
  have "[0..<Suc n] = 0 # map Suc [0..<n]" by (simp add: map_Suc_upt upt_conv_Cons)
  then show ?thesis using assms by (simp add: ring_def eq comp_def)
qed

text \<open>
  \<open>queue_holds s i ts d xs\<close>: the queue \<open>i\<close> is in use and its buffer holds the messages \<open>xs\<close>,
  oldest first.
\<close>

definition queue_holds :: "ipc \<Rightarrow> nat \<Rightarrow> int list \<Rightarrow> nat \<Rightarrow> int list \<Rightarrow> bool" where
  "queue_holds s i ts d xs \<longleftrightarrow>
     int i < NBQUEUE \<and> used (fifo_tab s i) \<and> tab_messages (fifo_tab s i) = Block ts \<and>
     fsize (fifo_tab s i) = int (length ts) \<and> length ts < 2 ^ 30 \<and> d < length ts \<and>
     down (fifo_tab s i) = int d \<and> nbElement (fifo_tab s i) = int (length xs) \<and> length xs \<le> length ts \<and>
     xs = ring ts d (length xs) \<and> shouldReceiveNegativeOne s = None"

lemma upd_fifo_simps [simp]:
  "fifo_tab (upd_fifo i f s) j = (if j = i then f (fifo_tab s i) else fifo_tab s j)"
  "kern (upd_fifo i f s) = kern s" "nodes (upd_fifo i f s) = nodes s"
  "shouldReceiveNegativeOne (upd_fifo i f s) = shouldReceiveNegativeOne s"
  by (simp_all add: upd_fifo_def)

lemma contains_None [simp]: "contains None n k h = ret False"
  unfolding contains_def by (subst contains_loop.simps) (simp add: is_empty_def)

lemma queue_holds_good: "queue_holds s i ts d xs \<Longrightarrow> \<not> bad_fid (int i) s"
  by (simp add: queue_holds_def bad_fid_def)

subsection \<open>Calls that do not wait\<close>

lemma psend_end_store:
  assumes q: "queue_holds s i ts d xs" and room: "length xs < length ts" and idle: "prodl (fifo_tab s i) = None"
  shows "\<exists>s'. psend_end i me x s = ret (0, s') \<and>
    queue_holds s' i (ts[(d + length xs) mod length ts := x]) d (xs @ [x]) \<and>
    kern s' = kern s \<and> nodes s' = nodes s \<and> prodl (fifo_tab s' i) = None \<and>
    consum (fifo_tab s' i) = consum (fifo_tab s i)"
proof -
  let ?f = "fifo_tab s i" and ?n = "length xs" and ?N = "length ts"
  have f: "down ?f = int d" "nbElement ?f = int ?n" "fsize ?f = int ?N" "tab_messages ?f = Block ts"
    "?N < 2 ^ 30" "d < ?N" "shouldReceiveNegativeOne s = None" "xs = ring ts d ?n"
    using q by (simp_all add: queue_holds_def)
  have s1: "s32 (int d + int ?n) = int (d + ?n)" "s32 (int ?n + 1) = int (Suc ?n)"
    using f(5,6) room by (simp_all add: s32_id)
  have x: "rem_int (int (d + ?n)) (int ?N) = ret (int ((d + ?n) mod ?N))"
    using f(6) by (intro rem_int_nat) linarith
  have idx: "(d + ?n) mod ?N < ?N" using f(6) by (intro mod_less_divisor) linarith
  let ?ts = "ts[(d + ?n) mod ?N := x]"
  have t: "tab_set (Block ts) (int ((d + ?n) mod ?N)) x = ret (Block ?ts)"
    using idx by (simp add: tab_set_def del: of_nat_mod)
  let ?s1 = "upd_fifo i (\<lambda>f. f\<lparr>tab_messages := Block ?ts, nbElement := int (Suc ?n)\<rparr>) s"
  have run: "psend_end i me x s = ret (0, ?s1)"
    using idle by (simp add: psend_end_def f(1-7) s1 x t is_empty_def Let_def upd_fifo_def
        del: of_nat_Suc of_nat_add)
  have "ring ?ts d (Suc ?n) = xs @ [x]" using ring_send [OF room f(6)] f(8) by simp
  then have "queue_holds ?s1 i ?ts d (xs @ [x])"
    unfolding queue_holds_def using f(1-7) room q by (simp add: queue_holds_def)
  then show ?thesis using run idle by (intro exI [of _ ?s1]) simp
qed

lemma psend_store:
  assumes q: "queue_holds s i ts d xs" and room: "length xs < length ts" and idle: "prodl (fifo_tab s i) = None"
    and me: "actif (kern s) = Some me"
  shows "\<exists>s'. psend al (int i) x s = ret (Done 0, s') \<and>
    queue_holds s' i (ts[(d + length xs) mod length ts := x]) d (xs @ [x]) \<and>
    kern s' = kern s \<and> nodes s' = nodes s \<and> prodl (fifo_tab s' i) = None \<and>
    consum (fifo_tab s' i) = consum (fifo_tab s i)"
proof -
  have "nbElement (fifo_tab s i) \<noteq> fsize (fifo_tab s i)" using q room by (simp add: queue_holds_def)
  then have "psend al (int i) x s = bindr (psend_end i me x s) (\<lambda>(r, s2). ret (Done r, s2))"
    using queue_holds_good [OF q] me by (simp add: psend_def)
  then show ?thesis using psend_end_store [OF q room idle, of me x] by auto
qed

lemma preceive_end_take:
  assumes q: "queue_holds s i ts d (x # xs)" and idle: "consum (fifo_tab s i) = None"
  shows "\<exists>s' d'. preceive_end i me s = ret ((0, Some x), s') \<and> queue_holds s' i ts d' xs \<and>
    kern s' = kern s \<and> nodes s' = nodes s \<and> consum (fifo_tab s' i) = None \<and>
    prodl (fifo_tab s' i) = prodl (fifo_tab s i)"
proof -
  let ?f = "fifo_tab s i" and ?n = "length xs" and ?N = "length ts"
  have f: "down ?f = int d" "nbElement ?f = int (Suc ?n)" "fsize ?f = int ?N" "tab_messages ?f = Block ts"
    "?N < 2 ^ 30" "d < ?N" "shouldReceiveNegativeOne s = None" "x # xs = ring ts d (Suc ?n)"
    "Suc ?n \<le> ?N"
    using q by (simp_all add: queue_holds_def)
  let ?d = "if Suc d = ?N then 0 else Suc d"
  have s1: "s32 (int (Suc ?n) - 1) = int ?n" "s32 (int d + 1) = int (Suc d)"
    using f(5,6,9) by (simp_all add: s32_id)
  have x: "x = ts ! d" "xs = ring ts ?d ?n" using f(8) ring_receive [OF f(6), of ?n] by auto
  have t: "tab_get (Block ts) (int d) = ret x" using f(6) x(1) by (simp add: tab_get_def)
  let ?s1 = "upd_fifo i (\<lambda>f. f\<lparr>nbElement := int ?n, down := int ?d\<rparr>) s"
  have dn: "(if int (Suc d) = int ?N then 0 else int (Suc d)) = int ?d" by simp
  have run: "preceive_end i me s = ret ((0, Some x), ?s1)"
    using idle by (simp add: preceive_end_def f(1-7) s1 t dn is_empty_def Let_def upd_fifo_def
        del: of_nat_Suc of_nat_add)
  have "queue_holds ?s1 i ts ?d xs"
    using q x(2) f(6) by (auto simp: queue_holds_def)
  then show ?thesis using run idle by (intro exI [of _ ?s1] exI [of _ ?d]) simp
qed

lemma preceive_take:
  assumes q: "queue_holds s i ts d (x # xs)" and idle: "consum (fifo_tab s i) = None"
    and me: "actif (kern s) = Some me"
  shows "\<exists>s' d'. preceive al (int i) s = ret (Done (0, Some x), s') \<and> queue_holds s' i ts d' xs \<and>
    kern s' = kern s \<and> nodes s' = nodes s \<and> consum (fifo_tab s' i) = None \<and>
    prodl (fifo_tab s' i) = prodl (fifo_tab s i)"
proof -
  have "nbElement (fifo_tab s i) \<noteq> 0" using q by (simp add: queue_holds_def)
  then have "preceive al (int i) s = bindr (preceive_end i me s) (\<lambda>(r, s2). ret (Done r, s2))"
    using queue_holds_good [OF q] me by (simp add: preceive_def)
  then show ?thesis using preceive_end_take [OF q idle, of me] by auto
qed

subsection \<open>Runs without waiting\<close>

datatype msg_op = Send int | Receive

fun msg_run :: "allocator \<Rightarrow> nat \<Rightarrow> msg_op list \<Rightarrow> ipc \<Rightarrow> (int \<times> int option) call list res" where
  "msg_run al i [] s = ret []"
| "msg_run al i (Send x # ops) s = bindr (psend al (int i) x s) (\<lambda>(c, s1).
     bindr (msg_run al i ops s1) (\<lambda>rs. ret ((case c of Done r \<Rightarrow> Done (r, None) | Waiting \<Rightarrow> Waiting) # rs)))"
| "msg_run al i (Receive # ops) s = bindr (preceive al (int i) s) (\<lambda>(c, s1).
     bindr (msg_run al i ops s1) (\<lambda>rs. ret (c # rs)))"

text \<open>The specification: a list of at most \<open>cap\<close> messages; \<open>None\<close> when a call would wait.\<close>

fun fifo_run :: "nat \<Rightarrow> msg_op list \<Rightarrow> int list \<Rightarrow> (int \<times> int option) list option" where
  "fifo_run cap [] xs = Some []"
| "fifo_run cap (Send x # ops) xs =
     (if length xs < cap then map_option (\<lambda>rs. (0, None) # rs) (fifo_run cap ops (xs @ [x])) else None)"
| "fifo_run cap (Receive # ops) xs =
     (case xs of [] \<Rightarrow> None | y # ys \<Rightarrow> map_option (\<lambda>rs. (0, Some y) # rs) (fifo_run cap ops ys))"

lemma msg_run_ok:
  assumes "queue_holds s i ts d xs" and "consum (fifo_tab s i) = None" and "prodl (fifo_tab s i) = None"
    and "actif (kern s) = Some me" and "fifo_run (length ts) ops xs = Some rs"
  shows "msg_run al i ops s = ret (map Done rs)"
  using assms
proof (induction ops arbitrary: s ts d xs rs)
  case Nil
  then show ?case by simp
next
  case (Cons c ops)
  show ?case
  proof (cases c)
    case (Send x)
    then obtain rs' where room: "length xs < length ts" and rs: "fifo_run (length ts) ops (xs @ [x]) = Some rs'"
      "rs = (0, None) # rs'"
      using Cons.prems(5) by (auto split: if_splits)
    let ?ts = "ts[(d + length xs) mod length ts := x]"
    obtain s' where s': "psend al (int i) x s = ret (Done 0, s')" "queue_holds s' i ?ts d (xs @ [x])"
      "kern s' = kern s" "prodl (fifo_tab s' i) = None" "consum (fifo_tab s' i) = None"
      using psend_store [OF Cons.prems(1) room Cons.prems(3,4)] Cons.prems(2) by metis
    have "msg_run al i ops s' = ret (map Done rs')"
      by (rule Cons.IH [OF s'(2)]) (use s' Cons.prems(4) rs in simp_all)
    then show ?thesis using Send s'(1) rs(2) by simp
  next
    case Receive
    then obtain y ys rs' where xs: "xs = y # ys" and rs: "fifo_run (length ts) ops ys = Some rs'"
      "rs = (0, Some y) # rs'"
      using Cons.prems(5) by (auto split: list.splits)
    obtain s' d' where s': "preceive al (int i) s = ret (Done (0, Some y), s')" "queue_holds s' i ts d' ys"
      "kern s' = kern s" "consum (fifo_tab s' i) = None" "prodl (fifo_tab s' i) = None"
      using preceive_take [OF Cons.prems(1) [unfolded xs] Cons.prems(2,4)] Cons.prems(3) by metis
    have "msg_run al i ops s' = ret (map Done rs')"
      by (rule Cons.IH [OF s'(2)]) (use s' Cons.prems(4) rs in simp_all)
    then show ?thesis using Receive s'(1) rs(2) by simp
  qed
qed

subsection \<open>Creation\<close>

text \<open>The documented behaviour of \<open>mem_alloc\<close> for a table: a block of the size that is asked for.\<close>

definition sized_alloc :: "allocator \<Rightarrow> bool" where
  "sized_alloc al \<longleftrightarrow> (\<forall>n xs. new_block al n = Some xs \<longrightarrow> 4 * length xs = unat n)"

lemma pcreate_ok:
  assumes n: "0 < n" "n < 2 ^ 30" and free: "free_fid s = Some i" and al: "sized_alloc al"
    and blk: "new_block al (4 * word_of_int (int n)) = Some ts" and sn: "shouldReceiveNegativeOne s = None"
  shows "\<exists>s'. pcreate al (int n) s = (int i, s') \<and> queue_holds s' i ts 0 [] \<and> length ts = n \<and>
    consum (fifo_tab s' i) = None \<and> prodl (fifo_tab s' i) = None \<and> kern s' = kern s \<and> nodes s' = nodes s \<and>
    (\<forall>j. j \<noteq> i \<longrightarrow> fifo_tab s' j = fifo_tab s j)"
proof -
  have i: "int i < NBQUEUE" using free by (auto simp: free_fid_def NBQUEUE_def find_Some_iff)
  have "unat (4 * of_nat n :: u32) = 4 * n"
    using n(2) unat_of_nat_u32 [of "4 * n"] by simp
  then have "unat (4 * word_of_int (int n) :: u32) = 4 * n" by simp
  then have len: "length ts = n" using al blk unfolding sized_alloc_def by fastforce
  let ?f = "\<lambda>f. f\<lparr>fid := int i, down := 0, fsize := int n, consum := None, prodl := None,
               used := True, nbElement := 0, tab_messages := Block ts\<rparr>"
  have "pcreate al (int n) s = (int i, upd_fifo i ?f s)"
    using n free blk by (simp add: pcreate_def init_list_def)
  then show ?thesis using n i len sn by (auto simp: queue_holds_def ring_def)
qed

lemma pcreate_full: "free_fid s = None \<Longrightarrow> pcreate al n s = (-1, s)"
  by (simp add: pcreate_def)

lemma pcreate_invalid: "n < 1 \<Longrightarrow> pcreate al n s = (-1, s)"
  by (simp add: pcreate_def)

subsection \<open>Waiting\<close>

text \<open>The running process leaves the processor without being put in any list of the kernel.\<close>

lemma ordonnance_blocked:
  assumes inv: "kinv k a rs es ds" and some: "woken_rs k rs es = rs' @ [b]"
  shows "\<exists>k'. ordonnance (upd a (\<lambda>p. p\<lparr>state := ENDORMI\<rparr>) k) = ret k' \<and>
    kinv k' b rs' (woken_es k es) ds \<and> b \<noteq> a \<and> a \<notin> set rs' \<union> set (woken_es k es) \<and>
    pid (proc k' a) = int a"
proof -
  let ?k = "upd a (\<lambda>p. p\<lparr>state := ENDORMI\<rparr>) k"
  note i = kinvD [OF inv]
  have "prios ?k = prios k" by (auto simp: prios_def fun_eq_iff)
  have ok: "lists_ok ?k rs es ds"
  proof -
    have "ready_ok ?k rs = ready_ok k rs" by (rule ready_ok_cong) (use i(3) in auto)
    moreover have "sleep_ok ?k es = sleep_ok k es"
      by (rule sleep_ok_cong) (use i(4) in \<open>auto simp: same_links_def\<close>)
    moreover have "dead_ok ?k ds = dead_ok k ds"
      by (rule dead_ok_cong) (use i(5) in \<open>auto simp: same_links_def\<close>)
    ultimately show ?thesis using i(1) by (auto simp: lists_ok_def)
  qed
  have run: "running ?k a" using i(2) by (simp add: running_def)
  have due: "due ?k es = due k es" by (cases es) (use i(4) in \<open>auto simp: due_def\<close>)
  have w: "woken_rs ?k rs es = woken_rs k rs es" "woken_es ?k es = woken_es k es"
    by (simp_all add: woken_rs_def woken_es_def due \<open>prios ?k = prios k\<close>)
  obtain k1 where k1: "wake_process ?k = ret k1" "lists_ok k1 (woken_rs k rs es) (woken_es k es) ds"
    "same_static ?k k1" "same_links (- set es) ?k k1"
    using wake_process_ok [OF ok] w by auto
  have st: "state (proc k1 a) = ENDORMI" using k1(4) i(4) by (simp add: same_links_def)
  have nrs: "a \<notin> set (woken_rs k rs es)" and nes: "a \<notin> set (woken_es k es)"
    using i(3,4) in_woken_rs in_woken_es by blast+
  have el: "schedule (prios k1) (state (proc k1 a) = ENDORMI) a (woken_rs k rs es) = (b, rs')"
    using st some by (simp add: schedule_def)
  have ba: "b \<noteq> a" using nrs some by auto
  obtain k' where k': "ordonnance ?k = ret k'" "lists_ok k' rs' (woken_es k es) ds" "running k' b"
    "same_procs k1 k'" "state (proc k' b) = ACTIVABLE"
    using ordonnance_after_wake [OF k1(1,2) running_same_static [OF k1(3) run] nrs i(5) el] ba by auto
  note oks1 = lists_okD [OF k1(2)]
  have "b \<notin> set rs'" "b \<notin> set (woken_es k es)" "b \<notin> set ds"
    using some oks1(4,7,8) by auto
  then have "kinv k' b rs' (woken_es k es) ds" using k'(2,3,5) by (simp add: kinv_def)
  moreover have "pid (proc k' a) = int a"
    using same_procsD [OF k'(4)] same_staticD [OF k1(3)] i(9) by simp
  ultimately show ?thesis using k'(1) ba nrs nes some by auto
qed

text \<open>
  \<open>psend\<close> on a full queue: the caller becomes the last of the waiting senders and another process
  runs. \<open>preceive\<close> on an empty one writes the new list to \<open>prod\<close>, whatever \<open>prod\<close> was.
\<close>

lemma psend_waits:
  assumes q: "queue_holds s i ts d xs" and full: "length xs = length ts"
    and inv: "kinv (kern s) a rs es ds" and some: "woken_rs (kern s) rs es = rs' @ [b]"
    and rep: "fifo_rep (nodes s) (consum (fifo_tab s i)) as ps" and e: "new_node al (nodes s) = Some e"
    and fr: "fresh_alloc al"
  shows "\<exists>s'. psend al (int i) x s = ret (Waiting, s') \<and> kinv (kern s') b rs' (woken_es (kern s) es) ds \<and>
    b \<noteq> a \<and> a \<notin> set rs' \<union> set (woken_es (kern s) es) \<and>
    fifo_rep (nodes s') (consum (fifo_tab s' i)) (as @ [e]) (ps @ [a]) \<and> queue_holds s' i ts d xs"
proof -
  obtain h' where h: "add_process al (consum (fifo_tab s i)) a (nodes s) = ret (Some e, h')"
    "fifo_rep h' (Some e) (as @ [e]) (ps @ [a])"
    using add_process_ok [OF rep e fr] by blast
  obtain k' where k': "ordonnance (upd a (\<lambda>p. p\<lparr>state := ENDORMI\<rparr>) (kern s)) = ret k'"
    "kinv k' b rs' (woken_es (kern s) es) ds" "b \<noteq> a" "a \<notin> set rs' \<union> set (woken_es (kern s) es)"
    using ordonnance_blocked [OF inv some] by blast
  have n: "nbElement (fifo_tab s i) = fsize (fifo_tab s i)" using q full by (simp add: queue_holds_def)
  let ?s = "(upd_fifo i (\<lambda>f. f\<lparr>consum := Some e\<rparr>) (s\<lparr>nodes := h'\<rparr>))\<lparr>kern := k'\<rparr>"
  have "psend al (int i) x s = ret (Waiting, ?s)"
    using n queue_holds_good [OF q] h(1) k'(1,3) kinvD(7) [OF inv] kinvD(7) [OF k'(2)]
    by (simp add: psend_def sleep_here_def Let_def)
  moreover have "queue_holds ?s i ts d xs" using q by (simp add: queue_holds_def)
  ultimately show ?thesis using h(2) k'(2-4) by (intro exI [of _ ?s]) simp
qed

lemma preceive_waits:
  assumes q: "queue_holds s i ts d []"
    and inv: "kinv (kern s) a rs es ds" and some: "woken_rs (kern s) rs es = rs' @ [b]"
    and idle: "consum (fifo_tab s i) = None" and e: "new_node al (nodes s) = Some e"
    and fr: "fresh_alloc al"
  shows "\<exists>s'. preceive al (int i) s = ret (Waiting, s') \<and> kinv (kern s') b rs' (woken_es (kern s) es) ds \<and>
    b \<noteq> a \<and> a \<notin> set rs' \<union> set (woken_es (kern s) es) \<and>
    fifo_rep (nodes s') (prodl (fifo_tab s' i)) [e] [a] \<and> queue_holds s' i ts d [] \<and>
    consum (fifo_tab s' i) = None \<and> pid (proc (kern s') a) = int a"
proof -
  obtain h' where h: "add_process al None a (nodes s) = ret (Some e, h')" "fifo_rep h' (Some e) [e] [a]"
    using add_process_ok [of "nodes s" None "[]" "[]" al e a] e fr by auto
  obtain k' where k': "ordonnance (upd a (\<lambda>p. p\<lparr>state := ENDORMI\<rparr>) (kern s)) = ret k'"
    "kinv k' b rs' (woken_es (kern s) es) ds" "b \<noteq> a" "a \<notin> set rs' \<union> set (woken_es (kern s) es)"
    "pid (proc k' a) = int a"
    using ordonnance_blocked [OF inv some] by blast
  have n: "nbElement (fifo_tab s i) = 0" using q by (simp add: queue_holds_def)
  let ?s = "(upd_fifo i (\<lambda>f. f\<lparr>prodl := Some e\<rparr>) (s\<lparr>nodes := h'\<rparr>))\<lparr>kern := k'\<rparr>"
  have "preceive al (int i) s = ret (Waiting, ?s)"
    using n queue_holds_good [OF q] h(1) k'(1,3) kinvD(7) [OF inv] kinvD(7) [OF k'(2)] idle
    by (simp add: preceive_def sleep_here_def Let_def)
  moreover have "queue_holds ?s i ts d []" using q by (simp add: queue_holds_def)
  ultimately show ?thesis using h(2) k'(2-5) idle by (intro exI [of _ ?s]) simp
qed

subsection \<open>Handing over\<close>

text \<open>A process that waits in a queue is in no list of the kernel.\<close>

definition outside :: "kernel \<Rightarrow> nat list \<Rightarrow> nat list \<Rightarrow> nat list \<Rightarrow> nat \<Rightarrow> nat \<Rightarrow> bool" where
  "outside k rs es ds a p \<longleftrightarrow>
     p \<noteq> a \<and> p \<notin> set (rs @ es @ ds) \<and> p < PROCESS_TABLE_SIZE \<and> pid (proc k p) = int p"

lemma activate_ok:
  assumes inv: "kinv k a rs es ds" and p: "outside k rs es ds a p"
  shows "\<exists>k'. insert_activable p k = ret k' \<and> kinv k' a (pq_insert (prios k) p rs) es ds"
proof -
  note i = kinvD [OF inv]
  obtain q where q: "insert_activable p k = ret ((upd p set_activable k)\<lparr>head_queue := q\<rparr>)"
    "ready_ok ((upd p set_activable k)\<lparr>head_queue := q\<rparr>) (pq_insert (prios k) p rs)"
    using insert_activable_ok [OF i(10)] p by (auto simp: outside_def)
  let ?k = "(upd p set_activable k)\<lparr>head_queue := q\<rparr>"
  have "sleep_ok ?k es = sleep_ok k es"
    by (rule sleep_ok_cong) (use p in \<open>auto simp: same_links_def outside_def\<close>)
  moreover have "dead_ok ?k ds = dead_ok k ds"
    by (rule dead_ok_cong) (use p in \<open>auto simp: same_links_def outside_def\<close>)
  ultimately have "lists_ok ?k (pq_insert (prios k) p rs) es ds"
    using i(1,11,12) q(2) p by (auto simp: lists_ok_def outside_def)
  then have "kinv ?k a (pq_insert (prios k) p rs) es ds"
    using inv p by (auto simp: kinv_def running_def outside_def)
  then show ?thesis using q(1) by blast
qed

lemma psend_wakes:
  assumes q: "queue_holds s i ts d xs" and room: "length xs < length ts"
    and inv: "kinv (kern s) b rs es ds" and rep: "fifo_rep (nodes s) (prodl (fifo_tab s i)) (e # as) (p # ps)"
    and p: "outside (kern s) rs es ds b p"
  shows "\<exists>s' ts'. psend al (int i) x s = ret (Done 0, s') \<and> queue_holds s' i ts' d (xs @ [x]) \<and>
    kinv (kern s') b (pq_insert (prios (kern s)) p rs) es ds \<and>
    fifo_rep (nodes s') (prodl (fifo_tab s' i)) as ps \<and> consum (fifo_tab s' i) = consum (fifo_tab s i)"
proof -
  obtain l where l: "prodl (fifo_tab s i) = Some l" using rep by (cases "prodl (fifo_tab s i)") auto
  let ?s0 = "upd_fifo i (\<lambda>f. f\<lparr>prodl := None\<rparr>) s"
  let ?ts = "ts[(d + length xs) mod length ts := x]"
  have q0: "queue_holds ?s0 i ts d xs" using q by (simp add: queue_holds_def)
  obtain h' where h: "extract_process (Some l) (nodes s) = ret (if as = [] then None else Some l, Some p, h')"
    "fifo_rep h' (if as = [] then None else Some l) as ps"
    using extract_process_ok rep l by metis
  obtain k' where k': "insert_activable p (kern s) = ret k'" "kinv k' b (pq_insert (prios (kern s)) p rs) es ds"
    using activate_ok [OF inv p] by blast
  have f: "down (fifo_tab s i) = int d" "nbElement (fifo_tab s i) = int (length xs)"
    "fsize (fifo_tab s i) = int (length ts)" "tab_messages (fifo_tab s i) = Block ts"
    "shouldReceiveNegativeOne s = None" "length ts < 2 ^ 30" "d < length ts"
    using q by (simp_all add: queue_holds_def)
  have s1: "s32 (int d + int (length xs)) = int (d + length xs)" "s32 (int (length xs) + 1) = int (Suc (length xs))"
    using f(6,7) room by (simp_all add: s32_id)
  have x: "rem_int (int (d + length xs)) (int (length ts)) = ret (int ((d + length xs) mod length ts))"
    using f(7) by (intro rem_int_nat) linarith
  have idx: "(d + length xs) mod length ts < length ts" using f(7) by (intro mod_less_divisor) linarith
  have t: "tab_set (Block ts) (int ((d + length xs) mod length ts)) x = ret (Block ?ts)"
    using idx by (simp add: tab_set_def del: of_nat_mod)
  let ?s' = "(upd_fifo i (\<lambda>f. f\<lparr>tab_messages := Block ?ts, nbElement := int (Suc (length xs)),
      prodl := (if as = [] then None else Some l)\<rparr>) s)\<lparr>nodes := h', kern := k'\<rparr>"
  have "psend_end i b x s = ret (0, ?s')"
    using l h(1) k'(1) by (simp add: psend_end_def f s1 x t is_empty_def Let_def upd_fifo_def
        del: of_nat_Suc of_nat_add)
  moreover have "nbElement (fifo_tab s i) \<noteq> fsize (fifo_tab s i)" using q room by (simp add: queue_holds_def)
  ultimately have "psend al (int i) x s = ret (Done 0, ?s')"
    using queue_holds_good [OF q] kinvD(7) [OF inv] by (simp add: psend_def)
  moreover have "ring ?ts d (Suc (length xs)) = xs @ [x]"
    using ring_send [OF room f(7)] q unfolding queue_holds_def by metis
  then have "queue_holds ?s' i ?ts d (xs @ [x])"
    unfolding queue_holds_def using f room q by (simp add: queue_holds_def)
  ultimately show ?thesis using h(2) k'(2) by (intro exI [of _ ?s'] exI [of _ ?ts]) simp
qed

subsection \<open>Deleting and counting with processes that wait\<close>

lemma release_consum_empty: "consum (fifo_tab s i) = None \<Longrightarrow> release_consum al i s = ret s"
  by (subst release_consum.simps) (simp add: is_empty_def)

text \<open>
  The second loop never sees that \<open>prod\<close> is empty: its next turn uses the element that was given
  back, or the one that \<open>add_process\<close> was given at the same address.
\<close>

lemma release_prod_fails:
  assumes inv: "kinv (kern s) a rs es ds" and p: "outside (kern s) rs es ds a p"
    and rep: "fifo_rep (nodes s) (prodl (fifo_tab s i)) [l] [p]" and fr: "fresh_alloc al"
    and sn: "shouldReceiveNegativeOne s = None"
  shows "\<exists>f\<in>{Null_Deref, Bad_Address, Panic}. release_prod al i s = err f"
proof -
  have l: "prodl (fifo_tab s i) = Some l" using rep by (cases "prodl (fifo_tab s i)") (auto simp: fifo_rep_def)
  have rep1: "fifo_rep (nodes s) (Some l) [l] [p]" using rep by (simp add: l)
  obtain h where x: "extract_process (Some l) (nodes s) = ret (None, Some p, h)" "h l = None"
    using extract_process_ok [OF rep1] by auto
  obtain k where k: "insert_activable p (kern s) = ret k" "kinv k a (pq_insert (prios (kern s)) p rs) es ds"
    using activate_ok [OF inv p] by blast
  have busy: "insert_activable p k = err Panic"
    by (rule insert_activable_busy [OF kinvD(10) [OF k(2)]]) simp
  let ?s1 = "upd_fifo i (\<lambda>f. f\<lparr>consum := None\<rparr>) (s\<lparr>nodes := h\<rparr>)"
  have step: "release_prod al i s = bindr (release al (Some p) ?s1) (\<lambda>s1. release_prod al i s1)"
    by (subst release_prod.simps) (simp add: l is_empty_def x(1))
  show ?thesis
  proof (cases "new_node al h")
    case None
    then have "release al (Some p) ?s1 = err Null_Deref"
      by (simp add: release_def k(1) sn add_process_def init_element_def)
    then show ?thesis using step by simp
  next
    case (Some e)
    obtain h2 where h2: "add_process al None p h = ret (Some e, h2)" "fifo_rep h2 (Some e) [e] [p]"
      "\<forall>b. b \<noteq> e \<longrightarrow> h2 b = h b"
      using add_process_ok [of h None "[]" "[]" al e p] Some fr by auto
    let ?s2 = "?s1\<lparr>kern := k, nodes := h2\<rparr>"
    have rel: "release al (Some p) ?s1 = ret ?s2" by (simp add: release_def k(1) sn h2(1))
    have l2: "prodl (fifo_tab ?s2 i) = Some l" by (simp add: l)
    show ?thesis
    proof (cases "e = l")
      case True
      then obtain h3 where "extract_process (Some l) h2 = ret (None, Some p, h3)"
        using extract_process_ok [of h2 l l "[]" p "[]"] h2(2) by auto
      then have "release_prod al i ?s2 = err Panic"
        by (subst release_prod.simps) (simp add: l is_empty_def release_def busy)
      then show ?thesis using step rel by simp
    next
      case False
      then have "h2 l = None" using h2(3) x(2) by simp
      then have "extract_process (Some l) h2 = err Bad_Address"
        by (simp add: extract_process_def is_empty_def node_at_def)
      then have "release_prod al i ?s2 = err Bad_Address"
        by (subst release_prod.simps) (simp add: l is_empty_def)
      then show ?thesis using step rel by simp
    qed
  qed
qed

lemma pcount_waiting:
  assumes "0 \<le> n" "n < NBQUEUE"
    and "fifo_rep (nodes s) (consum (fifo_tab s (nat n))) as ps" "fifo_rep (nodes s) (prodl (fifo_tab s (nat n))) bs qs"
    and "ps \<noteq> [] \<or> qs \<noteq> []"
  shows "pcount n s = None"
proof -
  have hang: "getSize p (nodes s) = None" if r: "fifo_rep (nodes s) p cs rs" "rs \<noteq> []" for p cs rs
  proof -
    obtain l where l: "p = Some l" using r by (cases p) auto
    then have "l \<in> set cs" using r(1) by (auto simp: fifo_rep_Some)
    then show ?thesis using getSize_loop_diverges r(1) l by (simp add: getSize_def)
  qed
  have none: "getSize p (nodes s) = ret 0" if "fifo_rep (nodes s) p cs []" for p cs
  proof -
    have "p = None" using fifo_rep_empty [OF that] by simp
    then show ?thesis by (simp add: getSize_def, subst getSize_loop.simps, simp add: is_empty_def)
  qed
  show ?thesis
  proof (cases "ps = []")
    case True
    then show ?thesis using assms none hang [OF assms(4)] by (simp add: pcount_def Let_def)
  next
    case False
    then show ?thesis using assms hang [OF assms(3)] by (simp add: pcount_def Let_def)
  qed
qed

lemma pcount_idle:
  assumes "queue_holds s i ts d xs" and "consum (fifo_tab s i) = None" "prodl (fifo_tab s i) = None"
  shows "pcount (int i) s = ret (0, if xs = [] then None else Some (int (length xs)))"
proof -
  have none: "getSize None (nodes s) = ret 0"
    by (simp add: getSize_def, subst getSize_loop.simps, simp add: is_empty_def)
  show ?thesis using assms by (simp add: pcount_def queue_holds_def none Let_def)
qed

end
