(* ===== verification/Message_Props.thy ===== *)
theory Message_Props
  imports Message_Ok Kernel_Props
begin

text \<open>
  The properties of the message queues (kernel/message.c and kernel/fifo_process.c), with an
  allocator and a state in which they are applied.
\<close>

definition sample_alloc :: allocator where
  "sample_alloc = \<lparr>new_node = (\<lambda>h. find (\<lambda>a. h a = None) [0..<100]),
     new_block = (\<lambda>n. if unat n mod 4 = 0 then Some (replicate (unat n div 4) 0) else None)\<rparr>"

definition unused_fifo :: fifo_messages where
  "unused_fifo = \<lparr>consum = None, prodl = None, tab_messages = Null_Block, fsize = 0, nbElement = 0,
     down = 0, fid = 0, used = False\<rparr>"

definition sample_ipc :: ipc where
  "sample_ipc = \<lparr>kern = sample, nodes = (\<lambda>_. None), fifo_tab = (\<lambda>_. unused_fifo), shouldReceiveNegativeOne = None\<rparr>"

text \<open>The same with the queue 0 in use, of size 2: empty, and full.\<close>

definition empty_ipc :: ipc where
  "empty_ipc = upd_fifo 0 (\<lambda>f. f\<lparr>used := True, fsize := 2, tab_messages := Block [0, 0]\<rparr>) sample_ipc"

definition full_ipc :: ipc where
  "full_ipc = upd_fifo 0 (\<lambda>f. f\<lparr>nbElement := 2, tab_messages := Block [7, 8]\<rparr>) empty_ipc"

definition wait_ipc :: ipc where
  "wait_ipc = upd_fifo 0 (\<lambda>f. f\<lparr>prodl := Some 0\<rparr>)
     (empty_ipc\<lparr>nodes := [0 \<mapsto> \<lparr>node_proc = 6, node_next = Some 0\<rparr>]\<rparr>)"

lemmas sample_ipc_simps = wait_ipc_def full_ipc_def empty_ipc_def sample_ipc_def unused_fifo_def

lemma fresh_sample: "fresh_alloc sample_alloc"
  by (auto simp: fresh_alloc_def sample_alloc_def find_Some_iff)

lemma sized_sample: "sized_alloc sample_alloc"
  by (auto simp: sized_alloc_def sample_alloc_def split: if_splits)

lemma new_block_sample:
  "new_block sample_alloc n = (if unat n mod 4 = 0 then Some (replicate (unat n div 4) 0) else None)"
  by (simp only: sample_alloc_def allocator.simps)

lemma new_node_sample: "h 0 = None \<Longrightarrow> new_node sample_alloc h = Some 0"
  by (simp add: sample_alloc_def upt_conv_Cons)

lemma kern_samples [simp]:
  "kern sample_ipc = sample" "kern empty_ipc = sample" "kern full_ipc = sample" "kern wait_ipc = sample"
  by (simp_all add: sample_ipc_simps)

lemma holds_empty: "queue_holds empty_ipc 0 [0, 0] 0 []" "queue_holds wait_ipc 0 [0, 0] 0 []"
  by (simp_all add: queue_holds_def sample_ipc_simps NBQUEUE_def ring_def)

lemma holds_full: "queue_holds full_ipc 0 [7, 8] 0 [7, 8]"
  by (simp add: queue_holds_def sample_ipc_simps NBQUEUE_def ring_def)

lemma woken_sample_split: "woken_rs sample [0, 2, 3] [4] = [0, 2] @ [3]"
  by (simp add: woken_sample)

lemma wait_rep: "fifo_rep (nodes wait_ipc) (prodl (fifo_tab wait_ipc 0)) [0] [6]"
  by (simp add: sample_ipc_simps fifo_rep_def nexts_def node_of_def)

lemma outside_sample: "outside sample [0, 2, 3] [4] [5] 1 6"
  by (simp add: outside_def PROCESS_TABLE_SIZE_def) (simp add: sample_simps)

text \<open>
  C15: A message queue made by pcreate is a bounded first-in first-out queue: any run of sends and
  receives in which the specification never has to wait returns what the specification returns,
  whatever the positions at which the circular table wraps around.
\<close>

theorem message_queue_is_bounded_fifo:
  assumes "0 < n" and "n < 2 ^ 30" and "free_fid s = Some i" and "sized_alloc al"
    and "new_block al (4 * word_of_int (int n)) = Some ts" and "shouldReceiveNegativeOne s = None"
    and "actif (kern s) = Some me" and "fifo_run n ops [] = Some rs"
  shows "\<exists>s'. pcreate al (int n) s = (int i, s') \<and> msg_run al i ops s' = ret (map Done rs)"
proof -
  obtain s' where s': "pcreate al (int n) s = (int i, s')" "queue_holds s' i ts 0 []" "length ts = n"
    "consum (fifo_tab s' i) = None" "prodl (fifo_tab s' i) = None" "kern s' = kern s"
    using pcreate_ok [OF assms(1-6)] by blast
  then have "msg_run al i ops s' = ret (map Done rs)"
    using assms(7,8) by (intro msg_run_ok [OF s'(2,4,5)]) simp_all
  then show ?thesis using s'(1) by blast
qed

theorem message_queue_is_bounded_fifo_witness:
  "\<exists>s'. pcreate sample_alloc 2 sample_ipc = (0, s') \<and>
     msg_run sample_alloc 0 [Send 5, Send 6, Receive, Send 7, Receive, Receive] s' =
       ret [Done (0, None), Done (0, None), Done (0, Some 5), Done (0, None), Done (0, Some 6), Done (0, Some 7)]"
proof -
  have free: "free_fid sample_ipc = Some 0"
    by (simp add: free_fid_def NBQUEUE_def sample_ipc_simps upt_conv_Cons)
  have "unat (4 * word_of_int (int 2) :: u32) = 8" by simp
  moreover have "replicate 2 (0 :: int) = [0, 0]" by (simp add: numeral_eq_Suc)
  ultimately have blk: "new_block sample_alloc (4 * word_of_int (int 2)) = Some [0, 0]"
    unfolding new_block_sample by simp
  have act: "actif (kern sample_ipc) = Some 1" "shouldReceiveNegativeOne sample_ipc = None"
    by (simp_all add: sample_ipc_simps) (simp add: sample_def)
  let ?ops = "[Send 5, Send 6, Receive, Send 7, Receive, Receive]"
  have run: "fifo_run 2 ?ops [] = Some [(0, None), (0, None), (0, Some 5), (0, None), (0, Some 6), (0, Some 7)]"
    by simp
  have "(0::nat) < 2" "(2::nat) < 2 ^ 30" by simp_all
  from message_queue_is_bounded_fifo [OF this free sized_sample blk act(2,1) run]
  show ?thesis by (simp del: msg_run.simps)
qed

text \<open>
  C16: A receiver that finds the queue empty gives up the processor to the elected process; when
  that process sends a message, the receiver is made ready, and the end of its call returns that
  message and leaves the queue empty.
\<close>

theorem message_reaches_waiting_receiver:
  assumes q: "queue_holds s i ts d []" and inv: "kinv (kern s) a rs es ds"
    and some: "woken_rs (kern s) rs es = rs' @ [b]" and idle: "consum (fifo_tab s i) = None"
    and e: "new_node al (nodes s) = Some e" and fr: "fresh_alloc al"
  shows "\<exists>s1 s2 s3 rs2 ts' d'. preceive al (int i) s = ret (Waiting, s1) \<and> actif (kern s1) = Some b \<and>
    psend al (int i) x s1 = ret (Done 0, s2) \<and> kinv (kern s2) b rs2 (woken_es (kern s) es) ds \<and> a \<in> set rs2 \<and>
    preceive_end i a s2 = ret ((0, Some x), s3) \<and> queue_holds s3 i ts' d' []"
proof -
  obtain s1 where s1: "preceive al (int i) s = ret (Waiting, s1)" "kinv (kern s1) b rs' (woken_es (kern s) es) ds"
    "b \<noteq> a" "a \<notin> set rs' \<union> set (woken_es (kern s) es)" "fifo_rep (nodes s1) (prodl (fifo_tab s1 i)) [e] [a]"
    "queue_holds s1 i ts d []" "consum (fifo_tab s1 i) = None" "pid (proc (kern s1) a) = int a"
    using preceive_waits [OF q inv some idle e fr] by blast
  have out: "outside (kern s1) rs' (woken_es (kern s) es) ds b a"
    using s1(3,4,8) kinvD(5,8) [OF inv] by (auto simp: outside_def)
  have "d < length ts" using q by (simp add: queue_holds_def)
  then have room: "length ([] :: int list) < length ts" by (cases ts) simp_all
  obtain s2 ts' where s2: "psend al (int i) x s1 = ret (Done 0, s2)" "queue_holds s2 i ts' d ([] @ [x])"
    "kinv (kern s2) b (pq_insert (prios (kern s1)) a rs') (woken_es (kern s) es) ds"
    "consum (fifo_tab s2 i) = consum (fifo_tab s1 i)"
    using psend_wakes [OF s1(6) room s1(2,5) out, of al x] by blast
  obtain s3 d' where s3: "preceive_end i a s2 = ret ((0, Some x), s3)" "queue_holds s3 i ts' d' []"
    using preceive_end_take [of s2 i ts' d x "[]" a] s2(2,4) s1(7) by auto
  have "a \<in> set (pq_insert (prios (kern s1)) a rs')" by simp
  then show ?thesis using s1(1,2) s2 s3 kinvD(7) [OF s1(2)] by blast
qed

theorem message_reaches_waiting_receiver_witness:
  "\<exists>s1 s2 s3. preceive sample_alloc 0 empty_ipc = ret (Waiting, s1) \<and> actif (kern s1) = Some 3 \<and>
     psend sample_alloc 0 99 s1 = ret (Done 0, s2) \<and> preceive_end 0 1 s2 = ret ((0, Some 99), s3)"
proof -
  have "kinv (kern empty_ipc) 1 [0, 2, 3] [4] [5]" using kinv_sample by simp
  moreover have "woken_rs (kern empty_ipc) [0, 2, 3] [4] = [0, 2] @ [3]" using woken_sample_split by simp
  moreover have "consum (fifo_tab empty_ipc 0) = None" by (simp add: sample_ipc_simps)
  moreover have "new_node sample_alloc (nodes empty_ipc) = Some 0"
    by (rule new_node_sample) (simp add: sample_ipc_simps)
  ultimately show ?thesis
    using message_reaches_waiting_receiver [OF holds_empty(1) _ _ _ _ fresh_sample, of 1 "[0, 2, 3]" "[4]" "[5]" "[0, 2]" 3 0 99]
    by auto
qed

text \<open>
  A sender that finds the queue full becomes the last of the senders that wait, in no other
  list, the elected process runs, and the messages are not changed.
\<close>

theorem psend_full_waits:
  assumes q: "queue_holds s i ts d xs" and full: "length xs = length ts"
    and inv: "kinv (kern s) a rs es ds" and some: "woken_rs (kern s) rs es = rs' @ [b]"
    and rep: "fifo_rep (nodes s) (consum (fifo_tab s i)) as ps" and e: "new_node al (nodes s) = Some e"
    and fr: "fresh_alloc al"
  shows "\<exists>s'. psend al (int i) x s = ret (Waiting, s') \<and> kinv (kern s') b rs' (woken_es (kern s) es) ds \<and>
    a \<notin> set (b # rs' @ woken_es (kern s) es) \<and>
    fifo_rep (nodes s') (consum (fifo_tab s' i)) (as @ [e]) (ps @ [a]) \<and> queue_holds s' i ts d xs"
proof -
  obtain s' where "psend al (int i) x s = ret (Waiting, s')" "kinv (kern s') b rs' (woken_es (kern s) es) ds"
    "b \<noteq> a" "a \<notin> set rs' \<union> set (woken_es (kern s) es)"
    "fifo_rep (nodes s') (consum (fifo_tab s' i)) (as @ [e]) (ps @ [a])" "queue_holds s' i ts d xs"
    using psend_waits [OF q full inv some rep e fr] by blast
  then show ?thesis by (intro exI [of _ s']) auto
qed

theorem psend_full_waits_witness:
  "\<exists>s'. psend sample_alloc 0 9 full_ipc = ret (Waiting, s') \<and> kinv (kern s') 3 [0, 2] [4] [5] \<and>
     fifo_rep (nodes s') (consum (fifo_tab s' 0)) [0] [1] \<and> queue_holds s' 0 [7, 8] 0 [7, 8]"
proof -
  have "kinv (kern full_ipc) 1 [0, 2, 3] [4] [5]" using kinv_sample by simp
  moreover have "woken_rs (kern full_ipc) [0, 2, 3] [4] = [0, 2] @ [3]" using woken_sample_split by simp
  moreover have "fifo_rep (nodes full_ipc) (consum (fifo_tab full_ipc 0)) [] []"
    by (simp add: sample_ipc_simps)
  moreover have "new_node sample_alloc (nodes full_ipc) = Some 0"
    by (rule new_node_sample) (simp add: sample_ipc_simps)
  ultimately show ?thesis
    using psend_full_waits [OF holds_full, of 1 "[0, 2, 3]" "[4]" "[5]" "[0, 2]" 3 "[]" "[]" sample_alloc 0 9]
      fresh_sample woken_sample(2) by auto
qed

text \<open>
  A receiver that waits takes the place of the receivers that waited before it: they are in no
  list any more, and no message will wake them.
\<close>

theorem preceive_drops_earlier_receivers:
  assumes "queue_holds s i ts d []" and "kinv (kern s) a rs es ds"
    and "woken_rs (kern s) rs es = rs' @ [b]" and "consum (fifo_tab s i) = None"
    and "fifo_rep (nodes s) (prodl (fifo_tab s i)) as ps" and "\<forall>p\<in>set ps. outside (kern s) rs es ds a p"
    and "new_node al (nodes s) = Some e" and "fresh_alloc al"
  shows "\<exists>s'. preceive al (int i) s = ret (Waiting, s') \<and> kinv (kern s') b rs' (woken_es (kern s) es) ds \<and>
    fifo_rep (nodes s') (prodl (fifo_tab s' i)) [e] [a] \<and> consum (fifo_tab s' i) = None \<and>
    (\<forall>p\<in>set ps. p \<notin> set (a # b # rs' @ woken_es (kern s) es @ ds))"
proof -
  obtain s' where s': "preceive al (int i) s = ret (Waiting, s')" "kinv (kern s') b rs' (woken_es (kern s) es) ds"
    "fifo_rep (nodes s') (prodl (fifo_tab s' i)) [e] [a]" "consum (fifo_tab s' i) = None"
    using preceive_waits [OF assms(1-4,7,8)] by blast
  have "p \<notin> set (a # b # rs' @ woken_es (kern s) es @ ds)" if "p \<in> set ps" for p
  proof -
    have p: "p \<noteq> a" "p \<notin> set rs \<union> set es" "p \<notin> set ds" using assms(6) that by (auto simp: outside_def)
    then have "p \<notin> set (rs' @ [b])" "p \<notin> set (woken_es (kern s) es)"
      using in_woken_rs [of p "kern s" rs es] in_woken_es [of p "kern s" es] assms(3) by auto
    then show ?thesis using p by auto
  qed
  then show ?thesis using s' by blast
qed

theorem preceive_drops_earlier_receivers_witness:
  "\<exists>s'. preceive sample_alloc 0 wait_ipc = ret (Waiting, s') \<and>
     fifo_rep (nodes s') (prodl (fifo_tab s' 0)) [1] [1] \<and> kinv (kern s') 3 [0, 2] [4] [5]"
proof -
  have 1: "kinv (kern wait_ipc) 1 [0, 2, 3] [4] [5]" using kinv_sample by simp
  have 2: "woken_rs (kern wait_ipc) [0, 2, 3] [4] = [0, 2] @ [3]" using woken_sample_split by simp
  have 3: "consum (fifo_tab wait_ipc 0) = None" by (simp add: sample_ipc_simps)
  have 4: "\<forall>p\<in>set [6]. outside (kern wait_ipc) [0, 2, 3] [4] [5] 1 p" using outside_sample by simp
  have 5: "new_node sample_alloc (nodes wait_ipc) = Some 1"
    by (simp add: sample_alloc_def sample_ipc_simps upt_conv_Cons)
  show ?thesis
    using preceive_drops_earlier_receivers [OF holds_empty(2) 1 2 3 wait_rep 4 5 fresh_sample] woken_sample(2)
    by auto
qed

text \<open>
  pdelete and preset never return when a receiver waits on the queue: the loop over prod tests
  an element that was given back, and ends with a fault or with the failed assertion of queue_add.
\<close>

theorem pdelete_with_receiver_fails:
  assumes used: "\<not> bad_fid (int i) s" and inv: "kinv (kern s) a rs es ds" and out: "outside (kern s) rs es ds a p"
    and idle: "consum (fifo_tab s i) = None" and rep: "fifo_rep (nodes s) (prodl (fifo_tab s i)) [l] [p]"
    and fr: "fresh_alloc al" and sn: "shouldReceiveNegativeOne s = None"
  shows "(\<exists>f\<in>{Null_Deref, Bad_Address, Panic}. pdelete al (int i) s = err f) \<and>
    (\<exists>f\<in>{Null_Deref, Bad_Address, Panic}. preset al (int i) s = err f)"
proof (intro conjI)
  have fails: "\<exists>f\<in>{Null_Deref, Bad_Address, Panic}.
      bindr (release_consum al i s1) (\<lambda>s3. bindr (release_prod al i s3) (\<lambda>s4. ret (0 :: int, s4))) = err f"
    if "kern s1 = kern s" "nodes s1 = nodes s" "consum (fifo_tab s1 i) = None"
      "prodl (fifo_tab s1 i) = prodl (fifo_tab s i)" "shouldReceiveNegativeOne s1 = None" for s1
    using release_prod_fails [of s1 a rs es ds p i l al] that inv out rep fr release_consum_empty [OF that(3)]
    by fastforce
  show "\<exists>f\<in>{Null_Deref, Bad_Address, Panic}. pdelete al (int i) s = err f"
    using used fails idle sn by (simp add: pdelete_def Let_def)
  show "\<exists>f\<in>{Null_Deref, Bad_Address, Panic}. preset al (int i) s = err f"
    using used fails idle sn by (simp add: preset_def Let_def)
qed

theorem pdelete_with_receiver_fails_witness:
  "\<exists>f. pdelete sample_alloc 0 wait_ipc = err f"
proof -
  have "\<not> bad_fid (int 0) wait_ipc" by (simp add: bad_fid_def NBQUEUE_def sample_ipc_simps)
  moreover have "kinv (kern wait_ipc) 1 [0, 2, 3] [4] [5]" using kinv_sample by simp
  moreover have "outside (kern wait_ipc) [0, 2, 3] [4] [5] 1 6" using outside_sample by simp
  moreover have "consum (fifo_tab wait_ipc 0) = None" "shouldReceiveNegativeOne wait_ipc = None"
    by (simp_all add: sample_ipc_simps)
  ultimately show ?thesis using pdelete_with_receiver_fails [OF _ _ _ _ wait_rep fresh_sample] by fastforce
qed

text \<open>
  pcount returns the number of messages when nobody waits, but leaves *count unset when there is
  none, and it never returns when a process waits: the list it counts is circular.
\<close>

theorem pcount_returns_or_hangs:
  assumes q: "queue_holds s i ts d xs"
    and reps: "fifo_rep (nodes s) (consum (fifo_tab s i)) as ps" "fifo_rep (nodes s) (prodl (fifo_tab s i)) bs qs"
  shows "pcount (int i) s =
    (if ps = [] \<and> qs = [] then ret (0, if xs = [] then None else Some (int (length xs))) else None)"
proof (cases "ps = [] \<and> qs = []")
  case True
  then have "consum (fifo_tab s i) = None" "prodl (fifo_tab s i) = None"
    using fifo_rep_empty [OF reps(1)] fifo_rep_empty [OF reps(2)] by simp_all
  then show ?thesis using pcount_idle [OF q] True by simp
next
  case False
  then show ?thesis using pcount_waiting [of "int i" s as ps bs qs] reps q by (auto simp: queue_holds_def)
qed

theorem pcount_returns_or_hangs_witness:
  "pcount 0 full_ipc = ret (0, Some 2) \<and> pcount 0 wait_ipc = None"
proof -
  have "fifo_rep (nodes full_ipc) (consum (fifo_tab full_ipc 0)) [] []"
    "fifo_rep (nodes full_ipc) (prodl (fifo_tab full_ipc 0)) [] []"
    "fifo_rep (nodes wait_ipc) (consum (fifo_tab wait_ipc 0)) [] []"
    by (simp_all add: sample_ipc_simps)
  then show ?thesis
    using pcount_returns_or_hangs [OF holds_full] pcount_returns_or_hangs [OF holds_empty(2) _ wait_rep]
    by fastforce
qed

end
