(* ===== verification/Strto.thy ===== *)
theory Strto
  imports Strings
begin

text \<open>
  shared/strtol.c, shared/strtoul.c and \<open>isspace\<close> of shared/ctype.h. The loops stop at the first
  byte they do not take: they are partial functions on the address. \<open>out_p\<close> is \<open>None\<close> when it is
  NULL, and else the value of the pointer of the caller, which becomes the end of the number.
\<close>

text \<open>A plain \<open>char\<close> is signed.\<close>

definition schar :: "u8 \<Rightarrow> int" where
  "schar c = sint c"

text \<open>Signed 32-bit arithmetic wraps around.\<close>

definition w32 :: "int \<Rightarrow> int" where
  "w32 x = sint (word_of_int x :: u32)"

definition isspace :: "int \<Rightarrow> bool" where
  "isspace c \<longleftrightarrow> c = 32 \<or> c = 12 \<or> c = 10 \<or> c = 13 \<or> c = 9 \<or> c = 11"

partial_function (option) skip_spaces :: "memory \<Rightarrow> u32 \<Rightarrow> u32 res" where
  "skip_spaces m p = (if isspace (schar (m p)) then skip_spaces m (p + 1) else ret p)"

text \<open>The prefix 0x, and the base of a number: the position after the prefix, and the base.\<close>

definition number_base :: "memory \<Rightarrow> u32 \<Rightarrow> int \<Rightarrow> u32 \<times> int" where
  "number_base m p base =
     (let (p1, base1) =
        (if (base = 16 \<or> base = 0) \<and> m p = 48 \<and> (m (p + 1) = 120 \<or> m (p + 1) = 88)
         then (p + 2, 16) else (p, base))
      in (p1, if base1 = 0 then (if m p1 = 48 then 8 else 10) else base1))"

text \<open>The digit that a character stands for, if it is one in this base.\<close>

definition digit_of :: "int \<Rightarrow> u8 \<Rightarrow> int option" where
  "digit_of base b =
     (let c = schar b in
      if c \<ge> 48 \<and> c \<le> 57 \<and> c - 48 < base then Some (c - 48)
      else if c \<ge> 97 \<and> c \<le> 122 \<and> c - 97 + 10 < base then Some (c - 97 + 10)
      else if c \<ge> 65 \<and> c \<le> 90 \<and> c - 65 + 10 < base then Some (c - 65 + 10)
      else None)"

partial_function (option) strtol_loop :: "memory \<Rightarrow> int \<Rightarrow> u32 \<Rightarrow> int \<Rightarrow> (int \<times> u32) res" where
  "strtol_loop m base p v =
     (case digit_of base (m p) of
        Some d \<Rightarrow> strtol_loop m base (p + 1) (w32 (v * base + d))
      | None \<Rightarrow> ret (v, p))"

definition strtol :: "u32 \<Rightarrow> u32 option \<Rightarrow> int \<Rightarrow> memory \<Rightarrow> (int \<times> u32 option) res" where
  "strtol p out_p base m =
     bindr (skip_spaces m p) (\<lambda>p1.
     let (is_neg, p2) = (if m p1 = 45 then (True, p1 + 1) else (False, p1));
         (p3, base1) = number_base m p2 base
     in bindr (strtol_loop m base1 p3 0) (\<lambda>(v, p4).
        ret (if is_neg then w32 (- v) else v, case out_p of None \<Rightarrow> None | Some _ \<Rightarrow> Some p4)))"

partial_function (option) strtoul_loop :: "memory \<Rightarrow> int \<Rightarrow> u32 \<Rightarrow> u32 \<Rightarrow> (u32 \<times> u32) res" where
  "strtoul_loop m base p v =
     (case digit_of base (m p) of
        Some d \<Rightarrow> strtoul_loop m base (p + 1) (v * word_of_int base + word_of_int d)
      | None \<Rightarrow> ret (v, p))"

definition strtoul :: "u32 \<Rightarrow> u32 option \<Rightarrow> int \<Rightarrow> memory \<Rightarrow> (u32 \<times> u32 option) res" where
  "strtoul p out_p base m =
     bindr (skip_spaces m p) (\<lambda>p1.
     let (p2, base1) = number_base m p1 base
     in bindr (strtoul_loop m base1 p2 0) (\<lambda>(v, p3).
        ret (v, case out_p of None \<Rightarrow> None | Some _ \<Rightarrow> Some p3)))"

subsection \<open>The number in a string\<close>

lemma schar_small: "b < 128 \<Longrightarrow> schar b = uint b"
proof -
  assume "b < 128"
  then have "uint b < 2 ^ 7" by (simp add: word_less_def)
  moreover have "0 \<le> uint b" by simp
  ultimately show ?thesis unfolding schar_def
    by (subst sint_uint, subst signed_take_bit_int_eq_self) (simp_all add: order_trans [of _ 0])
qed

text \<open>The digits \<open>ds\<close> are read, up to a byte that is not a digit.\<close>

fun number_at :: "memory \<Rightarrow> u32 \<Rightarrow> int \<Rightarrow> u8 list \<Rightarrow> int list \<Rightarrow> bool" where
  "number_at m p base [] [] \<longleftrightarrow> digit_of base (m p) = None"
| "number_at m p base (b # bs) (d # ds) \<longleftrightarrow>
     m p = b \<and> digit_of base b = Some d \<and> number_at m (p + 1) base bs ds"
| "number_at m p base _ _ \<longleftrightarrow> False"

definition int_of :: "int \<Rightarrow> int list \<Rightarrow> int \<Rightarrow> int" where
  "int_of base ds v = foldl (\<lambda>v d. v * base + d) v ds"

lemma int_of_Cons: "int_of base (d # ds) v = int_of base ds (v * base + d)"
  by (simp add: int_of_def)

lemma w32_mod: "w32 (w32 a * b + c) = w32 (a * b + c)"
  unfolding w32_def by (rule arg_cong [where f = sint]) simp

lemma int_of_w32: "w32 (int_of base ds (w32 v)) = w32 (int_of base ds v)"
proof (induction ds arbitrary: v)
  case Nil
  then show ?case using w32_mod [of v 1 0] by (simp add: int_of_def)
next
  case (Cons d ds)
  have "w32 (int_of base ds (w32 v * base + d)) = w32 (int_of base ds (w32 (w32 v * base + d)))"
    by (rule Cons [symmetric])
  also have "\<dots> = w32 (int_of base ds (v * base + d))" unfolding w32_mod by (rule Cons)
  finally show ?case by (simp add: int_of_Cons)
qed

lemma strtol_loop_ok:
  "number_at m p base bs ds \<Longrightarrow>
   strtol_loop m base p (w32 v) = ret (w32 (int_of base ds v), p + of_nat (length bs))"
proof (induction m p base bs ds arbitrary: v rule: number_at.induct)
  case (2 m p base b bs d ds)
  then show ?case by (subst strtol_loop.simps) (simp add: int_of_Cons w32_mod add.assoc)
qed (subst strtol_loop.simps, simp_all add: int_of_def)

lemma strtoul_loop_ok:
  "number_at m p base bs ds \<Longrightarrow>
   strtoul_loop m base p (word_of_int v) = ret (word_of_int (int_of base ds v), p + of_nat (length bs))"
proof (induction m p base bs ds arbitrary: v rule: number_at.induct)
  case (2 m p base b bs d ds)
  have step: "word_of_int v * word_of_int base + word_of_int d = (word_of_int (v * base + d) :: u32)" by simp
  show ?case using 2 by (subst strtoul_loop.simps) (simp only: number_at.simps option.case step int_of_Cons
    length_Cons of_nat_Suc add.assoc simp_thms)
qed (subst strtoul_loop.simps, simp_all add: int_of_def)

text \<open>A digit never ends a search for the space, nor is it a sign.\<close>

lemma digit_not_space: "digit_of base b = Some d \<Longrightarrow> \<not> isspace (schar b) \<and> b \<noteq> 45"
  by (auto simp: digit_of_def Let_def isspace_def schar_def split: if_splits)

lemma number_at_space:
  assumes "number_at m p base bs ds" "bs \<noteq> []"
  shows "skip_spaces m p = ret p" "m p \<noteq> 45"
proof -
  obtain b bs' d ds' where "bs = b # bs'" "ds = d # ds'"
    using assms by (cases bs; cases ds) auto
  then have "\<not> isspace (schar (m p)) \<and> m p \<noteq> 45" using assms(1) digit_not_space by auto
  then show "skip_spaces m p = ret p" "m p \<noteq> 45" by (subst skip_spaces.simps, simp, simp)
qed

lemma skip_spaces_sign: "m p = 45 \<Longrightarrow> skip_spaces m p = ret p"
  by (subst skip_spaces.simps) (simp add: isspace_def schar_def)

text \<open>A base of 16 reads past a prefix 0x; without one it is kept.\<close>

lemma number_base_other: "base \<noteq> 0 \<Longrightarrow> base \<noteq> 16 \<Longrightarrow> number_base m p base = (p, base)"
  by (simp add: number_base_def)

lemma number_base_digits:
  assumes "number_at m p 16 bs ds" "m (p + of_nat (length bs)) \<notin> {120, 88}"
  shows "number_base m p 16 = (p, 16)"
proof -
  have no: "\<not> (m p = 48 \<and> (m (p + 1) = 120 \<or> m (p + 1) = 88))"
  proof
    assume x: "m p = 48 \<and> (m (p + 1) = 120 \<or> m (p + 1) = 88)"
    have nd: "digit_of 16 120 = None" "digit_of 16 88 = None"
      by (simp_all add: digit_of_def schar_def)
    have "digit_of 16 48 = Some 0" by (simp add: digit_of_def schar_def)
    then obtain b bs' d ds' where b: "bs = b # bs'" "ds = d # ds'"
      using assms x by (cases bs; cases ds) auto
    then have "number_at m (p + 1) 16 bs' ds'" using assms by simp
    then show False using x nd b assms(2) by (cases bs'; cases ds') auto
  qed
  then show ?thesis by (auto simp: number_base_def)
qed

end
