(* ===== verification/Doprnt.thy ===== *)
theory Doprnt
  imports Strto
begin

text \<open>
  The formatted output of shared/doprnt.c. \<open>putc\<close> is a function on the state of the caller, as the
  C code calls it through a pointer, and strings are read in the memory of that state, which \<open>putc\<close>
  may change. A format is the list of the bytes of its string. The arguments are the words on the
  stack; reading more of them than there are is the fault \<open>Out_Of_Bounds\<close>. Integers and
  pointers have 32 bits. The flag \<open>_doprnt_truncates\<close> is never set, and \<open>DOPRNT_FLOATS\<close> is not
  defined.
\<close>

abbreviation asc :: "char \<Rightarrow> u8" where
  "asc c \<equiv> of_char c"

definition va_arg :: "u32 list \<Rightarrow> (u32 \<times> u32 list) res" where
  "va_arg args = (case args of [] \<Rightarrow> err Out_Of_Bounds | a # as \<Rightarrow> ret (a, as))"

definition isdigit :: "u8 \<Rightarrow> bool" where
  "isdigit d \<longleftrightarrow> asc CHR ''0'' \<le> d \<and> d \<le> asc CHR ''9''"

definition Ctod :: "u8 \<Rightarrow> int" where
  "Ctod c = uint c - uint (asc CHR ''0'')"

text \<open>The first byte of the rest of a string.\<close>

definition peek :: "u8 list \<Rightarrow> u8" where
  "peek fmt = (case fmt of [] \<Rightarrow> 0 | c # _ \<Rightarrow> c)"

subsection \<open>Digits\<close>

definition MAXBUF :: nat where "MAXBUF = 32"

text \<open>The array \<open>digs\<close>, with its final NUL.\<close>

definition digs :: "u8 list" where
  "digs = [48, 49, 50, 51, 52, 53, 54, 55, 56, 57, 97, 98, 99, 100, 101, 102, 0]"

definition digit_at :: "u32 \<Rightarrow> u8 res" where
  "digit_at i = (if unat i < length digs then ret (digs ! unat i) else err Out_Of_Bounds)"

text \<open>
  The loop that writes the digits of \<open>u\<close> from the end of \<open>buf\<close> backwards; \<open>room\<close> bytes are left
  in front of \<open>p\<close>, and \<open>ds\<close> are those after \<open>p\<close>.
\<close>

fun digits_loop :: "nat \<Rightarrow> u32 \<Rightarrow> u32 \<Rightarrow> u8 list \<Rightarrow> u8 list res" where
  "digits_loop 0 u base ds = err Out_Of_Bounds"
| "digits_loop (Suc room) u base ds =
     (if base = 0 then err Divide_Error
      else bindr (digit_at (u mod base)) (\<lambda>d.
        let u1 = u div base
        in if u1 \<noteq> 0 then digits_loop room u1 base (d # ds) else ret (d # ds)))"

definition putcs :: "(u8 \<Rightarrow> 's \<Rightarrow> 's) \<Rightarrow> u8 list \<Rightarrow> 's \<Rightarrow> 's" where
  "putcs putc cs s = fold putc cs s"

definition printnum :: "(u8 \<Rightarrow> 's \<Rightarrow> 's) \<Rightarrow> u32 \<Rightarrow> int \<Rightarrow> 's \<Rightarrow> 's res" where
  "printnum putc u base s =
     bindr (digits_loop MAXBUF u (word_of_int base) []) (\<lambda>ds. ret (putcs putc ds s))"

subsection \<open>The conversion specification\<close>

record conv =
  width :: int
  prec :: int
  ladjust :: bool
  padc :: u8
  plus_sign :: u8
  altfmt :: bool

definition no_conv :: conv where
  "no_conv = \<lparr>width = 0, prec = -1, ladjust = False, padc = asc CHR '' '', plus_sign = 0, altfmt = False\<rparr>"

fun flags :: "u8 list \<Rightarrow> conv \<Rightarrow> u8 list \<times> conv" where
  "flags [] v = ([], v)"
| "flags (c # fmt) v =
     (if c = asc CHR ''#'' then flags fmt (v\<lparr>altfmt := True\<rparr>)
      else if c = asc CHR ''-'' then flags fmt (v\<lparr>ladjust := True\<rparr>)
      else if c = asc CHR ''+'' then flags fmt (v\<lparr>plus_sign := asc CHR ''+''\<rparr>)
      else if c = asc CHR '' '' then
        flags fmt (if plus_sign v = 0 then v\<lparr>plus_sign := asc CHR '' ''\<rparr> else v)
      else (c # fmt, v))"

fun number :: "u8 list \<Rightarrow> int \<Rightarrow> u8 list \<times> int" where
  "number [] n = ([], n)"
| "number (c # fmt) n = (if isdigit c then number fmt (w32 (10 * n + Ctod c)) else (c # fmt, n))"

definition zero_flag :: "u8 list \<Rightarrow> conv \<Rightarrow> u8 list \<times> conv" where
  "zero_flag fmt v = (if peek fmt = asc CHR ''0'' then (tl fmt, v\<lparr>padc := asc CHR ''0''\<rparr>) else (fmt, v))"

definition read_width :: "u8 list \<Rightarrow> conv \<Rightarrow> u32 list \<Rightarrow> (u8 list \<times> conv \<times> u32 list) res" where
  "read_width fmt v args =
     (if isdigit (peek fmt) then (let (fmt1, n) = number fmt (width v) in ret (fmt1, v\<lparr>width := n\<rparr>, args))
      else if peek fmt = asc CHR ''*'' then
        bindr (va_arg args) (\<lambda>(a, args1).
          let n = sint a in
          ret (tl fmt, (if n < 0 then v\<lparr>ladjust := \<not> ladjust v, width := w32 (- n)\<rparr> else v\<lparr>width := n\<rparr>), args1))
      else ret (fmt, v, args))"

definition read_prec :: "u8 list \<Rightarrow> conv \<Rightarrow> u32 list \<Rightarrow> (u8 list \<times> conv \<times> u32 list) res" where
  "read_prec fmt v args =
     (if peek fmt = asc CHR ''.'' then
        let fmt1 = tl fmt in
        if isdigit (peek fmt1) then (let (fmt2, n) = number fmt1 0 in ret (fmt2, v\<lparr>prec := n\<rparr>, args))
        else if peek fmt1 = asc CHR ''*'' then
          bindr (va_arg args) (\<lambda>(a, args1). ret (tl fmt1, v\<lparr>prec := sint a\<rparr>, args1))
        else ret (fmt1, v, args)
      else ret (fmt, v, args))"

definition skip_l :: "u8 list \<Rightarrow> u8 list" where
  "skip_l fmt = (if peek fmt = asc CHR ''l'' then tl fmt else fmt)"

subsection \<open>Strings\<close>

fun str_measure :: "nat \<Rightarrow> u32 \<Rightarrow> memory \<Rightarrow> nat" where
  "str_measure 0 p m = 0"
| "str_measure (Suc k) p m = (if m p \<noteq> 0 then Suc (str_measure k (p + 1) m) else 0)"

text \<open>The result of the second loop: the state, and \<open>n\<close>, which is one more than \<open>prec\<close> after a break.\<close>

fun str_out :: "(u8 \<Rightarrow> 's \<Rightarrow> 's) \<Rightarrow> ('s \<Rightarrow> memory) \<Rightarrow> nat \<Rightarrow> u32 \<Rightarrow> int \<Rightarrow> 's \<Rightarrow> 's \<times> int" where
  "str_out putc mem 0 p n s = (s, if mem s p \<noteq> 0 then n + 1 else n)"
| "str_out putc mem (Suc k) p n s =
     (if mem s p \<noteq> 0 then str_out putc mem k (p + 1) (n + 1) (putc (mem s p) s) else (s, n))"

text \<open>The NULL pointer is printed as the empty string.\<close>

definition conv_s :: "(u8 \<Rightarrow> 's \<Rightarrow> 's) \<Rightarrow> ('s \<Rightarrow> memory) \<Rightarrow> conv \<Rightarrow> u32 \<Rightarrow> 's \<Rightarrow> 's" where
  "conv_s putc mem v p s =
     (let pr = (if prec v = -1 then 0x7fffffff else prec v);
          n1 = (if p = 0 then 0 else int (str_measure (nat pr) p (mem s)));
          s1 = (if width v > 0 \<and> \<not> ladjust v
                then putcs putc (replicate (nat (width v - n1)) (asc CHR '' '')) s else s);
          (s2, n2) = (if p = 0 then (s1, 0) else str_out putc mem (nat pr) p 0 s1)
      in if n2 < width v \<and> ladjust v
         then putcs putc (replicate (nat (width v - n2)) (asc CHR '' '')) s2 else s2)"

subsection \<open>Numbers\<close>

text \<open>\<open>while (--length >= 0) putc(c)\<close>: the state and the new \<open>length\<close>.\<close>

definition pad_out :: "(u8 \<Rightarrow> 's \<Rightarrow> 's) \<Rightarrow> u8 \<Rightarrow> int \<Rightarrow> 's \<Rightarrow> 's \<times> int" where
  "pad_out putc c len s = (putcs putc (replicate (nat len) c) s, if len \<ge> 0 then -1 else len - 1)"

definition print_num :: "(u8 \<Rightarrow> 's \<Rightarrow> 's) \<Rightarrow> conv \<Rightarrow> u32 \<Rightarrow> int \<Rightarrow> u8 \<Rightarrow> 's \<Rightarrow> 's res" where
  "print_num putc v u base sign_char s =
     (let prefix = (if u \<noteq> 0 \<and> altfmt v
                    then (if base = 8 then [asc CHR ''0''] else if base = 16 then [asc CHR ''0'', asc CHR ''x''] else [])
                    else [])
      in bindr (digits_loop MAXBUF u (word_of_int base) []) (\<lambda>ds.
        let pr = w32 (prec v - int (length ds));
            l1 = w32 (width v - int (length ds));
            l2 = (if sign_char \<noteq> 0 then w32 (l1 - 1) else l1);
            l3 = w32 (l2 - int (length prefix));
            l4 = (if pr > 0 then w32 (l3 - pr) else l3);
            (s1, l5) = (if padc v = asc CHR '' '' \<and> \<not> ladjust v then pad_out putc (asc CHR '' '') l4 s else (s, l4));
            s2 = (if sign_char \<noteq> 0 then putc sign_char s1 else s1);
            s3 = putcs putc prefix s2;
            s4 = putcs putc (replicate (nat pr) (asc CHR ''0'')) s3;
            (s5, l6) = (if padc v = asc CHR ''0'' then pad_out putc (asc CHR ''0'') l5 s4 else (s4, l5));
            s6 = putcs putc ds s5
        in ret (if ladjust v then fst (pad_out putc (asc CHR '' '') l6 s6) else s6)))"

definition print_signed :: "(u8 \<Rightarrow> 's \<Rightarrow> 's) \<Rightarrow> conv \<Rightarrow> u32 list \<Rightarrow> int \<Rightarrow> 's \<Rightarrow> ('s \<times> u32 list) res" where
  "print_signed putc v args base s =
     bindr (va_arg args) (\<lambda>(n, args1).
     bindr (if 0 \<le> sint n then print_num putc v n base (plus_sign v) s
            else print_num putc v (- n) base (asc CHR ''-'') s) (\<lambda>s1. ret (s1, args1)))"

definition print_unsigned :: "(u8 \<Rightarrow> 's \<Rightarrow> 's) \<Rightarrow> conv \<Rightarrow> u32 list \<Rightarrow> int \<Rightarrow> 's \<Rightarrow> ('s \<times> u32 list) res" where
  "print_unsigned putc v args base s =
     bindr (va_arg args) (\<lambda>(u, args1). bindr (print_num putc v u base 0 s) (\<lambda>s1. ret (s1, args1)))"

subsection \<open>Registers: the conversion b\<close>

text \<open>\<open>for (; (c = *p) > 32; p++) putc(c)\<close>, and the same without \<open>putc\<close>.\<close>

partial_function (option) name_out :: "(u8 \<Rightarrow> 's \<Rightarrow> 's) \<Rightarrow> ('s \<Rightarrow> memory) \<Rightarrow> u32 \<Rightarrow> 's \<Rightarrow> (u32 \<times> 's) res" where
  "name_out putc mem p s =
     (if schar (mem s p) > 32 then name_out putc mem (p + 1) (putc (mem s p) s) else ret (p, s))"

partial_function (option) name_skip :: "memory \<Rightarrow> u32 \<Rightarrow> u32 res" where
  "name_skip m p = (if schar (m p) > 32 then name_skip m (p + 1) else ret p)"

text \<open>Shift counts are taken modulo 32, as the processor does.\<close>

definition shl32 :: "u32 \<Rightarrow> int \<Rightarrow> u32" where
  "shl32 u n = push_bit (nat (n mod 32)) u"

definition shr32 :: "u32 \<Rightarrow> int \<Rightarrow> u32" where
  "shr32 u n = drop_bit (nat (n mod 32)) u"

definition sep_out :: "(u8 \<Rightarrow> 's \<Rightarrow> 's) \<Rightarrow> bool \<Rightarrow> 's \<Rightarrow> 's" where
  "sep_out putc any s = putc (if any then asc CHR '','' else asc CHR ''<'') s"

partial_function (option) bits_loop ::
  "(u8 \<Rightarrow> 's \<Rightarrow> 's) \<Rightarrow> ('s \<Rightarrow> memory) \<Rightarrow> u32 \<Rightarrow> int \<Rightarrow> u32 \<Rightarrow> bool \<Rightarrow> 's \<Rightarrow> (bool \<times> 's) res" where
  "bits_loop putc mem u base p any s =
     (let i = schar (mem s p); p1 = p + 1 in
      if i = 0 then ret (any, s)
      else if schar (mem s p1) \<le> 32 then
        let s1 = sep_out putc any s; j = schar (mem s1 p1) in
        bindr (name_out putc mem (p1 + 1) s1) (\<lambda>(p2, s2).
        bindr (printnum putc (shr32 u (j - 1) AND (shl32 2 (i - j) - 1)) base s2) (\<lambda>s3.
        bits_loop putc mem u base p2 True s3))
      else if u AND shl32 1 (i - 1) \<noteq> 0 then
        bindr (name_out putc mem p1 (sep_out putc any s)) (\<lambda>(p2, s2). bits_loop putc mem u base p2 True s2)
      else bindr (name_skip (mem s) p1) (\<lambda>p2. bits_loop putc mem u base p2 any s))"

definition conv_b :: "(u8 \<Rightarrow> 's \<Rightarrow> 's) \<Rightarrow> ('s \<Rightarrow> memory) \<Rightarrow> u32 list \<Rightarrow> 's \<Rightarrow> ('s \<times> u32 list) res" where
  "conv_b putc mem args s =
     bindr (va_arg args) (\<lambda>(u, args1).
     bindr (va_arg args1) (\<lambda>(p, args2).
     let base = schar (mem s p) in
     bindr (printnum putc u base s) (\<lambda>s1.
     if u = 0 then ret (s1, args2)
     else bindr (bits_loop putc mem u base (p + 1) False s1) (\<lambda>(any, s2).
       ret (if any then putc (asc CHR ''>'') s2 else s2, args2)))))"

subsection \<open>The whole format\<close>

definition convert ::
  "(u8 \<Rightarrow> 's \<Rightarrow> 's) \<Rightarrow> ('s \<Rightarrow> memory) \<Rightarrow> int \<Rightarrow> u8 \<Rightarrow> conv \<Rightarrow> u32 list \<Rightarrow> 's \<Rightarrow> ('s \<times> u32 list) res" where
  "convert putc mem radix c v args s =
     (if c = asc CHR ''b'' \<or> c = asc CHR ''B'' then conv_b putc mem args s
      else if c = asc CHR ''c'' then
        bindr (va_arg args) (\<lambda>(a, args1). ret (putc (ucast a) s, args1))
      else if c = asc CHR ''s'' then
        bindr (va_arg args) (\<lambda>(a, args1). ret (conv_s putc mem v a s, args1))
      else if c = asc CHR ''o'' \<or> c = asc CHR ''O'' then print_unsigned putc v args 8 s
      else if c = asc CHR ''d'' \<or> c = asc CHR ''i'' \<or> c = asc CHR ''D'' then print_signed putc v args 10 s
      else if c = asc CHR ''u'' \<or> c = asc CHR ''U'' then print_unsigned putc v args 10 s
      else if c = asc CHR ''p'' then
        print_unsigned putc (v\<lparr>padc := asc CHR ''0'', width := 8\<rparr>) args 16
          (putc (asc CHR ''x'') (putc (asc CHR ''0'') s))
      else if c = asc CHR ''x'' \<or> c = asc CHR ''X'' then print_unsigned putc v args 16 s
      else if c = asc CHR ''z'' \<or> c = asc CHR ''Z'' then print_signed putc v args 16 s
      else if c = asc CHR ''r'' \<or> c = asc CHR ''R'' then print_signed putc v args radix s
      else if c = asc CHR ''n'' \<or> c = asc CHR ''N'' then print_unsigned putc v args radix s
      else if c = 0 then ret (s, args)
      else ret (putc c s, args))"

text \<open>From a \<open>%\<close> to the conversion character: the rest of the format, the specification, the arguments.\<close>

definition read_conv :: "u8 list \<Rightarrow> u32 list \<Rightarrow> (u8 list \<times> conv \<times> u32 list) res" where
  "read_conv fmt args =
     (let (fmt1, v1) = flags fmt no_conv; (fmt2, v2) = zero_flag fmt1 v1
      in bindr (read_width fmt2 v2 args) (\<lambda>(fmt3, v3, args3).
         bindr (read_prec fmt3 v3 args3) (\<lambda>(fmt4, v4, args4). ret (skip_l fmt4, v4, args4))))"

text \<open>
  The loop over the format, bounded by the length of the format: every turn takes at least one
  byte (\<open>doprnt_fuel\<close>).
\<close>

fun doprnt_loop ::
  "(u8 \<Rightarrow> 's \<Rightarrow> 's) \<Rightarrow> ('s \<Rightarrow> memory) \<Rightarrow> int \<Rightarrow> nat \<Rightarrow> u8 list \<Rightarrow> u32 list \<Rightarrow> 's \<Rightarrow> 's res" where
  "doprnt_loop putc mem radix 0 fmt args s = ret s"
| "doprnt_loop putc mem radix (Suc k) fmt args s =
     (case fmt of
        [] \<Rightarrow> ret s
      | c # fmt1 \<Rightarrow>
          if c = 0 then ret s
          else if c \<noteq> asc CHR ''%'' then doprnt_loop putc mem radix k fmt1 args (putc c s)
          else
            bindr (read_conv fmt1 args) (\<lambda>(fmt2, v, args2).
            bindr (convert putc mem radix (peek fmt2) v args2 s) (\<lambda>(s1, args3).
            doprnt_loop putc mem radix k (if peek fmt2 = 0 then fmt2 else tl fmt2) args3 s1)))"

definition doprnt ::
  "(u8 \<Rightarrow> 's \<Rightarrow> 's) \<Rightarrow> ('s \<Rightarrow> memory) \<Rightarrow> u8 list \<Rightarrow> u32 list \<Rightarrow> int \<Rightarrow> 's \<Rightarrow> 's res" where
  "doprnt putc mem fmt args radix s = doprnt_loop putc mem radix (Suc (length fmt)) fmt args s"

end
