(* ===== verification/Doprnt_Ok.thy ===== *)
theory Doprnt_Ok
  imports Doprnt
begin

text \<open>
  The formatted output does not depend on what \<open>putc\<close> does: it is natural in the state of the
  caller, and keeps every invariant that \<open>putc\<close> keeps. The numbers are printed by their digits.
\<close>

subsection \<open>Naturality\<close>

definition mapr :: "('a \<Rightarrow> 'b) \<Rightarrow> 'a res \<Rightarrow> 'b res" where
  "mapr f m = bindr m (\<lambda>x. ret (f x))"

lemma mapr_simps [simp]: "mapr f (ret x) = ret (f x)" "mapr f (err e) = err e" "mapr f None = None"
  by (simp_all add: mapr_def)

lemma mapr_bindr: "mapr f (bindr m k) = bindr m (\<lambda>x. mapr f (k x))"
  by (simp add: mapr_def bindr_assoc)

lemma bindr_mapr: "bindr (mapr f m) k = bindr m (\<lambda>x. k (f x))"
  by (simp add: mapr_def bindr_assoc)

lemma bindr_cong_ret: "(\<And>x. m = ret x \<Longrightarrow> k x = k' x) \<Longrightarrow> bindr m k = bindr m k'"
  by (cases m rule: res_cases) auto

lemma mapr_Some: "mapr f (Some r) = Some (map_sum id f r)"
  by (cases r) (simp_all add: mapr_def bindr_def ret_def)

lemma mapr_mapr: "mapr f (mapr g m) = mapr (\<lambda>x. f (g x)) m"
  by (simp add: mapr_def bindr_assoc)

lemma bindr_eq_Some:
  "bindr m k = Some r \<longleftrightarrow> (\<exists>x. m = ret x \<and> k x = Some r) \<or> (\<exists>e. m = err e \<and> r = Inl e)"
  by (cases m rule: res_cases) (auto simp: ret_def err_def bindr_def)

text \<open>A map \<open>h\<close> between two states that agrees with their \<open>putc\<close> and their memories.\<close>

locale putc_hom =
  fixes putc0 :: "u8 \<Rightarrow> 'o \<Rightarrow> 'o" and mem0 :: "'o \<Rightarrow> memory"
    and putc :: "u8 \<Rightarrow> 's \<Rightarrow> 's" and mem :: "'s \<Rightarrow> memory" and h :: "'o \<Rightarrow> 's"
  assumes putc_h: "putc c (h s) = h (putc0 c s)" and mem_h: "mem (h s) = mem0 s"
begin

lemma putcs_h: "putcs putc cs (h s) = h (putcs putc0 cs s)"
  by (induction cs arbitrary: s) (simp_all add: putcs_def putc_h)

lemma printnum_h: "printnum putc u base (h s) = mapr h (printnum putc0 u base s)"
  by (simp add: printnum_def mapr_bindr putcs_h)

lemma pad_out_h: "pad_out putc c len (h s) = map_prod h id (pad_out putc0 c len s)"
  by (simp add: pad_out_def putcs_h)

lemma print_num_h: "print_num putc v u base sc (h s) = mapr h (print_num putc0 v u base sc s)"
  unfolding print_num_def Let_def mapr_bindr
  by (intro bindr_cong_ret) (auto simp: pad_out_def putcs_h putc_h)

lemma str_out_h: "str_out putc mem k p n (h s) = map_prod h id (str_out putc0 mem0 k p n s)"
  by (induction k arbitrary: p n s) (simp_all add: mem_h putc_h)

lemma conv_s_h: "conv_s putc mem v p (h s) = h (conv_s putc0 mem0 v p s)"
  unfolding conv_s_def Let_def by (auto simp: putcs_h str_out_h mem_h split_beta)

lemma name_out_h1:
  assumes "name_out putc0 mem0 p s = Some r"
  shows "name_out putc mem p (h s) = Some (map_sum id (map_prod id h) r)"
proof -
  let ?P = "\<lambda>pc m p s r. pc = putc0 \<and> m = mem0 \<longrightarrow> name_out putc mem p (h s) = Some (map_sum id (map_prod id h) r)"
  have "?P putc0 mem0 p s r"
    by (rule name_out.raw_induct [where P = ?P, OF _ assms])
      (subst name_out.simps, auto simp: mem_h putc_h ret_def split: if_splits)
  then show ?thesis by simp
qed

lemma name_out_h2:
  assumes "name_out putc mem p (h s) = Some r"
  shows "\<exists>r'. name_out putc0 mem0 p s = Some r'"
proof -
  let ?P = "\<lambda>pc m p s (r :: fault + (u32 \<times> 's)). \<forall>t. pc = putc \<and> m = mem \<and> s = h t \<longrightarrow> (\<exists>r'. name_out putc0 mem0 p t = Some r')"
  have "?P putc mem p (h s) r"
    by (rule name_out.raw_induct [where P = ?P, OF _ assms])
      (intro allI impI, subst name_out.simps, auto simp: mem_h putc_h ret_def split: if_splits)
  then show ?thesis by simp
qed

lemma name_out_h: "name_out putc mem p (h s) = mapr (map_prod id h) (name_out putc0 mem0 p s)"
proof (cases "name_out putc0 mem0 p s")
  case None
  then have "name_out putc mem p (h s) = None" using name_out_h2 [of p s] by (cases "name_out putc mem p (h s)") auto
  then show ?thesis using None by simp
next
  case (Some r)
  then show ?thesis using name_out_h1 [OF Some] by (simp add: mapr_Some)
qed

lemma sep_out_h: "sep_out putc any (h s) = h (sep_out putc0 any s)"
  by (simp add: sep_out_def putc_h)

lemma bits_loop_h1:
  assumes "bits_loop putc0 mem0 u base p any s = Some r"
  shows "bits_loop putc mem u base p any (h s) = Some (map_sum id (map_prod id h) r)"
proof -
  let ?P = "\<lambda>pc m u base p any s r. pc = putc0 \<and> m = mem0 \<longrightarrow>
    bits_loop putc mem u base p any (h s) = Some (map_sum id (map_prod id h) r)"
  have "?P putc0 mem0 u base p any s r"
    by (rule bits_loop.raw_induct [where P = ?P, OF _ assms])
      (subst bits_loop.simps, auto simp: mem_h sep_out_h name_out_h printnum_h bindr_mapr bindr_eq_Some
        ret_def Let_def err_def split: if_splits)
  then show ?thesis by simp
qed

lemma bits_loop_h2:
  assumes "bits_loop putc mem u base p any (h s) = Some r"
  shows "\<exists>r'. bits_loop putc0 mem0 u base p any s = Some r'"
proof -
  let ?P = "\<lambda>pc m u base p any s (r :: fault + (bool \<times> 's)). \<forall>t. pc = putc \<and> m = mem \<and> s = h t \<longrightarrow>
    (\<exists>r'. bits_loop putc0 mem0 u base p any t = Some r')"
  have "?P putc mem u base p any (h s) r"
    by (rule bits_loop.raw_induct [where P = ?P, OF _ assms])
      (intro allI impI, subst bits_loop.simps, auto simp: mem_h sep_out_h name_out_h printnum_h bindr_mapr
        bindr_eq_Some ret_def Let_def err_def split: if_splits)
  then show ?thesis by simp
qed

lemma bits_loop_h:
  "bits_loop putc mem u base p any (h s) = mapr (map_prod id h) (bits_loop putc0 mem0 u base p any s)"
proof (cases "bits_loop putc0 mem0 u base p any s")
  case None
  then have "bits_loop putc mem u base p any (h s) = None"
    using bits_loop_h2 [of u base p any s] by (cases "bits_loop putc mem u base p any (h s)") auto
  then show ?thesis using None by simp
next
  case (Some r)
  then show ?thesis using bits_loop_h1 [OF Some] by (simp add: mapr_Some)
qed

lemma conv_b_h: "conv_b putc mem args (h s) = mapr (map_prod h id) (conv_b putc0 mem0 args s)"
  unfolding conv_b_def Let_def
  by (auto simp: mapr_bindr bindr_mapr printnum_h bits_loop_h mem_h putc_h split_beta
      intro!: bindr_cong_ret)

lemma print_signed_h: "print_signed putc v args base (h s) = mapr (map_prod h id) (print_signed putc0 v args base s)"
  unfolding print_signed_def
  by (auto simp: mapr_bindr bindr_mapr print_num_h split_beta intro!: bindr_cong_ret)

lemma print_unsigned_h:
  "print_unsigned putc v args base (h s) = mapr (map_prod h id) (print_unsigned putc0 v args base s)"
  unfolding print_unsigned_def
  by (auto simp: mapr_bindr bindr_mapr print_num_h split_beta intro!: bindr_cong_ret)

lemma convert_h: "convert putc mem radix c v args (h s) = mapr (map_prod h id) (convert putc0 mem0 radix c v args s)"
  unfolding convert_def
  by (auto simp: conv_b_h print_signed_h print_unsigned_h putc_h conv_s_h mapr_bindr split_beta
      intro!: bindr_cong_ret)

lemma doprnt_loop_h: "doprnt_loop putc mem radix k fmt args (h s) = mapr h (doprnt_loop putc0 mem0 radix k fmt args s)"
proof (induction k arbitrary: fmt args s)
  case 0
  then show ?case by simp
next
  case (Suc k)
  show ?case
    by (cases fmt) (auto simp: Suc convert_h putc_h mapr_bindr bindr_mapr split_beta intro!: bindr_cong_ret)
qed

lemma doprnt_h: "doprnt putc mem fmt args radix (h s) = mapr h (doprnt putc0 mem0 fmt args radix s)"
  unfolding doprnt_def by (rule doprnt_loop_h)

end

text \<open>
  What is printed, as a list of bytes. The list tells the whole effect: any run is the run that
  collects the bytes, and \<open>putc\<close> on each of them in turn.
\<close>

abbreviation snoc :: "u8 \<Rightarrow> u8 list \<Rightarrow> u8 list" where
  "snoc c out \<equiv> out @ [c]"

lemma putcs_append: "putcs putc (xs @ ys) s = putcs putc ys (putcs putc xs s)"
  by (simp add: putcs_def)

interpretation history: putc_hom snoc "\<lambda>out. mem (putcs putc out s)" putc mem "\<lambda>out. putcs putc out s"
  for putc mem s
  by unfold_locales (simp_all add: putcs_append, simp add: putcs_def)

lemma doprnt_history:
  "doprnt putc mem fmt args radix s =
     mapr (\<lambda>out. putcs putc out s) (doprnt snoc (\<lambda>out. mem (putcs putc out s)) fmt args radix [])"
  using history.doprnt_h [of putc mem fmt args radix "[]" s] by (simp add: putcs_def)

lemma doprnt_is_putcs: "doprnt putc mem fmt args radix s = ret s' \<Longrightarrow> \<exists>out. s' = putcs putc out s"
  by (subst (asm) doprnt_history) (auto simp: mapr_def bindr_eq_ret)

definition printed :: "memory \<Rightarrow> u8 list \<Rightarrow> u32 list \<Rightarrow> int \<Rightarrow> u8 list res" where
  "printed m fmt args radix = doprnt snoc (\<lambda>_. m) fmt args radix []"

lemma doprnt_printed:
  assumes "\<And>out. mem (putcs putc out s) = m"
  shows "doprnt putc mem fmt args radix s = mapr (\<lambda>out. putcs putc out s) (printed m fmt args radix)"
  unfolding printed_def by (subst doprnt_history) (simp add: assms)

lemma putcs_snoc: "putcs snoc cs out = out @ cs"
  by (induction cs arbitrary: out) (simp_all add: putcs_def)

subsection \<open>Digits\<close>

definition dig :: "nat \<Rightarrow> u8" where
  "dig n = digs ! n"

function digits :: "nat \<Rightarrow> nat \<Rightarrow> u8 list" where
  "digits b n = (if b < 2 \<or> n < b then [dig n] else digits b (n div b) @ [dig (n mod b)])"
  by pat_completeness auto
termination by (relation "measure snd") (auto simp: div_less_dividend)

declare digits.simps [simp del]

lemma digit_at_ok: "b \<le> 16 \<Longrightarrow> unat i < b \<Longrightarrow> digit_at i = ret (dig (unat i))"
  by (simp add: digit_at_def dig_def digs_def)

lemma digits_loop_ok:
  assumes b: "2 \<le> b" "b \<le> 16" and u: "unat u < 2 ^ room" "0 < room"
  shows "digits_loop room u (of_nat b) ds = ret (digits b (unat u) @ ds)"
  using u
proof (induction room arbitrary: u ds)
  case 0
  then show ?case by simp
next
  case (Suc room)
  have ub: "unat (of_nat b :: u32) = b" using b by (intro unat_of_nat_u32) simp
  then have nz: "(of_nat b :: u32) \<noteq> 0" using b by (metis not_numeral_le_zero unsigned_0)
  have md: "unat (u mod of_nat b) = unat u mod b" "unat (u div of_nat b) = unat u div b"
    by (simp_all only: unat_mod_distrib unat_div_distrib ub)
  have lt: "unat u mod b < b" using b by simp
  have d: "digit_at (u mod of_nat b) = ret (dig (unat u mod b))"
    using digit_at_ok [OF b(2), of "u mod of_nat b"] lt by (simp add: md)
  show ?case
  proof (cases "unat u < b")
    case True
    then have "unat (u div of_nat b) = 0" by (simp add: md)
    then have "u div of_nat b = 0" by (simp only: unat_eq_zero)
    then show ?thesis using True d nz b by (simp add: digits.simps [of b "unat u"])
  next
    case False
    then have "unat (u div of_nat b) \<noteq> 0" using b by (simp add: md div_eq_0_iff)
    then have ne: "u div of_nat b \<noteq> 0" by auto
    have "unat u div b \<le> unat u div 2" using b by (simp add: div_le_mono2)
    then have small: "unat (u div of_nat b) < 2 ^ room" using Suc.prems(1) by (simp add: md)
    have "0 < room" using False b Suc.prems(1) by (cases room) auto
    then have "digits_loop room (u div of_nat b) (of_nat b) (dig (unat u mod b) # ds) =
      ret (digits b (unat u div b) @ dig (unat u mod b) # ds)"
      using Suc.IH [OF small] by (simp add: md)
    then show ?thesis using False d nz ne b by (simp add: digits.simps [of b "unat u"])
  qed
qed

lemma digits_32:
  assumes "2 \<le> b" "b \<le> 16"
  shows "digits_loop MAXBUF u (of_nat b) [] = ret (digits b (unat u))"
  using digits_loop_ok [OF assms, of u 32 "[]"] unat_less_u32 [of u] by (simp add: MAXBUF_def)

text \<open>Reading the digits back.\<close>

definition dval :: "u8 \<Rightarrow> nat" where
  "dval c = (if c \<le> 57 then unat c - 48 else unat c - 87)"

lemma dval_dig: "n < 16 \<Longrightarrow> dval (dig n) = n \<and> (dig n \<in> {48..57} \<or> dig n \<in> {97..102})"
proof -
  assume "n < 16"
  moreover have "\<forall>n\<in>set [0..<16]. dval (dig n) = n \<and> (dig n \<in> {48..57} \<or> dig n \<in> {97..102})"
    by (simp add: dig_def digs_def dval_def upt_conv_Cons)
  ultimately show ?thesis by simp
qed

definition value_of :: "nat \<Rightarrow> u8 list \<Rightarrow> nat" where
  "value_of b ds = foldl (\<lambda>v d. b * v + dval d) 0 ds"

lemma value_of_snoc: "value_of b (ds @ [d]) = b * value_of b ds + dval d"
  by (simp add: value_of_def)

lemma value_of_digits:
  assumes "2 \<le> b" "b \<le> 16"
  shows "value_of b (digits b n) = n"
proof (induction n rule: less_induct)
  case (less n)
  show ?case
  proof (cases "n < b")
    case True
    then have "digits b n = [dig n]" by (subst digits.simps) simp
    then show ?thesis using dval_dig [of n] True assms by (simp add: value_of_def)
  next
    case False
    then have "digits b n = digits b (n div b) @ [dig (n mod b)]" using assms by (subst digits.simps) simp
    moreover have "n div b < n" using False assms by (intro div_less_dividend) auto
    moreover have "n mod b < b" using assms by simp
    ultimately show ?thesis using less [of "n div b"] dval_dig [of "n mod b"] assms
      by (simp add: value_of_snoc less_le_trans [of _ b 16])
  qed
qed

lemma digits_set:
  assumes "2 \<le> b" "b \<le> 16" and "d \<in> set (digits b n)"
  shows "\<exists>k<b. d = dig k"
  using assms(3)
proof (induction n rule: less_induct)
  case (less n)
  show ?case
  proof (cases "n < b")
    case True
    then have "digits b n = [dig n]" by (subst digits.simps) simp
    then show ?thesis using less.prems True by auto
  next
    case False
    then have eq: "digits b n = digits b (n div b) @ [dig (n mod b)]" using assms(1) by (subst digits.simps) simp
    have "n div b < n" using False assms by (intro div_less_dividend) auto
    moreover have "n mod b < b" using assms by simp
    ultimately show ?thesis
      using less.IH less.prems by (auto simp: eq)
  qed
qed

lemma digits_not_Nil [simp]: "digits b n \<noteq> []"
  by (subst digits.simps) simp

lemma digits_length:
  assumes "2 \<le> b" "n < 2 ^ k" "0 < k"
  shows "length (digits b n) \<le> k"
  using assms(2,3)
proof (induction k arbitrary: n)
  case (Suc k)
  show ?case
  proof (cases "n < b")
    case True
    then show ?thesis by (subst digits.simps) simp
  next
    case False
    have "n div b \<le> n div 2" using assms(1) by (simp add: div_le_mono2)
    then have "n div b < 2 ^ k" using Suc.prems by simp
    moreover have "0 < k" using False assms(1) Suc.prems by (cases k) auto
    ultimately have "length (digits b (n div b)) \<le> k" by (rule Suc.IH)
    then show ?thesis using False assms(1) by (subst digits.simps) simp
  qed
qed simp

subsection \<open>The format is read\<close>

lemma flags_length: "length (fst (flags fmt v)) \<le> length fmt"
  by (induction fmt v rule: flags.induct) auto

lemma number_length: "length (fst (number fmt n)) \<le> length fmt"
  by (induction fmt n rule: number.induct) auto

lemma zero_flag_length: "length (fst (zero_flag fmt v)) \<le> length fmt"
  by (simp add: zero_flag_def)

lemma skip_l_length: "length (skip_l fmt) \<le> length fmt"
  by (simp add: skip_l_def)

lemma read_width_length: "read_width fmt v args = ret (fmt', v', args') \<Longrightarrow> length fmt' \<le> length fmt"
  using number_length [of fmt "width v"]
  by (auto simp: read_width_def Let_def bindr_eq_ret split_beta split: if_splits)

lemma read_prec_length: "read_prec fmt v args = ret (fmt', v', args') \<Longrightarrow> length fmt' \<le> length fmt"
  using number_length [of "tl fmt" 0]
  by (auto simp: read_prec_def Let_def bindr_eq_ret split_beta split: if_splits)

lemma read_conv_length: "read_conv fmt args = ret (fmt', v', args') \<Longrightarrow> length fmt' \<le> length fmt"
proof -
  assume run: "read_conv fmt args = ret (fmt', v', args')"
  obtain fmt1 v1 where f: "flags fmt no_conv = (fmt1, v1)" by fastforce
  obtain fmt2 v2 where z: "zero_flag fmt1 v1 = (fmt2, v2)" by fastforce
  obtain fmt3 v3 args3 fmt4 where w: "read_width fmt2 v2 args = ret (fmt3, v3, args3)"
    and p: "read_prec fmt3 v3 args3 = ret (fmt4, v', args')" and l: "fmt' = skip_l fmt4"
    using run by (auto simp: read_conv_def f z bindr_eq_ret)
  show ?thesis
    using flags_length [of fmt no_conv] zero_flag_length [of fmt1 v1] read_width_length [OF w]
      read_prec_length [OF p] skip_l_length [of fmt4] by (simp add: f z l)
qed

lemma peek_Nil [simp]: "peek [] = 0" "peek (c # fmt) = c"
  by (simp_all add: peek_def)

lemma doprnt_enough:
  "length fmt < k \<Longrightarrow> length fmt < k' \<Longrightarrow>
   doprnt_loop putc mem radix k fmt args s = doprnt_loop putc mem radix k' fmt args s"
proof (induction k arbitrary: k' fmt args s)
  case 0
  then show ?case by simp
next
  case (Suc k)
  obtain n where k': "k' = Suc n" using Suc.prems(2) by (cases k') auto
  show ?case
  proof (cases fmt)
    case Nil
    then show ?thesis by (simp add: k')
  next
    case (Cons c fmt1)
    have len: "length fmt1 < k" "length fmt1 < n" using Suc.prems Cons k' by auto
    have step: "doprnt_loop putc mem radix k (if peek fmt2 = 0 then fmt2 else tl fmt2) args3 s1 =
      doprnt_loop putc mem radix n (if peek fmt2 = 0 then fmt2 else tl fmt2) args3 s1"
      if "read_conv fmt1 args = ret (fmt2, v, args2)" for fmt2 v args2 args3 s1
      by (rule Suc.IH) (use read_conv_length [OF that] len in auto)
    have conv: "bindr (read_conv fmt1 args) (\<lambda>(fmt2, v, args2).
        bindr (convert putc mem radix (peek fmt2) v args2 s) (\<lambda>(s1, args3).
          doprnt_loop putc mem radix k (if peek fmt2 = 0 then fmt2 else tl fmt2) args3 s1)) =
      bindr (read_conv fmt1 args) (\<lambda>(fmt2, v, args2).
        bindr (convert putc mem radix (peek fmt2) v args2 s) (\<lambda>(s1, args3).
          doprnt_loop putc mem radix n (if peek fmt2 = 0 then fmt2 else tl fmt2) args3 s1))"
    proof (rule bindr_cong_ret)
      fix x assume "read_conv fmt1 args = ret x"
      moreover obtain fmt2 v args2 where "x = (fmt2, v, args2)" by (cases x) auto
      ultimately have x: "read_conv fmt1 args = ret (fmt2, v, args2)" "x = (fmt2, v, args2)" by simp_all
      show "(case x of (fmt2, v, args2) \<Rightarrow> bindr (convert putc mem radix (peek fmt2) v args2 s) (\<lambda>(s1, args3).
          doprnt_loop putc mem radix k (if peek fmt2 = 0 then fmt2 else tl fmt2) args3 s1)) =
        (case x of (fmt2, v, args2) \<Rightarrow> bindr (convert putc mem radix (peek fmt2) v args2 s) (\<lambda>(s1, args3).
          doprnt_loop putc mem radix n (if peek fmt2 = 0 then fmt2 else tl fmt2) args3 s1))"
        unfolding x(2) prod.case step [OF x(1)] ..
    qed
    show ?thesis
      by (simp only: Cons k' doprnt_loop.simps list.case conv Suc.IH [OF len])
  qed
qed

lemma doprnt_fuel: "length fmt < k \<Longrightarrow> doprnt_loop putc mem radix k fmt args s = doprnt putc mem fmt args radix s"
  unfolding doprnt_def by (rule doprnt_enough) simp_all

text \<open>With the bound out of the way, the equations of \<open>doprnt\<close> are those of the C loop.\<close>

lemma doprnt_Nil: "doprnt putc mem [] args radix s = ret s"
  by (simp add: doprnt_def)

lemma doprnt_char:
  "c \<noteq> 0 \<Longrightarrow> c \<noteq> 37 \<Longrightarrow> doprnt putc mem (c # fmt) args radix s = doprnt putc mem fmt args radix (putc c s)"
  by (simp add: doprnt_def)

lemma doprnt_conv:
  "doprnt putc mem (37 # fmt) args radix s =
     bindr (read_conv fmt args) (\<lambda>(fmt2, v, args2).
     bindr (convert putc mem radix (peek fmt2) v args2 s) (\<lambda>(s1, args3).
       doprnt putc mem (if peek fmt2 = 0 then fmt2 else tl fmt2) args3 radix s1))"
proof -
  have "doprnt_loop putc mem radix (Suc (length fmt)) (if peek fmt2 = 0 then fmt2 else tl fmt2) args3 s1 =
      doprnt putc mem (if peek fmt2 = 0 then fmt2 else tl fmt2) args3 radix s1"
    if "read_conv fmt args = ret (fmt2, v, args2)" for fmt2 v args2 args3 s1
    by (rule doprnt_fuel) (use read_conv_length [OF that] in auto)
  then show ?thesis
    by (subst doprnt_def) (auto simp: split_beta intro!: bindr_cong_ret)
qed

subsection \<open>Numbers without flags\<close>

lemma print_num_plain:
  assumes "2 \<le> b" "b \<le> 16"
  shows "print_num snoc no_conv u (int b) sc out =
    ret (out @ (if sc = 0 then [] else [sc]) @ digits b (unat u))"
proof -
  have len: "0 < length (digits b (unat u)) \<and> length (digits b (unat u)) \<le> 32"
    using digits_length [of b "unat u" 32] assms(1) unat_less_u32 [of u] by simp
  have w: "w32 x = x" if "- 2147483648 \<le> x" "x < 2147483648" for x
    using that by (simp add: w32_def signed_of_int signed_take_bit_int_eq_self)
  have b: "(word_of_int (int b) :: u32) = of_nat b" by simp
  show ?thesis
    unfolding print_num_def b digits_32 [OF assms] bindr_ret
    using len by (auto simp: no_conv_def Let_def w pad_out_def putcs_snoc)
qed

end
