(* ===== verification/Sprintf.thy ===== *)
theory Sprintf
  imports Doprnt
begin

text \<open>
  shared/sprintf.c and shared/printf.c: formatted output to memory and to the console. The console
  is a parameter here: \<open>console_putbytes\<close> of the kernel writes to the screen (theory \<open>Display\<close>),
  that of a user program makes a system call.
\<close>

subsection \<open>sprintf.c\<close>

definition SPRINTF_UNLIMITED :: u32 where "SPRINTF_UNLIMITED = 0xFFFFFFF"

record sprintf_state =
  sbuf :: u32
  slen :: u32
  smax :: u32
  smem :: memory

definition savechar :: "u8 \<Rightarrow> sprintf_state \<Rightarrow> sprintf_state" where
  "savechar c st =
     (if smax st \<noteq> SPRINTF_UNLIMITED \<and> slen st = smax st then st
      else st\<lparr>slen := slen st + 1, smem := (smem st)(sbuf st := c), sbuf := sbuf st + 1\<rparr>)"

definition vsprintf :: "u32 \<Rightarrow> u8 list \<Rightarrow> u32 list \<Rightarrow> memory \<Rightarrow> (u32 \<times> memory) res" where
  "vsprintf s fmt args m =
     bindr (doprnt savechar smem fmt args 0
             \<lparr>sbuf = s, slen = 0, smax = SPRINTF_UNLIMITED, smem = m\<rparr>)
       (\<lambda>st. ret (slen st, (smem st)(sbuf st := 0)))"

definition vsnprintf :: "u32 \<Rightarrow> u32 \<Rightarrow> u8 list \<Rightarrow> u32 list \<Rightarrow> memory \<Rightarrow> (u32 \<times> memory) res" where
  "vsnprintf s sz fmt args m =
     bindr (doprnt savechar smem fmt args 0 \<lparr>sbuf = s, slen = 0, smax = sz, smem = m\<rparr>)
       (\<lambda>st. ret (slen st, (smem st)(sbuf st := 0)))"

definition sprintf :: "u32 \<Rightarrow> u8 list \<Rightarrow> u32 list \<Rightarrow> memory \<Rightarrow> (u32 \<times> memory) res" where
  "sprintf s fmt args m = vsprintf s fmt args m"

definition snprintf :: "u32 \<Rightarrow> u32 \<Rightarrow> u8 list \<Rightarrow> u32 list \<Rightarrow> memory \<Rightarrow> (u32 \<times> memory) res" where
  "snprintf s sz fmt args m = vsnprintf s sz fmt args m"

subsection \<open>printf.c\<close>

definition PRINTF_BUFMAX :: nat where "PRINTF_BUFMAX = 128"

text \<open>
  The state of a call: \<open>buf\<close>, its \<open>index\<close>, the console and the memory. The buffer is an array of
  \<open>PRINTF_BUFMAX\<close> bytes; its contents after \<open>index\<close> are never read.
\<close>

record 'c printf_state =
  buf :: "u8 list"
  index :: nat
  console :: 'c
  pmem :: memory

definition flush :: "(u8 list \<Rightarrow> 'c \<Rightarrow> 'c) \<Rightarrow> 'c printf_state \<Rightarrow> 'c printf_state" where
  "flush putbytes st = st\<lparr>console := putbytes (take (index st) (buf st)) (console st), index := 0\<rparr>"

definition printf_char :: "(u8 list \<Rightarrow> 'c \<Rightarrow> 'c) \<Rightarrow> u8 \<Rightarrow> 'c printf_state \<Rightarrow> 'c printf_state" where
  "printf_char putbytes c st =
     (if c = 0 \<or> c = 10 \<or> index st \<ge> PRINTF_BUFMAX then
        let st1 = flush putbytes st; st2 = st1\<lparr>buf := (buf st1)[0 := c]\<rparr>
        in st2\<lparr>console := putbytes (take 1 (buf st2)) (console st2)\<rparr>
      else st\<lparr>buf := (buf st)[index st := c], index := index st + 1\<rparr>)"

definition vprintf ::
  "(u8 list \<Rightarrow> 'c \<Rightarrow> 'c) \<Rightarrow> u8 list \<Rightarrow> u8 list \<Rightarrow> u32 list \<Rightarrow> memory \<Rightarrow> 'c \<Rightarrow> 'c res" where
  "vprintf putbytes junk fmt args m con =
     bindr (doprnt (printf_char putbytes) pmem fmt args 0
             \<lparr>buf = junk, index = 0, console = con, pmem = m\<rparr>)
       (\<lambda>st. ret (console (if index st \<noteq> 0 then flush putbytes st else st)))"

text \<open>\<open>junk\<close> is what the stack holds in the place of \<open>buf\<close>. \<open>printf\<close> returns 0.\<close>

definition printf ::
  "(u8 list \<Rightarrow> 'c \<Rightarrow> 'c) \<Rightarrow> u8 list \<Rightarrow> u8 list \<Rightarrow> u32 list \<Rightarrow> memory \<Rightarrow> 'c \<Rightarrow> 'c res" where
  "printf putbytes junk fmt args m con = vprintf putbytes junk fmt args m con"

definition putchar :: "(u8 list \<Rightarrow> 'c \<Rightarrow> 'c) \<Rightarrow> int \<Rightarrow> 'c \<Rightarrow> int \<times> 'c" where
  "putchar putbytes c con = (let ch = word_of_int c :: u8 in (uint ch, putbytes [ch] con))"

partial_function (option) puts_loop :: "(u8 list \<Rightarrow> 'c \<Rightarrow> 'c) \<Rightarrow> memory \<Rightarrow> u32 \<Rightarrow> 'c \<Rightarrow> 'c res" where
  "puts_loop putbytes m s con =
     (if m s \<noteq> 0 then puts_loop putbytes m (s + 1) (snd (putchar putbytes (sint (m s)) con)) else ret con)"

definition puts :: "(u8 list \<Rightarrow> 'c \<Rightarrow> 'c) \<Rightarrow> memory \<Rightarrow> u32 \<Rightarrow> 'c \<Rightarrow> (int \<times> 'c) res" where
  "puts putbytes m s con = bindr (puts_loop putbytes m s con) (\<lambda>con1. ret (0, snd (putchar putbytes 10 con1)))"

end
