(* ===== verification/Memory_Bytes.thy ===== *)
theory Memory_Bytes
  imports Strings_Cstr
begin

text \<open>Blocks of bytes in memory: writing a list (\<open>poke\<close>), reading it back (\<open>mem_bytes\<close>).\<close>

primrec poke :: "memory \<Rightarrow> u32 \<Rightarrow> u8 list \<Rightarrow> memory" where
  "poke m p [] = m"
| "poke m p (b # bs) = poke (m(p := b)) (p + 1) bs"

lemma poke_append: "poke m p (xs @ ys) = poke (poke m p xs) (p + of_nat (length xs)) ys"
  by (induction xs arbitrary: m p) (simp_all add: add.assoc)

lemma poke_outside: "length bs \<le> unat (a - p) \<Longrightarrow> poke m p bs a = m a"
proof (induction bs arbitrary: m p)
  case (Cons b bs)
  then have ne: "a \<noteq> p" by auto
  then show ?case using Cons unat_diff_Suc [OF ne] by simp
qed simp

lemma poke_inside: "i < length bs \<Longrightarrow> length bs \<le> 2 ^ 32 \<Longrightarrow> poke m p bs (p + of_nat i) = bs ! i"
proof (induction bs arbitrary: m p i)
  case (Cons b bs)
  show ?case
  proof (cases i)
    case 0
    have "unat (p - (p + 1)) = 2 ^ 32 - 1" using unat_minus_1_max by simp
    then show ?thesis using Cons.prems 0 by (simp add: poke_outside)
  next
    case (Suc j)
    then show ?thesis using Cons.IH [of j "m(p := b)" "p + 1"] Cons.prems
      by (simp add: add.assoc del: fun_upd_apply)
  qed
qed simp

lemma poke_cstr:
  assumes "0 \<notin> set bs" "length bs < 2 ^ 32"
  shows "cstr ((poke m p bs)(p + of_nat (length bs) := 0)) p bs"
proof -
  have "p + of_nat i \<noteq> p + of_nat (length bs)" if "i < length bs" for i
  proof
    assume "p + of_nat i = p + of_nat (length bs)"
    then have "(of_nat i :: u32) = of_nat (length bs)" by simp
    then have "unat (of_nat i :: u32) = unat (of_nat (length bs) :: u32)" by simp
    then show False using that assms(2) by (simp only: unat_of_nat_u32 less_trans [OF that])
  qed
  then show ?thesis using assms by (auto simp: cstr_iff poke_inside in_set_conv_nth)
qed

definition mem_bytes :: "memory \<Rightarrow> u32 \<Rightarrow> nat \<Rightarrow> u8 list" where
  "mem_bytes m p n = map (\<lambda>i. m (p + of_nat i)) [0..<n]"

lemma length_mem_bytes [simp]: "length (mem_bytes m p n) = n"
  by (simp add: mem_bytes_def)

lemma nth_mem_bytes [simp]: "i < n \<Longrightarrow> mem_bytes m p n ! i = m (p + of_nat i)"
  by (simp add: mem_bytes_def)

lemma mem_bytes_poke: "length bs \<le> 2 ^ 32 \<Longrightarrow> mem_bytes (poke m p bs) p (length bs) = bs"
  by (intro nth_equalityI) (simp_all add: poke_inside)

lemma mem_bytes_Suc: "mem_bytes m p (Suc n) = m p # mem_bytes m (p + 1) n"
  by (rule nth_equalityI) (auto simp: nth_Cons add.assoc split: nat.split)

lemma mem_bytes_cong:
  assumes "\<And>i. i < n \<Longrightarrow> m (p + of_nat i) = m' (p + of_nat i)"
  shows "mem_bytes m p n = mem_bytes m' p n"
  using assms by (simp add: mem_bytes_def)

lemma mem_bytes_cstr: "cstr m p bs \<Longrightarrow> mem_bytes m p (length bs) = bs"
  by (intro nth_equalityI) (simp_all add: cstr_nth)

subsection \<open>What the memory holds at an address\<close>

primrec holds :: "memory \<Rightarrow> u32 \<Rightarrow> u8 list \<Rightarrow> bool" where
  "holds m p [] \<longleftrightarrow> True"
| "holds m p (b # bs) \<longleftrightarrow> m p = b \<and> holds m (p + 1) bs"

lemma holds_append: "holds m p (xs @ ys) \<longleftrightarrow> holds m p xs \<and> holds m (p + of_nat (length xs)) ys"
  by (induction xs arbitrary: p) (simp_all add: add.assoc)

lemma holds_iff: "holds m p bs \<longleftrightarrow> mem_bytes m p (length bs) = bs"
  by (induction bs arbitrary: p) (simp_all add: mem_bytes_Suc, simp add: mem_bytes_def)

lemma holds_nth: "holds m p bs \<Longrightarrow> i < length bs \<Longrightarrow> m (p + of_nat i) = bs ! i"
  unfolding holds_iff by (metis nth_mem_bytes)

lemma holds_nthI: "(\<And>i. i < length bs \<Longrightarrow> m (p + of_nat i) = bs ! i) \<Longrightarrow> holds m p bs"
  unfolding holds_iff by (rule nth_equalityI) simp_all

lemma holds_poke: "length bs \<le> 2 ^ 32 \<Longrightarrow> holds (poke m p bs) p bs"
  by (simp add: holds_iff mem_bytes_poke)

lemma holds_cong: "(\<And>i. i < length bs \<Longrightarrow> m (p + of_nat i) = m' (p + of_nat i)) \<Longrightarrow> holds m p bs = holds m' p bs"
  using mem_bytes_cong [of "length bs" m p m'] by (simp add: holds_iff)

lemma cstr_holds: "cstr m p bs \<Longrightarrow> holds m p bs"
  by (simp add: holds_iff mem_bytes_cstr)

text \<open>Two blocks of different lengths without a common byte.\<close>

definition disjoint :: "u32 \<Rightarrow> nat \<Rightarrow> u32 \<Rightarrow> nat \<Rightarrow> bool" where
  "disjoint p n q k \<longleftrightarrow> (\<forall>i<n. \<forall>j<k. p + of_nat i \<noteq> q + of_nat j)"

lemma disjoint_commute: "disjoint p n q k \<longleftrightarrow> disjoint q k p n"
  by (metis disjoint_def)

lemma disjoint_less: "disjoint p n q k \<Longrightarrow> n' \<le> n \<Longrightarrow> k' \<le> k \<Longrightarrow> disjoint p n' q k'"
  by (auto simp: disjoint_def)

lemma disjoint_shift: "disjoint p (a + n) q k \<Longrightarrow> disjoint (p + of_nat a) n q k"
  unfolding disjoint_def
proof (intro allI impI)
  fix i j assume d: "\<forall>i<a + n. \<forall>j<k. p + of_nat i \<noteq> q + of_nat j" and "i < n" "j < k"
  then have "p + of_nat (a + i) \<noteq> q + of_nat j" using d [rule_format, of "a + i" j] by simp
  then show "p + of_nat a + of_nat i \<noteq> q + of_nat j" by (simp add: add.assoc)
qed

lemma disjoint_outside: "disjoint p n q k \<Longrightarrow> i < n \<Longrightarrow> k \<le> unat (p + of_nat i - q)"
proof (rule ccontr)
  assume d: "disjoint p n q k" "i < n" and "\<not> k \<le> unat (p + of_nat i - q)"
  then have "p + of_nat i \<noteq> q + of_nat (unat (p + of_nat i - q))"
    using d(1) [unfolded disjoint_def, rule_format, of i "unat (p + of_nat i - q)"] by linarith
  then show False by simp
qed

lemma holds_poke_other: "disjoint p (length bs) q (length cs) \<Longrightarrow> holds (poke m q cs) p bs = holds m p bs"
  by (rule holds_cong) (simp add: disjoint_outside poke_outside)

lemma poke_blit: "n \<le> 2 ^ 32 \<Longrightarrow> blit m p q n = poke m q (mem_bytes m p n)"
proof
  fix a assume n: "n \<le> 2 ^ 32"
  show "blit m p q n a = poke m q (mem_bytes m p n) a"
  proof (cases "unat (a - q) < n")
    case True
    then have "poke m q (mem_bytes m p n) (q + of_nat (unat (a - q))) = m (p + of_nat (unat (a - q)))"
      using n by (subst poke_inside) simp_all
    then show ?thesis using True by (simp add: blit_def)
  qed (simp add: blit_def poke_outside)
qed

end
