(* ===== verification/Sprintf_Ok.thy ===== *)
theory Sprintf_Ok
  imports Doprnt_Ok Sprintf Memory_Bytes
begin

text \<open>
  Where the formatted output goes: \<open>savechar\<close> writes a block of memory, as long as its bound
  allows, and \<open>printf_char\<close> passes every byte on to the console, whatever it buffers.
\<close>

subsection \<open>savechar\<close>

text \<open>The bytes that still fit.\<close>

definition room :: "sprintf_state \<Rightarrow> nat" where
  "room st = unat (smax st - slen st)"

lemma putcs_savechar:
  assumes "smax st \<noteq> SPRINTF_UNLIMITED"
  shows "putcs savechar out st =
    st\<lparr>slen := slen st + of_nat (length (take (room st) out)),
       smem := poke (smem st) (sbuf st) (take (room st) out),
       sbuf := sbuf st + of_nat (length (take (room st) out))\<rparr>"
  using assms
proof (induction out arbitrary: st)
  case Nil
  then show ?case by (simp add: putcs_def)
next
  case (Cons c out)
  show ?case
  proof (cases "slen st = smax st")
    case True
    then have "room st = 0" "savechar c st = st" using Cons.prems by (simp_all add: room_def savechar_def)
    then show ?thesis using Cons by (simp add: putcs_def)
  next
    case False
    let ?st = "savechar c st"
    have st: "?st = st\<lparr>slen := slen st + 1, smem := (smem st)(sbuf st := c), sbuf := sbuf st + 1\<rparr>"
      using False by (simp add: savechar_def)
    have "room st = Suc (room ?st)" using False unat_diff_Suc [of "smax st" "slen st"] by (simp add: room_def st)
    moreover have "putcs savechar (c # out) st = putcs savechar out ?st" by (simp add: putcs_def)
    ultimately show ?thesis using Cons.IH [of ?st] Cons.prems by (simp add: st add.assoc del: fun_upd_apply)
  qed
qed

lemma putcs_savechar_unlimited:
  assumes "smax st = SPRINTF_UNLIMITED"
  shows "putcs savechar out st =
    st\<lparr>slen := slen st + of_nat (length out), smem := poke (smem st) (sbuf st) out,
       sbuf := sbuf st + of_nat (length out)\<rparr>"
  using assms
proof (induction out arbitrary: st)
  case Nil
  then show ?case by (simp add: putcs_def)
next
  case (Cons c out)
  let ?st = "savechar c st"
  have st: "?st = st\<lparr>slen := slen st + 1, smem := (smem st)(sbuf st := c), sbuf := sbuf st + 1\<rparr>"
    using Cons.prems by (simp add: savechar_def)
  moreover have "putcs savechar (c # out) st = putcs savechar out ?st" by (simp add: putcs_def)
  ultimately show ?case using Cons.IH [of ?st] Cons.prems by (simp add: add.assoc del: fun_upd_apply)
qed

lemma vsnprintf_result:
  assumes "vsnprintf s sz fmt args m = ret (n, m')" "sz \<noteq> SPRINTF_UNLIMITED"
  shows "\<exists>out. n = of_nat (length (take (unat sz) out)) \<and> m' = (poke m s (take (unat sz) out))(s + n := 0)"
proof -
  let ?st = "\<lparr>sbuf = s, slen = 0, smax = sz, smem = m\<rparr>"
  obtain st where run: "doprnt savechar smem fmt args 0 ?st = ret st"
    and n: "n = slen st" "m' = (smem st)(sbuf st := 0)"
    using assms(1) by (auto simp: vsnprintf_def bindr_eq_ret)
  obtain out where "st = putcs savechar out ?st" using doprnt_is_putcs [OF run] by blast
  then have "n = of_nat (length (take (unat sz) out)) \<and> m' = (poke m s (take (unat sz) out))(s + n := 0)"
    using putcs_savechar [of ?st out] assms(2) n by (simp add: room_def)
  then show ?thesis by blast
qed

text \<open>When no string argument is read, what is written does not matter for what comes next.\<close>

lemma vsprintf_run:
  assumes "\<And>s. doprnt savechar smem fmt args 0 s = ret (putcs savechar out s)"
  shows "sprintf p fmt args m = ret (of_nat (length out), (poke m p out)(p + of_nat (length out) := 0))"
  unfolding sprintf_def vsprintf_def assms
  by (subst putcs_savechar_unlimited) simp_all

lemma vsnprintf_run:
  assumes "\<And>s. doprnt savechar smem fmt args 0 s = ret (putcs savechar out s)" "sz \<noteq> SPRINTF_UNLIMITED"
  shows "snprintf p sz fmt args m =
    (let n = of_nat (length (take (unat sz) out)) in ret (n, (poke m p (take (unat sz) out))(p + n := 0)))"
  unfolding snprintf_def vsnprintf_def assms(1)
  by (subst putcs_savechar) (use assms(2) in \<open>simp_all add: room_def Let_def\<close>)

text \<open>A format with no conversion is copied.\<close>

lemma doprnt_text: "0 \<notin> set fmt \<Longrightarrow> 37 \<notin> set fmt \<Longrightarrow> doprnt putc mem fmt args radix s = ret (putcs putc fmt s)"
proof (induction fmt arbitrary: s)
  case (Cons c fmt)
  then have "c \<noteq> 0" "c \<noteq> 37" by auto
  then show ?case using Cons by (simp add: doprnt_char putcs_def)
qed (simp add: doprnt_Nil putcs_def)

text \<open>The conversions %d, %u and %x without flags.\<close>

lemma read_conv_plain:
  "c \<in> {100, 117, 120} \<Longrightarrow> read_conv [c] args = ret ([c], no_conv, args)"
  by (auto simp: read_conv_def no_conv_def zero_flag_def read_width_def read_prec_def skip_l_def isdigit_def)

lemma print_num_any:
  assumes "2 \<le> b" "b \<le> 16"
  shows "print_num putc no_conv u (int b) sc s =
    ret (putcs putc ((if sc = 0 then [] else [sc]) @ digits b (unat u)) s)"
  using history.print_num_h [of putc no_conv u "int b" sc "[]" s] print_num_plain [OF assms, of u sc "[]"]
  by (simp add: putcs_def)

lemma doprnt_unsigned:
  assumes "c = 117 \<and> b = 10 \<or> c = 120 \<and> b = 16"
  shows "doprnt putc mem [37, c] [u] 0 s = ret (putcs putc (digits b (unat u)) s)"
proof -
  have "print_num putc no_conv u (int b) 0 s = ret (putcs putc (digits b (unat u)) s)"
    using print_num_any [of b putc u 0 s] assms by auto
  then show ?thesis
    using assms by (auto simp: doprnt_conv read_conv_plain convert_def print_unsigned_def va_arg_def doprnt_Nil)
qed

text \<open>The digits of a signed number.\<close>

definition signed_digits :: "u32 \<Rightarrow> u8 list" where
  "signed_digits n = (if 0 \<le> sint n then [] else [45]) @ digits 10 (unat (if 0 \<le> sint n then n else - n))"

lemma doprnt_signed: "doprnt putc mem [37, 100] [n] 0 s = ret (putcs putc (signed_digits n) s)"
proof -
  have "print_num putc no_conv u 10 sc s =
    ret (putcs putc ((if sc = 0 then [] else [sc]) @ digits 10 (unat u)) s)" for u sc
    using print_num_any [of 10 putc u sc s] by simp
  moreover have "plus_sign no_conv = 0" by (simp add: no_conv_def)
  ultimately show ?thesis
    by (simp add: doprnt_conv read_conv_plain convert_def print_signed_def va_arg_def doprnt_Nil signed_digits_def)
qed

subsection \<open>Reading a number back\<close>

lemma digit_of_dig:
  assumes "k < b" "b \<le> 16"
  shows "digit_of (int b) (dig k) = Some (int k)"
proof -
  have "k < 16" using assms by simp
  have "\<forall>k\<in>set [0..<16]. dig k \<ge> 48 \<and> schar (dig k) = int (if k < 10 then k + 48 else k + 87)"
    by (simp add: upt_conv_Cons dig_def digs_def schar_def)
  moreover have "k \<in> set [0..<16]" using assms by auto
  ultimately have "schar (dig k) = int (if k < 10 then k + 48 else k + 87)" by blast
  then show ?thesis using assms by (simp add: digit_of_def Let_def split: if_splits)
qed

lemma dig_not_zero: "k < 16 \<Longrightarrow> dig k \<noteq> 0"
  using dval_dig [of k] by auto

text \<open>The digits, as numbers.\<close>

function dvals :: "nat \<Rightarrow> nat \<Rightarrow> nat list" where
  "dvals b n = (if b < 2 \<or> n < b then [n] else dvals b (n div b) @ [n mod b])"
  by pat_completeness auto
termination by (relation "measure snd") (auto simp: div_less_dividend)

declare dvals.simps [simp del]

lemma digits_dvals: "digits b n = map dig (dvals b n)"
proof (induction b n rule: dvals.induct)
  case (1 b n)
  then show ?case by (subst digits.simps, subst dvals.simps) auto
qed

lemma dvals_bound: "2 \<le> b \<Longrightarrow> k \<in> set (dvals b n) \<Longrightarrow> k < b"
proof (induction b n rule: dvals.induct)
  case (1 b n)
  show ?case
  proof (cases "n < b")
    case True
    then have "dvals b n = [n]" by (subst dvals.simps) simp
    then show ?thesis using "1.prems" True by simp
  next
    case False
    then have "dvals b n = dvals b (n div b) @ [n mod b]" using "1.prems"(1) by (subst dvals.simps) simp
    then show ?thesis using 1 False by auto
  qed
qed

lemma dvals_value: "2 \<le> b \<Longrightarrow> int_of (int b) (map int (dvals b n)) 0 = int n"
proof (induction b n rule: dvals.induct)
  case (1 b n)
  show ?case
  proof (cases "n < b")
    case True
    then have "dvals b n = [n]" by (subst dvals.simps) simp
    then show ?thesis by (simp add: int_of_def)
  next
    case False
    then have eq: "dvals b n = dvals b (n div b) @ [n mod b]" using "1.prems" by (subst dvals.simps) simp
    have "int_of (int b) (map int (dvals b (n div b))) 0 = int (n div b)" using 1 False by auto
    then have "int_of (int b) (map int (dvals b n)) 0 = int (n div b) * int b + int (n mod b)"
      unfolding eq by (simp add: int_of_def)
    also have "\<dots> = int (n div b * b + n mod b)" by (simp only: of_nat_add of_nat_mult)
    finally show ?thesis by (simp only: div_mult_mod_eq)
  qed
qed

lemma number_at_map:
  assumes "holds m p (map dig ks @ [c])" "digit_of (int b) c = None" "\<forall>k\<in>set ks. k < b" "b \<le> 16"
  shows "number_at m p (int b) (map dig ks) (map int ks)"
  using assms(1,3)
proof (induction ks arbitrary: p)
  case Nil
  then show ?case using assms(2) by simp
qed (simp add: digit_of_dig assms(4))

lemma digits_number_at:
  assumes "holds m p (digits b n @ [c])" "digit_of (int b) c = None" "2 \<le> b" "b \<le> 16"
  shows "number_at m p (int b) (digits b n) (map int (dvals b n))"
  using number_at_map [of m p "dvals b n" c b] assms dvals_bound [OF assms(3)] by (simp add: digits_dvals)

lemma cstr_digits: "cstr m p (digits b n) \<Longrightarrow> holds m p (digits b n @ [0]) \<and> digit_of (int b) 0 = None"
  by (simp add: holds_append cstr_holds cstr_end) (simp add: digit_of_def schar_def)

lemma digits_zero_free: "2 \<le> b \<Longrightarrow> b \<le> 16 \<Longrightarrow> 0 \<notin> set (digits b n)"
  using digits_set [of b 0 n] dig_not_zero by force

lemma digits_short: "2 \<le> b \<Longrightarrow> length (digits b (unat (u :: u32))) \<le> 32"
  using digits_length [of b "unat u" 32] unat_less_u32 [of u] by simp

lemma strtoul_text:
  assumes p: "holds m p (digits b (unat u) @ [c])" "digit_of (int b) c = None" "c \<notin> {120, 88}" and b: "b = 10 \<or> b = 16"
  shows "strtoul p out (int b) m = ret (u, map_option (\<lambda>_. p + of_nat (length (digits b (unat u)))) out)"
proof -
  let ?ds = "map int (dvals b (unat u))"
  have at: "number_at m p (int b) (digits b (unat u)) ?ds" using digits_number_at [OF p(1,2)] b by auto
  have sp: "skip_spaces m p = ret p" using number_at_space(1) [OF at] by simp
  have "m (p + of_nat (length (digits b (unat u)))) = c" using p(1) by (simp add: holds_append)
  then have nb: "number_base m p (int b) = (p, int b)"
    using number_base_digits [of m p "digits b (unat u)" ?ds] at p(3) b by (auto simp: number_base_other)
  have "strtoul_loop m (int b) p (word_of_int 0) =
    ret (word_of_int (int_of (int b) ?ds 0), p + of_nat (length (digits b (unat u))))"
    by (rule strtoul_loop_ok [OF at])
  moreover have "int_of (int b) ?ds 0 = int (unat u)" using b by (intro dvals_value) auto
  ultimately show ?thesis by (simp add: strtoul_def sp nb split: option.split)
qed

lemma strtoul_digits:
  assumes p: "cstr m p (digits b (unat u))" and b: "b = 10 \<or> b = 16"
  shows "strtoul p out (int b) m = ret (u, map_option (\<lambda>_. p + of_nat (length (digits b (unat u)))) out)"
  by (rule strtoul_text [where c = 0]) (use cstr_digits [OF p] b in auto)

lemma strtol_digits:
  assumes p: "cstr m p (signed_digits n)"
  shows "strtol p out 10 m = ret (sint n, map_option (\<lambda>_. p + of_nat (length (signed_digits n))) out)"
proof -
  define u where "u = (if 0 \<le> sint n then n else - n)"
  define q where "q = (if 0 \<le> sint n then p else p + 1)"
  let ?ds = "map int (dvals 10 (unat u))"
  have q: "cstr m q (digits 10 (unat u))" using p by (auto simp: signed_digits_def u_def q_def split: if_splits)
  have at: "number_at m q 10 (digits 10 (unat u)) ?ds" using digits_number_at [of m q 10 "unat u" 0] cstr_digits [OF q] by simp
  have "strtol_loop m 10 q (w32 0) = ret (w32 (int_of 10 ?ds 0), q + of_nat (length (digits 10 (unat u))))"
    by (rule strtol_loop_ok [OF at])
  moreover have "int_of 10 ?ds 0 = int (unat u)" using dvals_value [of 10 "unat u"] by simp
  moreover have "w32 0 = 0" "w32 (int (unat u)) = sint u" by (simp_all add: w32_def)
  ultimately have loop: "strtol_loop m 10 q 0 = ret (sint u, q + of_nat (length (digits 10 (unat u))))" by simp
  show ?thesis
  proof (cases "0 \<le> sint n")
    case True
    then have "q = p" "u = n" by (simp_all add: q_def u_def)
    then show ?thesis using loop number_at_space [OF at] True
      by (simp add: strtol_def number_base_other signed_digits_def split: option.split)
  next
    case False
    have minus: "m p = 45" using p False by (simp add: signed_digits_def)
    have "w32 (- sint (- n)) = sint n" by (simp add: w32_def)
    then show ?thesis using loop skip_spaces_sign [of m p, OF minus] minus False
      by (simp add: strtol_def number_base_other signed_digits_def q_def u_def add.assoc split: option.split)
  qed
qed

end
