(* ===== verification/Display.thy ===== *)
theory Display
  imports Strto
begin

text \<open>
  kernel/display.c: the text screen of 25 lines of 80 columns, and its cursor. The state is the
  video memory (the flat memory, the screen being the 4000 bytes at 0xB8000), the two variables of
  the cursor, and the bytes sent to the ports with \<open>outb\<close>, in order.
\<close>

definition NB_COL :: u32 where "NB_COL = 80"
definition NB_LIG :: u32 where "NB_LIG = 25"
definition POSI_L_INIT :: u32 where "POSI_L_INIT = 1"
definition POSI_C_INIT :: u32 where "POSI_C_INIT = 0"

record display =
  vmem :: memory
  curs_lig_pos :: u32
  curs_col_pos :: u32
  outs :: "(u8 \<times> u16) list"

definition outb :: "u8 \<Rightarrow> u16 \<Rightarrow> display \<Rightarrow> display" where
  "outb v port d = d\<lparr>outs := outs d @ [(v, port)]\<rparr>"

definition ptr_mem :: "u32 \<Rightarrow> u32 \<Rightarrow> u32" where
  "ptr_mem lig col = 0xB8000 + 2 * (lig * NB_COL + col)"

text \<open>The character is sign-extended; the 16 bits are stored low byte first.\<close>

definition ecrit_car :: "u32 \<Rightarrow> u32 \<Rightarrow> u8 \<Rightarrow> u32 \<Rightarrow> u32 \<Rightarrow> u32 \<Rightarrow> display \<Rightarrow> display" where
  "ecrit_car lig col c ct cf cl d =
     (let p = ptr_mem lig col;
          v = ucast ((scast c :: u32) OR push_bit 15 cl OR push_bit 12 cf OR push_bit 8 ct) :: u16
      in d\<lparr>vmem := (vmem d)(p := ucast v, p + 1 := ucast (drop_bit 8 v))\<rparr>)"

definition efface_ecran :: "display \<Rightarrow> display" where
  "efface_ecran d =
     fold (\<lambda>lig d. fold (\<lambda>col d. ecrit_car (of_nat lig) (of_nat col) 32 15 0 0 d) [0..<unat NB_COL] d)
       [0..<unat NB_LIG] d"

definition place_curseur :: "u32 \<Rightarrow> u32 \<Rightarrow> display \<Rightarrow> display" where
  "place_curseur lig col d =
     (let pos = ucast (col + lig * NB_COL) :: u16;
          low = ucast (drop_bit 8 (push_bit 8 (ucast pos :: u32))) :: u8;
          high = ucast (drop_bit 8 pos) :: u8;
          d1 = outb high 0x3D5 (outb 0x0E 0x3D4 (outb low 0x3D5 (outb 0x0F 0x3D4 d)))
      in d1\<lparr>curs_lig_pos := lig, curs_col_pos := col\<rparr>)"

definition next_tab :: "display \<Rightarrow> int" where
  "next_tab d =
     (let col = curs_col_pos d in
      if col < 8 then 8 else if col < 16 then 16 else if col < 24 then 24 else if col < 32 then 32
      else if col < 40 then 40 else if col < 48 then 48 else if col < 56 then 56
      else if col < 64 then 64 else if col < 72 then 72 else if col \<le> 79 then 79 else 0)"

definition defilement :: "display \<Rightarrow> display" where
  "defilement d =
     (let d1 = d\<lparr>vmem := snd (memmove (ptr_mem POSI_L_INIT 0) (ptr_mem (POSI_L_INIT + 1) 0)
                               ((NB_LIG - 1) * NB_COL * 2) (vmem d))\<rparr>;
          d2 = (if curs_lig_pos d1 > POSI_L_INIT
                then place_curseur (curs_lig_pos d1 - 1) (curs_col_pos d1) d1 else d1)
      in fold (\<lambda>i d. ecrit_car 24 (of_nat i) 32 15 0 0 d) [0..<unat NB_COL] d2)"

text \<open>Line 103 of the source compares the line with \<open>NB_COL - 1\<close>.\<close>

definition traite_car :: "u8 \<Rightarrow> display \<Rightarrow> display" where
  "traite_car b d =
     (let c = schar b;
          d1 =
            (if c \<ge> 32 \<and> c \<le> 126 then
               let d1 = ecrit_car (curs_lig_pos d) (curs_col_pos d) b 15 0 0 d;
                   d2 = d1\<lparr>curs_col_pos := curs_col_pos d1 + 1\<rparr>
               in if curs_col_pos d2 = NB_COL then
                    let d3 = d2\<lparr>curs_col_pos := POSI_C_INIT\<rparr>
                    in if curs_lig_pos d3 \<noteq> NB_COL - 1 then d3\<lparr>curs_lig_pos := curs_lig_pos d3 + 1\<rparr>
                       else defilement d3
                  else d2
             else if c = 8 then
               if curs_col_pos d \<noteq> 0 then d\<lparr>curs_col_pos := curs_col_pos d - 1\<rparr> else d
             else if c = 9 then
               let d1 = d\<lparr>curs_col_pos := word_of_int (next_tab d)\<rparr>
               in if curs_col_pos d1 = 0 then d1\<lparr>curs_lig_pos := POSI_L_INIT\<rparr> else d1
             else if c = 10 then
               (if curs_lig_pos d \<noteq> NB_LIG - 1 then d\<lparr>curs_lig_pos := curs_lig_pos d + 1\<rparr>
                else defilement d)\<lparr>curs_col_pos := POSI_C_INIT\<rparr>
             else if c = 12 then
               (efface_ecran d)\<lparr>curs_lig_pos := POSI_L_INIT, curs_col_pos := POSI_C_INIT\<rparr>
             else if c = 13 then d\<lparr>curs_col_pos := POSI_C_INIT\<rparr>
             else d)
      in place_curseur (curs_lig_pos d1) (curs_col_pos d1) d1)"

text \<open>The \<open>taille\<close> bytes at \<open>chaine\<close> are given as a list.\<close>

definition console_putbytes :: "u8 list \<Rightarrow> display \<Rightarrow> display" where
  "console_putbytes chaine d = fold traite_car chaine d"

definition getC :: "display \<Rightarrow> u32" where "getC d = curs_col_pos d"
definition getL :: "display \<Rightarrow> u32" where "getL d = curs_lig_pos d"

end
