(* ===== verification/Console.thy ===== *)
theory Console
  imports Sprintf_Ok Display
begin

text \<open>
  What a console must do for \<open>printf\<close> to print on it, and that the screen of the kernel does it.
  The buffer of \<open>printf\<close> and the moments when it is flushed are then of no importance.
\<close>

locale byte_console =
  fixes putbytes :: "u8 list \<Rightarrow> 'c \<Rightarrow> 'c"
  assumes put_Nil: "putbytes [] con = con"
    and put_append: "putbytes (xs @ ys) con = putbytes ys (putbytes xs con)"
begin

definition shown :: "'c printf_state \<Rightarrow> 'c" where
  "shown st = putbytes (take (index st) (buf st)) (console st)"

definition buf_ok :: "'c printf_state \<Rightarrow> bool" where
  "buf_ok st \<longleftrightarrow> length (buf st) = PRINTF_BUFMAX \<and> index st \<le> PRINTF_BUFMAX"

lemma printf_char_ok:
  assumes "buf_ok st"
  shows "buf_ok (printf_char putbytes c st)" "shown (printf_char putbytes c st) = putbytes [c] (shown st)"
    "pmem (printf_char putbytes c st) = pmem st"
proof -
  have len: "length (buf st) = 128" "index st \<le> 128" using assms by (simp_all add: buf_ok_def PRINTF_BUFMAX_def)
  then obtain b bs where b: "buf st = b # bs" by (cases "buf st") auto
  show "buf_ok (printf_char putbytes c st)" "pmem (printf_char putbytes c st) = pmem st"
    using len by (auto simp: buf_ok_def printf_char_def flush_def Let_def PRINTF_BUFMAX_def)
  show "shown (printf_char putbytes c st) = putbytes [c] (shown st)"
  proof (cases "c = 0 \<or> c = 10 \<or> 128 \<le> index st")
    case True
    then show ?thesis by (simp add: printf_char_def shown_def flush_def Let_def PRINTF_BUFMAX_def put_Nil b)
  next
    case False
    then have "take (Suc (index st)) ((buf st)[index st := c]) = take (index st) (buf st) @ [c]"
      using len by (simp add: take_Suc_conv_app_nth)
    then show ?thesis using False by (simp add: printf_char_def shown_def PRINTF_BUFMAX_def put_append)
  qed
qed

lemma putcs_printf_char:
  assumes "buf_ok st"
  shows "buf_ok (putcs (printf_char putbytes) out st) \<and>
    shown (putcs (printf_char putbytes) out st) = putbytes out (shown st) \<and>
    pmem (putcs (printf_char putbytes) out st) = pmem st"
  using assms
proof (induction out arbitrary: st)
  case Nil
  then show ?case by (simp add: putcs_def put_Nil)
next
  case (Cons c out)
  have "putbytes (c # out) con = putbytes out (putbytes [c] con)" for con
    using put_append [of "[c]" out] by simp
  moreover have "putcs (printf_char putbytes) (c # out) st =
    putcs (printf_char putbytes) out (printf_char putbytes c st)" by (simp add: putcs_def)
  ultimately show ?case using Cons.IH printf_char_ok [OF Cons.prems] by simp
qed

lemma vprintf_ok:
  assumes "length junk = PRINTF_BUFMAX"
  shows "vprintf putbytes junk fmt args m con = mapr (\<lambda>out. putbytes out con) (printed m fmt args 0)"
proof -
  let ?st = "\<lparr>buf = junk, index = 0, console = con, pmem = m\<rparr>"
  have st: "buf_ok ?st" "shown ?st = con" using assms by (simp_all add: buf_ok_def shown_def put_Nil)
  have "console (if index st \<noteq> 0 then flush putbytes st else st) = shown st" for st
    by (simp add: flush_def shown_def put_Nil)
  moreover have "doprnt (printf_char putbytes) pmem fmt args 0 ?st =
      mapr (\<lambda>out. putcs (printf_char putbytes) out ?st) (printed m fmt args 0)"
    by (rule doprnt_printed) (use putcs_printf_char [OF st(1)] in simp)
  ultimately show ?thesis
    using putcs_printf_char [OF st(1)] st(2) by (simp add: vprintf_def mapr_def bindr_assoc)
qed

lemma puts_loop_ok: "cstr m s bs \<Longrightarrow> puts_loop putbytes m s con = ret (putbytes bs con)"
proof (induction bs arbitrary: s con)
  case Nil
  then show ?case by (subst puts_loop.simps) (simp add: put_Nil)
next
  case (Cons b bs)
  have "putbytes (b # bs) con = putbytes bs (putbytes [b] con)" using put_append [of "[b]" bs] by simp
  then show ?case using Cons by (subst puts_loop.simps) (simp add: putchar_def)
qed

lemma puts_ok: "cstr m s bs \<Longrightarrow> puts putbytes m s con = ret (0, putbytes (bs @ [10]) con)"
  by (simp add: puts_def puts_loop_ok putchar_def put_append)

end

interpretation screen: byte_console console_putbytes
  by unfold_locales (simp_all add: console_putbytes_def)

end
