(* ===== verification/Display_Ok.thy ===== *)
theory Display_Ok
  imports Display Strings_Ok
begin

text \<open>
  The screen as 2000 cells, numbered from 0 line after line: what writing, scrolling and clearing
  do to the cells, to the cursor, and to the memory that is not the screen.
\<close>

definition cell_addr :: "nat \<Rightarrow> u32" where
  "cell_addr n = 0xB8000 + of_nat (2 * n)"

definition cell :: "display \<Rightarrow> nat \<Rightarrow> u8 \<times> u8" where
  "cell d n = (vmem d (cell_addr n), vmem d (cell_addr n + 1))"

definition on_screen :: "u32 \<Rightarrow> bool" where
  "on_screen a \<longleftrightarrow> unat (a - 0xB8000) < 4000"

definition cursor :: "display \<Rightarrow> nat" where
  "cursor d = 80 * unat (curs_lig_pos d) + unat (curs_col_pos d)"

definition cursor_ok :: "display \<Rightarrow> bool" where
  "cursor_ok d \<longleftrightarrow> unat (curs_lig_pos d) < 25 \<and> unat (curs_col_pos d) < 80"

subsection \<open>Addresses\<close>

lemma ptr_mem_cell: "ptr_mem lig col = cell_addr (80 * unat lig + unat col)"
  by (simp add: ptr_mem_def cell_addr_def NB_COL_def)

lemma screen_addr_eq:
  assumes "i < 2 ^ 31" "j < 2 ^ 31"
  shows "(0xB8000 + of_nat i :: u32) = 0xB8000 + of_nat j \<longleftrightarrow> i = j"
proof -
  have "unat (of_nat i :: u32) = i" "unat (of_nat j :: u32) = j"
    using assms by (simp_all add: unat_of_nat_u32)
  then show ?thesis by (metis add_left_cancel)
qed

lemma cell_addr_Suc: "cell_addr n + 1 = 0xB8000 + of_nat (2 * n + 1)"
  by (simp add: cell_addr_def)

lemma cell_addr_eq:
  assumes "n < 2 ^ 30" "k < 2 ^ 30"
  shows "cell_addr n = cell_addr k \<longleftrightarrow> n = k" "cell_addr n + 1 = cell_addr k + 1 \<longleftrightarrow> n = k"
    "cell_addr n + 1 \<noteq> cell_addr k" "cell_addr n \<noteq> cell_addr k + 1"
proof -
  have eq: "(0xB8000 + of_nat i :: u32) = 0xB8000 + of_nat j \<longleftrightarrow> i = j" if "i \<le> 2 * n + 1 \<or> i \<le> 2 * k + 1"
    "j \<le> 2 * n + 1 \<or> j \<le> 2 * k + 1" for i j
    by (rule screen_addr_eq) (use assms that in auto)
  show "cell_addr n = cell_addr k \<longleftrightarrow> n = k" using eq [of "2 * n" "2 * k"] by (simp add: cell_addr_def)
  then show "cell_addr n + 1 = cell_addr k + 1 \<longleftrightarrow> n = k" by simp
  show "cell_addr n + 1 \<noteq> cell_addr k"
    using eq [of "2 * n + 1" "2 * k"] double_not_eq_Suc_double [of k n]
    unfolding cell_addr_Suc unfolding cell_addr_def by simp
  show "cell_addr n \<noteq> cell_addr k + 1"
    using eq [of "2 * n" "2 * k + 1"] double_not_eq_Suc_double [of n k]
    unfolding cell_addr_Suc unfolding cell_addr_def by simp
qed

lemma on_screen_cell: "n < 2000 \<Longrightarrow> on_screen (cell_addr n) \<and> on_screen (cell_addr n + 1)"
proof -
  assume "n < 2000"
  moreover have "unat (of_nat (2 * n) :: u32) = 2 * n" "unat (of_nat (2 * n + 1) :: u32) = 2 * n + 1"
    by (rule unat_of_nat_u32, use \<open>n < 2000\<close> in simp)+
  ultimately show ?thesis unfolding cell_addr_Suc on_screen_def cell_addr_def using \<open>n < 2000\<close> by simp
qed

subsection \<open>One character\<close>

lemma ecrit_car_fields [simp]:
  "curs_lig_pos (ecrit_car l c b ct cf cl d) = curs_lig_pos d"
  "curs_col_pos (ecrit_car l c b ct cf cl d) = curs_col_pos d"
  "outs (ecrit_car l c b ct cf cl d) = outs d"
  by (simp_all add: ecrit_car_def Let_def)

lemma place_curseur_fields [simp]:
  "curs_lig_pos (place_curseur l c d) = l" "curs_col_pos (place_curseur l c d) = c"
  "vmem (place_curseur l c d) = vmem d"
  by (simp_all add: place_curseur_def outb_def Let_def)

lemma cell_cong: "vmem d = vmem d' \<Longrightarrow> cell d n = cell d' n"
  by (simp add: cell_def)

text \<open>A plain white character, as the kernel writes them.\<close>

lemma white_bytes:
  assumes "0 \<le> schar b"
  shows "(ucast (ucast ((scast b :: u32) OR push_bit 8 15) :: u16) :: u8) = b \<and>
    (ucast (drop_bit 8 (ucast ((scast b :: u32) OR push_bit 8 15) :: u16)) :: u8) = 15"
proof -
  have nb: "\<not> bit b 7" using assms by (simp add: schar_def sint_uint bit_uint_iff)
  have s: "bit (scast b :: u32) n \<longleftrightarrow> n < 8 \<and> bit b n" for n
    using nb bit_imp_le_length [of b n]
    by (cases "n < 7"; cases "n = 7") (auto simp: bit_simps min_def)
  have f: "bit (15 :: u32) n \<longleftrightarrow> n < 4" for n
  proof -
    have "(15 :: u32) = mask 4" by (simp add: mask_eq_exp_minus_1)
    then have "bit (15 :: u32) n \<longleftrightarrow> bit (mask 4 :: u32) n" by (simp only:)
    then show ?thesis by (auto simp: bit_mask_iff)
  qed
  have h: "bit (3840 :: u32) n \<longleftrightarrow> 8 \<le> n \<and> n < 12" for n
  proof -
    have "bit (3840 :: u32) n = bit (push_bit 8 (15 :: u32)) n" by simp
    also have "\<dots> \<longleftrightarrow> 8 \<le> n \<and> n < 12" by (simp only: bit_push_bit_iff f) auto
    finally show ?thesis .
  qed
  have g: "bit (15 :: u8) n \<longleftrightarrow> n < 4" for n
  proof -
    have "(15 :: u8) = mask 4" by (simp add: mask_eq_exp_minus_1)
    then have "bit (15 :: u8) n \<longleftrightarrow> bit (mask 4 :: u8) n" by (simp only:)
    then show ?thesis by (auto simp: bit_mask_iff)
  qed
  define w where "w = (scast b :: u32) OR push_bit 8 15"
  have "w = scast b OR 3840" by (simp add: w_def)
  then have w: "bit w n \<longleftrightarrow> n < 8 \<and> bit b n \<or> 8 \<le> n \<and> n < 12" for n by (simp only: bit_or_iff s h)
  have "(ucast (ucast w :: u16) :: u8) = b"
    by (rule bit_word_eqI) (simp add: bit_unsigned_iff w)
  moreover have "(ucast (drop_bit 8 (ucast w :: u16)) :: u8) = 15"
    by (rule bit_word_eqI, unfold g) (auto simp: bit_unsigned_iff bit_drop_bit_eq w)
  ultimately show ?thesis unfolding w_def ..
qed

lemma ecrit_car_cell:
  assumes "80 * unat l + unat c < 2000" "0 \<le> schar b" "n < 2000"
  shows "cell (ecrit_car l c b 15 0 0 d) n = (if n = 80 * unat l + unat c then (b, 15) else cell d n)"
proof -
  let ?k = "80 * unat l + unat c"
  have b: "n < 2 ^ 30" "?k < 2 ^ 30" using assms by simp_all
  have "vmem (ecrit_car l c b 15 0 0 d) = (vmem d)(cell_addr ?k := b, cell_addr ?k + 1 := 15)"
    using white_bytes [OF assms(2)] by (simp add: ecrit_car_def Let_def ptr_mem_cell)
  then show ?thesis using cell_addr_eq [OF b] by (simp add: cell_def)
qed

lemma ecrit_car_outside:
  assumes "80 * unat l + unat c < 2000" "\<not> on_screen a"
  shows "vmem (ecrit_car l c b ct cf cl d) a = vmem d a"
  using on_screen_cell [OF assms(1)] assms(2) by (auto simp: ecrit_car_def Let_def ptr_mem_cell)

subsection \<open>Filling lines, clearing, scrolling\<close>

lemma schar_space: "schar 32 = 32"
  by (simp add: schar_def)

lemma fill_line:
  assumes "unat l < 25" "k \<le> 80"
  shows "(\<forall>n<2000. cell (fold (\<lambda>i. ecrit_car l (of_nat i) 32 15 0 0) [0..<k] d) n =
      (if 80 * unat l \<le> n \<and> n < 80 * unat l + k then (32, 15) else cell d n)) \<and>
    (\<forall>a. \<not> on_screen a \<longrightarrow> vmem (fold (\<lambda>i. ecrit_car l (of_nat i) 32 15 0 0) [0..<k] d) a = vmem d a) \<and>
    curs_lig_pos (fold (\<lambda>i. ecrit_car l (of_nat i) 32 15 0 0) [0..<k] d) = curs_lig_pos d \<and>
    curs_col_pos (fold (\<lambda>i. ecrit_car l (of_nat i) 32 15 0 0) [0..<k] d) = curs_col_pos d \<and>
    outs (fold (\<lambda>i. ecrit_car l (of_nat i) 32 15 0 0) [0..<k] d) = outs d"
  using assms(2)
proof (induction k)
  case 0
  then show ?case by auto
next
  case (Suc k)
  have k: "unat (of_nat k :: u32) = k" using Suc.prems by (intro unat_of_nat_u32) simp
  then have pos: "80 * unat l + unat (of_nat k :: u32) < 2000" using assms(1) Suc.prems by simp
  show ?case
    using Suc k pos ecrit_car_cell [OF pos, of 32] ecrit_car_outside [OF pos]
    by (auto simp: schar_space)
qed

lemma efface_lines:
  assumes "r \<le> 25"
  shows "(\<forall>n<2000. cell (fold (\<lambda>lig. fold (\<lambda>col. ecrit_car (of_nat lig) (of_nat col) 32 15 0 0) [0..<80]) [0..<r] d) n =
      (if n < 80 * r then (32, 15) else cell d n)) \<and>
    (\<forall>a. \<not> on_screen a \<longrightarrow>
      vmem (fold (\<lambda>lig. fold (\<lambda>col. ecrit_car (of_nat lig) (of_nat col) 32 15 0 0) [0..<80]) [0..<r] d) a = vmem d a)"
  using assms
proof (induction r)
  case 0
  then show ?case by simp
next
  case (Suc r)
  have r: "unat (of_nat r :: u32) = r" using Suc.prems by (intro unat_of_nat_u32) simp
  show ?case
    using Suc r fill_line [of "of_nat r" 80] by auto
qed

lemma efface_ecran_ok:
  "n < 2000 \<Longrightarrow> cell (efface_ecran d) n = (32, 15)"
  "\<not> on_screen a \<Longrightarrow> vmem (efface_ecran d) a = vmem d a"
  using efface_lines [of 25 d] by (simp_all add: efface_ecran_def NB_COL_def NB_LIG_def)

text \<open>Scrolling copies lines 2 to 25 over lines 1 to 24; line 25 is below the screen.\<close>

lemma scroll_move:
  "memmove (ptr_mem POSI_L_INIT 0) (ptr_mem (POSI_L_INIT + 1) 0) ((NB_LIG - 1) * NB_COL * 2) m =
     (cell_addr 80, blit m (cell_addr 160) (cell_addr 80) 3840)"
proof -
  have "memmove (cell_addr 80) (cell_addr 160) 3840 m = (cell_addr 80, blit m (cell_addr 160) (cell_addr 80) (unat (3840 :: u32)))"
    by (rule memmove_blit) (simp_all add: cell_addr_def)
  then show ?thesis by (simp add: ptr_mem_def POSI_L_INIT_def NB_LIG_def NB_COL_def cell_addr_def)
qed

lemma blit_cell:
  assumes "n < 2000" "80 \<le> n" "i < 2"
  shows "blit m (cell_addr 160) (cell_addr 80) 3840 (cell_addr n + of_nat i) = m (cell_addr (n + 80) + of_nat i)"
proof -
  have "blit m (cell_addr 160) (cell_addr 80) 3840 (cell_addr 80 + of_nat (2 * (n - 80) + i)) =
    m (cell_addr 160 + of_nat (2 * (n - 80) + i))"
    by (rule blit_read) (use assms in auto)
  moreover have "cell_addr 80 + of_nat (2 * (n - 80) + i) = cell_addr n + of_nat i"
    "cell_addr 160 + of_nat (2 * (n - 80) + i) = cell_addr (n + 80) + of_nat i"
    using assms(2) by (simp_all add: cell_addr_def of_nat_diff algebra_simps)
  ultimately show ?thesis by (simp only:)
qed

lemma blit_cell_other:
  assumes "n < 80" "i < 2"
  shows "blit m (cell_addr 160) (cell_addr 80) 3840 (cell_addr n + of_nat i) = m (cell_addr n + of_nat i)"
proof -
  have "of_nat (2 * n + i) - 160 = (of_nat (2 ^ 32 + 2 * n + i - 160) :: u32)" using assms by (simp add: of_nat_diff)
  moreover have "unat (of_nat (2 ^ 32 + 2 * n + i - 160) :: u32) = 2 ^ 32 + 2 * n + i - 160"
    by (rule unat_of_nat_u32) (use assms in simp)
  ultimately have "unat (of_nat (2 * n + i) - 160 :: u32) = 2 ^ 32 + 2 * n + i - 160" by (simp only:)
  moreover have "cell_addr n + of_nat i - cell_addr 80 = of_nat (2 * n + i) - 160"
    by (simp add: cell_addr_def)
  ultimately have "unat (cell_addr n + of_nat i - cell_addr 80) = 2 ^ 32 + 2 * n + i - 160" by (simp only:)
  then show ?thesis by (simp add: blit_def)
qed

lemma blit_outside: "\<not> on_screen a \<Longrightarrow> blit m (cell_addr 160) (cell_addr 80) 3840 a = m a"
proof -
  assume out: "\<not> on_screen a"
  have "\<not> unat (a - cell_addr 80) < 3840"
  proof
    assume lt: "unat (a - cell_addr 80) < 3840"
    have "a - 0xB8000 = of_nat (unat (a - cell_addr 80) + 160)" by (simp add: cell_addr_def)
    moreover have "unat (of_nat (unat (a - cell_addr 80) + 160) :: u32) = unat (a - cell_addr 80) + 160"
      by (rule unat_of_nat_u32) (use lt in simp)
    ultimately show False using out lt by (simp add: on_screen_def)
  qed
  then show ?thesis by (simp add: blit_def)
qed

lemma defilement_ok:
  "n < 2000 \<Longrightarrow> cell (defilement d) n =
     (if n < 80 then cell d n else if n < 1920 then cell d (n + 80) else (32, 15))"
  "\<not> on_screen a \<Longrightarrow> vmem (defilement d) a = vmem d a"
  "curs_lig_pos (defilement d) = (if curs_lig_pos d > 1 then curs_lig_pos d - 1 else curs_lig_pos d)"
  "curs_col_pos (defilement d) = curs_col_pos d"
proof -
  define d1 where "d1 = d\<lparr>vmem := blit (vmem d) (cell_addr 160) (cell_addr 80) 3840\<rparr>"
  define d2 where "d2 = (if curs_lig_pos d1 > 1 then place_curseur (curs_lig_pos d1 - 1) (curs_col_pos d1) d1 else d1)"
  have eq: "defilement d = fold (\<lambda>i. ecrit_car 24 (of_nat i) 32 15 0 0) [0..<80] d2"
    unfolding defilement_def scroll_move d2_def d1_def by (simp add: Let_def POSI_L_INIT_def NB_COL_def)
  have v: "vmem d2 = blit (vmem d) (cell_addr 160) (cell_addr 80) 3840" by (simp add: d2_def d1_def)
  have f: "\<forall>n<2000. cell (defilement d) n = (if 1920 \<le> n \<and> n < 2000 then (32, 15) else cell d2 n)"
    "\<forall>a. \<not> on_screen a \<longrightarrow> vmem (defilement d) a = vmem d2 a"
    "curs_lig_pos (defilement d) = curs_lig_pos d2" "curs_col_pos (defilement d) = curs_col_pos d2"
    unfolding eq using fill_line [of 24 80 d2] by simp_all
  have "cell d2 n = cell d (n + 80)" if "80 \<le> n" "n < 2000" for n
    using blit_cell [of n 0 "vmem d"] blit_cell [of n 1 "vmem d"] that by (simp add: cell_def v)
  moreover have "cell d2 n = cell d n" if "n < 80" for n
    using blit_cell_other [of n 0 "vmem d"] blit_cell_other [of n 1 "vmem d"] that by (simp add: cell_def v)
  ultimately show "n < 2000 \<Longrightarrow> cell (defilement d) n =
     (if n < 80 then cell d n else if n < 1920 then cell d (n + 80) else (32, 15))"
    using f(1) by auto
  show "\<not> on_screen a \<Longrightarrow> vmem (defilement d) a = vmem d a" using f(2) blit_outside v by simp
  show "curs_lig_pos (defilement d) = (if curs_lig_pos d > 1 then curs_lig_pos d - 1 else curs_lig_pos d)"
    "curs_col_pos (defilement d) = curs_col_pos d"
    using f(3,4) by (simp_all add: d2_def d1_def)
qed

subsection \<open>Characters\<close>

lemma traite_car_print:
  assumes "32 \<le> schar b" "schar b \<le> 126"
  shows "traite_car b d =
    (let d1 = (ecrit_car (curs_lig_pos d) (curs_col_pos d) b 15 0 0 d)\<lparr>curs_col_pos := curs_col_pos d + 1\<rparr>;
         d2 = (if curs_col_pos d + 1 \<noteq> 80 then d1
               else if curs_lig_pos d \<noteq> 79 then d1\<lparr>curs_col_pos := 0, curs_lig_pos := curs_lig_pos d + 1\<rparr>
               else defilement (d1\<lparr>curs_col_pos := 0\<rparr>))
     in place_curseur (curs_lig_pos d2) (curs_col_pos d2) d2)"
  using assms by (simp add: traite_car_def Let_def NB_COL_def POSI_C_INIT_def)

lemma cell_fields [simp]:
  "cell (d\<lparr>curs_col_pos := c\<rparr>) n = cell d n" "cell (d\<lparr>curs_lig_pos := l\<rparr>) n = cell d n"
  "cell (place_curseur l c d) n = cell d n"
  by (simp_all add: cell_def)

text \<open>One printable character: its cell, the next position, and nothing else.\<close>

lemma print_char:
  assumes ok: "unat (curs_lig_pos d) < 25" "unat (curs_col_pos d) < 80" and b: "32 \<le> schar b" "schar b \<le> 126"
  shows "(\<forall>n<2000. cell (traite_car b d) n = (if n = cursor d then (b, 15) else cell d n)) \<and>
    (\<forall>a. \<not> on_screen a \<longrightarrow> vmem (traite_car b d) a = vmem d a) \<and>
    cursor (traite_car b d) = cursor d + 1 \<and> unat (curs_col_pos (traite_car b d)) < 80"
proof -
  have pos: "80 * unat (curs_lig_pos d) + unat (curs_col_pos d) < 2000" using ok by simp
  have lig: "unat (curs_lig_pos d + 1) = Suc (unat (curs_lig_pos d))"
    "unat (curs_col_pos d + 1) = Suc (unat (curs_col_pos d))"
    by (rule unat_Suc_u32, use ok in simp)+
  have ne: "curs_lig_pos d \<noteq> 79" using ok(1) by auto
  have wrap: "curs_col_pos d + 1 = 80 \<longleftrightarrow> unat (curs_col_pos d) = 79"
  proof
    assume "unat (curs_col_pos d) = 79"
    then have "unat (curs_col_pos d + 1) = unat (80 :: u32)" using lig(2) by simp
    then show "curs_col_pos d + 1 = 80" by (simp only: word_unat_eq_iff)
  qed (use lig(2) in auto)
  have eq: "traite_car b d =
    (let d1 = (ecrit_car (curs_lig_pos d) (curs_col_pos d) b 15 0 0 d)\<lparr>curs_col_pos := curs_col_pos d + 1\<rparr>;
         d2 = (if unat (curs_col_pos d) \<noteq> 79 then d1
               else d1\<lparr>curs_col_pos := 0, curs_lig_pos := curs_lig_pos d + 1\<rparr>)
     in place_curseur (curs_lig_pos d2) (curs_col_pos d2) d2)"
    unfolding traite_car_print [OF b] using ne wrap by (simp add: Let_def)
  have s: "0 \<le> schar b" using b by simp
  have v: "vmem (traite_car b d) = vmem (ecrit_car (curs_lig_pos d) (curs_col_pos d) b 15 0 0 d)"
    unfolding eq by (simp add: Let_def)
  have "\<forall>n<2000. cell (traite_car b d) n = (if n = cursor d then (b, 15) else cell d n)"
    unfolding cell_cong [OF v] using ecrit_car_cell [OF pos s] by (simp add: cursor_def)
  moreover have "\<forall>a. \<not> on_screen a \<longrightarrow> vmem (traite_car b d) a = vmem d a"
    unfolding v using ecrit_car_outside [OF pos] by blast
  moreover have "cursor (traite_car b d) = cursor d + 1 \<and> unat (curs_col_pos (traite_car b d)) < 80"
    unfolding eq using ok lig by (auto simp: Let_def cursor_def)
  ultimately show ?thesis by blast
qed

lemma cursor_lig: "cursor d < 2000 \<Longrightarrow> unat (curs_lig_pos d) < 25"
  by (simp add: cursor_def)

text \<open>A text that fits before the end of the screen.\<close>

lemma print_text:
  assumes "cursor d + length bs \<le> 2000" "unat (curs_col_pos d) < 80" "\<forall>b\<in>set bs. 32 \<le> schar b \<and> schar b \<le> 126"
  shows "(\<forall>n<2000. cell (console_putbytes bs d) n =
      (if cursor d \<le> n \<and> n < cursor d + length bs then (bs ! (n - cursor d), 15) else cell d n)) \<and>
    (\<forall>a. \<not> on_screen a \<longrightarrow> vmem (console_putbytes bs d) a = vmem d a) \<and>
    cursor (console_putbytes bs d) = cursor d + length bs \<and> unat (curs_col_pos (console_putbytes bs d)) < 80"
  using assms
proof (induction bs arbitrary: d)
  case Nil
  then show ?case by (auto simp: console_putbytes_def)
next
  case (Cons b bs)
  let ?d = "traite_car b d"
  have lig: "unat (curs_lig_pos d) < 25" using Cons.prems(1) by (intro cursor_lig) simp
  have b: "32 \<le> schar b" "schar b \<le> 126" using Cons.prems(3) by auto
  note p = print_char [OF lig Cons.prems(2) b]
  have IH: "(\<forall>n<2000. cell (console_putbytes bs ?d) n =
      (if cursor ?d \<le> n \<and> n < cursor ?d + length bs then (bs ! (n - cursor ?d), 15) else cell ?d n)) \<and>
    (\<forall>a. \<not> on_screen a \<longrightarrow> vmem (console_putbytes bs ?d) a = vmem ?d a) \<and>
    cursor (console_putbytes bs ?d) = cursor ?d + length bs \<and> unat (curs_col_pos (console_putbytes bs ?d)) < 80"
    by (rule Cons.IH) (use p Cons.prems in auto)
  have eq: "console_putbytes (b # bs) d = console_putbytes bs ?d" by (simp add: console_putbytes_def)
  have nth: "(b # bs) ! (n - cursor d) = (if n = cursor d then b else bs ! (n - Suc (cursor d)))" if "cursor d \<le> n" for n
    using that by (auto simp: nth_Cons' Suc_diff_Suc)
  show ?case unfolding eq using IH p nth by auto
qed

text \<open>The cursor of the screen, as the controller of the screen gets it: low byte, high byte.\<close>

definition shows_cursor :: "(u8 \<times> u16) list \<Rightarrow> nat \<Rightarrow> bool" where
  "shows_cursor os n \<longleftrightarrow>
     (\<exists>pre low high. os = pre @ [(0x0F, 0x3D4), (low, 0x3D5), (0x0E, 0x3D4), (high, 0x3D5)] \<and>
        256 * unat high + unat low = n)"

lemma place_curseur_shows:
  assumes "80 * unat l + unat c < 2 ^ 16"
  shows "shows_cursor (outs (place_curseur l c d)) (cursor (place_curseur l c d))"
proof -
  define pos where "pos = (ucast (c + l * NB_COL) :: u16)"
  have eq: "c + l * NB_COL = of_nat (80 * unat l + unat c)" by (simp add: NB_COL_def mult.commute)
  have "unat (c + l * NB_COL) = 80 * unat l + unat c" unfolding eq by (rule unat_of_nat_u32) (use assms in simp)
  then have pos: "unat pos = 80 * unat l + unat c"
    using assms by (simp add: pos_def unsigned_ucast_eq take_bit_nat_eq_self)
  have "unat (ucast pos :: u8) = unat pos mod 256"
    by (simp add: unsigned_ucast_eq take_bit_eq_mod)
  moreover have "unat (ucast (drop_bit 8 pos) :: u8) = unat pos div 256"
  proof -
    have "unat pos div 256 < 2 ^ 8" using assms pos by simp
    then show ?thesis by (simp add: unsigned_ucast_eq drop_bit_eq_div take_bit_nat_eq_self unat_div_distrib)
  qed
  ultimately have sum: "256 * unat (ucast (drop_bit 8 pos) :: u8) + unat (ucast pos :: u8) = 80 * unat l + unat c"
    using pos by simp
  have low: "(ucast (drop_bit 8 (push_bit 8 (ucast pos :: u32))) :: u8) = ucast pos"
    by (rule bit_word_eqI) (simp add: bit_unsigned_iff bit_drop_bit_eq bit_push_bit_iff)
  have "outs (place_curseur l c d) =
    outs d @ [(0x0F, 0x3D4), (ucast pos, 0x3D5), (0x0E, 0x3D4), (ucast (drop_bit 8 pos), 0x3D5)]"
    using low by (simp add: place_curseur_def outb_def Let_def pos_def)
  then show ?thesis using sum unfolding shows_cursor_def by (auto simp: cursor_def)
qed

lemma next_tab_col:
  assumes "unat (curs_col_pos d) < 80"
  shows "unat (word_of_int (next_tab d) :: u32) < 80" "0 < next_tab d"
  by (auto simp: next_tab_def Let_def word_less_nat_alt word_le_nat_alt)
    (use assms in simp)

lemma unat_pred_u32: "x \<noteq> 0 \<Longrightarrow> unat (x - 1 :: u32) < unat x"
  by (simp add: unat_minus_one unat_gt_0)

text \<open>
  Any character keeps the cursor on the screen, writes nothing out of it and places the cursor of
  the hardware, unless it is printed in the last column of the last line.
\<close>

lemma traite_car_safe:
  assumes ok: "cursor_ok d" and last: "cursor d < 1999 \<or> \<not> (32 \<le> schar b \<and> schar b \<le> 126)"
  shows "cursor_ok (traite_car b d) \<and> (\<forall>a. \<not> on_screen a \<longrightarrow> vmem (traite_car b d) a = vmem d a) \<and>
    shows_cursor (outs (traite_car b d)) (cursor (traite_car b d))"
proof -
  have lc: "unat (curs_lig_pos d) < 25" "unat (curs_col_pos d) < 80" using ok by (simp_all add: cursor_ok_def)
  have main: "cursor_ok (traite_car b d) \<and> (\<forall>a. \<not> on_screen a \<longrightarrow> vmem (traite_car b d) a = vmem d a)"
  proof (cases "32 \<le> schar b \<and> schar b \<le> 126")
    case True
    have p: "cursor (traite_car b d) = cursor d + 1" "unat (curs_col_pos (traite_car b d)) < 80"
      "\<forall>a. \<not> on_screen a \<longrightarrow> vmem (traite_car b d) a = vmem d a"
      using print_char [OF lc] True by blast+
    moreover have "unat (curs_lig_pos (traite_car b d)) < 25" using p(1) last True by (intro cursor_lig) simp
    ultimately show ?thesis by (simp add: cursor_ok_def)
  next
    case False
    have lig: "unat (curs_lig_pos d + 1) = Suc (unat (curs_lig_pos d))" by (rule unat_Suc_u32) (use lc in simp)
    have l24': "curs_lig_pos d = 24" if "unat (curs_lig_pos d) = 24"
      using that by (metis unat_of_nat_u32 of_nat_unat of_nat_numeral ucast_id)
    have l24: "curs_lig_pos d = 24 \<or> unat (curs_lig_pos d) < 24" using l24' lc(1) by linarith
    have down: "unat (curs_lig_pos (defilement d)) < 25"
      using lc unat_pred_u32 [of "curs_lig_pos d"]
      by (cases "curs_lig_pos d = 0") (auto simp: defilement_ok(3))
    consider "schar b = 8" | "schar b = 9" | "schar b = 10" | "schar b = 12" | "schar b = 13"
      | "schar b \<notin> {8, 9, 10, 12, 13}" by auto
    then show ?thesis
    proof cases
      case 1
      then show ?thesis using lc unat_pred_u32 [of "curs_col_pos d"]
        by (auto simp: traite_car_def cursor_ok_def Let_def)
    next
      case 2
      then show ?thesis using lc next_tab_col [OF lc(2)]
        by (auto simp: traite_car_def cursor_ok_def Let_def POSI_L_INIT_def)
    next
      case 3
      then show ?thesis using lc lig l24 down defilement_ok(2)
        by (auto simp: traite_car_def cursor_ok_def Let_def NB_LIG_def POSI_C_INIT_def less_Suc_eq)
    next
      case 4
      then show ?thesis by (auto simp: traite_car_def cursor_ok_def Let_def POSI_L_INIT_def POSI_C_INIT_def efface_ecran_ok)
    next
      case 5
      then show ?thesis using lc by (auto simp: traite_car_def cursor_ok_def Let_def POSI_C_INIT_def)
    next
      case 6
      then show ?thesis using False lc by (auto simp: traite_car_def cursor_ok_def Let_def)
    qed
  qed
  moreover have "\<exists>l c d1. traite_car b d = place_curseur l c d1" unfolding traite_car_def Let_def by blast
  then obtain l c d1 where t: "traite_car b d = place_curseur l c d1" by blast
  have "80 * unat l + unat c < 2 ^ 16" using main by (simp add: t cursor_ok_def)
  then have "shows_cursor (outs (traite_car b d)) (cursor (traite_car b d))" unfolding t by (rule place_curseur_shows)
  ultimately show ?thesis by blast
qed

lemma newline_last:
  assumes "curs_lig_pos d = 24"
  shows "curs_lig_pos (traite_car 10 d) = 23" "curs_col_pos (traite_car 10 d) = 0"
    "n < 2000 \<Longrightarrow> cell (traite_car 10 d) n = (if n < 80 then cell d n else if n < 1920 then cell d (n + 80) else (32, 15))"
  using assms
  by (simp_all add: traite_car_def Let_def schar_def NB_LIG_def POSI_C_INIT_def defilement_ok)

end
