(* ===== verification/Print_Props.thy ===== *)
theory Print_Props
  imports Console Display_Ok
begin

text \<open>
  The properties of the formatted output (shared/doprnt.c, shared/sprintf.c, shared/printf.c), of
  the reading of numbers (shared/strtol.c, shared/strtoul.c) and of the screen
  (kernel/display.c), each with the inputs it is applied to.
\<close>

subsection \<open>Printing\<close>

text \<open>A screen and a stack to print with.\<close>

definition blank :: display where
  "blank = \<lparr>vmem = (\<lambda>_. 0), curs_lig_pos = 1, curs_col_pos = 0, outs = []\<rparr>"

definition stack_bytes :: "u8 list" where
  "stack_bytes = replicate PRINTF_BUFMAX 7"



text \<open>
  C18: Numbers are read back as they were printed: what \<open>sprintf\<close> writes for %d is read by \<open>strtol\<close>,
  what it writes for %u and %x by \<open>strtoul\<close>, for every 32-bit number, with the end pointer after
  the last digit.
\<close>

theorem printed_numbers_read_back:
  "(\<exists>len m'. sprintf p [37, 100] [n] m = ret (len, m') \<and>
      strtol p out 10 m' = ret (sint n, map_option (\<lambda>_. p + len) out)) \<and>
   (\<exists>len m'. sprintf p [37, 117] [n] m = ret (len, m') \<and>
      strtoul p out 10 m' = ret (n, map_option (\<lambda>_. p + len) out)) \<and>
   (\<exists>len m'. sprintf p [37, 120] [n] m = ret (len, m') \<and>
      strtoul p out 16 m' = ret (n, map_option (\<lambda>_. p + len) out))"
proof -
  have w: "sprintf p fmt [n] m = ret (of_nat (length ds), (poke m p ds)(p + of_nat (length ds) := 0)) \<and>
      cstr ((poke m p ds)(p + of_nat (length ds) := 0)) p ds"
    if "\<And>s. doprnt savechar smem fmt [n] 0 s = ret (putcs savechar ds s)" "0 \<notin> set ds" "length ds \<le> 33" for fmt ds
    using vsprintf_run [OF that(1)] poke_cstr [OF that(2)] that(3) by simp
  have s: "0 \<notin> set (signed_digits n)" "length (signed_digits n) \<le> 33"
    using digits_zero_free [of 10] digits_short [of 10 n] digits_short [of 10 "- n"] by (auto simp: signed_digits_def)
  have u: "0 \<notin> set (digits b (unat n))" "length (digits b (unat n)) \<le> 33" if "b = 10 \<or> b = 16" for b
    using digits_zero_free [of b] digits_short [of b n] that by auto
  have d: "doprnt savechar smem [37, 117] [n] 0 st = ret (putcs savechar (digits 10 (unat n)) st)"
    "doprnt savechar smem [37, 120] [n] 0 st = ret (putcs savechar (digits 16 (unat n)) st)" for st
    by (rule doprnt_unsigned; simp)+
  have b: "int 10 = 10" "int 16 = 16" by simp_all
  show ?thesis
    using w [OF doprnt_signed s] strtol_digits [of _ p n out]
      w [OF d(1) u(1,2) [OF disjI1 [OF refl]]] strtoul_digits [of _ p 10 n out, OF _ disjI1 [OF refl], unfolded b]
      w [OF d(2) u(1,2) [OF disjI2 [OF refl]]] strtoul_digits [of _ p 16 n out, OF _ disjI2 [OF refl], unfolded b]
    by blast
qed

text \<open>
  C19: \<open>snprintf\<close> with a bound writes at most that number of bytes and a final NUL, for any format
  and arguments: nothing beyond the address \<open>s + size\<close> changes, and the result is the length of the
  string.
\<close>

theorem snprintf_bounds:
  assumes "snprintf s sz fmt args m = ret (n, m')" and "sz \<noteq> SPRINTF_UNLIMITED"
  shows "n \<le> sz \<and> (\<forall>a. unat sz < unat (a - s) \<longrightarrow> m' a = m a) \<and> m' (s + n) = 0"
proof -
  obtain out where n: "n = of_nat (length (take (unat sz) out))"
    and m': "m' = (poke m s (take (unat sz) out))(s + n := 0)"
    using vsnprintf_result assms unfolding snprintf_def by blast
  have "length (take (unat sz) out) \<le> unat sz" by simp
  moreover have "unat n = length (take (unat sz) out)"
    unfolding n using unat_less_u32 [of sz] by (intro unat_of_nat_u32) (simp add: min_less_iff_disj)
  ultimately have len: "unat n \<le> unat sz" "length (take (unat sz) out) = unat n" by simp_all
  have "m' a = m a" if "unat sz < unat (a - s)" for a
  proof -
    have "a \<noteq> s + n" using that len(1) by auto
    then show ?thesis using that len by (simp add: m' poke_outside del: length_take)
  qed
  then show ?thesis using len(1) by (simp add: m' word_le_nat_alt)
qed

theorem snprintf_bounds_witness:
  "\<exists>m'. snprintf 100 2 [97, 98, 99] [] (\<lambda>_. 9) = ret (2, m') \<and> 2 \<le> (2 :: u32) \<and> m' 103 = 9 \<and> m' 102 = 0"
proof -
  have t: "\<And>s. doprnt savechar smem [97, 98, 99] [] 0 s = ret (putcs savechar [97, 98, 99] s)"
    by (rule doprnt_text) simp_all
  obtain m' where r: "snprintf 100 2 [97, 98, 99] [] (\<lambda>_. 9) = ret (2, m')"
    using vsnprintf_run [OF t, of 2 100 "\<lambda>_. 9"] by (auto simp: SPRINTF_UNLIMITED_def Let_def)
  from snprintf_bounds [OF this] have "m' 103 = 9" "m' 102 = 0" by (auto simp: SPRINTF_UNLIMITED_def dest: spec [of _ 103])
  then show ?thesis using r by simp
qed

text \<open>
  The final NUL of \<open>snprintf\<close> is written one byte behind a buffer of \<open>size\<close> bytes, when the text
  is as long as the buffer or longer.
\<close>

theorem snprintf_overflows_by_one:
  assumes "0 \<notin> set fmt" and "37 \<notin> set fmt" and "unat sz \<le> length fmt" and "sz \<noteq> SPRINTF_UNLIMITED"
  shows "\<exists>m'. snprintf s sz fmt args m = ret (sz, m') \<and> m' (s + sz) = 0"
proof -
  have "length (take (unat sz) fmt) = unat sz" using assms(3) by simp
  then show ?thesis
    using vsnprintf_run [OF doprnt_text [OF assms(1,2)] assms(4), where p = s and m = m and args = args]
    by (simp add: Let_def del: length_take)
qed

theorem snprintf_overflows_by_one_witness:
  "\<exists>m'. snprintf 100 3 [97, 98, 99] [] (\<lambda>_. 9) = ret (3, m') \<and> m' 103 = 0"
  using snprintf_overflows_by_one [of "[97, 98, 99]" 3 100 "[]" "\<lambda>_. 9"] by (simp add: SPRINTF_UNLIMITED_def)

lemma read_conv_radix: "c \<in> {110, 78, 114, 82} \<Longrightarrow> read_conv (c # fmt) args = ret (c # fmt, no_conv, args)"
  by (elim insertE emptyE;
      simp add: read_conv_def no_conv_def zero_flag_def read_width_def read_prec_def skip_l_def isdigit_def)

lemma print_num_radix_zero: "print_num putc v u 0 sc s = err Divide_Error"
proof -
  have m: "MAXBUF = Suc 31" by (simp add: MAXBUF_def)
  have zero: "digits_loop (Suc k) u 0 [] = err Divide_Error" for k by simp
  have "digits_loop MAXBUF u 0 [] = err Divide_Error" unfolding m by (rule zero)
  then show ?thesis by (simp add: print_num_def Let_def)
qed

lemma doprnt_radix_zero:
  "c \<in> {110, 78, 114, 82} \<Longrightarrow> doprnt putc gm (37 # c # fmt) (a # args) 0 s = err Divide_Error"
  by (auto simp: doprnt_conv read_conv_radix convert_def print_signed_def print_unsigned_def va_arg_def
      print_num_radix_zero)

text \<open>
  \<open>printf\<close> and \<open>sprintf\<close> pass the radix 0, so that the conversions %n and %r divide by zero and
  raise the divide error of the processor.
\<close>

theorem printf_radix_divides_by_zero:
  assumes "c \<in> {110, 78, 114, 82}"
  shows "printf console_putbytes junk (37 # c # fmt) (a # args) m d = err Divide_Error \<and>
    sprintf p (37 # c # fmt) (a # args) m = err Divide_Error"
  by (simp add: printf_def vprintf_def sprintf_def vsprintf_def doprnt_radix_zero [OF assms])

theorem printf_radix_divides_by_zero_witness:
  "printf console_putbytes stack_bytes [37, 110] [5] (\<lambda>_. 0) blank = err Divide_Error \<and>
   sprintf 100 [37, 110] [5] (\<lambda>_. 0) = err Divide_Error"
  using printf_radix_divides_by_zero [of 110 stack_bytes "[]" 5 "[]" "\<lambda>_. 0" blank 100] by simp

lemma printf_char_buffer:
  "length (buf st) = PRINTF_BUFMAX \<Longrightarrow> index st \<le> PRINTF_BUFMAX \<Longrightarrow>
   length (buf (printf_char pb c st)) = PRINTF_BUFMAX \<and> index (printf_char pb c st) \<le> PRINTF_BUFMAX"
  by (auto simp: printf_char_def flush_def Let_def)

text \<open>
  C24: The buffer of \<open>printf\<close> keeps its 128 bytes and its index stays within them, whatever is
  printed on whatever console: every write to it is inside.
\<close>

theorem printf_buffer_kept:
  assumes "doprnt (printf_char pb) pmem fmt args radix st = ret st'"
    and "length (buf st) = PRINTF_BUFMAX" and "index st \<le> PRINTF_BUFMAX"
  shows "length (buf st') = PRINTF_BUFMAX \<and> index st' \<le> PRINTF_BUFMAX"
proof -
  obtain out where "st' = putcs (printf_char pb) out st" using doprnt_is_putcs [OF assms(1)] by blast
  moreover have "length (buf (putcs (printf_char pb) out st)) = PRINTF_BUFMAX \<and>
      index (putcs (printf_char pb) out st) \<le> PRINTF_BUFMAX" for out
    using assms(2,3)
  proof (induction out arbitrary: st)
    case (Cons c out)
    then show ?case using printf_char_buffer [of st pb c] by (simp add: putcs_def)
  qed (simp add: putcs_def)
  ultimately show ?thesis by simp
qed

theorem printf_buffer_kept_witness:
  "length (buf (putcs (printf_char console_putbytes) [97, 10] \<lparr>buf = stack_bytes, index = 0, console = blank, pmem = (\<lambda>_. 0)\<rparr>)) =
     PRINTF_BUFMAX \<and>
   index (putcs (printf_char console_putbytes) [97, 10] \<lparr>buf = stack_bytes, index = 0, console = blank, pmem = (\<lambda>_. 0)\<rparr>) \<le>
     PRINTF_BUFMAX"
  by (rule printf_buffer_kept [OF doprnt_text [of "[97, 10]" _ _ "[]" 0]]) (simp_all add: stack_bytes_def)

text \<open>
  \<open>strtol\<close> recognises a sign + but does not go past it: a number with this sign is read as 0 and
  the end pointer is the sign.
\<close>

theorem strtol_plus_reads_zero:
  assumes "m p = 43"
  shows "strtol p out base m = ret (0, map_option (\<lambda>_. p) out)"
proof -
  have sp: "skip_spaces m p = ret p"
    by (subst skip_spaces.simps) (simp add: assms isspace_def schar_def)
  have nb: "\<exists>b. number_base m p base = (p, b)" by (simp add: number_base_def assms)
  have "strtol_loop m b p 0 = ret (0, p)" for b
    by (subst strtol_loop.simps) (simp add: assms digit_of_def schar_def)
  then show ?thesis using nb by (auto simp: strtol_def sp assms split: option.split)
qed

theorem strtol_plus_reads_zero_witness:
  "strtol 100 (Some 0) 10 ((\<lambda>_. 0)(100 := 43, 101 := 53)) = ret (0, Some 100)"
  by (subst strtol_plus_reads_zero) simp_all

subsection \<open>The screen\<close>

text \<open>
  A text of printable characters that fits before the end of the screen is shown from the cursor
  on, one white character per cell, line after line; the other cells and the rest of the memory are
  left alone and the cursor is behind the text.
\<close>

theorem screen_shows_text:
  assumes "cursor d + length bs \<le> 2000" and "unat (curs_col_pos d) < 80"
    and "\<forall>b\<in>set bs. 32 \<le> schar b \<and> schar b \<le> 126"
  shows "(\<forall>n<2000. cell (console_putbytes bs d) n =
      (if cursor d \<le> n \<and> n < cursor d + length bs then (bs ! (n - cursor d), 15) else cell d n)) \<and>
    (\<forall>a. \<not> on_screen a \<longrightarrow> vmem (console_putbytes bs d) a = vmem d a) \<and>
    cursor (console_putbytes bs d) = cursor d + length bs"
  using print_text [OF assms] by blast

theorem screen_shows_text_witness:
  "cell (console_putbytes [72, 105] blank) 81 = (105, 15) \<and> cursor (console_putbytes [72, 105] blank) = 82"
proof -
  have "cursor blank = 80" "unat (curs_col_pos blank) < 80" by (simp_all add: blank_def cursor_def)
  then show ?thesis using screen_shows_text [of blank "[72, 105]"] by (simp add: schar_def)
qed

text \<open>
  Every character, control characters included, keeps the cursor on the screen, writes nothing
  outside of the video memory of the screen and gives the hardware the place of the cursor, unless
  it is printed in the last column of the last line.
\<close>

theorem screen_is_safe:
  assumes "unat (curs_lig_pos d) < 25 \<and> unat (curs_col_pos d) < 80"
    and "cursor d < 1999 \<or> \<not> (32 \<le> schar b \<and> schar b \<le> 126)"
  shows "unat (curs_lig_pos (traite_car b d)) < 25 \<and> unat (curs_col_pos (traite_car b d)) < 80 \<and>
    (\<forall>a. \<not> on_screen a \<longrightarrow> vmem (traite_car b d) a = vmem d a) \<and>
    shows_cursor (outs (traite_car b d)) (cursor (traite_car b d))"
  using traite_car_safe [of d b] assms by (simp add: cursor_ok_def)

theorem screen_is_safe_witness:
  "unat (curs_col_pos (traite_car 9 blank)) < 80 \<and> shows_cursor (outs (traite_car 9 blank)) (cursor (traite_car 9 blank))"
  using screen_is_safe [of blank 9] by (simp add: blank_def schar_def)

text \<open>
  In the last column of the last line the test of the source is on the number of columns: the
  cursor goes to line 25, below the screen, and the next character is written outside of it.
\<close>

theorem screen_runs_off:
  assumes at: "curs_lig_pos d = 24" "curs_col_pos d = 79"
    and b: "32 \<le> schar b \<and> schar b \<le> 126" and c: "32 \<le> schar c \<and> schar c \<le> 126"
  shows "curs_lig_pos (traite_car b d) = 25 \<and> curs_col_pos (traite_car b d) = 0 \<and>
    \<not> on_screen (cell_addr 2000) \<and> vmem (traite_car c (traite_car b d)) (cell_addr 2000) = c"
proof -
  have 1: "curs_lig_pos (traite_car b d) = 25" "curs_col_pos (traite_car b d) = 0"
    using b at by (simp_all add: traite_car_print Let_def)
  have v: "vmem (traite_car c d') = vmem (ecrit_car (curs_lig_pos d') (curs_col_pos d') c 15 0 0 d')"
    if "curs_lig_pos d' = 25" "curs_col_pos d' = 0" for d'
    using c that by (simp add: traite_car_print Let_def)
  have "vmem (ecrit_car 25 0 c 15 0 0 d') (cell_addr 2000) = c" for d'
    using white_bytes [of c] c cell_addr_eq(3,4) [of 2000 2000] by (simp add: ecrit_car_def Let_def ptr_mem_cell)
  then have "vmem (traite_car c (traite_car b d)) (cell_addr 2000) = c" using v [OF 1] 1 by simp
  then show ?thesis using 1 by (simp add: on_screen_def cell_addr_def)
qed

theorem screen_runs_off_witness:
  "vmem (traite_car 98 (traite_car 97 (blank\<lparr>curs_lig_pos := 24, curs_col_pos := 79\<rparr>))) (cell_addr 2000) = 98"
  using screen_runs_off [of "blank\<lparr>curs_lig_pos := 24, curs_col_pos := 79\<rparr>" 97 98] by (simp add: schar_def)

text \<open>
  A new line on the last line scrolls lines 2 to 24 up by one, keeps line 0 where the clock is
  and clears the last line; but the cursor goes to the beginning of line 23, which now holds the
  line that was the last: the next text overwrites it.
\<close>

theorem newline_overwrites_last_line:
  assumes "curs_lig_pos d = 24"
  shows "(\<forall>n<2000. cell (traite_car 10 d) n =
      (if n < 80 then cell d n else if n < 1920 then cell d (n + 80) else (32, 15))) \<and>
    cursor (traite_car 10 d) = 23 * 80 \<and> (\<forall>c<80. cell (traite_car 10 d) (23 * 80 + c) = cell d (24 * 80 + c))"
proof -
  have "cursor (traite_car 10 d) = 23 * 80" using newline_last(1,2) [OF assms] by (simp add: cursor_def)
  moreover have "cell (traite_car 10 d) (23 * 80 + c) = cell d (24 * 80 + c)" if "c < 80" for c
    using newline_last(3) [OF assms, of "23 * 80 + c"] that by (simp add: add.commute)
  ultimately show ?thesis using newline_last(3) [OF assms] by blast
qed

theorem newline_overwrites_last_line_witness:
  "cursor (traite_car 10 (blank\<lparr>curs_lig_pos := 24\<rparr>)) = 23 * 80"
  using newline_overwrites_last_line [of "blank\<lparr>curs_lig_pos := 24\<rparr>"] by simp

end
