(* ===== verification/Word_Memory.thy ===== *)
theory Word_Memory
  imports Strings
begin

text \<open>Words of 32 bits in the flat memory, low byte first: writing, reading back, what is left alone.\<close>

definition write32 :: "u32 \<Rightarrow> u32 \<Rightarrow> memory \<Rightarrow> memory" where
  "write32 a w m =
     m(a := ucast w, a + 1 := ucast (drop_bit 8 w), a + 2 := ucast (drop_bit 16 w), a + 3 := ucast (drop_bit 24 w))"

definition read32 :: "u32 \<Rightarrow> memory \<Rightarrow> u32" where
  "read32 a m =
     ucast (m a) OR push_bit 8 (ucast (m (a + 1))) OR push_bit 16 (ucast (m (a + 2))) OR push_bit 24 (ucast (m (a + 3)))"

lemma read32_write32: "read32 a (write32 a w m) = w"
proof -
  have ne: "a + 1 \<noteq> a" "a + 2 \<noteq> a" "a + 3 \<noteq> a" "a + 2 \<noteq> a + 1" "a + 3 \<noteq> a + 1" "a + 3 \<noteq> a + 2"
    by simp_all
  have "ucast (ucast w :: u8) OR push_bit 8 (ucast (ucast (drop_bit 8 w) :: u8)) OR
    push_bit 16 (ucast (ucast (drop_bit 16 w) :: u8)) OR push_bit 24 (ucast (ucast (drop_bit 24 w) :: u8)) = w"
  proof (rule bit_word_eqI)
    fix i assume "i < LENGTH(32)"
    then have "i < 8 \<or> i = 8 + (i - 8) \<and> i - 8 < 8 \<or> i = 16 + (i - 16) \<and> i - 16 < 8 \<or> i = 24 + (i - 24) \<and> i - 24 < 8"
      by auto
    then consider "i < 8" | j where "i = 8 + j" "j < 8" | j where "i = 16 + j" "j < 8" | j where "i = 24 + j" "j < 8"
      by blast
    then show "bit ((ucast (ucast w :: u8) :: u32) OR push_bit 8 (ucast (ucast (drop_bit 8 w) :: u8)) OR
      push_bit 16 (ucast (ucast (drop_bit 16 w) :: u8)) OR push_bit 24 (ucast (ucast (drop_bit 24 w) :: u8))) i = bit w i"
      by cases (simp_all add: bit_or_iff bit_push_bit_iff bit_unsigned_iff bit_drop_bit_eq)
  qed
  then show ?thesis using ne by (simp add: read32_def write32_def)
qed

lemma write32_outside: "4 \<le> unat (b - a) \<Longrightarrow> write32 a w m b = m b"
proof -
  assume far: "4 \<le> unat (b - a)"
  have "b \<noteq> a + k" if "unat k < 4" for k using far that by auto
  from this [of 0] this [of 1] this [of 2] this [of 3] show ?thesis by (simp add: write32_def)
qed

lemma read32_write32_other:
  assumes "4 \<le> unat (b - a)" "unat (b - a) \<le> 2 ^ 32 - 4"
  shows "read32 b (write32 a w m) = read32 b m"
proof -
  have "write32 a w m (b + of_nat k) = m (b + of_nat k)" if "k < 4" for k
  proof (rule write32_outside)
    have "b + of_nat k - a = of_nat (unat (b - a) + k)" by simp
    moreover have "unat (of_nat (unat (b - a) + k) :: u32) = unat (b - a) + k"
      by (rule unat_of_nat_u32) (use assms that in simp)
    ultimately have "unat (b + of_nat k - a) = unat (b - a) + k" by (simp only:)
    then show "4 \<le> unat (b + of_nat k - a)" using assms(1) by simp
  qed
  from this [of 0] this [of 1] this [of 2] this [of 3] show ?thesis by (simp add: read32_def)
qed

lemma unat_of_nat_diff:
  assumes "p < 2 ^ 32" "q < 2 ^ 32"
  shows "unat (of_nat p - of_nat q :: u32) = (if q \<le> p then p - q else 2 ^ 32 + p - q)"
proof (cases "q \<le> p")
  case True
  have "unat (of_nat (p - q) :: u32) = p - q" by (rule unat_of_nat_u32) (use assms in simp)
  then show ?thesis using True by (simp add: of_nat_diff)
next
  case False
  have "unat (of_nat (2 ^ 32 + p - q) :: u32) = 2 ^ 32 + p - q" by (rule unat_of_nat_u32) (use False in simp)
  moreover have "(of_nat (2 ^ 32 + p - q) :: u32) = of_nat p - of_nat q" using assms(2) by (simp add: of_nat_diff)
  ultimately show ?thesis using False by (simp only: if_False)
qed

lemma unat_diff_far:
  assumes "p + 4 \<le> q \<or> q + 4 \<le> p" "p + 4 \<le> 2 ^ 32" "q + 4 \<le> 2 ^ 32"
  shows "4 \<le> unat (of_nat p - of_nat q :: u32)" "unat (of_nat p - of_nat q :: u32) \<le> 2 ^ 32 - 4"
  using unat_of_nat_diff [of p q] assms by (auto split: if_splits)

end
