(* ===== verification/Machine.thy ===== *)
theory Machine
  imports Console Proc Word_Memory
begin

text \<open>
  The devices of the kernel: interrupts (kernel/interrupt.c), the clock (kernel/clock.c), the
  keyboard (kernel/keyboard_int.c), the system call gate (kernel/kernel_it_49.c) and the serial
  line (kernel/serial.c). The state is that of the processes, of the screen with the ports, the
  time of day, and the memory. What \<open>inb\<close> reads, the addresses of the assembly handlers and those
  of local arrays are arguments.
\<close>

record machine =
  kern :: kernel
  disp :: display
  hour :: u32
  minute :: u32
  sec :: u32
  mem :: memory

subsection \<open>interrupt.c\<close>

text \<open>\<open>imr\<close> is what \<open>inb(0x21)\<close> reads.\<close>

definition open_IRQ :: "u8 \<Rightarrow> u32 \<Rightarrow> bool \<Rightarrow> display \<Rightarrow> display" where
  "open_IRQ imr num_IRQ masque d =
     (let b = push_bit (unat num_IRQ mod 32) 1 :: u32;
          full = (if masque then ucast (ucast imr OR b) else ucast (ucast imr AND NOT b)) :: u8
      in outb full 0x21 d)"

definition init_traitant_IT :: "u32 \<Rightarrow> u32 \<Rightarrow> memory \<Rightarrow> memory" where
  "init_traitant_IT num_IT traitant m =
     (let premierMot = push_bit 16 KERNEL_CS OR (traitant AND 0x0000FFFF);
          deuxiemeMot = (traitant AND 0xFFFF0000) OR 0x0008E00;
          m1 = write32 (0x1000 + 4 * (num_IT * 2)) premierMot m
      in write32 (0x1000 + 4 * (num_IT * 2 + 1)) deuxiemeMot m1)"

subsection \<open>clock.c\<close>

definition CLOCKFREQ :: u32 where "CLOCKFREQ = 100"
definition QUARTZ :: u32 where "QUARTZ = 0x1234DD"

text \<open>The format "%2d:%2d:%2d".\<close>

definition time_format :: "u8 list" where
  "time_format = [37, 50, 100, 58, 37, 50, 100, 58, 37, 50, 100]"

text \<open>\<open>time\<close> is the address of the local array of 9 bytes.\<close>

definition affiche_clock :: "u32 \<Rightarrow> machine \<Rightarrow> machine res" where
  "affiche_clock time m =
     bindr (sprintf time time_format [hour m, minute m, sec m] (mem m)) (\<lambda>(_, mem').
       ret (m\<lparr>mem := mem',
         disp := fold (\<lambda>i d. ecrit_car 0 (71 + of_nat i) (mem' (time + of_nat i)) 15 0 0 d) [0..<9] (disp m)\<rparr>))"

definition wait_clock :: "u32 \<Rightarrow> kernel \<Rightarrow> kernel res" where
  "wait_clock clock k = sleep_until (real (unat (clock div CLOCKFREQ))) k"

definition change_clock :: "u32 \<Rightarrow> machine \<Rightarrow> machine res" where
  "change_clock time m0 =
     (let new_minute = sec m0 div 60;
          m1 = m0\<lparr>sec := sec m0 - new_minute * 60\<rparr>;
          m2 = m1\<lparr>minute := minute m1 + new_minute\<rparr>;
          new_hour = minute m2 div 60;
          m3 = m2\<lparr>minute := minute m2 - new_hour * 60\<rparr>;
          m4 = m3\<lparr>hour := hour m3 + new_hour\<rparr>;
          m5 = (if hour m4 > 99 then m4\<lparr>hour := 99, minute := 59, sec := 59\<rparr> else m4)
      in affiche_clock time m5)"

definition tic_PIT_CLOCK :: "u32 \<Rightarrow> machine \<Rightarrow> machine res" where
  "tic_PIT_CLOCK time m0 =
     (let m1 = m0\<lparr>disp := outb 0x20 0x20 (disp m0)\<rparr>;
          m2 = m1\<lparr>kern := (kern m1)\<lparr>nb_tick := nb_tick (kern m1) + 1\<rparr>\<rparr>
      in bindr (if nb_tick (kern m2) mod CLOCKFREQ = 0 then change_clock time (m2\<lparr>sec := sec m2 + 1\<rparr>)
                else ret m2) (\<lambda>m3.
         bindr (ordonnance (kern m3)) (\<lambda>k. ret (m3\<lparr>kern := k\<rparr>))))"

definition clock_freq :: "display \<Rightarrow> display" where
  "clock_freq d =
     (let reglage = ucast (QUARTZ div CLOCKFREQ) :: u16;
          d1 = outb 0x34 0x43 d;
          d2 = outb (ucast (reglage mod 256)) 0x40 d1
      in outb (ucast (drop_bit 8 reglage)) 0x40 d2)"

definition init_clock :: "u32 \<Rightarrow> u32 \<Rightarrow> u8 \<Rightarrow> machine \<Rightarrow> machine res" where
  "init_clock time traitant_IT_32 imr m0 =
     bindr (affiche_clock time m0) (\<lambda>m.
     ret (m\<lparr>disp := open_IRQ imr 0 False (clock_freq (disp m)), mem := init_traitant_IT 32 traitant_IT_32 (mem m)\<rparr>))"

subsection \<open>keyboard_int.c\<close>

definition init_keyboard :: "u32 \<Rightarrow> u8 \<Rightarrow> machine \<Rightarrow> machine" where
  "init_keyboard traitant_IT_33 imr m =
     m\<lparr>disp := open_IRQ imr 1 False (disp m), mem := init_traitant_IT 33 traitant_IT_33 (mem m)\<rparr>"

text \<open>\<open>scan\<close> is what \<open>inb(0x60)\<close> reads; \<open>printf("%c", val)\<close> extends its sign.\<close>

definition tic_PIT_KEYBOARD :: "u8 list \<Rightarrow> u8 \<Rightarrow> machine \<Rightarrow> machine res" where
  "tic_PIT_KEYBOARD junk scan m =
     (let m1 = m\<lparr>disp := outb 0x20 0x20 (disp m)\<rparr>
      in bindr (printf console_putbytes junk [37, 99] [scast scan] (mem m1) (disp m1)) (\<lambda>d.
         ret (m1\<lparr>disp := d\<rparr>)))"

subsection \<open>kernel\_it\_49.c\<close>

definition init_it_superuser :: "u32 \<Rightarrow> machine \<Rightarrow> machine" where
  "init_it_superuser traitant_IT_49 m = m\<lparr>mem := init_traitant_IT 49 traitant_IT_49 (mem m)\<rparr>"

text \<open>
  The handler finds its parameters in edx and esi (the number of the call, in ecx, is not used),
  taken by the three moves in that order.
\<close>

definition tic_PIT_SUPERUSER ::
  "(nat \<Rightarrow> kernel \<Rightarrow> kernel res) \<Rightarrow> u32 \<Rightarrow> u32 \<Rightarrow> nat \<Rightarrow> machine \<Rightarrow> (nat \<times> machine) res" where
  "tic_PIT_SUPERUSER env edx esi n m =
     (let param1 = sint edx; param2 = esi
      in if param2 = 0 then err Null_Deref
         else
           let m1 = m\<lparr>mem := write32 param2 500 (mem m)\<rparr>
           in bindr (waitpid env False param1 n (kern m1)) (\<lambda>(_, r, n1, k).
              ret (n1, m1\<lparr>kern := k,
                mem := (case r of None \<Rightarrow> mem m1 | Some v \<Rightarrow> write32 param2 (word_of_int v) (mem m1))\<rparr>)))"

subsection \<open>serial.c\<close>

text \<open>The state: \<open>done\<close>, the bytes sent, and how many bytes were read from the ports so far.\<close>

record serial =
  sdone :: bool
  souts :: "(u8 \<times> u16) list"
  reads :: nat

definition init_serial :: "serial \<Rightarrow> serial" where
  "init_serial s =
     (if sdone s then s
      else s\<lparr>souts := souts s @ [(0x0f, 0x3f8 + 4), (0, 0x3f8 + 1), (0x83, 0x3f8 + 3), (1, 0x3f8),
               (0, 0x3f8 + 1), (0x03, 0x3f8 + 3)], sdone := True\<rparr>)"

text \<open>\<open>inp n port\<close> is what the n-th \<open>inb\<close> reads, on this port.\<close>

partial_function (option) wait_send :: "(nat \<Rightarrow> u16 \<Rightarrow> u8) \<Rightarrow> serial \<Rightarrow> serial res" where
  "wait_send inp s =
     (let c = inp (reads s) (0x3f8 + 5); s1 = s\<lparr>reads := reads s + 1\<rparr>
      in if c AND 0x20 = 0 then wait_send inp s1 else ret s1)"

definition write_com1 :: "(nat \<Rightarrow> u16 \<Rightarrow> u8) \<Rightarrow> u8 \<Rightarrow> serial \<Rightarrow> serial res" where
  "write_com1 inp c s =
     bindr (wait_send inp (init_serial s)) (\<lambda>s1. ret (s1\<lparr>souts := souts s1 @ [(c, 0x3f8)]\<rparr>))"

partial_function (option) wait_recv :: "(nat \<Rightarrow> u16 \<Rightarrow> u8) \<Rightarrow> serial \<Rightarrow> serial res" where
  "wait_recv inp s =
     (let c = inp (reads s) (0x3f8 + 5); s1 = s\<lparr>reads := reads s + 1\<rparr>
      in if c AND 0x1e \<noteq> 0 \<or> c AND 1 = 0 then wait_recv inp s1 else ret s1)"

definition read_com1 :: "(nat \<Rightarrow> u16 \<Rightarrow> u8) \<Rightarrow> serial \<Rightarrow> (u8 \<times> serial) res" where
  "read_com1 inp s =
     bindr (wait_recv inp (init_serial s)) (\<lambda>s1. ret (inp (reads s1) 0x3f8, s1\<lparr>reads := reads s1 + 1\<rparr>))"

end
