(* ===== verification/Machine_Ok.thy ===== *)
theory Machine_Ok
  imports Machine Display_Ok Kernel_Run
begin

text \<open>
  The clock counts the time of day and shows it in the corner of the screen; the gates of the
  interrupt vectors lead to their handlers.
\<close>

subsection \<open>The time as text\<close>

text \<open>A number on two columns, as %2d prints it.\<close>

definition two :: "nat \<Rightarrow> u8 list" where
  "two n = (if n < 10 then [32, dig n] else [dig (n div 10), dig (n mod 10)])"

lemma digits_two: "n < 100 \<Longrightarrow> digits 10 n = (if n < 10 then [dig n] else [dig (n div 10), dig (n mod 10)])"
  using digits.simps [of 10 n] digits.simps [of 10 "n div 10"] by auto

lemma print_num_two:
  assumes "unat u < 100"
  shows "print_num putc (no_conv\<lparr>width := 2\<rparr>) u 10 0 s = ret (putcs putc (two (unat u)) s)"
proof -
  have w: "w32 x = x" if "- 2147483648 \<le> x" "x < 2147483648" for x
    using that by (simp add: w32_def signed_of_int signed_take_bit_int_eq_self)
  have "print_num snoc (no_conv\<lparr>width := 2\<rparr>) u 10 0 [] = ret (two (unat u))"
    using digits_32 [of 10 u] digits_two [OF assms]
    by (auto simp: print_num_def no_conv_def Let_def w pad_out_def putcs_snoc two_def)
  then show ?thesis
    using history.print_num_h [of putc "no_conv\<lparr>width := 2\<rparr>" u 10 0 "[]" s] by (simp add: putcs_def)
qed

lemma read_conv_two: "read_conv (50 # 100 # fmt) args = ret (100 # fmt, no_conv\<lparr>width := 2\<rparr>, args)"
  by (simp add: read_conv_def no_conv_def zero_flag_def read_width_def read_prec_def skip_l_def isdigit_def
      Ctod_def w32_def)

lemma doprnt_two:
  assumes "unat u < 100"
  shows "doprnt putc gm (37 # 50 # 100 # fmt) (u # args) 0 s = doprnt putc gm fmt args 0 (putcs putc (two (unat u)) s)"
proof -
  have "sint u = int (unat u)" by (rule sint_small) (use assms in simp)
  then show ?thesis
    using print_num_two [OF assms, of putc s]
    by (simp add: doprnt_conv read_conv_two convert_def print_signed_def va_arg_def)
      (simp add: no_conv_def)
qed

definition time_text :: "nat \<Rightarrow> nat \<Rightarrow> nat \<Rightarrow> u8 list" where
  "time_text h m s = two h @ [58] @ two m @ [58] @ two s"

lemma doprnt_time:
  assumes "unat h < 100" "unat mn < 100" "unat s < 100"
  shows "doprnt putc gm time_format [h, mn, s] 0 st = ret (putcs putc (time_text (unat h) (unat mn) (unat s)) st)"
  using assms by (simp add: time_format_def doprnt_two doprnt_char doprnt_Nil time_text_def putcs_append)
    (simp add: putcs_def)

lemma length_time_text [simp]: "length (time_text h m s) = 8"
  by (simp add: time_text_def two_def)

subsection \<open>The clock\<close>

text \<open>The corner of the screen is line 0, columns 71 to 79; its last cell gets the final NUL.\<close>

lemma draw_time:
  assumes "\<forall>i<9. 0 \<le> schar (f i)" "k \<le> 9"
  shows "(\<forall>n<2000. cell (fold (\<lambda>i d. ecrit_car 0 (71 + of_nat i) (f i) 15 0 0 d) [0..<k] d) n =
      (if 71 \<le> n \<and> n < 71 + k then (f (n - 71), 15) else cell d n)) \<and>
    (\<forall>a. \<not> on_screen a \<longrightarrow>
      vmem (fold (\<lambda>i d. ecrit_car 0 (71 + of_nat i) (f i) 15 0 0 d) [0..<k] d) a = vmem d a) \<and>
    cursor (fold (\<lambda>i d. ecrit_car 0 (71 + of_nat i) (f i) 15 0 0 d) [0..<k] d) = cursor d"
  using assms(2)
proof (induction k)
  case 0
  then show ?case by auto
next
  case (Suc k)
  have "unat (of_nat (71 + k) :: u32) = 71 + k" by (rule unat_of_nat_u32) (use Suc.prems in simp)
  then have k: "unat (71 + of_nat k :: u32) = 71 + k" by simp
  then have pos: "80 * unat (0 :: u32) + unat (71 + of_nat k :: u32) < 2000" using Suc.prems by simp
  have f: "0 \<le> schar (f k)" using assms(1) Suc.prems by simp
  show ?case
    using Suc k ecrit_car_cell [OF pos f] ecrit_car_outside [OF pos] by (auto simp: cursor_def)
qed

definition shows_time :: "display \<Rightarrow> nat \<Rightarrow> nat \<Rightarrow> nat \<Rightarrow> bool" where
  "shows_time d h mn s \<longleftrightarrow> (\<forall>i<8. cell d (71 + i) = (time_text h mn s ! i, 15))"

lemma two_plain: "n < 100 \<Longrightarrow> c \<in> set (two n) \<Longrightarrow> c < 128"
proof -
  assume n: "n < 100" and c: "c \<in> set (two n)"
  have "dig k < 128" if "k < 10" for k
  proof -
    have "\<forall>k\<in>set [0..<10]. dig k < 128" by (simp add: dig_def digs_def upt_conv_Cons)
    then show ?thesis using that by simp
  qed
  then show "c < 128" using n c by (auto simp: two_def split: if_splits)
qed

lemma time_text_plain:
  "h < 100 \<Longrightarrow> mn < 100 \<Longrightarrow> s < 100 \<Longrightarrow> c \<in> set (time_text h mn s) \<Longrightarrow> c < 128"
  using two_plain by (auto simp: time_text_def)

lemma affiche_clock_ok:
  assumes h: "unat (hour m) < 100" and mn: "unat (minute m) < 100" and s: "unat (sec m) < 100"
  shows "\<exists>m'. affiche_clock time m = ret m' \<and> shows_time (disp m') (unat (hour m)) (unat (minute m)) (unat (sec m)) \<and>
    kern m' = kern m \<and> hour m' = hour m \<and> minute m' = minute m \<and> sec m' = sec m \<and>
    (\<forall>a. 9 \<le> unat (a - time) \<longrightarrow> mem m' a = mem m a) \<and>
    (\<forall>a. \<not> on_screen a \<longrightarrow> vmem (disp m') a = vmem (disp m) a) \<and> cursor (disp m') = cursor (disp m) \<and>
    (\<forall>n. 80 \<le> n \<and> n < 2000 \<longrightarrow> cell (disp m') n = cell (disp m) n)"
proof -
  let ?t = "time_text (unat (hour m)) (unat (minute m)) (unat (sec m))"
  define mm where "mm = (poke (mem m) time ?t)(time + 8 := 0)"
  have sp: "sprintf time time_format [hour m, minute m, sec m] (mem m) = ret (8, mm)"
    using vsprintf_run [of time_format "[hour m, minute m, sec m]" ?t time "mem m"] doprnt_time [OF h mn s, of savechar smem]
    by (simp add: mm_def)
  have at: "mm (time + of_nat i) = ?t ! i" if "i < 8" for i
  proof -
    have "unat (of_nat i :: u32) = i" by (rule unat_of_nat_u32) (use that in simp)
    then have "time + of_nat i \<noteq> time + 8" using that by auto
    then show ?thesis using that by (simp add: mm_def poke_inside)
  qed
  have "?t ! i < 128" if "i < 8" for i using time_text_plain [OF h mn s] that by (intro time_text_plain [OF h mn s] nth_mem) simp
  then have sc: "0 \<le> schar (mm (time + of_nat i))" if "i < 9" for i
    using that at schar_small by (cases "i = 8") (auto simp: mm_def schar_def)
  define d where "d = fold (\<lambda>i d. ecrit_car 0 (71 + of_nat i) (mm (time + of_nat i)) 15 0 0 d) [0..<9] (disp m)"
  have d: "\<forall>n<2000. cell d n = (if 71 \<le> n \<and> n < 80 then (mm (time + of_nat (n - 71)), 15) else cell (disp m) n)"
    "\<forall>a. \<not> on_screen a \<longrightarrow> vmem d a = vmem (disp m) a" "cursor d = cursor (disp m)"
    unfolding d_def using draw_time [of "\<lambda>i. mm (time + of_nat i)" 9 "disp m"] sc by simp_all
  have run: "affiche_clock time m = ret (m\<lparr>mem := mm, disp := d\<rparr>)"
    by (simp add: affiche_clock_def sp d_def)
  have "shows_time d (unat (hour m)) (unat (minute m)) (unat (sec m))"
    unfolding shows_time_def using d(1) at by simp
  moreover have "mm a = mem m a" if "9 \<le> unat (a - time)" for a
    using that by (auto simp: mm_def poke_outside)
  ultimately show ?thesis using run d by simp
qed

subsection \<open>Counting time\<close>

definition clock_ok :: "machine \<Rightarrow> bool" where
  "clock_ok m \<longleftrightarrow> unat (hour m) \<le> 99 \<and> unat (minute m) < 60 \<and> unat (sec m) < 60"

definition seconds :: "machine \<Rightarrow> nat" where
  "seconds m = 3600 * unat (hour m) + 60 * unat (minute m) + unat (sec m)"

definition time_shown :: "machine \<Rightarrow> bool" where
  "time_shown m \<longleftrightarrow> shows_time (disp m) (unat (hour m)) (unat (minute m)) (unat (sec m))"

definition max_seconds :: nat where "max_seconds = 359999"

lemma seconds_max: "clock_ok m \<Longrightarrow> seconds m \<le> max_seconds"
  by (simp add: clock_ok_def seconds_def max_seconds_def)

text \<open>The carries, on numbers.\<close>

lemma carry_ok:
  assumes "unat x \<le> 60"
  shows "unat (x - x div 60 * 60) = (if unat x = 60 then 0 else unat x)"
    "unat (x div 60 :: u32) = (if unat x = 60 then 1 else 0)"
proof -
  show d: "unat (x div 60 :: u32) = (if unat x = 60 then 1 else 0)" using assms by (auto simp: unat_div_distrib)
  have "x - x div 60 * 60 = x mod 60" by (simp add: minus_div_mult_eq_mod)
  then show "unat (x - x div 60 * 60) = (if unat x = 60 then 0 else unat x)"
    using assms by (auto simp: unat_mod_distrib)
qed

lemma change_clock_ok:
  assumes ok: "clock_ok m"
  shows "\<exists>m'. change_clock time (m\<lparr>sec := sec m + 1\<rparr>) = ret m' \<and> clock_ok m' \<and> time_shown m' \<and>
    seconds m' = min max_seconds (seconds m + 1) \<and> kern m' = kern m"
proof -
  let ?m = "m\<lparr>sec := sec m + 1\<rparr>"
  have b: "unat (hour m) \<le> 99" "unat (minute m) < 60" "unat (sec m) < 60" using ok by (simp_all add: clock_ok_def)
  define s1 where "s1 = sec m + 1"
  define mn1 where "mn1 = minute m + s1 div 60"
  define h1 where "h1 = hour m + mn1 div 60"
  define mm where "mm = m\<lparr>sec := s1 - s1 div 60 * 60, minute := mn1 - mn1 div 60 * 60, hour := h1\<rparr>"
  define m5 where "m5 = (if h1 > 99 then mm\<lparr>hour := 99, minute := 59, sec := 59\<rparr> else mm)"
  have run: "change_clock time ?m = affiche_clock time m5"
    by (simp add: change_clock_def Let_def m5_def mm_def h1_def mn1_def s1_def)
  have s1: "unat s1 = unat (sec m) + 1" unfolding s1_def using unat_Suc_u32 [of "sec m"] b(3) by simp
  note cs = carry_ok [of s1]
  have mn1: "unat mn1 = unat (minute m) + (if unat s1 = 60 then 1 else 0)"
  proof (cases "unat s1 = 60")
    case True
    then have "s1 div 60 = 1" using cs(2) by (intro word_unat_eq_iff [THEN iffD2]) simp
    then show ?thesis using True unat_Suc_u32 [of "minute m"] b(2) by (simp add: mn1_def)
  next
    case False
    then have "s1 div 60 = 0" using cs(2) s1 b(3) by (intro word_unat_eq_iff [THEN iffD2]) simp
    then show ?thesis using False by (simp add: mn1_def)
  qed
  note cm = carry_ok [of mn1]
  have h1: "unat h1 = unat (hour m) + (if unat mn1 = 60 then 1 else 0)"
  proof (cases "unat mn1 = 60")
    case True
    then have "mn1 div 60 = 1" using cm(2) by (intro word_unat_eq_iff [THEN iffD2]) simp
    then show ?thesis using True unat_Suc_u32 [of "hour m"] b(1) by (simp add: h1_def)
  next
    case False
    then have "mn1 div 60 = 0" using cm(2) mn1 b(2) by (intro word_unat_eq_iff [THEN iffD2]) simp
    then show ?thesis using False by (simp add: h1_def)
  qed
  have big: "h1 > 99 \<longleftrightarrow> unat h1 = 100" using h1 b(1) by (auto simp: word_less_nat_alt)
  have "unat (sec mm) = (if unat s1 = 60 then 0 else unat s1)" "unat (minute mm) = (if unat mn1 = 60 then 0 else unat mn1)"
    "unat (hour mm) = unat h1"
    using cs(1) cm(1) s1 mn1 b by (simp_all add: mm_def)
  then have ok5: "clock_ok m5 \<and> seconds m5 = min max_seconds (seconds m + 1)"
    using s1 mn1 h1 b big by (auto simp: m5_def clock_ok_def seconds_def max_seconds_def)
  have "unat (hour m5) < 100" "unat (minute m5) < 100" "unat (sec m5) < 100"
    using ok5 by (simp_all add: clock_ok_def)
  then obtain m' where "affiche_clock time m5 = ret m'" "time_shown m'" "kern m' = kern m5"
    "hour m' = hour m5" "minute m' = minute m5" "sec m' = sec m5"
    using affiche_clock_ok [of m5 time] by (auto simp: time_shown_def)
  then show ?thesis using run ok5 by (auto simp: clock_ok_def seconds_def m5_def mm_def)
qed

lemma good_tick_yield:
  assumes "good k"
  shows "\<exists>k'. ordonnance (k\<lparr>nb_tick := x\<rparr>) = ret k' \<and> good k' \<and> nb_tick k' = x"
proof -
  obtain a rs es ds where inv: "kinv k a rs es ds" and idle: "0 \<in> set (a # rs)" and fam: "fam_ok k"
    using assms unfolding good_def by blast
  let ?k = "k\<lparr>nb_tick := x\<rparr>"
  have inv': "kinv ?k a rs es ds" using inv by (simp add: kinv_tick)
  have fam': "fam_ok ?k" using fam by (simp add: fam_ok_def)
  obtain k' where k': "ordonnance ?k = ret k'" "good k'" using good_ordonnance [OF inv' idle fam'] by blast
  obtain b rs' where el: "schedule (prios ?k) False a (woken_rs ?k rs es) = (b, rs')" by fastforce
  have "same_procs ?k k'" using ordonnance_running [OF inv' el] k'(1) by auto
  then show ?thesis using k' same_procsD(8) by fastforce
qed

text \<open>The handler of the clock called \<open>n\<close> times.\<close>

fun tics :: "u32 \<Rightarrow> nat \<Rightarrow> machine \<Rightarrow> machine res" where
  "tics time 0 m = ret m"
| "tics time (Suc n) m = bindr (tics time n m) (tic_PIT_CLOCK time)"

lemma tic_ok:
  assumes "good (kern m)" "clock_ok m"
  shows "\<exists>m'. tic_PIT_CLOCK time m = ret m' \<and> good (kern m') \<and> clock_ok m' \<and>
    nb_tick (kern m') = nb_tick (kern m) + 1 \<and>
    ordonnance ((kern m)\<lparr>nb_tick := nb_tick (kern m) + 1\<rparr>) = ret (kern m') \<and>
    seconds m' = (if (nb_tick (kern m) + 1) mod 100 = 0 then min max_seconds (seconds m + 1) else seconds m) \<and>
    ((nb_tick (kern m) + 1) mod 100 = 0 \<longrightarrow> time_shown m')"
proof -
  let ?t = "nb_tick (kern m) + 1"
  define m2 where "m2 = m\<lparr>disp := outb 0x20 0x20 (disp m), kern := (kern m)\<lparr>nb_tick := ?t\<rparr>\<rparr>"
  have m2: "clock_ok m2" "seconds m2 = seconds m" "kern m2 = (kern m)\<lparr>nb_tick := ?t\<rparr>"
    using assms(2) by (simp_all add: m2_def clock_ok_def seconds_def)
  obtain k where k: "ordonnance ((kern m)\<lparr>nb_tick := ?t\<rparr>) = ret k" "good k" "nb_tick k = ?t"
    using good_tick_yield [OF assms(1)] by blast
  have run: "tic_PIT_CLOCK time m =
    bindr (if ?t mod 100 = 0 then change_clock time (m2\<lparr>sec := sec m2 + 1\<rparr>) else ret m2) (\<lambda>m3.
      bindr (ordonnance (kern m3)) (\<lambda>k. ret (m3\<lparr>kern := k\<rparr>)))"
    by (simp add: tic_PIT_CLOCK_def Let_def m2_def CLOCKFREQ_def)
  show ?thesis
  proof (cases "?t mod 100 = 0")
    case True
    obtain m3 where m3: "change_clock time (m2\<lparr>sec := sec m2 + 1\<rparr>) = ret m3" "clock_ok m3" "time_shown m3"
      "seconds m3 = min max_seconds (seconds m + 1)" "kern m3 = kern m2"
      using change_clock_ok [OF m2(1), of time] m2(2) by auto
    then show ?thesis using True run k m2
      by (auto simp: clock_ok_def seconds_def time_shown_def)
  next
    case False
    then show ?thesis using run k m2 by (auto simp: clock_ok_def seconds_def)
  qed
qed

lemma reach_tic:
  "reach ad k \<Longrightarrow> ordonnance (k\<lparr>nb_tick := nb_tick k + 1\<rparr>) = ret k' \<Longrightarrow> reach ad k'"
  by (rule reach.step [OF reach.step [OF _ kstep.tick] kstep.yield])

lemma tics_ok:
  assumes "reach ad (kern m)" "nb_tick (kern m) = 0" "hour m = 0" "minute m = 0" "sec m = 0" "n < 2 ^ 32"
  shows "\<exists>m'. tics time n m = ret m' \<and> reach ad (kern m') \<and> clock_ok m' \<and> nb_tick (kern m') = of_nat n \<and>
    seconds m' = min max_seconds (n div 100)"
  using assms(6)
proof (induction n)
  case 0
  then show ?case using assms by (simp add: clock_ok_def seconds_def)
next
  case (Suc n)
  then obtain m1 where m1: "tics time n m = ret m1" "reach ad (kern m1)" "clock_ok m1" "nb_tick (kern m1) = of_nat n"
    "seconds m1 = min max_seconds (n div 100)" by auto
  obtain m' where m': "tic_PIT_CLOCK time m1 = ret m'"
    "ordonnance ((kern m1)\<lparr>nb_tick := nb_tick (kern m1) + 1\<rparr>) = ret (kern m')" "clock_ok m'"
    "nb_tick (kern m') = nb_tick (kern m1) + 1"
    "seconds m' = (if (nb_tick (kern m1) + 1) mod 100 = 0 then min max_seconds (seconds m1 + 1) else seconds m1)"
    using tic_ok [OF good_reach [OF m1(2)] m1(3), of time] by blast
  have "unat (of_nat (Suc n) :: u32) = Suc n" by (rule unat_of_nat_u32) (use Suc.prems in simp)
  then have "unat ((nb_tick (kern m1) + 1) mod 100) = Suc n mod 100"
    by (simp only: m1(4) unat_mod_distrib of_nat_Suc add.commute) simp
  then have "(nb_tick (kern m1) + 1) mod 100 = 0 \<longleftrightarrow> Suc n mod 100 = 0" by (metis unat_eq_zero)
  moreover have "Suc n div 100 = (if Suc n mod 100 = 0 then Suc (n div 100) else n div 100)" by (rule div_Suc)
  ultimately have "seconds m' = min max_seconds (Suc n div 100)" using m'(5) m1(5) by (auto simp: max_seconds_def min_def split: if_splits)
  then show ?case using m1 m' reach_tic [OF m1(2) m'(2)] by (simp add: add.commute)
qed

subsection \<open>Gates and masks\<close>

text \<open>A gate of the interrupt table, as the processor reads it.\<close>

definition gate_offset :: "memory \<Rightarrow> nat \<Rightarrow> u32" where
  "gate_offset m n =
     (read32 (0x1000 + of_nat (8 * n)) m AND 0xFFFF) OR (read32 (0x1000 + of_nat (8 * n) + 4) m AND 0xFFFF0000)"

definition gate_selector :: "memory \<Rightarrow> nat \<Rightarrow> u32" where
  "gate_selector m n = drop_bit 16 (read32 (0x1000 + of_nat (8 * n)) m)"

definition gate_flags :: "memory \<Rightarrow> nat \<Rightarrow> u32" where
  "gate_flags m n = read32 (0x1000 + of_nat (8 * n) + 4) m AND 0xFFFF"

lemma half_masks:
  fixes t :: u32
  shows "(push_bit 16 0x10 OR (t AND 0x0000FFFF)) AND 0xFFFF = t AND 0xFFFF"
    "((t AND 0xFFFF0000) OR 0x0008E00) AND 0xFFFF0000 = t AND 0xFFFF0000"
    "drop_bit 16 (push_bit 16 0x10 OR (t AND 0x0000FFFF)) = 0x10"
    "((t AND 0xFFFF0000) OR 0x0008E00) AND 0xFFFF = 0x8E00"
    "(t AND 0xFFFF) OR (t AND 0xFFFF0000) = t"
proof -
  have m: "(0xFFFF :: u32) = mask 16" by (simp add: mask_eq_exp_minus_1)
  have h: "(0xFFFF0000 :: u32) = push_bit 16 (mask 16)" by (simp add: mask_eq_exp_minus_1)
  have k: "(push_bit 16 0x10 :: u32) AND 0xFFFF = 0" by simp
  have e: "(0x8E00 :: u32) AND 0xFFFF0000 = 0" "(0x8E00 :: u32) AND 0xFFFF = 0x8E00" by simp_all
  have z: "(t AND 0xFFFF0000) AND 0xFFFF = 0" by (simp add: and.assoc)
  show "(push_bit 16 0x10 OR (t AND 0x0000FFFF)) AND 0xFFFF = t AND 0xFFFF"
    by (simp only: bit.conj_disj_distrib2 k and.assoc) simp
  show "((t AND 0xFFFF0000) OR 0x0008E00) AND 0xFFFF0000 = t AND 0xFFFF0000"
    by (simp only: bit.conj_disj_distrib2 e and.assoc) simp
  show "((t AND 0xFFFF0000) OR 0x0008E00) AND 0xFFFF = 0x8E00"
    unfolding bit.conj_disj_distrib2 z e(2) by simp
  have "drop_bit 16 (t AND mask 16) = 0" by (rule bit_word_eqI) (simp add: bit_drop_bit_eq bit_and_iff bit_mask_iff)
  then show "drop_bit 16 (push_bit 16 0x10 OR (t AND 0x0000FFFF)) = 0x10"
    by (simp only: drop_bit_or m) simp
  have "(0xFFFF :: u32) OR 0xFFFF0000 = - 1" by simp
  then show "(t AND 0xFFFF) OR (t AND 0xFFFF0000) = t" by (metis bit.conj_disj_distrib and_minus_numerals(1) bit.conj_one_right)
qed

lemma init_traitant_gate:
  assumes "n < 256"
  shows "gate_offset (init_traitant_IT (of_nat n) t m) n = t"
    "gate_selector (init_traitant_IT (of_nat n) t m) n = KERNEL_CS"
    "gate_flags (init_traitant_IT (of_nat n) t m) n = 0x8E00"
proof -
  let ?a = "0x1000 + of_nat (8 * n) :: u32"
  have a: "0x1000 + 4 * (of_nat n * 2) = ?a" "0x1000 + 4 * (of_nat n * 2 + 1) = ?a + 4" by simp_all
  let ?m = "init_traitant_IT (of_nat n) t m"
  have m: "?m = write32 (?a + 4) ((t AND 0xFFFF0000) OR 0x0008E00)
    (write32 ?a (push_bit 16 0x10 OR (t AND 0x0000FFFF)) m)"
    by (simp only: init_traitant_IT_def Let_def a KERNEL_CS_def)
  have hi: "read32 (?a + 4) ?m = (t AND 0xFFFF0000) OR 0x0008E00" unfolding m by (rule read32_write32)
  have lo: "read32 ?a ?m = push_bit 16 0x10 OR (t AND 0x0000FFFF)"
    unfolding m by (subst read32_write32_other) (simp_all add: read32_write32)
  show "gate_offset ?m n = t" unfolding gate_offset_def hi lo half_masks ..
  show "gate_selector ?m n = KERNEL_CS" unfolding gate_selector_def lo half_masks KERNEL_CS_def ..
  show "gate_flags ?m n = 0x8E00" unfolding gate_flags_def hi half_masks ..
qed

lemma init_traitant_other:
  assumes "n < 256" "k < 256" "k \<noteq> n"
  shows "gate_offset (init_traitant_IT (of_nat n) t m) k = gate_offset m k"
    "gate_selector (init_traitant_IT (of_nat n) t m) k = gate_selector m k"
    "gate_flags (init_traitant_IT (of_nat n) t m) k = gate_flags m k"
proof -
  let ?m = "init_traitant_IT (of_nat n) t m"
  have a: "0x1000 + 4 * (of_nat n * 2) = (0x1000 + of_nat (8 * n) :: u32)"
    "0x1000 + 4 * (of_nat n * 2 + 1) = (0x1000 + of_nat (8 * n + 4) :: u32)" by simp_all
  have m: "?m = write32 (0x1000 + of_nat (8 * n + 4)) ((t AND 0xFFFF0000) OR 0x0008E00)
    (write32 (0x1000 + of_nat (8 * n)) (push_bit 16 0x10 OR (t AND 0x0000FFFF)) m)"
    by (simp only: init_traitant_IT_def Let_def a KERNEL_CS_def)
  have other: "read32 (0x1000 + of_nat p) (write32 (0x1000 + of_nat q) w m') = read32 (0x1000 + of_nat p) m'"
    if "p + 4 \<le> q \<or> q + 4 \<le> p" "p < 4096" "q < 4096" for p q w m'
    using unat_diff_far [of p q] that by (intro read32_write32_other) simp_all
  have rd: "read32 (0x1000 + of_nat p) ?m = read32 (0x1000 + of_nat p) m" if "p = 8 * k \<or> p = 8 * k + 4" for p
  proof -
    have "p + 4 \<le> 8 * n \<or> 8 * n + 4 \<le> p" "p + 4 \<le> 8 * n + 4 \<or> 8 * n + 4 + 4 \<le> p"
      using that assms(3) by auto
    then show ?thesis unfolding m using that assms by (subst other, force, force, force)+ simp
  qed
  have "0x1000 + of_nat (8 * k) + 4 = (0x1000 + of_nat (8 * k + 4) :: u32)" by simp
  then show "gate_offset ?m k = gate_offset m k" "gate_selector ?m k = gate_selector m k" "gate_flags ?m k = gate_flags m k"
    unfolding gate_offset_def gate_selector_def gate_flags_def using rd [of "8 * k"] rd [of "8 * k + 4"]
    by (simp_all only: disjI1 disjI2)
qed

end
