(* ===== verification/Sbrk.thy ===== *)
theory Sbrk
  imports Prelude
begin

text \<open>
  The heaps: \<open>sbrk\<close> of the kernel (kernel/mem.c, between \<open>mem_heap\<close> and \<open>mem_heap_end\<close>) and of a
  user program (user/lib/sbrk.c, a static array of 4 KiB). Both move one pointer forwards. The
  addresses of the heap are arguments; pointers wrap around at 2^32.
\<close>

definition HEAP_SIZE :: u32 where "HEAP_SIZE = 0x1000"

text \<open>\<open>curptr\<close> is the state; the result of a failure is \<open>(void *)-1\<close>.\<close>

definition sbrk :: "u32 \<Rightarrow> int \<Rightarrow> u32 \<Rightarrow> u32 \<times> u32" where
  "sbrk mem_heap_end diff curptr =
     (let s = curptr; c = s + word_of_int diff
      in if c < curptr \<or> c > mem_heap_end then (- 1, curptr) else (s, c))"

definition user_sbrk :: "u32 \<Rightarrow> int \<Rightarrow> u32 \<Rightarrow> u32 \<times> u32" where
  "user_sbrk heap increment current =
     (let heap_end = heap + HEAP_SIZE; s = current; c = s + word_of_int increment
      in if c < current \<or> c > heap_end then (- 1, current) else (s, c))"

text \<open>A run of requests: what each gives.\<close>

fun sbrk_run :: "u32 \<Rightarrow> int list \<Rightarrow> u32 \<Rightarrow> u32 list \<times> u32" where
  "sbrk_run e [] c = ([], c)"
| "sbrk_run e (d # ds) c = (let (r, c1) = sbrk e d c; (rs, c2) = sbrk_run e ds c1 in (r # rs, c2))"

text \<open>
  The blocks of the requests that were granted, as (address, size), with \<open>size_t\<close> requests: the
  size is the number asked for.
\<close>

fun granted :: "int list \<Rightarrow> u32 list \<Rightarrow> (nat \<times> nat) list" where
  "granted (d # ds) (r # rs) = (if r = - 1 then granted ds rs else (unat r, nat d) # granted ds rs)"
| "granted _ _ = []"

text \<open>Blocks that follow each other between two addresses.\<close>

fun stacked :: "nat \<Rightarrow> (nat \<times> nat) list \<Rightarrow> nat \<Rightarrow> bool" where
  "stacked a [] b \<longleftrightarrow> a \<le> b"
| "stacked a ((p, n) # bs) b \<longleftrightarrow> p = a \<and> stacked (a + n) bs b"

lemma sbrk_ok:
  assumes "0 \<le> d" "d < 2 ^ 31" "e < - 1" "c \<le> e"
  shows "sbrk e d c = (if unat c + nat d \<le> unat e then (c, c + word_of_int d) else (- 1, c))"
    and "unat c + nat d \<le> unat e \<Longrightarrow> unat (c + word_of_int d) = unat c + nat d"
proof -
  have d: "word_of_int d = (of_nat (nat d) :: u32)" "nat d < 2 ^ 31"
    using assms(1,2) by simp_all
  have ce: "unat c \<le> unat e" "unat e < 2 ^ 32" using assms(4) unat_less_u32 [of e] by (simp_all add: word_le_nat_alt)
  have eq: "c + word_of_int d = of_nat (unat c + nat d)" by (simp add: d(1))
  have fits: "unat (c + word_of_int d) = unat c + nat d" if "unat c + nat d < 2 ^ 32"
    unfolding eq by (rule unat_of_nat_u32 [OF that])
  show "unat c + nat d \<le> unat e \<Longrightarrow> unat (c + word_of_int d) = unat c + nat d" using fits ce by simp
  show "sbrk e d c = (if unat c + nat d \<le> unat e then (c, c + word_of_int d) else (- 1, c))"
  proof (cases "unat c + nat d < 2 ^ 32")
    case True
    then show ?thesis using fits by (auto simp: sbrk_def Let_def word_less_nat_alt)
  next
    case False
    have "unat (of_nat (unat c + nat d - 2 ^ 32) :: u32) = unat c + nat d - 2 ^ 32"
      by (rule unat_of_nat_u32) (use ce d(2) in simp)
    moreover have "(of_nat (unat c + nat d - 2 ^ 32) :: u32) = of_nat (unat c + nat d)"
      using False by (simp add: of_nat_diff)
    ultimately have "unat (c + word_of_int d) = unat c + nat d - 2 ^ 32" using eq by (simp only:)
    then have "c + word_of_int d < c" using d(2) False by (simp add: word_less_nat_alt)
    then show ?thesis using False ce by (simp add: sbrk_def Let_def)
  qed
qed

lemma sbrk_run_stacked:
  assumes "e < - 1" "c \<le> e" "\<forall>d\<in>set ds. 0 \<le> d \<and> d < 2 ^ 31" "sbrk_run e ds c = (rs, c')"
  shows "stacked (unat c) (granted ds rs) (unat c') \<and> c' \<le> e"
  using assms(2-4)
proof (induction ds arbitrary: c rs)
  case Nil
  then show ?case by simp
next
  case (Cons d ds)
  have d: "0 \<le> d" "d < 2 ^ 31" using Cons.prems(2) by auto
  obtain rs1 where rs1: "sbrk_run e ds (snd (sbrk e d c)) = (rs1, c')" "rs = fst (sbrk e d c) # rs1"
    using Cons.prems(3) by (auto split: prod.splits)
  note one = sbrk_ok [OF d assms(1) Cons.prems(1)]
  show ?case
  proof (cases "unat c + nat d \<le> unat e")
    case True
    have "c \<noteq> - 1" using Cons.prems(1) assms(1) by auto
    moreover have "c + word_of_int d \<le> e" using True one(2) by (simp add: word_le_nat_alt)
    ultimately show ?thesis using Cons.IH [of "c + word_of_int d" rs1] Cons.prems True one rs1 by simp
  next
    case False
    then show ?thesis using Cons.IH [of c rs1] Cons.prems one rs1 by simp
  qed
qed

lemma stacked_le: "stacked a bs b \<Longrightarrow> a \<le> b"
  by (induction bs arbitrary: a) (auto, meson add_leD1)

lemma stacked_bounds: "stacked a bs b \<Longrightarrow> (p, n) \<in> set bs \<Longrightarrow> a \<le> p \<and> p + n \<le> b"
proof (induction bs arbitrary: a)
  case (Cons x bs)
  then show ?case using stacked_le by (cases x) fastforce
qed simp

lemma stacked_disjoint:
  "stacked a bs b \<Longrightarrow> i < j \<Longrightarrow> j < length bs \<Longrightarrow> fst (bs ! i) + snd (bs ! i) \<le> fst (bs ! j)"
proof (induction bs arbitrary: a i j)
  case (Cons x bs)
  obtain p n where x: "x = (p, n)" by (cases x) auto
  have st: "stacked (a + n) bs b" "p = a" using Cons.prems(1) x by auto
  obtain j' where j: "j = Suc j'" "j' < length bs" using Cons.prems by (cases j) auto
  show ?case
  proof (cases i)
    case 0
    have "bs ! j' \<in> set bs" using j by simp
    then show ?thesis using stacked_bounds [OF st(1), of "fst (bs ! j')" "snd (bs ! j')"] 0 x st j by simp
  next
    case (Suc i')
    then show ?thesis using Cons.IH [OF st(1), of i' j'] Cons.prems j by simp
  qed
qed simp

end
