(* ===== verification/Div64.thy ===== *)
theory Div64
  imports Prelude
begin

text \<open>
  shared/div64.c: the quotient and the remainder of 64-bit numbers, with the 32-bit instructions
  of the processor: \<open>bsr\<close>, the double shift \<open>shrd\<close> and \<open>div\<close>, which faults when the quotient does
  not fit in 32 bits. Shift counts are taken modulo 32, hence the tests of bit 5.
\<close>

fun bsr_from :: "nat \<Rightarrow> u32 \<Rightarrow> nat" where
  "bsr_from 0 n = 0"
| "bsr_from (Suc k) n = (if bit n (Suc k) then Suc k else bsr_from k n)"

text \<open>The instruction leaves its result undefined on 0, which is never asked.\<close>

definition hard_bsr :: "u32 \<Rightarrow> nat" where
  "hard_bsr n = bsr_from 31 n"

definition shrd :: "u32 \<Rightarrow> u32 \<Rightarrow> nat \<Rightarrow> u32" where
  "shrd lo hi n = (let c = n mod 32 in if c = 0 then lo else drop_bit c lo OR push_bit (32 - c) hi)"

definition rshift64 :: "u32 \<Rightarrow> u32 \<Rightarrow> nat \<Rightarrow> u32 \<times> u32" where
  "rshift64 x1 x0 n =
     (let x0' = shrd x0 x1 n; x1' = drop_bit (n mod 32) x1
      in if bit n 5 then (0, x1') else (x1', x0'))"

definition rshift64_32 :: "u32 \<Rightarrow> u32 \<Rightarrow> nat \<Rightarrow> u32" where
  "rshift64_32 x1 x0 n = (let x0' = shrd x0 x1 n in if bit n 5 then x1 else x0')"

text \<open>\<open>div\<close>: the remainder goes to \<open>x1\<close>, the quotient to \<open>x0\<close>.\<close>

definition div64_32 :: "u32 \<Rightarrow> u32 \<Rightarrow> u32 \<Rightarrow> (u32 \<times> u32) res" where
  "div64_32 x1 x0 y =
     (let x = push_bit 32 (ucast x1) OR ucast x0 :: u64
      in if y = 0 \<or> x div ucast y \<ge> 2 ^ 32 then err Divide_Error
         else ret (ucast (x mod ucast y), ucast (x div ucast y)))"

partial_function (option) adjust_loop :: "u64 \<Rightarrow> u32 \<Rightarrow> u64 \<Rightarrow> (u32 \<times> u64) res" where
  "adjust_loop y x0 r = (if r \<ge> y then adjust_loop y (x0 + 1) (r - y) else ret (x0, r))"

text \<open>\<open>rem\<close> is \<open>None\<close> when it is NULL, and else the value it points to.\<close>

definition set_rem :: "u64 option \<Rightarrow> u64 \<Rightarrow> u64 option" where
  "set_rem rem r = (case rem of None \<Rightarrow> None | Some _ \<Rightarrow> Some r)"

definition do_div64 :: "u64 \<Rightarrow> u64 \<Rightarrow> u64 option \<Rightarrow> (u64 \<times> u64 option) res" where
  "do_div64 x y rem =
     (let y1 = ucast (drop_bit 32 y) :: u32; y0 = ucast (y AND 0xffffffff) :: u32;
          x1 = ucast (drop_bit 32 x) :: u32; x0 = ucast (x AND 0xffffffff) :: u32
      in if y1 \<noteq> 0 then
           let l = hard_bsr y1 + 1;
               y0' = rshift64_32 y1 y0 l;
               (x1', x0') = rshift64 x1 x0 l
           in bindr (div64_32 x1' x0' (y0' + 1)) (\<lambda>(x1'', x0'').
              bindr (adjust_loop y x0'' (x - y * ucast x0'')) (\<lambda>(x0''', r).
              ret (ucast x0''', set_rem rem r)))
         else if x1 < y0 then
           bindr (div64_32 x1 x0 y0) (\<lambda>(x1', x0'). ret (ucast x0', set_rem rem (ucast x1')))
         else if y0 \<noteq> 0 then
           bindr (div64_32 0 x1 y0) (\<lambda>(x2, x1').
           bindr (div64_32 x2 x0 y0) (\<lambda>(x2', x0').
           ret (push_bit 32 (ucast x1') + ucast x0', set_rem rem (ucast x2'))))
         else ret (0, set_rem rem x))"

subsection \<open>The instructions, on numbers\<close>

lemma unat_less_u64: "unat (n :: u64) < 2 ^ 64"
  using unsigned_less [of n, where ?'a = nat] by simp

lemma bsr_from_bound: "bsr_from k n \<le> k"
  by (induction k) auto

lemma bsr_from_ok: "\<exists>i\<le>k. bit n i \<Longrightarrow> bit n (bsr_from k n) \<and> (\<forall>i. bsr_from k n < i \<and> i \<le> k \<longrightarrow> \<not> bit n i)"
proof (induction k)
  case (Suc k)
  show ?case
  proof (cases "bit n (Suc k)")
    case False
    then have "\<exists>i\<le>k. bit n i" using Suc.prems le_Suc_eq by blast
    then show ?thesis using Suc.IH False by (auto simp: le_Suc_eq)
  qed auto
qed auto

lemma hard_bsr_bounds:
  assumes "n \<noteq> 0"
  shows "2 ^ hard_bsr n \<le> unat n" "unat n < 2 ^ Suc (hard_bsr n)" "hard_bsr n \<le> 31"
proof -
  let ?b = "hard_bsr n"
  have nb: "bit n i \<longleftrightarrow> bit (unat n) i" for i using bit_imp_le_length [of n i] by (auto simp: bit_unsigned_iff)
  obtain i where i: "bit n i" using assms by (metis bit_word_eqI bit_0_eq bot_apply bot_bool_def)
  then have "i \<le> 31" using bit_imp_le_length [OF i] by simp
  then have b: "bit n ?b" "\<forall>i. ?b < i \<and> i \<le> 31 \<longrightarrow> \<not> bit n i"
    using bsr_from_ok [of 31 n] i by (auto simp: hard_bsr_def)
  show "?b \<le> 31" by (simp add: hard_bsr_def bsr_from_bound)
  show "2 ^ ?b \<le> unat n"
  proof (rule ccontr)
    assume "\<not> 2 ^ ?b \<le> unat n"
    then have "unat n div 2 ^ ?b = 0" by simp
    moreover have "bit (unat n) ?b" using b(1) nb by blast
    ultimately show False by (simp only: bit_iff_odd) simp
  qed
  have "take_bit (Suc ?b) (unat n) = unat n"
  proof (rule bit_eqI)
    fix j
    have "j < Suc ?b" if "bit (unat n) j"
    proof -
      have "bit n j" using that nb by blast
      then have "j \<le> 31" using bit_imp_le_length [of n j] by simp
      then show ?thesis using b(2) \<open>bit n j\<close> by (metis not_less less_Suc_eq_le)
    qed
    then show "bit (take_bit (Suc ?b) (unat n)) j = bit (unat n) j" by (auto simp: bit_take_bit_iff)
  qed
  then show "unat n < 2 ^ Suc ?b" by (metis take_bit_nat_less_exp)
qed

lemma halves: "unat (push_bit 32 (ucast (a :: u32)) OR ucast (b :: u32) :: u64) = unat a * 2 ^ 32 + unat b"
proof -
  have a: "unat (push_bit 32 (ucast a) :: u64) = unat a * 2 ^ 32"
  proof -
    have "unat a * 2 ^ 32 < 2 ^ 64" using unat_less_u32 [of a] by simp
    then show ?thesis unfolding unsigned_push_bit_eq unsigned_ucast_eq
      using unat_less_u32 [of a] by (simp add: push_bit_eq_mult take_bit_nat_eq_self)
  qed
  have b: "unat (ucast b :: u64) = unat b"
    using unat_less_u32 [of b] by (simp add: unsigned_ucast_eq take_bit_nat_eq_self)
  have "unat a * 2 ^ 32 OR unat b = unat a * 2 ^ 32 + unat b"
  proof (rule disjunctive_add_eq_or [symmetric])
    have "unat b = take_bit 32 (unat b)" using unat_less_u32 [of b] by (simp add: take_bit_nat_eq_self)
    then show "unat a * 2 ^ 32 AND unat b = 0"
      by (metis push_bit_eq_mult bit_eqI bit_and_iff bit_push_bit_iff bit_take_bit_iff not_le bit_0_eq bot_apply bot_bool_def)
  qed
  then show ?thesis by (simp only: unsigned_or_eq a b)
qed

lemma div64_32_ok:
  assumes "unat x1 * 2 ^ 32 + unat x0 < unat y * 2 ^ 32"
  shows "\<exists>r q. div64_32 x1 x0 y = ret (r, q) \<and> unat q = (unat x1 * 2 ^ 32 + unat x0) div unat y \<and>
    unat r = (unat x1 * 2 ^ 32 + unat x0) mod unat y"
proof -
  let ?n = "unat x1 * 2 ^ 32 + unat x0"
  let ?x = "push_bit 32 (ucast x1) OR ucast x0 :: u64"
  have y: "unat (ucast y :: u64) = unat y"
    using unat_less_u32 [of y] by (simp add: unsigned_ucast_eq take_bit_nat_eq_self)
  have y0: "y \<noteq> 0" "0 < unat y" using assms by (auto simp: unat_gt_0)
  have d: "unat (?x div ucast y) = ?n div unat y" "unat (?x mod ucast y) = ?n mod unat y"
    by (simp_all only: unat_div_distrib unat_mod_distrib halves y)
  have q: "?n div unat y < 2 ^ 32" using assms y0 by (simp add: div_less_iff_less_mult mult.commute)
  have r: "?n mod unat y < 2 ^ 32" using y0 unat_less_u32 [of y] by (meson less_trans mod_less_divisor)
  have "\<not> ?x div ucast y \<ge> 2 ^ 32" using q d(1) by (simp add: word_le_nat_alt)
  moreover have "unat (ucast (?x div ucast y) :: u32) = ?n div unat y" "unat (ucast (?x mod ucast y) :: u32) = ?n mod unat y"
    using q r by (simp_all add: unsigned_ucast_eq d take_bit_nat_eq_self)
  ultimately show ?thesis using y0 by (auto simp: div64_32_def Let_def)
qed

lemma div64_32_zero: "div64_32 x1 x0 0 = err Divide_Error"
  by (simp add: div64_32_def Let_def)

lemma word_eq_unat: "unat x = unat y \<Longrightarrow> x = y"
  by (simp add: word_unat_eq_iff)

text \<open>The two halves of a 64-bit number, and of its shifts.\<close>

lemma low_half: "ucast (x AND 0xffffffff) = (ucast (x :: u64) :: u32)"
proof -
  have "(0xffffffff :: u64) = mask 32" by (simp add: mask_eq_exp_minus_1)
  moreover have "ucast (x AND mask 32) = (ucast x :: u32)"
    by (rule bit_word_eqI) (simp only: bit_unsigned_iff bit_and_iff bit_mask_iff, simp)
  ultimately show ?thesis by (simp only:)
qed

lemma unat_low: "unat (ucast (x :: u64) :: u32) = unat x mod 2 ^ 32"
  by (simp add: unsigned_ucast_eq take_bit_eq_mod)

lemma unat_shift: "unat (drop_bit n (x :: u64)) = unat x div 2 ^ n"
  by (simp only: drop_bit_eq_div [symmetric] unat_drop_bit_eq)

lemma shrd_halves:
  assumes "n \<le> 32" "0 < n"
  shows "shrd (ucast x) (ucast (drop_bit 32 x)) n = (if n = 32 then ucast x else ucast (drop_bit n (x :: u64)))"
proof (cases "n = 32")
  case False
  then have "n mod 32 = n" using assms by simp
  then show ?thesis using assms False
    by (auto simp: shrd_def Let_def bit_unsigned_iff bit_or_iff bit_drop_bit_eq bit_push_bit_iff add.commute
        dest: bit_imp_le_length intro!: bit_word_eqI)
qed (simp add: shrd_def)

lemma bit5: "n \<le> 32 \<Longrightarrow> bit n 5 \<longleftrightarrow> n = 32" for n :: nat
proof (cases "n = 32")
  case False
  assume "n \<le> 32"
  then have "n div 32 = 0" using False by simp
  then show ?thesis using False by (simp add: bit_iff_odd)
qed (simp add: bit_iff_odd)

lemma rshift64_32_ok:
  assumes "n \<le> 32" "0 < n"
  shows "rshift64_32 (ucast (drop_bit 32 x)) (ucast x) n = ucast (drop_bit n (x :: u64))"
  using assms by (simp add: rshift64_32_def shrd_halves bit5)

lemma rshift64_ok:
  assumes "n \<le> 32" "0 < n"
  shows "rshift64 (ucast (drop_bit 32 x)) (ucast x) n =
    (ucast (drop_bit 32 (drop_bit n x)), ucast (drop_bit n (x :: u64)))"
proof (cases "n = 32")
  case True
  have "ucast (drop_bit 32 (drop_bit 32 x)) = (0 :: u32)"
    by (rule bit_word_eqI) (use bit_imp_le_length [of x] in \<open>fastforce simp: bit_unsigned_iff bit_drop_bit_eq\<close>)
  moreover have "bit (32 :: nat) 5" by (simp add: bit_iff_odd)
  ultimately show ?thesis using True by (simp add: rshift64_def Let_def del: bit_numeral_simps)
next
  case False
  then have n: "n < 32" "n mod 32 = n" using assms by simp_all
  have "drop_bit n (ucast (drop_bit 32 x)) = (ucast (drop_bit 32 (drop_bit n x)) :: u32)"
    by (rule bit_word_eqI)
      (use bit_imp_le_length [of x] n in \<open>fastforce simp: bit_unsigned_iff bit_drop_bit_eq ac_simps\<close>)
  then show ?thesis using assms False n by (simp add: rshift64_def bit5 shrd_halves)
qed

lemma unat_ucast_up: "unat (ucast (a :: u32) :: u64) = unat a"
  using unat_less_u32 [of a] by (simp add: unsigned_ucast_eq take_bit_nat_eq_self)

lemma adjust_loop_ok:
  assumes "0 < y" "unat x0 + unat r div unat y < 2 ^ 32"
  shows "\<exists>q r'. adjust_loop y x0 r = ret (q, r') \<and> unat q = unat x0 + unat r div unat y \<and> unat r' = unat r mod unat y"
  using assms(2)
proof (induction "unat r" arbitrary: r x0 rule: less_induct)
  case less
  have y: "0 < unat y" using assms(1) by (simp add: unat_gt_0 word_gt_0)
  show ?case
  proof (cases "y \<le> r")
    case True
    then have le: "unat y \<le> unat r" by (simp add: word_le_nat_alt)
    have r: "unat (r - y) = unat r - unat y" using True by (simp add: unat_sub)
    have d: "unat r div unat y = Suc (unat (r - y) div unat y)" "unat r mod unat y = unat (r - y) mod unat y"
      using le y by (simp_all add: r le_div_geq le_mod_geq)
    have "unat (x0 + 1) = Suc (unat x0)" by (rule unat_Suc_u32) (use less.prems d(1) in simp)
    then have "\<exists>q r'. adjust_loop y (x0 + 1) (r - y) = ret (q, r') \<and>
        unat q = unat (x0 + 1) + unat (r - y) div unat y \<and> unat r' = unat (r - y) mod unat y"
      using less.prems d(1) le y r by (intro less.hyps) simp_all
    then show ?thesis using True d \<open>unat (x0 + 1) = Suc (unat x0)\<close> by (subst adjust_loop.simps) simp
  next
    case False
    then have "unat r < unat y" by (simp add: word_le_nat_alt)
    then show ?thesis using False by (subst adjust_loop.simps) simp
  qed
qed

text \<open>An estimate of the quotient that is made with the divisor rounded up is never too large.\<close>

lemma estimate_le:
  fixes x y k :: nat
  defines "q \<equiv> (x div 2 ^ k) div (y div 2 ^ k + 1)"
  shows "q * y \<le> x"
proof -
  have "y \<le> (y div 2 ^ k + 1) * 2 ^ k"
  proof -
    have "y div 2 ^ k * 2 ^ k + y mod 2 ^ k = y" by (rule div_mult_mod_eq)
    moreover have "y mod 2 ^ k < 2 ^ k" by simp
    ultimately show ?thesis unfolding add_mult_distrib by linarith
  qed
  then have "q * y \<le> q * ((y div 2 ^ k + 1) * 2 ^ k)" by (rule mult_le_mono2)
  also have "\<dots> = q * (y div 2 ^ k + 1) * 2 ^ k" by (simp only: mult.assoc)
  also have "\<dots> \<le> (x div 2 ^ k) * 2 ^ k" unfolding q_def by (rule mult_right_mono [OF div_times_less_eq_dividend]) simp
  also have "\<dots> \<le> x" by (rule div_times_less_eq_dividend)
  finally show ?thesis .
qed

lemma estimate_quotient:
  fixes x y q :: nat
  assumes "q * y \<le> x" "0 < y"
  shows "q + (x - q * y) div y = x div y" "(x - q * y) mod y = x mod y"
proof -
  obtain z where z: "x = z + q * y" using assms(1) by (metis le_add_diff_inverse2)
  show "q + (x - q * y) div y = x div y" "(x - q * y) mod y = x mod y"
    using assms(2) by (simp_all add: z)
qed

subsection \<open>The division\<close>

text \<open>The 32 leading bits of a divisor of more than 32 bits, which the code adds one to.\<close>

definition leading :: "u64 \<Rightarrow> nat" where
  "leading y = unat y div 2 ^ (hard_bsr (ucast (drop_bit 32 y)) + 1)"

lemma high_half_bounds:
  assumes "ucast (drop_bit 32 y) \<noteq> (0 :: u32)"
  defines "l \<equiv> hard_bsr (ucast (drop_bit 32 y)) + 1"
  shows "0 < l" "l \<le> 32" "2 ^ 31 \<le> leading y" "leading y < 2 ^ 32" "2 ^ 32 \<le> unat y"
proof -
  let ?y1 = "ucast (drop_bit 32 y) :: u32"
  have div32: "unat y div 2 ^ 32 < 2 ^ 32"
  proof -
    have "unat y < 2 ^ 32 * 2 ^ 32" using unat_less_u64 [of y] by simp
    then show ?thesis by (simp only: div_less_iff_less_mult zero_less_power zero_less_numeral)
  qed
  have y1: "unat ?y1 = unat y div 2 ^ 32" using div32 by (simp only: unat_low unat_shift mod_less)
  have b: "2 ^ hard_bsr ?y1 \<le> unat ?y1" "unat ?y1 < 2 ^ l" "hard_bsr ?y1 \<le> 31"
    using hard_bsr_bounds [OF assms(1)] by (simp_all add: l_def)
  show "0 < l" "l \<le> 32" using b(3) by (simp_all add: l_def)
  have "2 ^ hard_bsr ?y1 * 2 ^ 32 \<le> unat y div 2 ^ 32 * 2 ^ 32" using b(1) y1 by simp
  also have "\<dots> \<le> unat y" by (rule div_times_less_eq_dividend)
  finally have lo: "2 ^ hard_bsr ?y1 * 2 ^ 32 \<le> unat y" .
  then have "2 ^ 31 * 2 ^ l \<le> unat y" by (simp add: l_def)
  then show "2 ^ 31 \<le> leading y" by (simp add: leading_def l_def less_eq_div_iff_mult_less_eq)
  have "unat y div 2 ^ 32 < 2 ^ l" using b(2) y1 by simp
  then have "unat y < 2 ^ l * 2 ^ 32" by (simp only: div_less_iff_less_mult zero_less_power zero_less_numeral)
  then have "unat y div 2 ^ l < 2 ^ 32"
    by (simp only: div_less_iff_less_mult zero_less_power zero_less_numeral mult.commute)
  then show "leading y < 2 ^ 32" by (simp add: leading_def l_def)
  have "unat y div 2 ^ 32 \<noteq> 0" using assms(1) y1 by (metis unat_eq_zero)
  then show "2 ^ 32 \<le> unat y" by (metis div_less not_less)
qed

lemma do_div64_large:
  assumes y1: "ucast (drop_bit 32 y) \<noteq> (0 :: u32)"
  shows "do_div64 x y rem = (if leading y = 2 ^ 32 - 1 then err Divide_Error else ret (x div y, set_rem rem (x mod y)))"
proof -
  define l where "l = hard_bsr (ucast (drop_bit 32 y)) + 1"
  define y0' where "y0' = (ucast (drop_bit l y) :: u32)"
  define x1' where "x1' = (ucast (drop_bit 32 (drop_bit l x)) :: u32)"
  define x0' where "x0' = (ucast (drop_bit l x) :: u32)"
  note b = high_half_bounds [OF y1, folded l_def]
  have run: "do_div64 x y rem = bindr (div64_32 x1' x0' (y0' + 1)) (\<lambda>(x1'', x0'').
      bindr (adjust_loop y x0'' (x - y * ucast x0'')) (\<lambda>(x0''', r). ret (ucast x0''', set_rem rem r)))"
    using y1 rshift64_ok [OF b(2,1), of x] rshift64_32_ok [OF b(2,1), of y]
    by (simp add: do_div64_def Let_def low_half l_def y0'_def x1'_def x0'_def)
  have y0': "unat y0' = leading y"
    using b(4) by (simp add: y0'_def unat_low unat_shift leading_def l_def)
  have xl: "unat x div 2 ^ l < 2 ^ 63"
  proof -
    have "unat x div 2 ^ l \<le> unat x div 2 ^ 1" using b(1) by (intro div_le_mono2 power_increasing) auto
    then show ?thesis using unat_less_u64 [of x] by simp
  qed
  have x: "unat x1' * 2 ^ 32 + unat x0' = unat x div 2 ^ l"
  proof -
    have "unat x div 2 ^ l div 2 ^ 32 < 2 ^ 32" using xl by simp
    then have "unat x1' = unat x div 2 ^ l div 2 ^ 32" by (simp only: x1'_def unat_low unat_shift mod_less)
    moreover have "unat x0' = unat x div 2 ^ l mod 2 ^ 32" by (simp only: x0'_def unat_low unat_shift)
    ultimately show ?thesis by (simp only: div_mult_mod_eq)
  qed
  show ?thesis
  proof (cases "leading y = 2 ^ 32 - 1")
    case True
    have "y0' + 1 = 0" by (rule word_eq_unat) (use True y0' in \<open>simp add: unat_word_ariths(1)\<close>)
    then show ?thesis using True run by (simp add: div64_32_zero)
  next
    case False
    have d: "unat (y0' + 1) = leading y + 1"
      using unat_Suc_u32 [of y0'] False b(4) y0' by simp
    define q where "q = (unat x div 2 ^ l) div (unat y div 2 ^ l + 1)"
    have lead: "leading y = unat y div 2 ^ l" by (simp add: leading_def l_def)
    have "unat x1' * 2 ^ 32 + unat x0' < unat (y0' + 1) * 2 ^ 32" using xl x d b(3) by simp
    then obtain r0 q0 where q0: "div64_32 x1' x0' (y0' + 1) = ret (r0, q0)" "unat q0 = q"
      using div64_32_ok [of x1' x0' "y0' + 1", unfolded x d lead, folded q_def] by (metis (no_types, lifting) d lead x)
    have le: "q * unat y \<le> unat x" unfolding q_def by (rule estimate_le)
    have Y: "0 < unat y" using b(5) by simp
    note est = estimate_quotient [OF le Y]
    have r: "unat (x - y * ucast q0) = unat x - q * unat y"
    proof -
      have "q * unat y < 2 ^ 64" using le unat_less_u64 [of x] by simp
      then have p: "unat (y * ucast q0) = q * unat y"
        by (simp add: unat_word_ariths(2) unat_ucast_up q0(2) mult.commute)
      then have "y * ucast q0 \<le> x" using le by (simp add: word_le_nat_alt)
      then show ?thesis by (simp add: unat_sub p)
    qed
    have small: "unat x div unat y < 2 ^ 32"
    proof -
      have "unat x div unat y \<le> unat x div 2 ^ 32" using b(5) by (intro div_le_mono2) simp_all
      also have "\<dots> < 2 ^ 32" using unat_less_u64 [of x] by simp
      finally show ?thesis .
    qed
    obtain q1 r1 where a: "adjust_loop y q0 (x - y * ucast q0) = ret (q1, r1)"
      "unat q1 = unat x div unat y" "unat r1 = unat x mod unat y"
      using adjust_loop_ok [of y q0 "x - y * ucast q0"] Y small est by (auto simp: r q0(2) word_less_nat_alt)
    have "ucast q1 = x div y" "r1 = x mod y"
      by (rule word_eq_unat, simp add: unat_ucast_up a unat_div_distrib unat_mod_distrib)+
    then show ?thesis using run False q0(1) a(1) by simp
  qed
qed

lemma do_div64_small:
  assumes y1: "ucast (drop_bit 32 y) = (0 :: u32)"
  shows "do_div64 x y rem = (if y = 0 then ret (0, set_rem rem x) else ret (x div y, set_rem rem (x mod y)))"
proof -
  define x1 where "x1 = (ucast (drop_bit 32 x) :: u32)"
  define x0 where "x0 = (ucast x :: u32)"
  define y0 where "y0 = (ucast y :: u32)"
  have run: "do_div64 x y rem =
    (if x1 < y0 then bindr (div64_32 x1 x0 y0) (\<lambda>(x1', x0'). ret (ucast x0', set_rem rem (ucast x1')))
     else if y0 \<noteq> 0 then bindr (div64_32 0 x1 y0) (\<lambda>(x2, x1'). bindr (div64_32 x2 x0 y0) (\<lambda>(x2', x0').
       ret (push_bit 32 (ucast x1') + ucast x0', set_rem rem (ucast x2'))))
     else ret (0, set_rem rem x))"
    using y1 by (simp add: do_div64_def Let_def low_half x1_def x0_def y0_def)
  have div32: "unat z div 2 ^ 32 < 2 ^ 32" for z :: u64 using unat_less_u64 [of z] by simp
  have x: "unat x1 * 2 ^ 32 + unat x0 = unat x"
    unfolding x1_def x0_def unat_low unat_shift mod_less [OF div32] by (rule div_mult_mod_eq)
  have "unat y div 2 ^ 32 = 0" using y1 div32 [of y] by (metis unat_low unat_shift mod_less unat_0)
  then have y: "unat y0 = unat y" by (simp add: y0_def unat_low div_eq_0_iff)
  show ?thesis
  proof (cases "x1 < y0")
    case True
    then have "unat x1 < unat y0" by (simp add: word_less_nat_alt)
    then have "unat x1 * 2 ^ 32 + unat x0 < unat y0 * 2 ^ 32" using unat_less_u32 [of x0] by simp
    then obtain r q where d: "div64_32 x1 x0 y0 = ret (r, q)" "unat q = unat x div unat y" "unat r = unat x mod unat y"
      using div64_32_ok [of x1 x0 y0, unfolded x y] x y by (metis (no_types, lifting))
    have "ucast q = x div y" "ucast r = x mod y"
      by (rule word_eq_unat, simp add: unat_ucast_up d unat_div_distrib unat_mod_distrib)+
    moreover have "y \<noteq> 0" using \<open>unat x1 < unat y0\<close> y by auto
    ultimately show ?thesis using True run d(1) by simp
  next
    case False
    show ?thesis
    proof (cases "y = 0")
      case True
      then show ?thesis using run by (simp add: y0_def)
    next
      case yn: False
      then have "unat y \<noteq> 0" by (metis unat_eq_zero)
      then have y0: "0 < unat y" "y0 \<noteq> 0" using y by auto
      have "unat (0 :: u32) * 2 ^ 32 + unat x1 < unat y0 * 2 ^ 32"
        using y0(1) y unat_less_u32 [of x1] by (simp add: less_le_trans)
      then obtain r q where d: "div64_32 0 x1 y0 = ret (r, q)" "unat q = unat x1 div unat y" "unat r = unat x1 mod unat y"
        using div64_32_ok [of 0 x1 y0] by (auto simp: y)
      have "unat r < unat y" using d(3) y0(1) by simp
      then have "unat r * 2 ^ 32 + unat x0 < unat y0 * 2 ^ 32" using unat_less_u32 [of x0] y by simp
      then obtain r' q' where d': "div64_32 r x0 y0 = ret (r', q')"
        "unat q' = (unat r * 2 ^ 32 + unat x0) div unat y" "unat r' = (unat r * 2 ^ 32 + unat x0) mod unat y"
        using div64_32_ok [of r x0 y0] by (auto simp: y)
      have xx: "unat x = (unat q * unat y + unat r) * 2 ^ 32 + unat x0" using x by (simp only: d div_mult_mod_eq)
      then have xd: "unat x = unat q * 2 ^ 32 * unat y + (unat r * 2 ^ 32 + unat x0)" by (simp add: algebra_simps)
      have q: "unat x div unat y = unat q * 2 ^ 32 + unat q'" "unat x mod unat y = unat r'"
        using y0(1) by (simp_all add: xd d')
      have "unat (push_bit 32 (ucast q) + ucast q' :: u64) = unat q * 2 ^ 32 + unat q'"
      proof -
        have "unat q * 2 ^ 32 + unat q' < 2 ^ 64" using unat_less_u32 [of q] unat_less_u32 [of q'] by simp
        then have "unat (of_nat (unat q * 2 ^ 32 + unat q') :: u64) = unat q * 2 ^ 32 + unat q'"
          by (simp only: unsigned_of_nat) (simp add: take_bit_nat_eq_self)
        moreover have "push_bit 32 (ucast q) + ucast q' = (of_nat (unat q * 2 ^ 32 + unat q') :: u64)"
          by (simp add: push_bit_eq_mult unsigned_of_nat)
        ultimately show ?thesis by (simp only:)
      qed
      then have "push_bit 32 (ucast q) + ucast q' = x div y" by (intro word_eq_unat) (simp add: q unat_div_distrib)
      moreover have "ucast r' = x mod y" by (rule word_eq_unat) (simp add: unat_ucast_up q unat_mod_distrib)
      ultimately show ?thesis using False yn y0 run d(1) d'(1) by simp
    qed
  qed
qed

end
