(* ===== verification/Paging.thy ===== *)
theory Paging
  imports Word_Memory
begin

text \<open>
  The first page tables, built by kernel/boot/early\_mm.c in physical memory, and the translation
  of addresses that the remote debugger does with them in kernel/gdb\_serial\_support.c. The
  symbols of the linker script are a record. \<open>while (1) hlt()\<close> never returns.
\<close>

record symbols =
  sym_start :: u32
  text_start :: u32
  text_end :: u32
  multiboot_start :: u32
  multiboot_end :: u32
  bootstrap_stack_start :: u32
  bootstrap_stack_end :: u32
  rodata_start :: u32
  rodata_end :: u32
  data_start :: u32
  data_end :: u32
  bss_start :: u32
  bss_end :: u32
  sym_end :: u32
  mem_end :: u32

subsection \<open>early\_mm.c\<close>

definition ASSERT_ALIGNED :: "u32 \<Rightarrow> unit res" where
  "ASSERT_ALIGNED symbol = (if symbol AND 0xFFFFF000 \<noteq> symbol then None else ret ())"

definition ASSERT_CONSISTENT :: "u32 \<Rightarrow> u32 \<Rightarrow> unit res" where
  "ASSERT_CONSISTENT st en = (if sint (en - st) < 4096 then None else ret ())"

text \<open>The section .bss is not checked: its lines name .data again.\<close>

definition early_mm_check :: "symbols \<Rightarrow> unit res" where
  "early_mm_check y =
     bindr (ASSERT_ALIGNED (sym_start y)) (\<lambda>_.
     bindr (ASSERT_ALIGNED (text_start y)) (\<lambda>_.
     bindr (ASSERT_ALIGNED (text_end y)) (\<lambda>_.
     bindr (ASSERT_CONSISTENT (text_start y) (text_end y)) (\<lambda>_.
     bindr (ASSERT_ALIGNED (multiboot_start y)) (\<lambda>_.
     bindr (ASSERT_ALIGNED (multiboot_end y)) (\<lambda>_.
     bindr (ASSERT_CONSISTENT (multiboot_start y) (multiboot_end y)) (\<lambda>_.
     bindr (ASSERT_ALIGNED (bootstrap_stack_start y)) (\<lambda>_.
     bindr (ASSERT_ALIGNED (bootstrap_stack_end y)) (\<lambda>_.
     bindr (ASSERT_CONSISTENT (bootstrap_stack_start y) (bootstrap_stack_end y)) (\<lambda>_.
     bindr (ASSERT_ALIGNED (rodata_start y)) (\<lambda>_.
     bindr (ASSERT_ALIGNED (rodata_end y)) (\<lambda>_.
     bindr (ASSERT_CONSISTENT (rodata_start y) (rodata_end y)) (\<lambda>_.
     bindr (ASSERT_ALIGNED (data_start y)) (\<lambda>_.
     bindr (ASSERT_ALIGNED (data_end y)) (\<lambda>_.
     bindr (ASSERT_CONSISTENT (data_start y) (data_end y)) (\<lambda>_.
     bindr (ASSERT_ALIGNED (data_start y)) (\<lambda>_.
     bindr (ASSERT_ALIGNED (data_end y)) (\<lambda>_.
     bindr (ASSERT_CONSISTENT (data_start y) (data_end y)) (\<lambda>_.
     ASSERT_CONSISTENT (sym_start y) (sym_end y))))))))))))))))))))"

definition PAGE_DIR_FLAGS :: u32 where "PAGE_DIR_FLAGS = 3"
definition PAGE_TABLE_RO :: u32 where "PAGE_TABLE_RO = 1"
definition PAGE_TABLE_RW :: u32 where "PAGE_TABLE_RW = 3"

definition early_mm_fill_pgdir :: "u32 \<Rightarrow> u32 \<Rightarrow> nat \<Rightarrow> memory \<Rightarrow> memory" where
  "early_mm_fill_pgdir pagedir pagetab count m =
     fold (\<lambda>i. write32 (pagedir + 4 * of_nat i) 0) [count..<1024]
       (fold (\<lambda>i. write32 (pagedir + 4 * of_nat i) ((pagetab + of_nat i * 0x1000) OR PAGE_DIR_FLAGS)) [0..<count] m)"

text \<open>The loop does not end when \<open>address\<close> wraps around before it reaches \<open>en\<close>.\<close>

partial_function (option) early_mm_map_region :: "u32 \<Rightarrow> u32 \<Rightarrow> u32 \<Rightarrow> u32 \<Rightarrow> memory \<Rightarrow> memory res" where
  "early_mm_map_region pdir address en flags m =
     (if address < en then
        let pd_index = drop_bit 22 address;
            pt_index = drop_bit 12 address AND 0x3FF;
            ptable = read32 (pdir + 4 * pd_index) m AND 0xFFFFF000
        in early_mm_map_region pdir (address + 4096) en flags
             (write32 (ptable + 4 * pt_index) ((address AND 0xFFFFF000) OR flags) m)
      else ret m)"

definition early_mm_map_kernel :: "u32 \<Rightarrow> u32 \<Rightarrow> symbols \<Rightarrow> memory \<Rightarrow> memory res" where
  "early_mm_map_kernel pgdir pgtab y m0 =
     (let m1 = snd (memset pgtab 0 (4096 * 64) m0);
          m2 = early_mm_fill_pgdir pgdir pgtab 64 m1;
          m3 = write32 pgtab 0 m2
      in bindr (early_mm_map_region pgdir 4096 (sym_start y) PAGE_TABLE_RW m3) (\<lambda>m.
         bindr (early_mm_map_region pgdir (sym_start y) (text_start y) PAGE_TABLE_RW m) (\<lambda>m.
         bindr (early_mm_map_region pgdir (text_start y) (text_end y) PAGE_TABLE_RO m) (\<lambda>m.
         bindr (early_mm_map_region pgdir (multiboot_start y) (multiboot_end y) PAGE_TABLE_RO m) (\<lambda>m.
         bindr (early_mm_map_region pgdir (rodata_start y) (rodata_end y) PAGE_TABLE_RO m) (\<lambda>m.
         bindr (early_mm_map_region pgdir (bootstrap_stack_start y) (bootstrap_stack_end y) PAGE_TABLE_RW m) (\<lambda>m.
         bindr (early_mm_map_region pgdir (data_start y) (data_end y) PAGE_TABLE_RW m) (\<lambda>m.
         bindr (early_mm_map_region pgdir (bss_start y) (bss_end y) PAGE_TABLE_RW m) (\<lambda>m.
         early_mm_map_region pgdir (sym_end y) (mem_end y) PAGE_TABLE_RW m)))))))))"

subsection \<open>gdb\_serial\_support.c\<close>

definition lin2pdenum :: "u32 \<Rightarrow> u32" where "lin2pdenum a = drop_bit 22 a AND 0x3ff"
definition lin2ptenum :: "u32 \<Rightarrow> u32" where "lin2ptenum a = drop_bit 12 a AND 0x3ff"
definition INTEL_OFFMASK :: u32 where "INTEL_OFFMASK = 0xfff"
definition pde_to_pa :: "u32 \<Rightarrow> u32" where "pde_to_pa p = p AND 0xfffff000"
definition SUPERPAGE_SIZE :: u32 where "SUPERPAGE_SIZE = push_bit 22 1"
definition SUPERPAGE_MASK :: u32 where "SUPERPAGE_MASK = SUPERPAGE_SIZE - 1"
definition trunc_superpage :: "u32 \<Rightarrow> u32" where "trunc_superpage x = x AND NOT SUPERPAGE_MASK"

text \<open>
  \<open>client_cr0\<close> and \<open>client_cr3\<close> are arguments; \<open>paddr\<close> is what \<open>*paddr\<close> held, which stays when
  the address is not mapped. The result is \<open>*paddr\<close> and \<open>*len\<close>.
\<close>

definition phys_addr_lookup :: "u32 \<Rightarrow> u32 \<Rightarrow> memory \<Rightarrow> u32 \<Rightarrow> u32 \<Rightarrow> u32 \<times> u32" where
  "phys_addr_lookup client_cr0 client_cr3 m vaddr paddr =
     (let pd = pde_to_pa client_cr3;
          pde = read32 (pd + 4 * lin2pdenum vaddr) m
      in if client_cr0 AND 0x80000000 = 0 then (vaddr, 0xffffffff)
         else if pde AND 1 = 0 then (paddr, 0)
         else if pde AND 0x80 = 0 then
           let pt = pde_to_pa pde;
               pte = read32 (pt + 4 * lin2ptenum vaddr) m;
               offs = vaddr AND INTEL_OFFMASK
           in if pte AND 1 = 0 then (paddr, 0) else ((pte AND 0xfffff000) + offs, INTEL_OFFMASK + 1 - offs)
         else
           let offs = vaddr AND SUPERPAGE_MASK
           in (trunc_superpage pde + offs, SUPERPAGE_SIZE - offs))"

text \<open>
  \<open>gdb_copyin\<close> and \<open>gdb_copyout\<close> run with paging disabled, so that the addresses are physical.
  The value is -1 when an address is not mapped; what was copied before stays.
\<close>

partial_function (option) gdb_copyin :: "u32 \<Rightarrow> u32 \<Rightarrow> u32 \<Rightarrow> u32 \<Rightarrow> u32 \<Rightarrow> u32 \<Rightarrow> memory \<Rightarrow> (int \<times> memory) res" where
  "gdb_copyin client_cr0 client_cr3 pa0 src_va dest_buf sz m =
     (if sz = 0 then ret (0, m)
      else
        let (pa, len) = phys_addr_lookup client_cr0 client_cr3 m src_va pa0
        in if len = 0 then ret (-1, m)
           else
             let n = (if len > sz then sz else len)
             in gdb_copyin client_cr0 client_cr3 pa (src_va + n) (dest_buf + n) (sz - n) (snd (memcpy dest_buf pa n m)))"

partial_function (option) gdb_copyout :: "u32 \<Rightarrow> u32 \<Rightarrow> u32 \<Rightarrow> u32 \<Rightarrow> u32 \<Rightarrow> u32 \<Rightarrow> memory \<Rightarrow> (int \<times> memory) res" where
  "gdb_copyout client_cr0 client_cr3 pa0 src_buf dest_va sz m =
     (if sz = 0 then ret (0, m)
      else
        let (pa, len) = phys_addr_lookup client_cr0 client_cr3 m dest_va pa0
        in if len = 0 then ret (-1, m)
           else
             let n = (if len > sz then sz else len)
             in gdb_copyout client_cr0 client_cr3 pa (src_buf + n) (dest_va + n) (sz - n) (snd (memcpy pa src_buf n m)))"

definition EFL_TF :: u32 where "EFL_TF = 0x100"

definition gdb_set_trace_flag :: "bool \<Rightarrow> u32 \<Rightarrow> u32" where
  "gdb_set_trace_flag trace_enable eflags = (if trace_enable then eflags OR EFL_TF else eflags AND NOT EFL_TF)"

end
