(* ===== verification/Paging_Ok.thy ===== *)
theory Paging_Ok
  imports Paging Strings_Ok
begin

text \<open>
  The page tables map the regions they are asked to map, each page to itself, and nothing else;
  and the debugger's translation reads them so.
\<close>

subsection \<open>Aligned words\<close>

definition aligned :: "u32 \<Rightarrow> bool" where
  "aligned w \<longleftrightarrow> unat w mod 4096 = 0"

lemma page_mask: "(0xFFFFF000 :: u32) = NOT (mask 12)"
  by (simp add: mask_eq_exp_minus_1)

lemma aligned_bit: "aligned w \<Longrightarrow> i < 12 \<Longrightarrow> \<not> bit w i"
proof -
  assume a: "aligned w" and i: "i < 12"
  have "unat (take_bit 12 w) = 0" using a by (simp only: unsigned_take_bit_eq) (simp add: take_bit_eq_mod aligned_def)
  then have "take_bit 12 w = 0" by (simp only: unat_eq_zero)
  then have "\<not> bit (take_bit 12 w) i" by simp
  then show "\<not> bit w i" using i by (simp add: bit_take_bit_iff)
qed

lemma aligned_flags:
  assumes "aligned w" "\<forall>i\<ge>12. \<not> bit f i"
  shows "(w OR f) AND 0xFFFFF000 = w"
  unfolding page_mask
  by (rule bit_word_eqI) (use assms aligned_bit [OF assms(1)] in \<open>force simp: bit_and_iff bit_or_iff bit_not_iff bit_mask_iff\<close>)

lemma aligned_mask: "aligned w \<Longrightarrow> w AND 0xFFFFF000 = w"
  using aligned_flags [of w 0] by simp

lemma aligned_low: "aligned w \<Longrightarrow> (w OR f) AND mask 12 = f AND mask 12"
  by (rule bit_word_eqI) (use aligned_bit in \<open>force simp: bit_and_iff bit_or_iff bit_mask_iff\<close>)

lemma page_offset: "(v AND 0xFFFFF000) + (v AND INTEL_OFFMASK) = v"
proof -
  have "(0xfff :: u32) = mask 12" by (simp add: mask_eq_exp_minus_1)
  then have m: "INTEL_OFFMASK = NOT (0xFFFFF000 :: u32)" by (simp add: INTEL_OFFMASK_def page_mask)
  have "(v AND k) AND (v AND NOT k) = 0" for k :: u32
    by (rule bit_word_eqI) (auto simp: bit_and_iff bit_not_iff)
  then have "(v AND k) + (v AND NOT k) = (v AND k) OR (v AND NOT k)" for k
    by (rule disjunctive_add_eq_or)
  also have "(v AND k) OR (v AND NOT k) = v" for k
    by (rule bit_word_eqI) (auto simp: bit_and_iff bit_or_iff bit_not_iff)
  finally show ?thesis by (simp only: m)
qed

subsection \<open>Arrays of words\<close>

text \<open>The entry \<open>i\<close> of an array of words, and two entries that are apart.\<close>

lemma entry_apart:
  assumes "unat a + 4 * i + 4 \<le> unat b + 4 * j \<or> unat b + 4 * j + 4 \<le> unat a + 4 * i"
    "unat a + 4 * i + 4 \<le> 2 ^ 32" "unat b + 4 * j + 4 \<le> 2 ^ 32"
  shows "read32 (a + 4 * of_nat i) (write32 (b + 4 * of_nat j) w m) = read32 (a + 4 * of_nat i) m"
proof -
  let ?p = "unat a + 4 * i" and ?q = "unat b + 4 * j"
  have eq: "a + 4 * of_nat i - (b + 4 * of_nat j) = of_nat ?p - of_nat ?q" by simp
  have "4 \<le> unat (of_nat ?p - of_nat ?q :: u32)" "unat (of_nat ?p - of_nat ?q :: u32) \<le> 2 ^ 32 - 4"
    by (rule unat_diff_far [OF assms])+
  then show ?thesis by (intro read32_write32_other) (simp_all only: eq)
qed

lemma entry_same: "read32 (a + 4 * of_nat i) (write32 (a + 4 * of_nat i) w m) = w"
  by (rule read32_write32)

lemma fill_array:
  assumes "unat a + 4 * n \<le> 2 ^ 32" "e \<le> n"
  shows "(\<forall>j<n. read32 (a + 4 * of_nat j) (fold (\<lambda>i. write32 (a + 4 * of_nat i) (f i)) [s..<e] m) =
      (if s \<le> j \<and> j < e then f j else read32 (a + 4 * of_nat j) m)) \<and>
    (\<forall>b j. unat b + 4 * j + 4 \<le> 2 ^ 32 \<and> (unat b + 4 * j + 4 \<le> unat a \<or> unat a + 4 * n \<le> unat b + 4 * j) \<longrightarrow>
      read32 (b + 4 * of_nat j) (fold (\<lambda>i. write32 (a + 4 * of_nat i) (f i)) [s..<e] m) = read32 (b + 4 * of_nat j) m)"
  using assms(2)
proof (induction e)
  case 0
  then show ?case by auto
next
  case (Suc e)
  show ?case
  proof (cases "s \<le> e")
    case False
    then show ?thesis by auto
  next
    case True
    let ?m = "fold (\<lambda>i. write32 (a + 4 * of_nat i) (f i)) [s..<e] m"
    have eq: "fold (\<lambda>i. write32 (a + 4 * of_nat i) (f i)) [s..<Suc e] m = write32 (a + 4 * of_nat e) (f e) ?m"
      using True by simp
    have IH: "\<forall>j<n. read32 (a + 4 * of_nat j) ?m = (if s \<le> j \<and> j < e then f j else read32 (a + 4 * of_nat j) m)"
      "\<forall>b j. unat b + 4 * j + 4 \<le> 2 ^ 32 \<and> (unat b + 4 * j + 4 \<le> unat a \<or> unat a + 4 * n \<le> unat b + 4 * j) \<longrightarrow>
        read32 (b + 4 * of_nat j) ?m = read32 (b + 4 * of_nat j) m"
      using Suc by simp_all
    have "read32 (a + 4 * of_nat j) (write32 (a + 4 * of_nat e) (f e) ?m) =
      (if j = e then f e else read32 (a + 4 * of_nat j) ?m)" if "j < n" for j
    proof (cases "j = e")
      case False
      then have "unat a + 4 * j + 4 \<le> unat a + 4 * e \<or> unat a + 4 * e + 4 \<le> unat a + 4 * j" by linarith
      then show ?thesis using entry_apart [of a j a e] False that Suc.prems assms(1) by simp
    qed (simp add: entry_same)
    moreover have "read32 (b + 4 * of_nat j) (write32 (a + 4 * of_nat e) (f e) ?m) = read32 (b + 4 * of_nat j) ?m"
      if "unat b + 4 * j + 4 \<le> 2 ^ 32" "unat b + 4 * j + 4 \<le> unat a \<or> unat a + 4 * n \<le> unat b + 4 * j" for b j
    proof -
      have "unat b + 4 * j + 4 \<le> unat a + 4 * e \<or> unat a + 4 * e + 4 \<le> unat b + 4 * j"
        using that Suc.prems by linarith
      then show ?thesis using entry_apart [of b j a e] that Suc.prems assms(1) by simp
    qed
    ultimately show ?thesis unfolding eq using IH True by (auto simp: less_Suc_eq)
  qed
qed

subsection \<open>The tables\<close>

text \<open>
  The page directory at \<open>d\<close> and the 64 page tables from \<open>t\<close> on, which together are one array of
  65536 entries.
\<close>

definition placed :: "u32 \<Rightarrow> u32 \<Rightarrow> bool" where
  "placed d t \<longleftrightarrow> aligned d \<and> aligned t \<and> unat d + 4096 \<le> 2 ^ 32 \<and> unat t + 262144 \<le> 2 ^ 32 \<and>
     (unat d + 4096 \<le> unat t \<or> unat t + 262144 \<le> unat d)"

definition dir_ok :: "u32 \<Rightarrow> u32 \<Rightarrow> memory \<Rightarrow> bool" where
  "dir_ok d t m \<longleftrightarrow>
     (\<forall>k<1024. read32 (d + 4 * of_nat k) m = (if k < 64 then (t + of_nat k * 0x1000) OR PAGE_DIR_FLAGS else 0))"

definition entry :: "u32 \<Rightarrow> memory \<Rightarrow> nat \<Rightarrow> u32" where
  "entry t m p = read32 (t + 4 * of_nat p) m"

lemma low_flags: "\<forall>i\<ge>12. \<not> bit (3 :: u32) i" "\<forall>i\<ge>12. \<not> bit (1 :: u32) i"
proof -
  have "(3 :: u32) = mask 2" "(1 :: u32) = mask 1" by (simp_all add: mask_eq_exp_minus_1)
  moreover have "\<forall>i\<ge>12. \<not> bit (mask 2 :: u32) i" "\<forall>i\<ge>12. \<not> bit (mask 1 :: u32) i" by (simp_all only: bit_mask_iff) simp_all
  ultimately show "\<forall>i\<ge>12. \<not> bit (3 :: u32) i" "\<forall>i\<ge>12. \<not> bit (1 :: u32) i" by (simp_all only:)
qed

lemma table_aligned:
  assumes "placed d t" "k < 64"
  shows "aligned (t + of_nat k * 0x1000)" "unat (t + of_nat k * 0x1000) = unat t + 4096 * k"
proof -
  have "t + of_nat k * 0x1000 = of_nat (unat t + 4096 * k)" by (simp add: mult.commute)
  moreover have "unat (of_nat (unat t + 4096 * k) :: u32) = unat t + 4096 * k"
    by (rule unat_of_nat_u32) (use assms in \<open>auto simp: placed_def\<close>)
  ultimately show u: "unat (t + of_nat k * 0x1000) = unat t + 4096 * k" by (simp only:)
  show "aligned (t + of_nat k * 0x1000)" unfolding aligned_def u using assms(1) by (simp add: placed_def aligned_def)
qed

text \<open>The index of a page is the directory index and the table index together.\<close>

lemma index_split: "drop_bit 12 (v :: u32) = 1024 * drop_bit 22 v + (drop_bit 12 v AND 0x3FF)"
proof -
  have m: "(0x3FF :: u32) = mask 10" by (simp add: mask_eq_exp_minus_1)
  have "drop_bit 22 v = drop_bit 10 (drop_bit 12 v)" by (simp add: drop_bit_drop_bit)
  moreover have "push_bit 10 (drop_bit 10 (drop_bit 12 v)) + take_bit 10 (drop_bit 12 v) = drop_bit 12 v"
    by (rule bits_ident)
  ultimately show ?thesis
    by (simp only: m take_bit_eq_mask [symmetric] push_bit_eq_mult) (simp add: mult.commute)
qed

lemma index_small:
  assumes "unat v < 2 ^ 28"
  shows "unat (drop_bit 22 v) < 64" "unat (drop_bit 12 v) = unat v div 4096"
proof -
  have "unat (drop_bit n v) = unat v div 2 ^ n" for n by (simp only: drop_bit_eq_div [symmetric] unat_drop_bit_eq)
  from this [of 22] this [of 12] show "unat (drop_bit 22 v) < 64" "unat (drop_bit 12 v) = unat v div 4096"
    using assms by simp_all
qed

lemma table_entry:
  assumes "placed d t" "dir_ok d t m" "unat v < 2 ^ 28"
  shows "(read32 (d + 4 * drop_bit 22 v) m AND 0xFFFFF000) + 4 * (drop_bit 12 v AND 0x3FF) =
    t + 4 * of_nat (unat v div 4096)"
proof -
  define k where "k = unat (drop_bit 22 v)"
  have k: "k < 64" "drop_bit 22 v = of_nat k" using index_small(1) [OF assms(3)] by (simp_all add: k_def)
  have "read32 (d + 4 * drop_bit 22 v) m AND 0xFFFFF000 = t + of_nat k * 0x1000"
    using assms(2) k aligned_flags [OF table_aligned(1) [OF assms(1) k(1)] low_flags(1)]
    by (simp add: dir_ok_def PAGE_DIR_FLAGS_def)
  moreover have "of_nat (unat v div 4096) = 1024 * of_nat k + (drop_bit 12 v AND 0x3FF)"
  proof -
    have "of_nat (unat v div 4096) = drop_bit 12 v" by (simp add: index_small(2) [OF assms(3), symmetric])
    then show ?thesis using index_split [of v] k(2) by (simp only:)
  qed
  ultimately show ?thesis by (simp add: algebra_simps)
qed

subsection \<open>Mapping a region\<close>

text \<open>One page.\<close>

lemma map_page:
  fixes w :: u32
  assumes p: "placed d t" and dir: "dir_ok d t m" and v: "unat v < 2 ^ 28"
  defines "m' \<equiv> write32 ((read32 (d + 4 * drop_bit 22 v) m AND 0xFFFFF000) + 4 * (drop_bit 12 v AND 0x3FF)) w m"
  shows "dir_ok d t m'" "q < 65536 \<Longrightarrow> entry t m' q = (if q = unat v div 4096 then w else entry t m q)"
proof -
  let ?n = "unat v div 4096"
  have n: "?n < 65536" using v by simp
  have m': "m' = write32 (t + 4 * of_nat ?n) w m" unfolding m'_def table_entry [OF p dir v] ..
  have pl: "unat d + 4096 \<le> 2 ^ 32" "unat t + 262144 \<le> 2 ^ 32" "unat d + 4096 \<le> unat t \<or> unat t + 262144 \<le> unat d"
    using p by (simp_all add: placed_def)
  have "read32 (d + 4 * of_nat k) m' = read32 (d + 4 * of_nat k) m" if "k < 1024" for k
    unfolding m' by (rule entry_apart) (use pl n that in linarith)+
  then show "dir_ok d t m'" using dir by (simp add: dir_ok_def)
  show "entry t m' q = (if q = ?n then w else entry t m q)" if "q < 65536"
  proof (cases "q = ?n")
    case True
    then show ?thesis by (simp add: entry_def m' read32_write32)
  next
    case False
    then have "unat t + 4 * q + 4 \<le> unat t + 4 * ?n \<or> unat t + 4 * ?n + 4 \<le> unat t + 4 * q" by linarith
    then show ?thesis unfolding entry_def m' using False entry_apart [of t q t ?n w m] pl n that by simp
  qed
qed

text \<open>Nothing but the tables is written.\<close>

lemma write32_block:
  assumes "4 * q + 4 \<le> n" "n \<le> unat (a - t)"
  shows "write32 (t + 4 * of_nat q) w m a = m a"
proof (rule write32_outside)
  have u: "unat (of_nat (4 * q) :: u32) = 4 * q"
    by (rule unat_of_nat_u32) (use assms unat_less_u32 [of "a - t"] in linarith)
  then have "of_nat (4 * q) \<le> a - t" using assms by (simp add: word_le_nat_alt)
  then have "unat (a - t - of_nat (4 * q)) = unat (a - t) - 4 * q" using u by (simp add: unat_sub)
  moreover have "a - (t + 4 * of_nat q) = a - t - of_nat (4 * q)" by simp
  ultimately have "unat (a - (t + 4 * of_nat q)) = unat (a - t) - 4 * q" by (simp only:)
  then show "4 \<le> unat (a - (t + 4 * of_nat q))" using assms by linarith
qed

definition off_table :: "u32 \<Rightarrow> memory \<Rightarrow> memory \<Rightarrow> bool" where
  "off_table t m m' \<longleftrightarrow> (\<forall>a. 262144 \<le> unat (a - t) \<longrightarrow> m' a = m a)"

lemma off_table_refl [simp]: "off_table t m m"
  by (simp add: off_table_def)

lemma off_table_trans: "off_table t m m1 \<Longrightarrow> off_table t m1 m2 \<Longrightarrow> off_table t m m2"
  by (simp add: off_table_def)

lemma map_region_ok:
  assumes p: "placed d t" and dir: "dir_ok d t m" and al: "aligned st" "aligned en" and en: "unat en \<le> 2 ^ 28"
  shows "\<exists>m'. early_mm_map_region d st en flags m = ret m' \<and> dir_ok d t m' \<and> off_table t m m' \<and>
    (\<forall>q<65536. entry t m' q =
      (if unat st div 4096 \<le> q \<and> q < unat en div 4096 then of_nat (4096 * q) OR flags else entry t m q))"
  using dir al(1)
proof (induction "unat en - unat st" arbitrary: st m rule: less_induct)
  case less
  show ?case
  proof (cases "st < en")
    case False
    then have "unat en div 4096 \<le> unat st div 4096" by (simp add: word_less_nat_alt div_le_mono)
    then show ?thesis using False less.prems by (subst early_mm_map_region.simps) auto
  next
    case True
    then have lt: "unat st < unat en" by (simp add: word_less_nat_alt)
    then have v: "unat st < 2 ^ 28" using en by simp
    define m1 where "m1 = write32 ((read32 (d + 4 * drop_bit 22 st) m AND 0xFFFFF000) + 4 * (drop_bit 12 st AND 0x3FF))
      ((st AND 0xFFFFF000) OR flags) m"
    have run: "early_mm_map_region d st en flags m = early_mm_map_region d (st + 4096) en flags m1"
      using True by (subst early_mm_map_region.simps) (simp add: Let_def m1_def)
    have m1: "dir_ok d t m1"
      "\<And>q. q < 65536 \<Longrightarrow> entry t m1 q = (if q = unat st div 4096 then st OR flags else entry t m q)"
      using map_page [OF p less.prems(1) v, where w = "(st AND 0xFFFFF000) OR flags"] aligned_mask [OF less.prems(2)]
      by (simp_all add: m1_def)
    have off: "off_table t m m1"
      unfolding m1_def table_entry [OF p less.prems(1) v] off_table_def
      by (intro allI impI write32_block [of _ 262144]) (use v in simp_all)
    define a where "a = unat st div 4096"
    have a: "unat st = 4096 * a" using less.prems(2) by (auto simp: aligned_def a_def)
    define b where "b = unat en div 4096"
    have b: "unat en = 4096 * b" using al(2) by (auto simp: aligned_def b_def)
    have st1: "unat (st + 4096) = 4096 * (a + 1)"
    proof -
      have "st + 4096 = of_nat (unat st + 4096)" by simp
      moreover have "unat st + 4096 = 4096 * (a + 1)" using a by simp
      moreover have "unat (of_nat (4096 * (a + 1)) :: u32) = 4096 * (a + 1)"
        by (rule unat_of_nat_u32) (use v a in simp)
      ultimately show ?thesis by (simp only:)
    qed
    then have "aligned (st + 4096)" by (simp add: aligned_def)
    moreover have "unat en - unat (st + 4096) < unat en - unat st" using lt by (simp add: st1 a)
    ultimately obtain m' where m': "early_mm_map_region d (st + 4096) en flags m1 = ret m'" "dir_ok d t m'" "off_table t m1 m'"
      "\<forall>q<65536. entry t m' q =
        (if unat (st + 4096) div 4096 \<le> q \<and> q < b then of_nat (4096 * q) OR flags else entry t m1 q)"
      using less.hyps [of "st + 4096" m1] m1(1) unfolding b_def by blast
    have sd: "unat (st + 4096) div 4096 = a + 1" unfolding st1 by simp
    have sta: "of_nat (4096 * a) = st" by (simp only: a [symmetric]) simp
    have "a < b" using lt a b by simp
    then have "entry t m' q = (if a \<le> q \<and> q < b then of_nat (4096 * q) OR flags else entry t m q)" if "q < 65536" for q
      using m'(4) [unfolded sd] m1(2) [of q, folded a_def] sta that by (cases "q = a") auto
    then show ?thesis using run m'(1,2) off_table_trans [OF off m'(3)] unfolding a_def b_def by auto
  qed
qed

subsection \<open>The kernel's map\<close>

type_synonym region = "u32 \<times> u32 \<times> u32"

primrec map_regions :: "u32 \<Rightarrow> region list \<Rightarrow> memory \<Rightarrow> memory res" where
  "map_regions d [] m = ret m"
| "map_regions d (r # rs) m = (case r of (st, en, f) \<Rightarrow> bindr (early_mm_map_region d st en f m) (map_regions d rs))"

definition page_in :: "region \<Rightarrow> nat \<Rightarrow> bool" where
  "page_in r q \<longleftrightarrow> (case r of (st, en, f) \<Rightarrow> unat st div 4096 \<le> q \<and> q < unat en div 4096)"

text \<open>The flags of the last region that holds a page.\<close>

primrec page_flags :: "region list \<Rightarrow> nat \<Rightarrow> u32 option" where
  "page_flags [] q = None"
| "page_flags (r # rs) q =
     (case page_flags rs q of Some f \<Rightarrow> Some f | None \<Rightarrow> if page_in r q then Some (snd (snd r)) else None)"

definition region_ok :: "region \<Rightarrow> bool" where
  "region_ok r \<longleftrightarrow> (case r of (st, en, f) \<Rightarrow>
     aligned st \<and> aligned en \<and> unat en \<le> 2 ^ 28 \<and> (f = PAGE_TABLE_RO \<or> f = PAGE_TABLE_RW))"

lemma page_flags_None: "page_flags rs q = None \<longleftrightarrow> (\<forall>r\<in>set rs. \<not> page_in r q)"
  by (induction rs) (auto split: option.splits)

lemma page_flags_Some: "page_flags rs q = Some f \<Longrightarrow> \<exists>r\<in>set rs. page_in r q \<and> f = snd (snd r)"
  by (induction rs) (auto split: option.splits if_splits)

lemma map_regions_ok:
  assumes "placed d t" "dir_ok d t m" "\<forall>r\<in>set rs. region_ok r"
  shows "\<exists>m'. map_regions d rs m = ret m' \<and> dir_ok d t m' \<and> off_table t m m' \<and>
    (\<forall>q<65536. entry t m' q =
      (case page_flags rs q of None \<Rightarrow> entry t m q | Some f \<Rightarrow> of_nat (4096 * q) OR f))"
  using assms(2,3)
proof (induction rs arbitrary: m)
  case Nil
  then show ?case by simp
next
  case (Cons r rs)
  obtain st en f where r: "r = (st, en, f)" by (cases r) auto
  have ok: "aligned st" "aligned en" "unat en \<le> 2 ^ 28" using Cons.prems(2) by (auto simp: r region_ok_def)
  obtain m1 where m1: "early_mm_map_region d st en f m = ret m1" "dir_ok d t m1" "off_table t m m1"
    "\<forall>q<65536. entry t m1 q = (if page_in r q then of_nat (4096 * q) OR f else entry t m q)"
    using map_region_ok [OF assms(1) Cons.prems(1) ok, of f] unfolding page_in_def r by auto
  obtain m' where m': "map_regions d rs m1 = ret m'" "dir_ok d t m'" "off_table t m1 m'"
    "\<forall>q<65536. entry t m' q = (case page_flags rs q of None \<Rightarrow> entry t m1 q | Some f \<Rightarrow> of_nat (4096 * q) OR f)"
    using Cons.IH [OF m1(2)] Cons.prems(2) by auto
  have "map_regions d (r # rs) m = ret m'" using m1(1) m'(1) by (simp add: r)
  moreover have "entry t m' q = (case page_flags (r # rs) q of None \<Rightarrow> entry t m q | Some f \<Rightarrow> of_nat (4096 * q) OR f)"
    if "q < 65536" for q
    using m'(4) m1(4) that by (auto simp: r split: option.splits)
  ultimately show ?case using m'(2) off_table_trans [OF m1(3) m'(3)] by blast
qed

definition regions :: "symbols \<Rightarrow> region list" where
  "regions y =
     [(4096, sym_start y, PAGE_TABLE_RW), (sym_start y, text_start y, PAGE_TABLE_RW),
      (text_start y, text_end y, PAGE_TABLE_RO), (multiboot_start y, multiboot_end y, PAGE_TABLE_RO),
      (rodata_start y, rodata_end y, PAGE_TABLE_RO),
      (bootstrap_stack_start y, bootstrap_stack_end y, PAGE_TABLE_RW), (data_start y, data_end y, PAGE_TABLE_RW),
      (bss_start y, bss_end y, PAGE_TABLE_RW), (sym_end y, mem_end y, PAGE_TABLE_RW)]"

lemma clear_tables:
  fixes m :: memory
  assumes "placed d t"
  defines "m3 \<equiv> write32 t 0 (early_mm_fill_pgdir d t 64 (snd (memset t 0 (4096 * 64) m)))"
  shows "dir_ok d t m3" "q < 65536 \<Longrightarrow> entry t m3 q = 0"
proof -
  let ?m1 = "snd (memset t 0 (4096 * 64) m)" and ?f = "\<lambda>i. (t + of_nat i * 0x1000) OR PAGE_DIR_FLAGS"
  define m2 where "m2 = fold (\<lambda>i. write32 (d + 4 * of_nat i) (?f i)) [0..<64] ?m1"
  define m2' where "m2' = fold (\<lambda>i. write32 (d + 4 * of_nat i) ((\<lambda>_. 0) i)) [64..<1024] m2"
  have m3: "m3 = write32 (t + 4 * of_nat 0) 0 m2'"
    by (simp add: m3_def m2'_def m2_def early_mm_fill_pgdir_def)
  have pl: "unat d + 4096 \<le> 2 ^ 32" "unat t + 262144 \<le> 2 ^ 32" "unat d + 4096 \<le> unat t \<or> unat t + 262144 \<le> unat d"
    using assms(1) by (simp_all add: placed_def)
  then have dl: "unat d + 4 * 1024 \<le> 2 ^ 32" by simp
  have le: "(64 :: nat) \<le> 1024" "(1024 :: nat) \<le> 1024" by simp_all
  note f1 = fill_array [OF dl le(1), of ?f 0 ?m1, folded m2_def]
  note f2 = fill_array [OF dl le(2), of "\<lambda>_. 0" 64 m2, folded m2'_def]
  have dir: "read32 (d + 4 * of_nat k) m2' = (if k < 64 then ?f k else 0)" if "k < 1024" for k
    using f1 f2 that by simp
  have keep: "read32 (t + 4 * of_nat q) m2' = read32 (t + 4 * of_nat q) ?m1" if "q < 65536" for q
  proof -
    have "unat t + 4 * q + 4 \<le> 2 ^ 32 \<and> (unat t + 4 * q + 4 \<le> unat d \<or> unat d + 4 * 1024 \<le> unat t + 4 * q)"
      using pl that by linarith
    then show ?thesis using f1 [THEN conjunct2, rule_format, of t q] f2 [THEN conjunct2, rule_format, of t q] by simp
  qed
  have zero: "read32 (t + 4 * of_nat q) ?m1 = 0" if "q < 65536" for q
  proof -
    have m1: "?m1 = fill_block m t 262144 0" by (simp add: memset_fill)
    have "fill_block m t 262144 0 (t + 4 * of_nat q + of_nat i) = 0" if "i < 4" for i
    proof -
      have "t + 4 * of_nat q + of_nat i - t = of_nat (4 * q + i)" by simp
      moreover have "unat (of_nat (4 * q + i) :: u32) = 4 * q + i"
        by (rule unat_of_nat_u32) (use \<open>q < 65536\<close> that in simp)
      ultimately have "unat (t + 4 * of_nat q + of_nat i - t) = 4 * q + i" by (simp only:)
      then show ?thesis using \<open>q < 65536\<close> that by (simp add: fill_block_def)
    qed
    from this [of 0] this [of 1] this [of 2] this [of 3] show ?thesis unfolding m1 by (simp add: read32_def)
  qed
  have "read32 (d + 4 * of_nat k) m3 = read32 (d + 4 * of_nat k) m2'" if "k < 1024" for k
    unfolding m3 by (rule entry_apart) (use pl that in linarith)+
  then show "dir_ok d t m3" using dir by (simp add: dir_ok_def)
  show "entry t m3 q = 0" if "q < 65536"
  proof (cases "q = 0")
    case True
    then show ?thesis by (simp add: entry_def m3 read32_write32)
  next
    case False
    have "read32 (t + 4 * of_nat q) m3 = read32 (t + 4 * of_nat q) m2'"
      unfolding m3 by (rule entry_apart) (use pl that False in linarith)+
    then show ?thesis using keep zero that by (simp add: entry_def)
  qed
qed

lemma fill_off_array:
  assumes "e \<le> 1024" "4096 \<le> unat (a - d)"
  shows "fold (\<lambda>i. write32 (d + 4 * of_nat i) (f i)) [s..<e] m a = m a"
  using assms(1)
proof (induction e)
  case (Suc e)
  have "write32 (d + 4 * of_nat e) (f e) m' a = m' a" for m'
    by (rule write32_block [of _ 4096]) (use Suc.prems assms(2) in simp_all)
  then show ?case using Suc by (cases "s \<le> e") simp_all
qed simp

lemma clear_off_tables:
  assumes "4096 \<le> unat (a - d)" "262144 \<le> unat (a - t)"
  shows "write32 t 0 (early_mm_fill_pgdir d t 64 (snd (memset t 0 (4096 * 64) m))) a = m a"
proof -
  have "write32 (t + 4 * of_nat 0) 0 m' a = m' a" for m'
    by (rule write32_block [of _ 262144]) (use assms(2) in simp_all)
  moreover have "early_mm_fill_pgdir d t 64 m' a = m' a" for m'
  proof -
    have "(64 :: nat) \<le> 1024" "(1024 :: nat) \<le> 1024" by simp_all
    then show ?thesis by (simp only: early_mm_fill_pgdir_def fill_off_array [OF _ assms(1)])
  qed
  ultimately show ?thesis using assms(2) by (simp add: memset_fill fill_block_def)
qed

lemma bindr_ret_right: "bindr m ret = m"
  by (cases m rule: res_cases) simp_all

lemma map_kernel_ok:
  assumes p: "placed pgdir pgtab" and rs: "\<forall>r\<in>set (regions y). region_ok r"
  shows "\<exists>m'. early_mm_map_kernel pgdir pgtab y m = ret m' \<and> dir_ok pgdir pgtab m' \<and>
    (\<forall>a. 4096 \<le> unat (a - pgdir) \<and> 262144 \<le> unat (a - pgtab) \<longrightarrow> m' a = m a) \<and>
    (\<forall>q<65536. entry pgtab m' q =
      (case page_flags (regions y) q of None \<Rightarrow> 0 | Some f \<Rightarrow> of_nat (4096 * q) OR f))"
proof -
  let ?m3 = "write32 pgtab 0 (early_mm_fill_pgdir pgdir pgtab 64 (snd (memset pgtab 0 (4096 * 64) m)))"
  have unroll: "map_regions pgdir [] = ret"
    "map_regions pgdir ((st, en, f) # rs) =
      (\<lambda>m. bindr (early_mm_map_region pgdir st en f m) (map_regions pgdir rs))" for st en f rs
    by (simp_all add: fun_eq_iff)
  have run: "early_mm_map_kernel pgdir pgtab y m = map_regions pgdir (regions y) ?m3"
    by (simp only: early_mm_map_kernel_def Let_def regions_def unroll bindr_ret_right)
  obtain m' where "map_regions pgdir (regions y) ?m3 = ret m'" "dir_ok pgdir pgtab m'" "off_table pgtab ?m3 m'"
    "\<forall>q<65536. entry pgtab m' q =
      (case page_flags (regions y) q of None \<Rightarrow> entry pgtab ?m3 q | Some f \<Rightarrow> of_nat (4096 * q) OR f)"
    using map_regions_ok [OF p clear_tables(1) [OF p, of m] rs] by blast
  then show ?thesis using run clear_tables(2) [OF p, of _ m] clear_off_tables [of _ pgdir pgtab m]
    unfolding off_table_def by (auto split: option.splits)
qed

subsection \<open>Translation\<close>

lemma aligned_bit_zero:
  assumes "aligned w"
  shows "(w OR 3) AND 1 = 1" "(w OR 3) AND 0x80 = 0" "(w OR 1) AND 1 = 1"
proof -
  have low: "(w OR f) AND g = f AND g" if "g AND mask 12 = g" for f g
  proof -
    have "(w OR f) AND g = ((w OR f) AND mask 12) AND g" using that by (metis and.assoc and.commute)
    also have "\<dots> = f AND g" unfolding aligned_low [OF assms] using that by (metis and.assoc and.commute)
    finally show ?thesis .
  qed
  have g: "(1 :: u32) AND mask 12 = 1" "(0x80 :: u32) AND mask 12 = 0x80" by (simp_all add: mask_eq_exp_minus_1)
  show "(w OR 3) AND 1 = 1" "(w OR 3) AND 0x80 = 0" "(w OR 1) AND 1 = 1"
    using low [OF g(1), of 3] low [OF g(2), of 3] low [OF g(1), of 1] by simp_all
qed

lemma dir_index: "unat (lin2pdenum v) < 1024" "lin2pdenum v = drop_bit 22 v"
proof -
  have m: "(0x3FF :: u32) = mask 10" by (simp add: mask_eq_exp_minus_1)
  have u: "unat (drop_bit 22 v) < 1024"
  proof -
    have "unat (drop_bit 22 v) = unat v div 2 ^ 22" by (simp only: drop_bit_eq_div [symmetric] unat_drop_bit_eq)
    then show ?thesis using unat_less_u32 [of v] by simp
  qed
  then have "take_bit 10 (unat (drop_bit 22 v)) = unat (drop_bit 22 v)" by (intro take_bit_nat_eq_self) simp
  then have "unat (take_bit 10 (drop_bit 22 v)) = unat (drop_bit 22 v)" by (simp only: unsigned_take_bit_eq)
  then have "take_bit 10 (drop_bit 22 v) = drop_bit 22 v" by (simp only: word_unat_eq_iff)
  then show eq: "lin2pdenum v = drop_bit 22 v" by (simp only: lin2pdenum_def m take_bit_eq_mask)
  show "unat (lin2pdenum v) < 1024" using u by (simp only: eq)
qed

lemma lookup_entry:
  assumes p: "placed d t" and dir: "dir_ok d t m" and pg: "cr0 AND 0x80000000 \<noteq> 0" and cr3: "pde_to_pa cr3 = d"
  shows "phys_addr_lookup cr0 cr3 m v pa =
    (if unat v < 2 ^ 28 \<and> entry t m (unat v div 4096) AND 1 \<noteq> 0
     then ((entry t m (unat v div 4096) AND 0xfffff000) + (v AND INTEL_OFFMASK), INTEL_OFFMASK + 1 - (v AND INTEL_OFFMASK))
     else (pa, 0))"
proof -
  define k where "k = unat (lin2pdenum v)"
  have k: "k < 1024" "lin2pdenum v = of_nat k" using dir_index(1) [of v] by (simp_all add: k_def)
  have pde: "read32 (d + 4 * lin2pdenum v) m = (if k < 64 then (t + of_nat k * 0x1000) OR 3 else 0)"
    using dir k by (simp add: dir_ok_def PAGE_DIR_FLAGS_def)
  have kv: "k = unat v div 2 ^ 22"
    unfolding k_def dir_index(2) by (simp only: drop_bit_eq_div [symmetric] unat_drop_bit_eq)
  have k64: "k < 64 \<longleftrightarrow> unat v < 2 ^ 28" unfolding kv by (simp add: div_less_iff_less_mult)
  show ?thesis
  proof (cases "unat v < 2 ^ 28")
    case False
    then show ?thesis using pg k64 by (simp add: phys_addr_lookup_def Let_def cr3 pde)
  next
    case True
    then have "k < 64" using k64 by simp
    note al = table_aligned(1) [OF p this]
    have te: "pde_to_pa ((t + of_nat k * 0x1000) OR 3) + 4 * lin2ptenum v = t + 4 * of_nat (unat v div 4096)"
      using table_entry [OF p dir True] pde \<open>k < 64\<close> by (simp add: pde_to_pa_def lin2ptenum_def dir_index(2))
    show ?thesis
      using True \<open>k < 64\<close> pg aligned_bit_zero [OF al]
      by (simp add: phys_addr_lookup_def Let_def cr3 pde te entry_def)
  qed
qed

lemma page_word:
  fixes v :: u32
  shows "unat (v AND 0xFFFFF000) = 4096 * (unat v div 4096)"
proof -
  have "v AND 0xFFFFF000 = push_bit 12 (drop_bit 12 v)"
    unfolding page_mask
    by (rule bit_word_eqI, simp only: bit_and_iff bit_not_iff bit_mask_iff bit_push_bit_iff bit_drop_bit_eq o_apply) auto
  moreover have "unat (push_bit 12 (drop_bit 12 v)) = 4096 * (unat v div 4096)"
  proof -
    have "4096 * (unat v div 4096) < 2 ^ 32" using unat_less_u32 [of v] by (meson le_less_trans times_div_less_eq_dividend)
    moreover have "unat (drop_bit 12 v) = unat v div 4096"
    proof -
      have "unat (drop_bit 12 v) = unat v div 2 ^ 12" by (simp only: drop_bit_eq_div [symmetric] unat_drop_bit_eq)
      then show ?thesis by simp
    qed
    ultimately show ?thesis
      unfolding unsigned_push_bit_eq by (simp add: push_bit_eq_mult take_bit_nat_eq_self mult.commute)
  qed
  ultimately show ?thesis by (simp only:)
qed

lemma page_aligned: "aligned (v AND 0xFFFFF000)" "of_nat (4096 * (unat v div 4096)) = v AND 0xFFFFF000"
proof -
  show "aligned (v AND 0xFFFFF000)" by (simp add: aligned_def page_word)
  show "of_nat (4096 * (unat v div 4096)) = v AND 0xFFFFF000" by (simp only: page_word [symmetric]) simp
qed

text \<open>An address that lies in one of the regions.\<close>

definition mapped :: "symbols \<Rightarrow> u32 \<Rightarrow> bool" where
  "mapped y v \<longleftrightarrow> (\<exists>(st, en, f) \<in> set (regions y). st \<le> v \<and> v < en)"

lemma page_in_mapped:
  assumes "region_ok (st, en, f)"
  shows "page_in (st, en, f) (unat v div 4096) \<longleftrightarrow> st \<le> v \<and> v < en"
proof -
  obtain a b where ab: "unat st = 4096 * a" "unat en = 4096 * b"
    using assms by (auto simp: region_ok_def aligned_def mod_eq_0_iff_dvd elim!: dvdE)
  have "4096 * a \<le> unat v \<longleftrightarrow> a \<le> unat v div 4096" by (simp add: less_eq_div_iff_mult_less_eq mult.commute)
  moreover have "unat v < 4096 * b \<longleftrightarrow> unat v div 4096 < b" by (simp add: div_less_iff_less_mult mult.commute)
  ultimately show ?thesis using ab by (simp add: page_in_def word_le_nat_alt word_less_nat_alt)
qed

lemma mapped_flags:
  assumes "\<forall>r\<in>set (regions y). region_ok r"
  shows "mapped y v \<longleftrightarrow> page_flags (regions y) (unat v div 4096) \<noteq> None" "mapped y v \<Longrightarrow> unat v < 2 ^ 28"
proof -
  show "mapped y v \<longleftrightarrow> page_flags (regions y) (unat v div 4096) \<noteq> None"
    unfolding page_flags_None mapped_def using assms page_in_mapped by fastforce
  assume "mapped y v"
  then obtain st en f where "(st, en, f) \<in> set (regions y)" "v < en" unfolding mapped_def by blast
  then show "unat v < 2 ^ 28" using assms by (force simp: region_ok_def word_less_nat_alt)
qed

lemma map_kernel_lookup:
  assumes p: "placed pgdir pgtab" and rs: "\<forall>r\<in>set (regions y). region_ok r"
    and pg: "cr0 AND 0x80000000 \<noteq> 0" and cr3: "pde_to_pa cr3 = pgdir"
  shows "\<exists>m'. early_mm_map_kernel pgdir pgtab y m = ret m' \<and>
    (\<forall>v pa. phys_addr_lookup cr0 cr3 m' v pa =
      (if mapped y v then (v, 4096 - (v AND INTEL_OFFMASK)) else (pa, 0)))"
proof -
  obtain m' where m': "early_mm_map_kernel pgdir pgtab y m = ret m'" "dir_ok pgdir pgtab m'"
    "\<forall>q<65536. entry pgtab m' q =
      (case page_flags (regions y) q of None \<Rightarrow> 0 | Some f \<Rightarrow> of_nat (4096 * q) OR f)"
    using map_kernel_ok [OF p rs] by blast
  have "phys_addr_lookup cr0 cr3 m' v pa = (if mapped y v then (v, 4096 - (v AND INTEL_OFFMASK)) else (pa, 0))" for v pa
  proof (cases "unat v < 2 ^ 28")
    case False
    then show ?thesis using lookup_entry [OF p m'(2) pg cr3] mapped_flags(2) [OF rs, of v] by auto
  next
    case True
    then have q: "unat v div 4096 < 65536" by simp
    show ?thesis
    proof (cases "page_flags (regions y) (unat v div 4096)")
      case None
      then show ?thesis using lookup_entry [OF p m'(2) pg cr3] mapped_flags(1) [OF rs, of v] m'(3) q by simp
    next
      case (Some f)
      then have m: "mapped y v" using mapped_flags(1) [OF rs] by simp
      have "f = 1 \<or> f = 3"
        using page_flags_Some [OF Some] rs by (force simp: region_ok_def PAGE_TABLE_RO_def PAGE_TABLE_RW_def)
      moreover have e: "entry pgtab m' (unat v div 4096) = (v AND 0xFFFFF000) OR f"
        using m'(3) q Some by (simp add: page_aligned(2) del: of_nat_mult)
      ultimately have "entry pgtab m' (unat v div 4096) AND 1 \<noteq> 0"
        "entry pgtab m' (unat v div 4096) AND 0xFFFFF000 = v AND 0xFFFFF000"
        using aligned_bit_zero [OF page_aligned(1), of v] aligned_flags [OF page_aligned(1), of _ v] low_flags by auto
      then have "phys_addr_lookup cr0 cr3 m' v pa =
        ((v AND 0xFFFFF000) + (v AND INTEL_OFFMASK), INTEL_OFFMASK + 1 - (v AND INTEL_OFFMASK))"
        using lookup_entry [OF p m'(2) pg cr3] True by simp
      then show ?thesis using m by (simp only: page_offset) (simp add: INTEL_OFFMASK_def)
    qed
  qed
  then show ?thesis using m'(1) by blast
qed

end
