(* ===== verification/Descriptors.thy ===== *)
theory Descriptors
  imports Prelude
begin

text \<open>
  The segments and the exception gates of kernel/boot/processor\_structs.c. The tables are
  functions of the index; the addresses of the tables, of the stacks and of the page directory are
  those of the linker, a record. What \<open>lgdt\<close>, \<open>lidt\<close>, \<open>lldt\<close>, \<open>ltr\<close> and the moves to the segment
  registers load is in the state.
\<close>

definition BASE_TSS :: u32 where "BASE_TSS = 0x08"
definition KERNEL_DS :: u32 where "KERNEL_DS = 0x18"
definition USER_CS :: u32 where "USER_CS = 0x43"
definition USER_DS :: u32 where "USER_DS = 0x4b"
definition TRAP_TSS_BASE :: u32 where "TRAP_TSS_BASE = 0x50"

definition SZ_32 :: u32 where "SZ_32 = 0x4"
definition SZ_G :: u32 where "SZ_G = 0x8"
definition ACC_TASK_GATE :: u32 where "ACC_TASK_GATE = 0x05"
definition ACC_TSS :: u32 where "ACC_TSS = 0x09"
definition ACC_DATA_W :: u32 where "ACC_DATA_W = 0x12"
definition ACC_CODE_R :: u32 where "ACC_CODE_R = 0x1a"
definition ACC_PL_K :: u32 where "ACC_PL_K = 0x00"
definition ACC_PL_U :: u32 where "ACC_PL_U = 0x60"
definition ACC_P :: u32 where "ACC_P = 0x80"

subsection \<open>Descriptors\<close>

definition fill_descriptor :: "u32 \<Rightarrow> u32 \<Rightarrow> u32 \<Rightarrow> u32 \<Rightarrow> u64" where
  "fill_descriptor addr limit access sizebits =
     (let base = addr;
          (limit1, sizebits1) = (if limit > 0xfffff then (drop_bit 12 limit, sizebits OR SZ_G) else (limit, sizebits));
          p0 = (limit1 AND 0xffff) + push_bit 16 (base AND 0xffff);
          p1 = drop_bit 16 base AND 0xff;
          p1 = p1 OR push_bit 8 ((access OR ACC_P) AND 0xff);
          p1 = p1 OR (limit1 AND 0xf0000);
          p1 = p1 OR push_bit 20 (sizebits1 AND 0xf);
          p1 = p1 OR (base AND 0xff000000)
      in push_bit 32 (ucast p1) OR ucast p0)"

text \<open>\<open>access\<close> and \<open>word_count\<close> are bytes, \<open>selector\<close> has 16 bits, shifted as a signed \<open>int\<close>.\<close>

definition fill_gate :: "u32 \<Rightarrow> u16 \<Rightarrow> u8 \<Rightarrow> u8 \<Rightarrow> u64" where
  "fill_gate offset selector access word_count =
     (let p0 = offset AND 0xffff;
          p0 = p0 OR push_bit 16 (ucast selector);
          p1 = ucast word_count AND 0xf :: u32;
          p1 = p1 OR push_bit 8 (ucast access OR ACC_P);
          p1 = p1 OR (offset AND 0xffff0000)
      in push_bit 32 (ucast p1) OR ucast p0)"

subsection \<open>State\<close>

record x86_tss =
  back_link :: u32
  esp0 :: u32
  ss0 :: u32
  esp1 :: u32
  ss1 :: u32
  esp2 :: u32
  ss2 :: u32
  tss_cr3 :: u32
  eip :: u32
  eflags :: u32
  eax :: u32
  ecx :: u32
  edx :: u32
  ebx :: u32
  esp :: u32
  ebp :: u32
  esi :: u32
  edi :: u32
  tss_es :: u32
  tss_cs :: u32
  tss_ss :: u32
  tss_ds :: u32
  tss_fs :: u32
  tss_gs :: u32
  ldt :: u32
  trace_trap :: u16
  io_bit_map_offset :: u16

definition sizeof_tss :: u32 where "sizeof_tss = 104"
definition HANDLER_ENTRIES :: nat where "HANDLER_ENTRIES = 32"

definition zero_tss :: x86_tss where
  "zero_tss = \<lparr>back_link = 0, esp0 = 0, ss0 = 0, esp1 = 0, ss1 = 0, esp2 = 0, ss2 = 0, tss_cr3 = 0, eip = 0,
     eflags = 0, eax = 0, ecx = 0, edx = 0, ebx = 0, esp = 0, ebp = 0, esi = 0, edi = 0, tss_es = 0, tss_cs = 0,
     tss_ss = 0, tss_ds = 0, tss_fs = 0, tss_gs = 0, ldt = 0, trace_trap = 0, io_bit_map_offset = 0\<rparr>"

record linker =
  gdt_addr :: u32
  idt_addr :: u32
  tss_addr :: u32
  trap_tss_addr :: u32
  trap_stack_end :: u32
  first_stack_end :: u32
  pgdir_addr :: u32
  exception_handler_tasks :: "nat \<Rightarrow> u32"

record cpu =
  gdt :: "nat \<Rightarrow> u64"
  idt :: "nat \<Rightarrow> u64"
  tss :: x86_tss
  trap_tss :: "nat \<Rightarrow> x86_tss"
  gdtr :: "u16 \<times> u32"
  idtr :: "u16 \<times> u32"
  ldtr :: u16
  tr :: u16
  seg_cs :: u32
  seg_ds :: u32
  seg_es :: u32
  seg_fs :: u32
  seg_gs :: u32
  seg_ss :: u32
  cpu_outs :: "(u8 \<times> u16) list"

subsection \<open>Initialisation\<close>

definition setup_gdt :: "linker \<Rightarrow> cpu \<Rightarrow> cpu" where
  "setup_gdt y c =
     (let g0 = (\<lambda>_. 0);
          g1 = g0(unat (BASE_TSS div 8) := fill_descriptor (tss_addr y) (sizeof_tss - 1) (ACC_PL_K OR ACC_TSS OR ACC_P) 0);
          g2 = g1(unat (KERNEL_CS div 8) := fill_descriptor 0 0xffffffff (ACC_PL_K OR ACC_CODE_R) SZ_32);
          g3 = g2(unat (KERNEL_DS div 8) := fill_descriptor 0 0xffffffff (ACC_PL_K OR ACC_DATA_W) SZ_32);
          g4 = g3(unat (USER_CS div 8) := fill_descriptor 0 0xffffffff (ACC_PL_U OR ACC_CODE_R) SZ_32);
          g5 = g4(unat (USER_DS div 8) := fill_descriptor 0 0xffffffff (ACC_PL_U OR ACC_DATA_W) SZ_32);
          g6 = fold (\<lambda>i g. g(i + unat (TRAP_TSS_BASE div 8) :=
                 fill_descriptor (trap_tss_addr y + of_nat i * sizeof_tss) (sizeof_tss - 1)
                   (ACC_PL_K OR ACC_TSS OR ACC_P) 0)) [0..<HANDLER_ENTRIES] g5
      in c\<lparr>gdt := g6, gdtr := (65535, gdt_addr y), ldtr := 0, seg_cs := KERNEL_CS, seg_ds := KERNEL_DS,
           seg_es := KERNEL_DS, seg_fs := 0, seg_gs := 0, seg_ss := KERNEL_DS\<rparr>)"

definition setup_trap :: "linker \<Rightarrow> nat \<Rightarrow> cpu \<Rightarrow> cpu" where
  "setup_trap y i c =
     (let ts = (trap_tss c i)\<lparr>ss0 := KERNEL_DS, esp0 := trap_stack_end y, tss_ss := KERNEL_DS,
                 esp := trap_stack_end y, io_bit_map_offset := ucast sizeof_tss, tss_cs := KERNEL_CS,
                 eip := exception_handler_tasks y i, tss_ds := KERNEL_DS, tss_es := KERNEL_DS, tss_fs := 0,
                 tss_gs := 0, eflags := 2, trace_trap := 0, tss_cr3 := pgdir_addr y\<rparr>;
          access = ACC_TASK_GATE + (if i = 3 then 0x60 else 0)
      in c\<lparr>trap_tss := (trap_tss c)(i := ts),
           idt := (idt c)(i := fill_gate 0 (ucast (TRAP_TSS_BASE + 8 * of_nat i)) (ucast access) 0)\<rparr>)"

definition setup_idt :: "linker \<Rightarrow> cpu \<Rightarrow> cpu" where
  "setup_idt y c =
     (fold (setup_trap y) [0..<HANDLER_ENTRIES] (c\<lparr>idt := (\<lambda>_. 0)\<rparr>))\<lparr>idtr := (2047, idt_addr y)\<rparr>"

definition setup_tss :: "linker \<Rightarrow> cpu \<Rightarrow> cpu" where
  "setup_tss y c =
     c\<lparr>tss := zero_tss\<lparr>ss0 := KERNEL_DS, esp0 := first_stack_end y, io_bit_map_offset := ucast sizeof_tss,
         tss_cr3 := pgdir_addr y\<rparr>, tr := ucast BASE_TSS\<rparr>"

definition setup_pic :: "cpu \<Rightarrow> cpu" where
  "setup_pic c =
     c\<lparr>cpu_outs := cpu_outs c @
        [(0x11, 0x20), (0x20, 0x21), (0x4, 0x21), (0x1, 0x21), (0x11, 0xa0), (0x28, 0xa1), (0x2, 0xa1), (0x1, 0xa1),
         (0x20, 0x20), (0x20, 0xa0), (0xff, 0x21), (0xff, 0xa1)]\<rparr>"

definition cpu_init :: "linker \<Rightarrow> cpu \<Rightarrow> cpu" where
  "cpu_init y c = setup_pic (setup_tss y (setup_idt y (setup_gdt y c)))"

subsection \<open>What the processor reads\<close>

definition field :: "u64 \<Rightarrow> nat \<Rightarrow> nat \<Rightarrow> u32" where
  "field e lo n = ucast (take_bit n (drop_bit lo e))"

definition desc_base :: "u64 \<Rightarrow> u32" where
  "desc_base e = field e 16 24 OR push_bit 24 (field e 56 8)"

definition desc_limit :: "u64 \<Rightarrow> u32" where
  "desc_limit e =
     (let l = field e 0 16 OR push_bit 16 (field e 48 4)
      in if bit e 55 then push_bit 12 l OR 0xfff else l)"

definition desc_access :: "u64 \<Rightarrow> u32" where "desc_access e = field e 40 8"
definition gate_sel :: "u64 \<Rightarrow> u32" where "gate_sel e = field e 16 16"

end
