(* ===== verification/Descriptors_Ok.thy ===== *)
theory Descriptors_Ok
  imports Descriptors
begin

text \<open>
  The descriptors are decoded as the processor does, and give back what they were made of; the
  gates of the exceptions lead through the task segments to the handlers.
\<close>

subsection \<open>The bits of a descriptor\<close>

lemma masks:
  "(0xff :: u32) = mask 8" "(0xffff :: u32) = mask 16" "(0xf :: u32) = mask 4"
  "(0xf0000 :: u32) = push_bit 16 (mask 4)" "(0xff000000 :: u32) = push_bit 24 (mask 8)"
  "(0xffff0000 :: u32) = push_bit 16 (mask 16)"
  by (simp_all add: mask_eq_exp_minus_1)

lemma bit_halves:
  "i < 64 \<Longrightarrow> bit (push_bit 32 (ucast (p1 :: u32)) OR ucast (p0 :: u32) :: u64) i = (if i < 32 then bit p0 i else bit p1 (i - 32))"
  using bit_imp_le_length [of p0 i] by (auto simp: bit_or_iff bit_push_bit_iff bit_unsigned_iff)

definition granular :: "u32 \<Rightarrow> u32" where
  "granular limit = (if limit > 0xfffff then drop_bit 12 limit else limit)"

lemma low_word:
  "(l AND mask 16) + push_bit 16 (a AND mask 16) = (l AND mask 16) OR push_bit 16 (a AND mask 16)" for l a :: u32
proof -
  have "(l AND mask 16) AND push_bit 16 (a AND mask 16) = 0"
    by (rule bit_word_eqI) (simp only: bit_and_iff bit_push_bit_iff bit_mask_iff, simp)
  then show ?thesis by (rule disjunctive_add_eq_or)
qed

lemma descriptor_bits:
  assumes "i < 64"
  shows "bit (fill_descriptor a limit acc sz) i \<longleftrightarrow>
    (if i < 16 then bit (granular limit) i
     else if i < 32 then bit a (i - 16)
     else if i < 40 then bit a (i - 16)
     else if i < 48 then i = 47 \<or> bit acc (i - 40)
     else if i < 52 then bit (granular limit) (i - 32)
     else if i < 56 then i = 55 \<and> limit > 0xfffff \<or> bit sz (i - 52)
     else bit a (i - 32))"
proof -
  let ?l = "granular limit" and ?sz = "if limit > 0xfffff then sz OR SZ_G else sz"
  let ?p0 = "(?l AND mask 16) OR push_bit 16 (a AND mask 16)"
  let ?p1 = "(drop_bit 16 a AND mask 8) OR push_bit 8 ((acc OR ACC_P) AND mask 8) OR (?l AND push_bit 16 (mask 4)) OR
    push_bit 20 (?sz AND mask 4) OR (a AND push_bit 24 (mask 8))"
  have eq: "fill_descriptor a limit acc sz = push_bit 32 (ucast ?p1) OR ucast ?p0"
    by (cases "limit > 0xfffff")
      (simp_all only: fill_descriptor_def Let_def granular_def if_True if_False prod.case masks low_word or.assoc simp_thms)
  have P: "bit ACC_P j \<longleftrightarrow> j = 7" for j
  proof -
    have e: "ACC_P = push_bit 7 1" by (simp add: ACC_P_def)
    show ?thesis unfolding e bit_push_bit_iff bit_1_iff by auto
  qed
  have G: "bit SZ_G j \<longleftrightarrow> j = 3" for j
  proof -
    have e: "SZ_G = push_bit 3 1" by (simp add: SZ_G_def)
    show ?thesis unfolding e bit_push_bit_iff bit_1_iff by auto
  qed
  have p0: "bit ?p0 j = (if j < 16 then bit ?l j else bit a (j - 16))" if "j < 32" for j
    using that by (simp only: bit_or_iff bit_and_iff bit_push_bit_iff bit_mask_iff) auto
  have p1: "bit ?p1 j =
    (if j < 8 then bit a (16 + j) else if j < 16 then j = 15 \<or> bit acc (j - 8) else if j < 20 then bit ?l j
     else if j < 24 then j = 23 \<and> limit > 0xfffff \<or> bit sz (j - 20) else bit a j)" if "j < 32" for j
  proof -
    consider "j < 8" | "8 \<le> j" "j < 16" | "16 \<le> j" "j < 20" | "20 \<le> j" "j < 24" | "24 \<le> j" using that by linarith
    then show ?thesis
      using that by cases (simp_all only: bit_or_iff bit_and_iff bit_push_bit_iff bit_mask_iff bit_drop_bit_eq P, auto simp: G bit_or_iff)
  qed
  show ?thesis unfolding eq bit_halves [OF assms]
    using assms p0 [of i] p1 [of "i - 32"] by auto
qed

subsection \<open>Decoding\<close>

lemma field_bit: "n \<le> 32 \<Longrightarrow> bit (field e lo n) i \<longleftrightarrow> i < n \<and> bit e (lo + i)"
  by (auto simp: field_def bit_unsigned_iff bit_take_bit_iff bit_drop_bit_eq)

lemma decode_base: "desc_base (fill_descriptor a limit acc sz) = a"
proof (rule bit_word_eqI)
  fix i assume "i < LENGTH(32)"
  then have i: "i < 32" by simp
  consider "i < 16" | "16 \<le> i" "i < 24" | "24 \<le> i" by linarith
  then show "bit (desc_base (fill_descriptor a limit acc sz)) i = bit a i"
    using i by cases (auto simp: desc_base_def bit_or_iff bit_push_bit_iff field_bit descriptor_bits)
qed

lemma granular_bit: "bit (granular limit) i \<Longrightarrow> i < 20"
proof -
  assume b: "bit (granular limit) i"
  show "i < 20"
  proof (cases "limit > 0xfffff")
    case True
    then have "bit limit (12 + i)" using b by (simp add: granular_def bit_drop_bit_eq)
    from bit_imp_le_length [OF this] show ?thesis by simp
  next
    case False
    then have "limit \<le> 0xfffff" by simp
    then have "unat limit < 2 ^ 20" by (simp add: word_le_nat_alt)
    then have "take_bit 20 (unat limit) = unat limit" by (rule take_bit_nat_eq_self)
    then have "take_bit 20 limit = limit" by (metis unsigned_take_bit_eq word_unat_eq_iff)
    moreover have "bit limit i" using b False by (simp add: granular_def)
    ultimately show ?thesis by (metis bit_take_bit_iff)
  qed
qed

lemma decode_limit:
  assumes "\<not> bit sz 3"
  shows "desc_limit (fill_descriptor a limit acc sz) = (if limit > 0xfffff then limit OR 0xfff else limit)"
proof -
  let ?e = "fill_descriptor a limit acc sz"
  have l: "field ?e 0 16 OR push_bit 16 (field ?e 48 4) = granular limit"
  proof (rule bit_word_eqI)
    fix i assume "i < LENGTH(32)"
    then have i: "i < 32" by simp
    consider "i < 16" | "16 \<le> i" "i < 20" | "20 \<le> i" by linarith
    then show "bit (field ?e 0 16 OR push_bit 16 (field ?e 48 4)) i = bit (granular limit) i"
      using i granular_bit [of limit i] by cases (auto simp: bit_or_iff bit_push_bit_iff field_bit descriptor_bits)
  qed
  have g: "bit ?e 55 \<longleftrightarrow> limit > 0xfffff" using assms by (simp add: descriptor_bits)
  have "push_bit 12 (drop_bit 12 limit) OR mask 12 = limit OR mask 12"
    by (rule bit_word_eqI) (auto simp: bit_or_iff bit_push_bit_iff bit_drop_bit_eq bit_mask_iff)
  moreover have "(0xfff :: u32) = mask 12" by (simp add: mask_eq_exp_minus_1)
  ultimately have "push_bit 12 (drop_bit 12 limit) OR 0xfff = limit OR 0xfff" by (simp only:)
  then show ?thesis unfolding desc_limit_def Let_def l g
    by (cases "limit > 0xfffff") (simp_all only: granular_def if_True if_False)
qed

lemma decode_access: "desc_access (fill_descriptor a limit acc sz) = (acc OR ACC_P) AND 0xff"
proof -
  have P: "bit ACC_P i \<longleftrightarrow> i = 7" for i
  proof -
    have e: "ACC_P = push_bit 7 1" by (simp add: ACC_P_def)
    show ?thesis unfolding e bit_push_bit_iff bit_1_iff by auto
  qed
  show ?thesis unfolding masks(1) desc_access_def
    by (rule bit_word_eqI) (auto simp: field_bit descriptor_bits bit_and_iff bit_or_iff bit_mask_iff P)
qed

subsection \<open>The tables\<close>

text \<open>A segment, as it is found in the table of descriptors.\<close>

definition segment :: "(nat \<Rightarrow> u64) \<Rightarrow> u32 \<Rightarrow> u32 \<times> u32 \<times> u32" where
  "segment g sel = (let e = g (unat (sel div 8)) in (desc_base e, desc_limit e, desc_access e))"

lemma trap_fold:
  "fold (\<lambda>i g. g(i + k := f i)) [0..<n] g j = (if k \<le> j \<and> j < n + k then f (j - k) else g j)"
  by (induction n) auto

lemma trap_selector: "i < 32 \<Longrightarrow> unat ((TRAP_TSS_BASE + 8 * of_nat i) div 8) = i + 10"
proof -
  assume i: "i < 32"
  have eq: "TRAP_TSS_BASE + 8 * of_nat i = (of_nat (80 + 8 * i) :: u32)" by (simp add: TRAP_TSS_BASE_def)
  have "unat (of_nat (80 + 8 * i) :: u32) = 80 + 8 * i" by (rule unat_of_nat_u32) (use i in simp)
  then have "unat (TRAP_TSS_BASE + 8 * of_nat i) = 80 + 8 * i" by (simp only: eq)
  then show ?thesis by (simp add: unat_div_distrib)
qed

lemma gdt_entries:
  "gdt (setup_gdt y c) 0 = 0"
  "gdt (setup_gdt y c) 1 = fill_descriptor (tss_addr y) 103 0x89 0"
  "gdt (setup_gdt y c) 2 = fill_descriptor 0 0xffffffff 0x1a SZ_32"
  "gdt (setup_gdt y c) 3 = fill_descriptor 0 0xffffffff 0x12 SZ_32"
  "gdt (setup_gdt y c) 8 = fill_descriptor 0 0xffffffff 0x7a SZ_32"
  "gdt (setup_gdt y c) 9 = fill_descriptor 0 0xffffffff 0x72 SZ_32"
  "i < 32 \<Longrightarrow> gdt (setup_gdt y c) (i + 10) = fill_descriptor (trap_tss_addr y + of_nat i * 104) 103 0x89 0"
  by (simp_all add: setup_gdt_def Let_def BASE_TSS_def KERNEL_CS_def KERNEL_DS_def USER_CS_def USER_DS_def
      TRAP_TSS_BASE_def sizeof_tss_def ACC_PL_K_def ACC_PL_U_def ACC_TSS_def ACC_P_def ACC_CODE_R_def ACC_DATA_W_def
      HANDLER_ENTRIES_def trap_fold unat_div_distrib)

lemma sz_bits: "\<not> bit SZ_32 3" "\<not> bit (0 :: u32) 3"
proof -
  have e: "SZ_32 = push_bit 2 1" by (simp add: SZ_32_def)
  show "\<not> bit SZ_32 3" unfolding e bit_push_bit_iff bit_1_iff by simp
qed simp

lemma segment_at:
  "unat (sel div 8) = k \<Longrightarrow> gdt (setup_gdt y c) k = fill_descriptor a limit acc sz \<Longrightarrow> \<not> bit sz 3 \<Longrightarrow>
   segment (gdt (setup_gdt y c)) sel = (a, if limit > 0xfffff then limit OR 0xfff else limit, (acc OR ACC_P) AND 0xff)"
  by (simp add: segment_def decode_base decode_limit decode_access del: One_nat_def)

lemma segments:
  "segment (gdt (setup_gdt y c)) KERNEL_CS = (0, 0xffffffff, 0x9a)"
  "segment (gdt (setup_gdt y c)) KERNEL_DS = (0, 0xffffffff, 0x92)"
  "segment (gdt (setup_gdt y c)) USER_CS = (0, 0xffffffff, 0xfa)"
  "segment (gdt (setup_gdt y c)) USER_DS = (0, 0xffffffff, 0xf2)"
  "segment (gdt (setup_gdt y c)) BASE_TSS = (tss_addr y, 103, 0x89)"
  "i < 32 \<Longrightarrow> segment (gdt (setup_gdt y c)) (TRAP_TSS_BASE + 8 * of_nat i) =
    (trap_tss_addr y + of_nat i * 104, 103, 0x89)"
proof -
  have k: "unat (KERNEL_CS div 8) = 2" "unat (KERNEL_DS div 8) = 3" "unat (USER_CS div 8) = 8" "unat (USER_DS div 8) = 9"
    "unat (BASE_TSS div 8) = 1"
    by (simp_all add: KERNEL_CS_def KERNEL_DS_def USER_CS_def USER_DS_def BASE_TSS_def unat_div_distrib)
  show "segment (gdt (setup_gdt y c)) KERNEL_CS = (0, 0xffffffff, 0x9a)"
    "segment (gdt (setup_gdt y c)) KERNEL_DS = (0, 0xffffffff, 0x92)"
    "segment (gdt (setup_gdt y c)) USER_CS = (0, 0xffffffff, 0xfa)"
    "segment (gdt (setup_gdt y c)) USER_DS = (0, 0xffffffff, 0xf2)"
    "segment (gdt (setup_gdt y c)) BASE_TSS = (tss_addr y, 103, 0x89)"
    unfolding segment_at [OF k(1) gdt_entries(3) sz_bits(1)] segment_at [OF k(2) gdt_entries(4) sz_bits(1)]
      segment_at [OF k(3) gdt_entries(5) sz_bits(1)] segment_at [OF k(4) gdt_entries(6) sz_bits(1)]
      segment_at [OF k(5) gdt_entries(2) sz_bits(2)]
    by (simp_all add: ACC_P_def)
  show "segment (gdt (setup_gdt y c)) (TRAP_TSS_BASE + 8 * of_nat i) = (trap_tss_addr y + of_nat i * 104, 103, 0x89)"
    if "i < 32"
    unfolding segment_at [OF trap_selector gdt_entries(7) sz_bits(2), OF that that] by (simp add: ACC_P_def)
qed

text \<open>The exceptions.\<close>

lemma setup_trap_fold:
  "(\<forall>i<n. eip (trap_tss (fold (setup_trap y) [0..<n] c) i) = exception_handler_tasks y i \<and>
     tss_cs (trap_tss (fold (setup_trap y) [0..<n] c) i) = KERNEL_CS \<and>
     tss_ss (trap_tss (fold (setup_trap y) [0..<n] c) i) = KERNEL_DS \<and>
     tss_cr3 (trap_tss (fold (setup_trap y) [0..<n] c) i) = pgdir_addr y \<and>
     idt (fold (setup_trap y) [0..<n] c) i =
       fill_gate 0 (ucast (TRAP_TSS_BASE + 8 * of_nat i)) (ucast (ACC_TASK_GATE + (if i = 3 then 0x60 else 0))) 0) \<and>
   gdt (fold (setup_trap y) [0..<n] c) = gdt c"
  by (induction n) (auto simp: setup_trap_def Let_def less_Suc_eq)

lemma gate_selector_ok: "gate_sel (fill_gate off sel acc wc) = ucast sel"
proof (rule bit_word_eqI)
  fix i assume "i < LENGTH(32)"
  then have i: "i < 32" by simp
  let ?p0 = "(off AND mask 16) OR push_bit 16 (ucast sel) :: u32"
  have p0: "bit ?p0 (16 + i) = bit sel i" if "i < 16"
    using that by (simp add: bit_or_iff bit_and_iff bit_mask_iff bit_push_bit_iff bit_unsigned_iff)
  show "bit (gate_sel (fill_gate off sel acc wc)) i = bit (ucast sel :: u32) i"
    using i p0 bit_imp_le_length [of sel i]
    by (auto simp: gate_sel_def field_bit fill_gate_def Let_def bit_halves masks(2) bit_unsigned_iff)
qed

end
