(* ===== verification/Device_Props.thy ===== *)
theory Device_Props
  imports Machine_Ok Sbrk Div64 Paging_Ok Descriptors_Ok
begin

text \<open>
  The properties of the clock, of the interrupts and the memory of the machine, and of the
  arithmetic of 64 bits, each with the inputs it is applied to.
\<close>

subsection \<open>The clock and the gates\<close>

text \<open>
  C22: After any number of interrupts of the clock, below 2^32, every handler has returned, the kernel
  is in a state it can reach by its steps, and the hours, minutes and seconds are those of the
  hundredth parts of a second counted, up to 99:59:59 where they stay.
\<close>

theorem clock_counts_seconds:
  assumes "reach ad (kern m)" and "nb_tick (kern m) = 0" and "hour m = 0 \<and> minute m = 0 \<and> sec m = 0" and "n < 2 ^ 32"
  shows "\<exists>m'. tics time n m = ret m' \<and> reach ad (kern m') \<and> nb_tick (kern m') = of_nat n \<and>
    unat (hour m') \<le> 99 \<and> unat (minute m') < 60 \<and> unat (sec m') < 60 \<and>
    3600 * unat (hour m') + 60 * unat (minute m') + unat (sec m') = min 359999 (n div 100)"
  using tics_ok [of ad m n time] assms by (auto simp: clock_ok_def seconds_def max_seconds_def)

definition sample_linker :: addresses where
  "sample_linker = \<lparr>exec_stack_at = (\<lambda>i. 0x10000 * of_nat i), fin_processus_at = 0x2000, idle_at = 0x1000\<rparr>"

definition idle_screen :: display where
  "idle_screen = \<lparr>vmem = (\<lambda>_. 0), curs_lig_pos = 1, curs_col_pos = 0, outs = []\<rparr>"

theorem clock_counts_seconds_witness:
  "\<exists>k m'. tics 0x9000 360 \<lparr>kern = k, disp = idle_screen, hour = 0, minute = 0, sec = 0, mem = (\<lambda>_. 0)\<rparr> = ret m' \<and>
     3600 * unat (hour m') + 60 * unat (minute m') + unat (sec m') = 3"
proof -
  obtain k where k: "init_process sample_linker boot_kernel = ret k" "nb_tick k = 0"
    using init_process_ok [of sample_linker] by blast
  then have "reach sample_linker k" by (intro reach.boot)
  then show ?thesis
    using clock_counts_seconds [where n = 360 and time = "0x9000" and
        m = "\<lparr>kern = k, disp = idle_screen, hour = 0, minute = 0, sec = 0, mem = (\<lambda>_. 0)\<rparr>"] k(2)
    by fastforce
qed

text \<open>
  The time that the clock draws is the two digits of the hours, minutes and seconds with their
  colons in the corner of line 0, in the 9 bytes of the local array and nowhere else in memory; the
  lines below and the cursor do not change.
\<close>

theorem clock_draws_time:
  assumes "unat (hour m) < 100" and "unat (minute m) < 100" and "unat (sec m) < 100"
  shows "\<exists>m'. affiche_clock time m = ret m' \<and>
    (\<forall>i<8. cell (disp m') (71 + i) = ((two (unat (hour m)) @ [58] @ two (unat (minute m)) @ [58] @ two (unat (sec m))) ! i, 15)) \<and>
    (\<forall>a. 9 \<le> unat (a - time) \<longrightarrow> mem m' a = mem m a) \<and> cursor (disp m') = cursor (disp m) \<and>
    (\<forall>n. 80 \<le> n \<and> n < 2000 \<longrightarrow> cell (disp m') n = cell (disp m) n)"
  using affiche_clock_ok [OF assms, of time] unfolding shows_time_def time_text_def by blast

theorem clock_draws_time_witness:
  "\<exists>m'. affiche_clock 0x9000 \<lparr>kern = boot_kernel, disp = idle_screen, hour = 7, minute = 59, sec = 30, mem = (\<lambda>_. 0)\<rparr> = ret m' \<and>
     cell (disp m') 71 = (32, 15) \<and> cell (disp m') 72 = (55, 15) \<and> mem m' 0 = 0"
proof -
  have d: "dig 7 = 55" by (simp add: dig_def digs_def)
  obtain m' where m': "affiche_clock 0x9000 \<lparr>kern = boot_kernel, disp = idle_screen, hour = 7, minute = 59, sec = 30, mem = (\<lambda>_. 0)\<rparr> = ret m'"
    "\<forall>i<8. cell (disp m') (71 + i) = ((two 7 @ [58] @ two 59 @ [58] @ two 30) ! i, 15)"
    "\<forall>a. 9 \<le> unat (a - 0x9000) \<longrightarrow> mem m' a = 0"
    using clock_draws_time [where time = "0x9000" and
        m = "\<lparr>kern = boot_kernel, disp = idle_screen, hour = 7, minute = 59, sec = 30, mem = (\<lambda>_. 0)\<rparr>"]
    by auto
  have "cell (disp m') (71 + 0) = (32, 15)" "cell (disp m') (71 + 1) = (55, 15)"
    using m'(2) by (simp_all only:, simp_all add: two_def d)
  then show ?thesis using m'(1,3) by auto
qed

text \<open>
  A handler installed for an interrupt is where the gate of that interrupt leads: the offset is
  the address of the handler, in the code segment of the kernel, with interrupts closed; the other
  gates do not change.
\<close>

theorem gate_leads_to_handler:
  assumes "n < 256"
  shows "gate_offset (init_traitant_IT (of_nat n) t m) n = t \<and>
    gate_selector (init_traitant_IT (of_nat n) t m) n = KERNEL_CS \<and>
    gate_flags (init_traitant_IT (of_nat n) t m) n = 0x8E00 \<and>
    (\<forall>k<256. k \<noteq> n \<longrightarrow> gate_offset (init_traitant_IT (of_nat n) t m) k = gate_offset m k \<and>
      gate_selector (init_traitant_IT (of_nat n) t m) k = gate_selector m k \<and>
      gate_flags (init_traitant_IT (of_nat n) t m) k = gate_flags m k)"
  using init_traitant_gate [OF assms] init_traitant_other [OF assms] by blast

theorem gate_leads_to_handler_witness:
  "gate_offset (init_traitant_IT 32 0x12345678 (\<lambda>_. 0)) 32 = 0x12345678"
  using gate_leads_to_handler [of 32 "0x12345678" "\<lambda>_. 0"] by simp

subsection \<open>Memory\<close>

text \<open>
  C21: The page tables of the kernel translate every address of the mapped regions to itself and no
  other address: NULL and what lies behind the memory are not mapped. The translation is the one of
  the remote debugger, which reads the tables with paging on.
\<close>

theorem kernel_maps_identity:
  assumes "placed pgdir pgtab" and "\<forall>r\<in>set (regions y). region_ok r"
    and "cr0 AND 0x80000000 \<noteq> 0" and "pde_to_pa cr3 = pgdir"
  shows "\<exists>m'. early_mm_map_kernel pgdir pgtab y m = ret m' \<and>
    (\<forall>v pa. phys_addr_lookup cr0 cr3 m' v pa =
      (if \<exists>(st, en, f) \<in> set (regions y). st \<le> v \<and> v < en then (v, 4096 - (v AND INTEL_OFFMASK)) else (pa, 0)))"
  using map_kernel_lookup [OF assms, of m] unfolding mapped_def by blast

definition sample_symbols :: symbols where
  "sample_symbols = \<lparr>sym_start = 0x100000, text_start = 0x145000, text_end = 0x150000, multiboot_start = 0x150000,
     multiboot_end = 0x151000, bootstrap_stack_start = 0x151000, bootstrap_stack_end = 0x155000,
     rodata_start = 0x155000, rodata_end = 0x158000, data_start = 0x158000, data_end = 0x15a000,
     bss_start = 0x15a000, bss_end = 0x200000, sym_end = 0x200000, mem_end = 0x10000000\<rparr>"

theorem kernel_maps_identity_witness:
  "\<exists>m'. early_mm_map_kernel 0x102000 0x103000 sample_symbols (\<lambda>_. 0) = ret m' \<and>
     phys_addr_lookup 0x80000001 0x102000 m' 0x145010 7 = (0x145010, 0xff0) \<and>
     phys_addr_lookup 0x80000001 0x102000 m' 0x10 7 = (7, 0)"
proof -
  have p: "placed 0x102000 0x103000" by (simp add: placed_def aligned_def)
  have rs: "\<forall>r\<in>set (regions sample_symbols). region_ok r"
    by (simp add: regions_def sample_symbols_def region_ok_def aligned_def)
  have cr: "(0x80000001 :: u32) AND 0x80000000 \<noteq> 0" "pde_to_pa 0x102000 = 0x102000" by (simp_all add: pde_to_pa_def)
  obtain m' where m': "early_mm_map_kernel 0x102000 0x103000 sample_symbols (\<lambda>_. 0) = ret m'"
    "\<And>v pa. phys_addr_lookup 0x80000001 0x102000 m' v pa =
      (if \<exists>(st, en, f) \<in> set (regions sample_symbols). st \<le> v \<and> v < en then (v, 4096 - (v AND INTEL_OFFMASK)) else (pa, 0))"
    using kernel_maps_identity [OF p rs cr, of "\<lambda>_. 0"] by blast
  have "phys_addr_lookup 0x80000001 0x102000 m' 0x145010 7 = (0x145010, 0xff0)"
    "phys_addr_lookup 0x80000001 0x102000 m' 0x10 7 = (7, 0)"
    by (simp_all add: m'(2) regions_def sample_symbols_def INTEL_OFFMASK_def)
  then show ?thesis using m'(1) by blast
qed




text \<open>
  The blocks that a run of \<open>sbrk\<close> gives out follow each other without overlap and stay inside
  of the heap, whatever the sizes asked for and the requests refused.
\<close>

theorem sbrk_blocks_disjoint:
  assumes "e < - 1" and "c \<le> e" and "\<forall>d\<in>set ds. 0 \<le> d \<and> d < 2 ^ 31" and "sbrk_run e ds c = (rs, c')"
  shows "(\<forall>i j. i < j \<and> j < length (granted ds rs) \<longrightarrow>
      fst (granted ds rs ! i) + snd (granted ds rs ! i) \<le> fst (granted ds rs ! j)) \<and>
    (\<forall>(p, n) \<in> set (granted ds rs). unat c \<le> p \<and> p + n \<le> unat c') \<and> c' \<le> e"
  using sbrk_run_stacked [OF assms] stacked_disjoint stacked_bounds by fast

theorem sbrk_blocks_disjoint_witness:
  "sbrk_run 0x2000 [0x800, 0x1000, 0x700] 0x1000 = ([0x1000, - 1, 0x1800], 0x1f00) \<and>
   granted [0x800, 0x1000, 0x700] [0x1000, - 1, 0x1800] = [(0x1000, 0x800), (0x1800, 0x700)] \<and>
   unat (0x1000 :: u32) \<le> 0x1000 \<and> 0x1000 + 0x800 \<le> (0x1800 :: nat) \<and> 0x1800 + 0x700 \<le> unat (0x1f00 :: u32)"
proof -
  have run: "sbrk_run 0x2000 [0x800, 0x1000, 0x700] 0x1000 = ([0x1000, - 1, 0x1800], 0x1f00)"
    by (simp add: sbrk_def Let_def)
  have gr: "granted [0x800, 0x1000, 0x700] [0x1000, - 1, 0x1800] = [(0x1000, 0x800), (0x1800, 0x700)]" by simp
  show ?thesis using sbrk_blocks_disjoint [OF _ _ _ run] run unfolding gr by simp
qed

subsection \<open>Division\<close>

text \<open>
  C23: \<open>do_div64\<close> gives the quotient and the remainder of any two 64-bit numbers; a division by zero
  gives 0 and the dividend. The exception is a divisor of more than 32 bits whose 32 leading bits are
  all ones: the code adds one to them, divides by zero and raises the divide error.
\<close>

theorem do_div64_divides:
  "do_div64 x y rem =
     (if y = 0 then ret (0, map_option (\<lambda>_. x) rem)
      else if ucast (drop_bit 32 y) \<noteq> (0 :: u32) \<and>
              unat y div 2 ^ (hard_bsr (ucast (drop_bit 32 y)) + 1) = 2 ^ 32 - 1
           then err Divide_Error
           else ret (x div y, map_option (\<lambda>_. x mod y) rem))"
proof -
  have r: "set_rem rem z = map_option (\<lambda>_. z) rem" for z by (simp add: set_rem_def split: option.split)
  have nz: "y \<noteq> 0" if "ucast (drop_bit 32 y) \<noteq> (0 :: u32)" using that by auto
  show ?thesis
  proof (cases "ucast (drop_bit 32 y) = (0 :: u32)")
    case True
    then show ?thesis using do_div64_small [OF True, of x rem] by (simp add: r)
  next
    case False
    then show ?thesis using do_div64_large [OF False, of x rem] nz by (simp add: r leading_def)
  qed
qed

end
