(* ===== verification/Gdb_Packet.thy ===== *)
theory Gdb_Packet
  imports Strto Memory_Bytes
begin

text \<open>
  The packets of the remote debugger (kernel/gdb\_serial.c): hexadecimal text, \<open>getpacket\<close> and
  \<open>putfrags\<close>. What the n-th call of \<open>gdb_serial_recv\<close> gives is \<open>inp n\<close>; the state counts the calls
  and collects the bytes sent. Buffers are in memory.
\<close>

record gdb =
  gmem :: memory
  sent :: "u8 list"
  received :: nat

definition gdb_recv :: "(nat \<Rightarrow> u8) \<Rightarrow> gdb \<Rightarrow> u8 \<times> gdb" where
  "gdb_recv inp s = (inp (received s), s\<lparr>received := received s + 1\<rparr>)"

definition gdb_send :: "u8 \<Rightarrow> gdb \<Rightarrow> gdb" where
  "gdb_send ch s = s\<lparr>sent := sent s @ [ch]\<rparr>"

subsection \<open>Hexadecimal text\<close>

definition BUFMAX :: nat where "BUFMAX = 400"

definition hexchars :: "u8 list" where
  "hexchars = [48, 49, 50, 51, 52, 53, 54, 55, 56, 57, 97, 98, 99, 100, 101, 102]"

definition hex :: "u8 \<Rightarrow> int" where
  "hex c =
     (let ch = schar c in
      if ch \<ge> 48 \<and> ch \<le> 57 then ch - 48
      else if ch \<ge> 97 \<and> ch \<le> 102 then ch - 97 + 10
      else if ch \<ge> 65 \<and> ch \<le> 70 then ch - 65 + 10
      else - 1)"

text \<open>The result is 0 or -1, with the bytes written before the first wrong digit.\<close>

fun hex2bin :: "nat \<Rightarrow> u32 \<Rightarrow> u32 \<Rightarrow> memory \<Rightarrow> int \<times> memory" where
  "hex2bin 0 inb out m = (0, m)"
| "hex2bin (Suc len) inb out m =
     (let ch = push_bit 4 (hex (m inb)) OR hex (m (inb + 1))
      in if ch < 0 then (- 1, m) else hex2bin len (inb + 2) (out + 1) (m(out := word_of_int ch)))"

subsection \<open>Receiving\<close>

text \<open>Characters before the \<open>$\<close> are skipped.\<close>

partial_function (option) wait_start :: "(nat \<Rightarrow> u8) \<Rightarrow> gdb \<Rightarrow> gdb res" where
  "wait_start inp s =
     (let (c, s1) = gdb_recv inp s
      in if c AND 0x7f \<noteq> 36 then wait_start inp s1 else ret s1)"

text \<open>
  The loop that fills the buffer: \<open>room\<close> bytes may still come. The results are \<open>count\<close>, the
  checksum and the last character. A \<open>#\<close> ends the packet unless it follows the escape 0x7d.
\<close>

fun packet_body :: "(nat \<Rightarrow> u8) \<Rightarrow> u32 \<Rightarrow> nat \<Rightarrow> nat \<Rightarrow> u8 \<Rightarrow> u8 \<Rightarrow> gdb \<Rightarrow> nat \<times> u8 \<times> u8 \<times> gdb" where
  "packet_body inp buffer 0 count checksum ch s = (count, checksum, ch, s)"
| "packet_body inp buffer (Suc room) count checksum ch s =
     (let (c, s1) = gdb_recv inp s in
      if c = 35 \<and> (count = 0 \<or> gmem s1 (buffer + of_nat (count - 1)) \<noteq> 0x7d) then (count, checksum, c, s1)
      else packet_body inp buffer room (count + 1) (checksum + c) c
             (s1\<lparr>gmem := (gmem s1)(buffer + of_nat count := c)\<rparr>))"

text \<open>Removing the sequence characters: \<open>for (i=3; i <= count; i++) buffer[i-3] = buffer[i]\<close>.\<close>

definition drop_sequence :: "u32 \<Rightarrow> nat \<Rightarrow> memory \<Rightarrow> memory" where
  "drop_sequence buffer count m =
     fold (\<lambda>i m. m(buffer + of_nat (i - 3) := m (buffer + of_nat i))) [3..<count + 1] m"

text \<open>
  The checksum is compared with the two digits after the \<open>#\<close>, or, when the packet fills the buffer
  without a \<open>#\<close>, with the initial value of \<open>xmitcsum\<close>, which is -1 as an \<open>unsigned char\<close>.
\<close>

definition packet_end :: "(nat \<Rightarrow> u8) \<Rightarrow> u32 \<Rightarrow> u8 \<Rightarrow> u8 \<Rightarrow> gdb \<Rightarrow> (u8 \<times> gdb) res" where
  "packet_end inp buffer checksum ch s =
     (if ch = 35 then
        let (c1, s1) = gdb_recv inp s;
            (c2, s2) = gdb_recv inp s1;
            xmitcsum = word_of_int (push_bit 4 (hex c1)) + word_of_int (hex c2) :: u8
        in if checksum \<noteq> xmitcsum then ret (xmitcsum, gdb_send 45 s2)
           else
             let s3 = gdb_send 43 s2
             in if gmem s3 (buffer + 2) = 58 then
                  let s4 = gdb_send (gmem s3 (buffer + 1)) (gdb_send (gmem s3 buffer) s3)
                  in bindr (strlen buffer (gmem s4)) (\<lambda>n.
                     ret (xmitcsum, s4\<lparr>gmem := drop_sequence buffer (unat n) (gmem s4)\<rparr>))
                else ret (xmitcsum, s3)
      else ret (- 1, s))"

partial_function (option) getpacket :: "(nat \<Rightarrow> u8) \<Rightarrow> u32 \<Rightarrow> gdb \<Rightarrow> gdb res" where
  "getpacket inp buffer s =
     bindr (wait_start inp s) (\<lambda>s1.
     let (count, checksum, c, s2) = packet_body inp buffer BUFMAX 0 0 36 s1;
         s3 = s2\<lparr>gmem := (gmem s2)(buffer + of_nat count := 0)\<rparr>
     in bindr (packet_end inp buffer checksum c s3) (\<lambda>(xmitcsum, s4).
        if checksum \<noteq> xmitcsum then getpacket inp buffer s4 else ret s4))"

subsection \<open>Sending\<close>

text \<open>
  A fragment is its bytes: the \<open>len\<close> bytes at \<open>data\<close>, or, when \<open>len\<close> is 0, those before the NUL.
\<close>

record outfrag =
  data :: "u8 list"
  hexify :: bool

definition mem_frag :: "memory \<Rightarrow> u32 \<Rightarrow> u32 \<Rightarrow> bool \<Rightarrow> outfrag res" where
  "mem_frag m p len hx =
     (if len = 0 then bindr (strlen p m) (\<lambda>n. ret \<lparr>data = mem_bytes m p (unat n), hexify = hx\<rparr>)
      else ret \<lparr>data = mem_bytes m p (unat len), hexify = hx\<rparr>)"

text \<open>The macro \<open>SEND\<close>, on the state and the checksum.\<close>

definition SEND :: "u8 \<Rightarrow> gdb \<times> u8 \<Rightarrow> gdb \<times> u8" where
  "SEND ch = (\<lambda>(s, checksum). (gdb_send ch s, checksum + ch))"

definition nibble :: "u8 \<Rightarrow> u8" where
  "nibble d = hexchars ! unat d"

text \<open>The length of the run of bytes equal to the first one, at most 49 or 98 bytes.\<close>

definition run_length :: "bool \<Rightarrow> u8 list \<Rightarrow> nat" where
  "run_length hx p =
     (let q0 = (if hx then 2 else 4); limit = (if hx then 98 div 2 else 98)
      in q0 + length (takeWhile (\<lambda>b. b = p ! 0) (drop q0 (take limit p))))"

function frag_loop :: "bool \<Rightarrow> u8 list \<Rightarrow> gdb \<times> u8 \<Rightarrow> gdb \<times> u8" where
  "frag_loop hx p x =
     (case p of
        [] \<Rightarrow> x
      | b # rest \<Rightarrow>
          if (if hx then 1 else 3) < length p \<and> p ! 1 = p ! 0 \<and>
             (if hx then drop_bit 4 b = b AND 0xf else p ! 2 = b \<and> p ! 3 = b) then
            let q = run_length hx p;
                rl = (if hx then q * 2 else q);
                x1 = SEND (if hx then nibble (b AND 0xf) else b) x
            in frag_loop hx (drop q p) (SEND (of_nat (29 + rl - 1)) (SEND 42 x1))
          else if hx then frag_loop hx rest (SEND (nibble (b AND 0xf)) (SEND (nibble (drop_bit 4 b)) x))
          else frag_loop hx rest (SEND b x))"
  by pat_completeness auto
termination by (relation "measure (\<lambda>(hx, p, x). length p)") (auto simp: run_length_def Let_def)

declare frag_loop.simps [simp del]

partial_function (option) putfrags :: "(nat \<Rightarrow> u8) \<Rightarrow> outfrag list \<Rightarrow> gdb \<Rightarrow> gdb res" where
  "putfrags inp frags s =
     (let s1 = gdb_send 36 s;
          (s2, checksum) = fold (\<lambda>f. frag_loop (hexify f) (data f)) frags (s1, 0);
          s3 = gdb_send 35 s2;
          s4 = gdb_send (nibble (drop_bit 4 checksum)) s3;
          s5 = gdb_send (nibble (checksum mod 16)) s4;
          (c, s6) = gdb_recv inp s5
      in if c AND 0x7f \<noteq> 43 then putfrags inp frags s6 else ret s6)"

end
