(* ===== verification/Gdb_Serial.thy ===== *)
theory Gdb_Serial
  imports Gdb_Packet Paging
begin

text \<open>
  The commands of the remote debugger (\<open>gdb_serial_converse\<close> and the reports of
  kernel/gdb\_serial.c). The addresses of the buffers on the stack and of the registers
  \<open>*p->regs\<close>, the control registers of the client and the callbacks are arguments.
\<close>

record gdb_env =
  inbuf :: u32
  outbuf :: u32
  regs :: u32
  client_cr0 :: u32
  client_cr3 :: u32
  junk_pa :: u32

record stub = gdb +
  thread_id :: u32
  signo :: u8
  regs_changed :: bool
  connected :: bool
  gdb_serial_debug :: bool

record callbacks =
  thread_alive :: "(u32 \<Rightarrow> stub \<Rightarrow> u8 \<times> stub) option"
  thread_switch :: "(u32 \<Rightarrow> stub \<Rightarrow> u8 \<times> stub) option"

datatype gdb_action = GDB_MORE | GDB_CONT | GDB_RUN | GDB_KILL | GDB_DETACH

definition sizeof_state :: nat where "sizeof_state = 64"
definition NSIG :: int where "NSIG = 32"

text \<open>The packets act on the part of the state that \<open>Gdb_Packet\<close> knows.\<close>

definition with_gdb :: "(gdb \<Rightarrow> gdb res) \<Rightarrow> stub \<Rightarrow> stub res" where
  "with_gdb f s = bindr (f (gdb.truncate s)) (\<lambda>g.
     ret (s\<lparr>gmem := gmem g, sent := sent g, received := received g\<rparr>))"

definition putpacket :: "(nat \<Rightarrow> u8) \<Rightarrow> outfrag list \<Rightarrow> stub \<Rightarrow> stub res" where
  "putpacket inp frags = with_gdb (putfrags inp frags)"

definition lit :: "string \<Rightarrow> outfrag" where
  "lit str = \<lparr>data = map of_char str, hexify = False\<rparr>"

definition hexbyte :: "u8 \<Rightarrow> outfrag" where
  "hexbyte b = \<lparr>data = [b], hexify = True\<rparr>"

text \<open>How a case of the switch goes on: to a label, or to its \<open>break\<close> with the answer already sent.\<close>

datatype outcome = Ok | Errpacket u8 | Unknown | Break

definition answer :: "(nat \<Rightarrow> u8) \<Rightarrow> outcome \<Rightarrow> stub \<Rightarrow> stub res" where
  "answer inp r s =
     (case r of
        Ok \<Rightarrow> putpacket inp [lit ''OK''] s
      | Errpacket code \<Rightarrow> putpacket inp [lit ''E'', hexbyte code] s
      | Unknown \<Rightarrow> putpacket inp [lit ''''] s
      | Break \<Rightarrow> ret s)"

text \<open>A number of the packet: its value and the address of its end.\<close>

definition number_in :: "memory \<Rightarrow> u32 \<Rightarrow> (u32 \<times> u32) res" where
  "number_in m p =
     bindr (strtoul p (Some 0) 16 m) (\<lambda>(v, q). case q of None \<Rightarrow> ret (v, p) | Some e \<Rightarrow> ret (v, e))"

definition signed_in :: "memory \<Rightarrow> u32 \<Rightarrow> (u32 \<times> u32) res" where
  "signed_in m p =
     bindr (strtol p (Some 0) 16 m) (\<lambda>(v, q). case q of None \<Rightarrow> ret (word_of_int v, p) | Some e \<Rightarrow> ret (word_of_int v, e))"

subsection \<open>Threads\<close>

definition cmd_H :: "gdb_env \<Rightarrow> callbacks option \<Rightarrow> stub \<Rightarrow> (outcome \<times> stub) res" where
  "cmd_H e cb s =
     bindr (signed_in (gmem s) (inbuf e + 2)) (\<lambda>(th, endth).
     if endth = inbuf e + 2 then ret (Errpacket 4, s)
     else case Option.bind cb thread_switch of
        None \<Rightarrow> ret (Unknown, s)
      | Some switch \<Rightarrow>
          if th \<noteq> - 1 \<and> th \<noteq> 0 \<and> th \<noteq> thread_id s then
            let (errchar, s1) = switch th s
            in if errchar \<noteq> 0 then ret (Errpacket errchar, s1)
               else ret (Ok, s1\<lparr>thread_id := th, regs_changed := False\<rparr>)
          else ret (Ok, s))"

definition cmd_T :: "gdb_env \<Rightarrow> callbacks option \<Rightarrow> stub \<Rightarrow> (outcome \<times> stub) res" where
  "cmd_T e cb s =
     bindr (signed_in (gmem s) (inbuf e + 1)) (\<lambda>(th, endth).
     if endth = inbuf e + 1 then ret (Errpacket 1, s)
     else case Option.bind cb thread_alive of
        None \<Rightarrow> ret (Unknown, s)
      | Some alive \<Rightarrow>
          let (errchar, s1) = alive th s
          in if errchar \<noteq> 0 then ret (Errpacket errchar, s1) else ret (Ok, s1))"

subsection \<open>Registers\<close>

definition cmd_g :: "(nat \<Rightarrow> u8) \<Rightarrow> gdb_env \<Rightarrow> stub \<Rightarrow> (outcome \<times> stub) res" where
  "cmd_g inp e s =
     bindr (putpacket inp [\<lparr>data = mem_bytes (gmem s) (regs e) sizeof_state, hexify = True\<rparr>] s) (\<lambda>s1.
     ret (Break, s1))"

definition cmd_G :: "gdb_env \<Rightarrow> stub \<Rightarrow> (outcome \<times> stub) res" where
  "cmd_G e s =
     (let (r, m) = hex2bin sizeof_state (inbuf e + 1) (regs e) (gmem s); s1 = s\<lparr>gmem := m\<rparr>
      in if r \<noteq> 0 then ret (Errpacket 4, s1) else ret (Ok, s1\<lparr>regs_changed := True\<rparr>))"

definition cmd_P :: "gdb_env \<Rightarrow> stub \<Rightarrow> (outcome \<times> stub) res" where
  "cmd_P e s =
     bindr (number_in (gmem s) (inbuf e + 1)) (\<lambda>(reg, eqp).
     if eqp = inbuf e + 1 \<or> gmem s eqp \<noteq> 61 then ret (Errpacket 4, s)
     else if reg = 0x29 then ret (Ok, s)
     else if (reg + 1) * 4 > of_nat sizeof_state then ret (Errpacket 4, s)
     else
       let (r, m) = hex2bin 4 (eqp + 1) (regs e + 4 * reg) (gmem s); s1 = s\<lparr>gmem := m\<rparr>
       in if r \<noteq> 0 then ret (Errpacket 4, s1) else ret (Ok, s1\<lparr>regs_changed := True\<rparr>))"

subsection \<open>Memory\<close>

definition cmd_m :: "(nat \<Rightarrow> u8) \<Rightarrow> gdb_env \<Rightarrow> stub \<Rightarrow> (outcome \<times> stub) res" where
  "cmd_m inp e s =
     bindr (number_in (gmem s) (inbuf e + 1)) (\<lambda>(addr, ptr).
     if ptr = inbuf e + 1 \<or> gmem s ptr \<noteq> 44 then ret (Errpacket 2, s)
     else bindr (number_in (gmem s) (ptr + 1)) (\<lambda>(len, ptr2).
       if ptr2 = ptr + 1 \<or> len * 2 > of_nat BUFMAX then ret (Errpacket 2, s)
       else bindr (gdb_copyin (client_cr0 e) (client_cr3 e) (junk_pa e) addr (inbuf e) len (gmem s)) (\<lambda>(r, m).
         let s1 = s\<lparr>gmem := m\<rparr>
         in if r \<noteq> 0 then ret (Errpacket 3, s1)
            else bindr (mem_frag (gmem s1) (inbuf e) len True) (\<lambda>f.
                 bindr (putpacket inp [f] s1) (\<lambda>s2. ret (Break, s2))))))"

definition cmd_M :: "gdb_env \<Rightarrow> stub \<Rightarrow> (outcome \<times> stub) res" where
  "cmd_M e s =
     bindr (number_in (gmem s) (inbuf e + 1)) (\<lambda>(addr, ptr).
     if ptr = inbuf e + 1 \<or> gmem s ptr \<noteq> 44 then ret (Errpacket 2, s)
     else bindr (number_in (gmem s) (ptr + 1)) (\<lambda>(len, ptr2).
       if ptr2 = ptr + 1 \<or> gmem s ptr2 \<noteq> 58 then ret (Errpacket 2, s)
       else if ptr2 + 1 + len * 2 > inbuf e + of_nat BUFMAX then ret (Errpacket 2, s)
       else
         let (r, m) = hex2bin (unat len) (ptr2 + 1) (outbuf e) (gmem s); s1 = s\<lparr>gmem := m\<rparr>
         in if r \<noteq> 0 then ret (Errpacket 2, s1)
            else bindr (gdb_copyout (client_cr0 e) (client_cr3 e) (junk_pa e) (outbuf e) addr len (gmem s1)) (\<lambda>(r, m).
                 ret (if r \<noteq> 0 then Errpacket 3 else Ok, s1\<lparr>gmem := m\<rparr>))))"

text \<open>
  The loop that takes the escapes 0x7d away, in place; \<open>n\<close> bytes are left between \<open>in\<close> and
  \<open>end\<close>. The result is \<open>None\<close> when an escape is the last byte.
\<close>

fun unescape :: "nat \<Rightarrow> u32 \<Rightarrow> u32 \<Rightarrow> memory \<Rightarrow> u32 option \<times> memory" where
  "unescape 0 inp out m = (Some out, m)"
| "unescape (Suc n) inp out m =
     (if m inp = 0x7d then
        case n of 0 \<Rightarrow> (None, m)
        | Suc n1 \<Rightarrow> unescape n1 (inp + 2) (out + 1) (m(out := m (inp + 1) XOR 0x20))
      else unescape n (inp + 1) (out + 1) (m(out := m inp)))"

definition cmd_X :: "gdb_env \<Rightarrow> stub \<Rightarrow> (outcome \<times> stub) res" where
  "cmd_X e s =
     bindr (number_in (gmem s) (inbuf e + 1)) (\<lambda>(addr, ptr).
     if ptr = inbuf e + 1 \<or> gmem s ptr \<noteq> 44 then ret (Errpacket 2, s)
     else bindr (number_in (gmem s) (ptr + 1)) (\<lambda>(len, ptr2).
       if ptr2 = ptr + 1 \<or> gmem s ptr2 \<noteq> 58 then ret (Errpacket 2, s)
       else if ptr2 + 1 + len > inbuf e + of_nat BUFMAX then ret (Errpacket 2, s)
       else
         let in0 = ptr2 + 1;
             (out, m) = unescape (if in0 < in0 + len then unat len else 0) in0 (inbuf e) (gmem s);
             s1 = s\<lparr>gmem := m\<rparr>
         in case out of
              None \<Rightarrow> ret (Errpacket 2, s1)
            | Some q \<Rightarrow>
                bindr (gdb_copyout (client_cr0 e) (client_cr3 e) (junk_pa e) (inbuf e) addr (q - inbuf e) (gmem s1)) (\<lambda>(r, m).
                ret (if r \<noteq> 0 then Errpacket 3 else Ok, s1\<lparr>gmem := m\<rparr>))))"

subsection \<open>Running\<close>

text \<open>The offsets of the fields \<open>eip\<close> and \<open>eflags\<close> in \<open>struct gdb_state\<close>.\<close>

definition EIP :: u32 where "EIP = 32"
definition EFLAGS :: u32 where "EFLAGS = 36"

text \<open>The address that may follow the command is at \<open>p\<close>; then the trace flag is set or cleared.\<close>

definition resume_at :: "gdb_env \<Rightarrow> u32 \<Rightarrow> bool \<Rightarrow> stub \<Rightarrow> stub res" where
  "resume_at e p step s =
     bindr (number_in (gmem s) p) (\<lambda>(new_eip, ptr).
     let s1 = (if ptr > p \<and> new_eip \<noteq> read32 (regs e + EIP) (gmem s)
               then s\<lparr>gmem := write32 (regs e + EIP) new_eip (gmem s), regs_changed := True\<rparr> else s);
         fl = gdb_set_trace_flag step (read32 (regs e + EFLAGS) (gmem s1))
     in ret (s1\<lparr>gmem := write32 (regs e + EFLAGS) fl (gmem s1)\<rparr>))"

definition cmd_cs :: "gdb_env \<Rightarrow> stub \<Rightarrow> (outcome \<times> gdb_action \<times> stub) res" where
  "cmd_cs e s =
     bindr (resume_at e (inbuf e + 1) (gmem s (inbuf e) = 115) s) (\<lambda>s1.
     ret (Break, GDB_CONT, s1\<lparr>signo := 0\<rparr>))"

definition cmd_CS :: "gdb_env \<Rightarrow> stub \<Rightarrow> (outcome \<times> gdb_action \<times> stub) res" where
  "cmd_CS e s =
     (let nsig = push_bit 4 (hex (gmem s (inbuf e + 1))) OR hex (gmem s (inbuf e + 2))
      in if nsig \<le> 0 \<or> nsig \<ge> NSIG then ret (Errpacket 5, GDB_MORE, s)
         else bindr (resume_at e (inbuf e + 3) (gmem s (inbuf e) = 83) s) (\<lambda>s1.
              ret (Break, GDB_CONT, s1\<lparr>signo := word_of_int nsig\<rparr>)))"

text \<open>The hexadecimal digits of a thread id, first the lowest.\<close>

fun tid_digits :: "nat \<Rightarrow> u32 \<Rightarrow> u8 list" where
  "tid_digits 0 x = []"
| "tid_digits (Suc k) x =
     hexchars ! unat (x AND 0xf) # (if drop_bit 4 x \<noteq> 0 then tid_digits k (drop_bit 4 x) else [])"

text \<open>The text "thread:" with the id, written to \<open>inbuf\<close>.\<close>

definition thread_text :: "u32 \<Rightarrow> u8 list" where
  "thread_text t = map of_char ''thread:'' @ rev (tid_digits 8 t) @ [59]"

definition report :: "(nat \<Rightarrow> u8) \<Rightarrow> gdb_env \<Rightarrow> callbacks option \<Rightarrow> stub \<Rightarrow> stub res" where
  "report inp e cb s =
     (if Option.bind cb thread_switch \<noteq> None \<and> thread_id s \<noteq> 0 \<and> thread_id s \<noteq> - 1 then
        let s1 = s\<lparr>gmem := poke (gmem s) (inbuf e) (thread_text (thread_id s) @ [0])\<rparr>
        in putpacket inp [lit ''T'', hexbyte (signo s1), \<lparr>data = thread_text (thread_id s), hexify = False\<rparr>] s1
      else putpacket inp [lit ''S'', hexbyte (signo s)] s)"

subsection \<open>The loop\<close>

text \<open>The switch on the first byte of the packet, up to the labels at its end.\<close>

definition dispatch ::
  "(nat \<Rightarrow> u8) \<Rightarrow> gdb_env \<Rightarrow> callbacks option \<Rightarrow> stub \<Rightarrow> (outcome \<times> gdb_action \<times> stub) res" where
  "dispatch inp e cb s =
     (let c = gmem s (inbuf e); more = (\<lambda>x. bindr x (\<lambda>(r, s1). ret (r, GDB_MORE, s1))) in
      if c = of_char CHR ''H'' then more (cmd_H e cb s)
      else if c = of_char CHR ''T'' then more (cmd_T e cb s)
      else if c = of_char CHR ''g'' then more (cmd_g inp e s)
      else if c = of_char CHR ''G'' then more (cmd_G e s)
      else if c = of_char CHR ''P'' then more (cmd_P e s)
      else if c = of_char CHR ''m'' then more (cmd_m inp e s)
      else if c = of_char CHR ''M'' then more (cmd_M e s)
      else if c = of_char CHR ''X'' then more (cmd_X e s)
      else if c = of_char CHR ''c'' \<or> c = of_char CHR ''s'' then cmd_cs e s
      else if c = of_char CHR ''C'' \<or> c = of_char CHR ''S'' then cmd_CS e s
      else if c = of_char CHR ''?'' then more (bindr (report inp e cb s) (\<lambda>s1. ret (Break, s1)))
      else if c = of_char CHR ''D'' then ret (Ok, GDB_DETACH, s\<lparr>connected := False\<rparr>)
      else if c = of_char CHR ''R'' then ret (Break, GDB_RUN, s\<lparr>connected := False\<rparr>)
      else if c = of_char CHR ''k'' then ret (Break, GDB_KILL, s\<lparr>connected := False\<rparr>)
      else if c = of_char CHR ''d'' then ret (Ok, GDB_MORE, s\<lparr>gdb_serial_debug := \<not> gdb_serial_debug s\<rparr>)
      else if c = of_char CHR ''!'' then ret (Ok, GDB_MORE, s)
      else ret (Unknown, GDB_MORE, s))"

text \<open>One turn: wait for a packet, execute it and answer.\<close>

definition converse_turn ::
  "(nat \<Rightarrow> u8) \<Rightarrow> gdb_env \<Rightarrow> callbacks option \<Rightarrow> stub \<Rightarrow> (gdb_action \<times> stub) res" where
  "converse_turn inp e cb s =
     bindr (with_gdb (getpacket inp (inbuf e)) s) (\<lambda>s1.
     bindr (dispatch inp e cb (s1\<lparr>connected := True\<rparr>)) (\<lambda>(r, retval, s2).
     bindr (answer inp r s2) (\<lambda>s3. ret (retval, s3))))"

partial_function (option) converse_loop ::
  "(nat \<Rightarrow> u8) \<Rightarrow> gdb_env \<Rightarrow> callbacks option \<Rightarrow> stub \<Rightarrow> (gdb_action \<times> stub) res" where
  "converse_loop inp e cb s =
     bindr (converse_turn inp e cb s) (\<lambda>(retval, s1).
     if retval = GDB_MORE then converse_loop inp e cb s1 else ret (retval, s1))"

definition gdb_serial_converse ::
  "(nat \<Rightarrow> u8) \<Rightarrow> gdb_env \<Rightarrow> callbacks option \<Rightarrow> stub \<Rightarrow> (gdb_action \<times> stub) res" where
  "gdb_serial_converse inp e cb s =
     bindr (report inp e cb (s\<lparr>regs_changed := False\<rparr>)) (\<lambda>s1. converse_loop inp e cb s1)"

subsection \<open>Reports of the program\<close>

text \<open>\<open>on\<close> tells whether \<open>gdb_serial_send\<close> and \<open>gdb_serial_recv\<close> are set.\<close>

definition gdb_serial_exit :: "(nat \<Rightarrow> u8) \<Rightarrow> bool \<Rightarrow> int \<Rightarrow> stub \<Rightarrow> stub res" where
  "gdb_serial_exit inp on exit_code s =
     (if \<not> on \<or> \<not> connected s then ret s
      else bindr (putpacket inp [lit ''W'', hexbyte (word_of_int exit_code)] s) (\<lambda>s1. ret (s1\<lparr>connected := False\<rparr>)))"

definition gdb_serial_killed :: "(nat \<Rightarrow> u8) \<Rightarrow> bool \<Rightarrow> int \<Rightarrow> stub \<Rightarrow> stub res" where
  "gdb_serial_killed inp on sg s =
     (if \<not> on \<or> \<not> connected s then ret s
      else bindr (putpacket inp [lit ''X'', hexbyte (word_of_int sg)] s) (\<lambda>s1. ret (s1\<lparr>connected := False\<rparr>)))"

definition gdb_serial_putchar :: "(nat \<Rightarrow> u8) \<Rightarrow> bool \<Rightarrow> int \<Rightarrow> stub \<Rightarrow> stub res" where
  "gdb_serial_putchar inp on ch s =
     (if \<not> on then ret s
      else if \<not> connected s then ret (s\<lparr>sent := sent s @ [word_of_int ch]\<rparr>)
      else putpacket inp [lit ''O'', hexbyte (word_of_int ch)] s)"

partial_function (option) send_str :: "u32 \<Rightarrow> stub \<Rightarrow> stub res" where
  "send_str p s = (if gmem s p \<noteq> 0 then send_str (p + 1) (s\<lparr>sent := sent s @ [gmem s p]\<rparr>) else ret s)"

definition gdb_serial_puts :: "(nat \<Rightarrow> u8) \<Rightarrow> bool \<Rightarrow> u32 \<Rightarrow> stub \<Rightarrow> stub res" where
  "gdb_serial_puts inp on str s =
     (if \<not> on then ret s
      else if \<not> connected s then bindr (send_str str s) (\<lambda>s1. ret (s1\<lparr>sent := sent s1 @ [10]\<rparr>))
      else bindr (mem_frag (gmem s) str 0 True) (\<lambda>f.
           putpacket inp [lit ''O'', f, hexbyte 10] s))"

end
