(* ===== verification/Debugger.thy ===== *)
theory Debugger
  imports Gdb_Serial Descriptors
begin

text \<open>
  The exception reports of kernel/debugger.c, and \<open>reboot\<close> of kernel/boot/processor\_structs.c. The
  task state segments, the screen (at 0xb8000) and the table of descriptors are in memory; the
  addresses of local variables are arguments, \<open>reads_60 n\<close> is what the n-th \<open>inb(0x60)\<close> reads.
\<close>

record dbg =
  stub_of :: stub
  do_debug :: bool
  serial_on :: bool
  key_reads :: nat

text \<open>\<open>reboot\<close> loads an empty table of interrupts and raises one, which resets the machine.\<close>

datatype 'a run = Returned 'a | Reset stub

definition reboot :: "(nat \<Rightarrow> u8) \<Rightarrow> bool \<Rightarrow> stub \<Rightarrow> 'a run res" where
  "reboot inp on s = bindr (gdb_serial_exit inp on 0 s) (\<lambda>s1. ret (Reset s1))"

subsection \<open>The debugger\<close>

definition SIGILL :: u8 where "SIGILL = 4"
definition SIGTRAP :: u8 where "SIGTRAP = 5"
definition SIGFPE :: u8 where "SIGFPE = 8"
definition SIGSEGV :: u8 where "SIGSEGV = 11"

definition signal_of :: "u32 \<Rightarrow> u8" where
  "signal_of trapno =
     (if trapno \<in> {0, 4, 5, 7, 8, 9, 15} then SIGFPE
      else if trapno \<in> {1, 3} then SIGTRAP
      else if trapno \<in> {10, 11, 12, 13, 14} then SIGSEGV
      else SIGILL)"

text \<open>The offsets in \<open>struct x86_tss\<close> of the registers, in the order of \<open>struct gdb_state\<close>.\<close>

definition tss_regs :: "nat list" where
  "tss_regs = [40, 44, 48, 52, 56, 60, 64, 68, 32, 36, 76, 80, 84, 72, 88, 92]"

definition save_regs :: "u32 \<Rightarrow> u32 \<Rightarrow> memory \<Rightarrow> memory" where
  "save_regs t st m =
     fold (\<lambda>i m. write32 (st + of_nat (4 * i)) (read32 (t + of_nat (tss_regs ! i)) m) m) [0..<16] m"

definition load_regs :: "u32 \<Rightarrow> u32 \<Rightarrow> memory \<Rightarrow> memory" where
  "load_regs t st m =
     fold (\<lambda>i m. write32 (t + of_nat (tss_regs ! i)) (read32 (st + of_nat (4 * i)) m) m) [0..<16] m"

text \<open>\<open>copy_client_paging_registers\<close> sets the registers that translate addresses.\<close>

definition copy_client_paging_registers :: "u32 \<Rightarrow> u32 \<Rightarrow> gdb_env \<Rightarrow> gdb_env" where
  "copy_client_paging_registers cr0 cr3 e = e\<lparr>client_cr0 := cr0, client_cr3 := cr3\<rparr>"

text \<open>\<open>regs e\<close> is the address of \<open>state\<close>; \<open>cr0\<close> is that of the processor.\<close>

definition debugger :: "(nat \<Rightarrow> u8) \<Rightarrow> u32 \<Rightarrow> gdb_env \<Rightarrow> u32 \<Rightarrow> u32 \<Rightarrow> dbg \<Rightarrow> dbg run res" where
  "debugger inp cr0 e trapno t d =
     (let s = (stub_of d)\<lparr>thread_id := - 1, signo := signal_of trapno,
                gmem := save_regs t (regs e) (gmem (stub_of d))\<rparr>;
          e1 = copy_client_paging_registers cr0 (read32 (t + 28) (gmem s)) e
      in bindr (gdb_serial_converse inp e1 None s) (\<lambda>(action, s1).
         if action = GDB_KILL then reboot inp (serial_on d) s1
         else
           let d1 = (if action = GDB_DETACH then d\<lparr>do_debug := False\<rparr> else d)
           in ret (Returned (d1\<lparr>stub_of := s1\<lparr>gmem := load_regs t (regs e) (gmem s1)\<rparr>\<rparr>))))"

definition enable_debugger :: "dbg \<Rightarrow> dbg" where
  "enable_debugger d = d\<lparr>do_debug := True, serial_on := True\<rparr>"

subsection \<open>The screen of the registers\<close>

definition screen_base :: u32 where "screen_base = 0xb8000"

definition disp_hex :: "u8 list" where
  "disp_hex = [48, 49, 50, 51, 52, 53, 54, 55, 56, 57, 65, 66, 67, 68, 69, 70]"

fun hex_loop :: "nat \<Rightarrow> u32 \<Rightarrow> u32 \<Rightarrow> memory \<Rightarrow> memory" where
  "hex_loop 0 p value m = m"
| "hex_loop (Suc n) p value m =
     hex_loop n (p - 2) (drop_bit 4 value) (m(p - 2 := disp_hex ! unat (value AND 15)))"

definition write_hex :: "nat \<Rightarrow> nat \<Rightarrow> nat \<Rightarrow> u32 \<Rightarrow> memory \<Rightarrow> memory" where
  "write_hex line col n value m =
     hex_loop n (screen_base + of_nat ((line - 1) * 160 + (col + n - 1) * 2)) value m"

text \<open>The text of the screen, 25 lines of 80 characters and a newline, is at \<open>dump\<close>.\<close>

definition draw_form :: "u32 \<Rightarrow> memory \<Rightarrow> memory" where
  "draw_form dump m =
     (let m1 = fold (\<lambda>i m. fold (\<lambda>j m. m(screen_base + of_nat (i * 160 + j * 2) := m (dump + of_nat (81 * i + j))))
                 [0..<80] m) [0..<25] m;
          m2 = fold (\<lambda>i m. m(screen_base + of_nat (2 * i + 1) := 0x30)) [0..<2000] m1
      in fold (\<lambda>i m. m(screen_base + of_nat (2 * i + 1) := 0x34)) [161..<239] m2)"

text \<open>The fields of the registers, in the order they are written: line, column, digits and offset in \<open>struct x86_tss\<close>.\<close>

definition tss_fields :: "(nat \<times> nat \<times> nat \<times> nat) list" where
  "tss_fields = [(9, 69, 4, 0), (11, 11, 8, 56), (11, 32, 4, 80), (11, 52, 8, 4), (11, 74, 4, 8), (13, 11, 8, 12),
     (13, 32, 4, 16), (13, 52, 8, 20), (13, 74, 4, 24), (15, 15, 8, 32), (15, 41, 4, 76), (15, 66, 8, 36), (17, 10, 8, 40),
     (17, 30, 8, 52), (17, 50, 8, 44), (17, 70, 8, 48), (19, 10, 8, 64), (19, 30, 8, 68), (19, 50, 8, 60), (19, 72, 4, 96),
     (21, 12, 4, 84), (21, 32, 4, 72), (21, 52, 4, 88), (21, 72, 4, 92), (23, 30, 8, 28)]"

definition dump_registers :: "u32 \<Rightarrow> u32 \<Rightarrow> u32 \<Rightarrow> u32 \<Rightarrow> memory \<Rightarrow> memory" where
  "dump_registers dump trapno error_code t m =
     (let m1 = write_hex 9 21 8 t (write_hex 7 60 8 error_code (write_hex 7 21 2 trapno (draw_form dump m)));
          m2 = fold (\<lambda>(line, col, n, off) m. write_hex line col n (read32 (t + of_nat off) m) m) tss_fields m1
      in write_hex 23 70 1 (ucast (m2 (t + 100)) AND 1) m2)"

subsection \<open>Traps\<close>

text \<open>The \<open>movl\<close> of four bytes from the third byte of the descriptor on.\<close>

definition tss_sel_2_tss :: "u32 \<Rightarrow> u16 \<Rightarrow> memory \<Rightarrow> u32" where
  "tss_sel_2_tss gdtp sel m =
     (let pdesc = gdtp + 8 * ucast (drop_bit 3 sel);
          p = read32 (pdesc + 2) m AND 0xffffff
      in p + push_bit 24 (ucast (m (pdesc + 7))))"

text \<open>\<open>while (inb(0x60) == code);\<close>\<close>

partial_function (option) wait_key :: "(nat \<Rightarrow> u8) \<Rightarrow> u8 \<Rightarrow> dbg \<Rightarrow> dbg res" where
  "wait_key reads_60 code d =
     (let c = reads_60 (key_reads d); d1 = d\<lparr>key_reads := key_reads d + 1\<rparr>
      in if c = code then wait_key reads_60 code d1 else ret d1)"

definition on_mem :: "(memory \<Rightarrow> memory) \<Rightarrow> dbg \<Rightarrow> dbg" where
  "on_mem f d = d\<lparr>stub_of := (stub_of d)\<lparr>gmem := f (gmem (stub_of d))\<rparr>\<rparr>"

definition copy_screen :: "u32 \<Rightarrow> u32 \<Rightarrow> dbg \<Rightarrow> dbg" where
  "copy_screen dst src = on_mem (\<lambda>m. snd (memcpy dst src 4000 m))"

record trap_env =
  genv :: gdb_env
  cpu_cr0 :: u32
  video_mem :: u32
  dump_text :: u32

partial_function (option) trap_loop ::
  "(nat \<Rightarrow> u8) \<Rightarrow> (nat \<Rightarrow> u8) \<Rightarrow> trap_env \<Rightarrow> u32 \<Rightarrow> u32 \<Rightarrow> u32 \<Rightarrow> u8 \<Rightarrow> dbg \<Rightarrow> dbg run res" where
  "trap_loop inp reads_60 v trapno error_code t shown d =
     (let c = reads_60 (key_reads d); d1 = d\<lparr>key_reads := key_reads d + 1\<rparr> in
      if c = 0x39 then
        let shown1 = 1 - shown;
            d2 = (if shown1 \<noteq> 0 then on_mem (dump_registers (dump_text v) trapno error_code t) d1
                  else copy_screen screen_base (video_mem v) d1)
        in bindr (wait_key reads_60 0x39 d2) (\<lambda>d3. trap_loop inp reads_60 v trapno error_code t shown1 d3)
      else if c = 1 then reboot inp (serial_on d1) (stub_of d1)
      else if c = 0x17 then
        bindr (wait_key reads_60 0x17 (copy_screen screen_base (video_mem v) d1)) (\<lambda>d2. ret (Returned d2))
      else if c = 0x20 then
        bindr (wait_key reads_60 0x20 (copy_screen screen_base (video_mem v) d1)) (\<lambda>d2.
        debugger inp (cpu_cr0 v) (genv v) trapno t (enable_debugger d2))
      else trap_loop inp reads_60 v trapno error_code t shown d1)"

definition trap_handler ::
  "(nat \<Rightarrow> u8) \<Rightarrow> (nat \<Rightarrow> u8) \<Rightarrow> trap_env \<Rightarrow> u32 \<Rightarrow> u16 \<Rightarrow> u32 \<Rightarrow> u32 \<Rightarrow> dbg \<Rightarrow> dbg run res" where
  "trap_handler inp reads_60 v gdtp task trapno error_code d =
     (let m = gmem (stub_of d);
          t = tss_sel_2_tss gdtp (ucast (read32 (tss_sel_2_tss gdtp task m) m)) m
      in if do_debug d then debugger inp (cpu_cr0 v) (genv v) trapno t d
         else
           let d1 = copy_screen (video_mem v) screen_base d;
               d2 = on_mem (dump_registers (dump_text v) trapno error_code t) d1
           in trap_loop inp reads_60 v trapno error_code t 1 d2)"

end
