(* ===== verification/Gdb_Ok.thy ===== *)
theory Gdb_Ok
  imports Gdb_Serial
begin

text \<open>
  What the packets of the remote debugger mean: the text of the fragments, its run-length code as a
  debugger undoes it, and what \<open>putfrags\<close> and \<open>getpacket\<close> do in terms of them.
\<close>

subsection \<open>Hexadecimal digits\<close>

lemma nibble_cases:
  assumes "d < (16 :: u8)"
  obtains "d = 0" | "d = 1" | "d = 2" | "d = 3" | "d = 4" | "d = 5" | "d = 6" | "d = 7" | "d = 8" | "d = 9" |
    "d = 10" | "d = 11" | "d = 12" | "d = 13" | "d = 14" | "d = 15"
proof -
  have "unat d \<in> set [0..<16]" using assms by (simp add: word_less_nat_alt)
  also have "[0..<16] = [0, 1, 2, 3, 4, 5, 6, 7, 8, 9, 10, 11, 12, 13, 14, 15]" by (simp add: upt_rec)
  finally have "unat d \<in> {0, 1, 2, 3, 4, 5, 6, 7, 8, 9, 10, 11, 12, 13, 14, 15}" by (simp only: list.set)
  moreover have "d = of_nat (unat d)" by simp
  ultimately have "d \<in> {0, 1, 2, 3, 4, 5, 6, 7, 8, 9, 10, 11, 12, 13, 14, 15}"
    by (elim insertE emptyE; simp only: insert_iff) simp_all
  then show thesis using that by blast
qed

lemma nibble_ok: "d < 16 \<Longrightarrow> hex (nibble d) = uint d \<and> nibble d \<notin> {0, 35, 36, 42, 58, 125} \<and> nibble d < 128"
  by (erule nibble_cases) (simp_all add: nibble_def hexchars_def hex_def schar_def)

lemmas hex_nibble = nibble_ok [THEN conjunct1]
lemmas nibble_plain = nibble_ok [THEN conjunct2, THEN conjunct1]

lemma low_nibble: "b AND 0xf = take_bit 4 (b :: u8)"
proof -
  have "mask 4 = (0xf :: u8)" by (simp add: mask_eq_exp_minus_1)
  then show ?thesis by (simp add: take_bit_eq_mask)
qed

lemma nibble_low: "b AND 0xf < (16 :: u8)"
proof -
  have "take_bit 4 (unat b) < 2 ^ 4" by (rule take_bit_nat_less_exp)
  then show ?thesis by (simp add: low_nibble word_less_nat_alt unsigned_take_bit_eq)
qed

lemma nibble_high: "drop_bit 4 b < (16 :: u8)"
proof -
  have "unat b < 2 ^ LENGTH(8)" by (rule unsigned_less)
  then show ?thesis by (simp add: word_less_nat_alt unat_drop_bit_eq drop_bit_nat_def)
qed

text \<open>The text of bytes, two digits each.\<close>

definition hextext :: "u8 list \<Rightarrow> u8 list" where
  "hextext bs = concat (map (\<lambda>b. [nibble (drop_bit 4 b), nibble (b AND 0xf)]) bs)"

lemma hextext_simps [simp]:
  "hextext [] = []" "hextext (b # bs) = nibble (drop_bit 4 b) # nibble (b AND 0xf) # hextext bs"
  "hextext (xs @ ys) = hextext xs @ hextext ys" "length (hextext bs) = 2 * length bs"
  by (simp_all add: hextext_def, induction bs) simp_all

lemma hextext_plain: "c \<in> set (hextext bs) \<Longrightarrow> c \<notin> {0, 35, 36, 42, 58, 125}"
  using nibble_plain [OF nibble_low] nibble_plain [OF nibble_high] by (induction bs) auto

lemma hextext_run: "drop_bit 4 b = b AND 0xf \<Longrightarrow> hextext (replicate n b) = replicate (2 * n) (nibble (b AND 0xf))"
  by (induction n) simp_all

text \<open>The number of two digits.\<close>

lemma hex_pair: "push_bit 4 (hex (nibble (drop_bit 4 b))) OR hex (nibble (b AND 0xf)) = uint b"
proof -
  have "push_bit 4 (uint (drop_bit 4 b)) OR uint (take_bit 4 b) = uint b"
    by (rule bit_eqI) (auto simp: bit_simps)
  then show ?thesis using hex_nibble [OF nibble_low [of b]] hex_nibble [OF nibble_high [of b]] by (simp only: low_nibble)
qed

subsection \<open>Run-length code\<close>

text \<open>
  What a debugger reads: a character followed by \<open>*\<close> and a count stands for itself and
  \<open>count - 29\<close> more.
\<close>

fun unrun :: "u8 list \<Rightarrow> u8 list" where
  "unrun (c # d # n # rest) = (if d = 42 then replicate (unat n - 28) c @ unrun rest else c # unrun (d # n # rest))"
| "unrun xs = xs"

definition no_star :: "u8 list \<Rightarrow> bool" where
  "no_star xs \<longleftrightarrow> (case xs of [] \<Rightarrow> True | c # _ \<Rightarrow> c \<noteq> 42)"

lemma no_star_simps [simp]: "no_star []" "no_star (c # xs) \<longleftrightarrow> c \<noteq> 42"
  by (simp_all add: no_star_def)

lemma unrun_Cons: "no_star xs \<Longrightarrow> unrun (c # xs) = c # unrun xs"
proof (cases xs)
  case (Cons d ys)
  then show "no_star xs \<Longrightarrow> ?thesis" by (cases ys) simp_all
qed simp

text \<open>A piece of a packet that stands for some text, whatever comes behind it.\<close>

definition codes :: "u8 list \<Rightarrow> u8 list \<Rightarrow> bool" where
  "codes out txt \<longleftrightarrow> no_star out \<and> (\<forall>ys. no_star ys \<longrightarrow> no_star (out @ ys) \<and> unrun (out @ ys) = txt @ unrun ys)"

lemma codes_Nil: "codes [] []"
  by (simp add: codes_def)

lemma codes_append: "codes xs a \<Longrightarrow> codes ys b \<Longrightarrow> codes (xs @ ys) (a @ b)"
  by (auto simp: codes_def)

lemma codes_one: "c \<noteq> 42 \<Longrightarrow> codes [c] [c]"
  by (simp add: codes_def unrun_Cons)

lemma unat_of_nat_u8: "n < 256 \<Longrightarrow> unat (of_nat n :: u8) = n"
  by (simp add: unsigned_of_nat take_bit_nat_eq_self)

lemma codes_run:
  assumes "c \<noteq> 42" "rl \<le> 98" "0 < rl"
  shows "codes [c, 42, of_nat (29 + rl - 1)] (replicate rl c)"
proof -
  have "unat (of_nat (29 + rl - 1) :: u8) = 29 + rl - 1"
    by (rule unat_of_nat_u8) (use assms in simp)
  then have "unat (of_nat (29 + rl - 1) :: u8) - 28 = rl" using assms by simp
  then show ?thesis using assms by (simp add: codes_def)
qed

lemma codes_unrun: "codes out txt \<Longrightarrow> unrun out = txt"
  by (auto simp: codes_def dest: spec [of _ "[]"])

subsection \<open>The loop over a fragment\<close>

text \<open>Sending a list of characters.\<close>

definition sends :: "u8 list \<Rightarrow> gdb \<times> u8 \<Rightarrow> gdb \<times> u8" where
  "sends out = (\<lambda>(s, checksum). (s\<lparr>sent := sent s @ out\<rparr>, checksum + sum_list out))"

lemma sends_Nil [simp]: "sends [] x = x"
  by (cases x) (simp add: sends_def)

lemma SEND_sends: "SEND c x = sends [c] x"
  by (cases x) (simp add: SEND_def sends_def gdb_send_def)

lemma sends_sends: "sends ys (sends xs x) = sends (xs @ ys) x"
  by (cases x) (simp add: sends_def add.assoc)

definition text_of :: "bool \<Rightarrow> u8 list \<Rightarrow> u8 list" where
  "text_of hx bs = (if hx then hextext bs else bs)"

lemma run_length_ok:
  assumes "(if hx then 1 else 3) < length p" "p ! 1 = p ! 0" "\<not> hx \<longrightarrow> p ! 2 = p ! 0 \<and> p ! 3 = p ! 0"
  defines "q \<equiv> run_length hx p"
  shows "0 < q" "q \<le> length p" "q \<le> (if hx then 49 else 98)" "take q p = replicate q (p ! 0)"
proof -
  define q0 where "q0 = (if hx then 2 else 4 :: nat)"
  define lim where "lim = (if hx then 49 else 98 :: nat)"
  define t where "t = takeWhile (\<lambda>b. b = p ! 0) (drop q0 (take lim p))"
  have q: "q = q0 + length t" by (simp add: q_def run_length_def Let_def q0_def lim_def t_def)
  have q0: "q0 \<le> length p" "q0 \<le> lim" "0 < q0" using assms(1) by (auto simp: q0_def lim_def split: if_splits)
  have len: "length t \<le> length (drop q0 (take lim p))" unfolding t_def by (rule length_takeWhile_le)
  show "0 < q" "q \<le> length p" "q \<le> (if hx then 49 else 98)" using q q0 len by (auto simp: lim_def)
  have pre: "p ! i = p ! 0" if "i < q0" for i
  proof -
    have "i = 0 \<or> i = 1 \<or> \<not> hx \<and> (i = 2 \<or> i = 3)" using that by (auto simp: q0_def split: if_splits)
    then show ?thesis using assms(2,3) by auto
  qed
  define x where "x = p ! 0"
  have "p ! i = x" if "i < q" for i unfolding x_def
  proof (cases "i < q0")
    case False
    define j where "j = i - q0"
    have j: "j < length t" "i = q0 + j" using False that q by (simp_all add: j_def)
    have "t ! j \<in> set t" using j(1) by (rule nth_mem)
    then have "t ! j = p ! 0" unfolding t_def by (auto dest: set_takeWhileD)
    moreover have "t ! j = drop q0 (take lim p) ! j" using j(1) unfolding t_def by (rule takeWhile_nth)
    moreover have "drop q0 (take lim p) ! j = p ! i" using j len q0 by simp
    ultimately show "p ! i = p ! 0" by simp
  qed (rule pre)
  then show "take q p = replicate q (p ! 0)"
    unfolding x_def [symmetric] using \<open>q \<le> length p\<close> by (intro nth_equalityI) simp_all
qed

lemma frag_loop_ok: "hx \<or> 42 \<notin> set p \<Longrightarrow> \<exists>out. (\<forall>x. frag_loop hx p x = sends out x) \<and> codes out (text_of hx p)"
proof (induction p rule: length_induct)
  case (1 p)
  show ?case
  proof (cases p)
    case Nil
    then have "\<forall>x. frag_loop hx p x = sends [] x" using frag_loop.simps [of hx "[]"] by simp
    moreover have "codes [] (text_of hx p)" using codes_Nil Nil by (simp add: text_of_def)
    ultimately show ?thesis by (intro exI conjI)
  next
    case (Cons b rest)
    have c: "b \<noteq> 42" if "\<not> hx" using 1(2) Cons that by auto
    note step = frag_loop.simps [of hx "b # rest" x for x, unfolded list.case Let_def]
    let ?run = "(if hx then 1 else 3) < length p \<and> p ! 1 = p ! 0 \<and>
             (if hx then drop_bit 4 b = b AND 0xf else p ! 2 = b \<and> p ! 3 = b)"
    show ?thesis
    proof (cases ?run)
      case True
      define q where "q = run_length hx p"
      define ch where "ch = (if hx then nibble (b AND 0xf) else b)"
      define rl where "rl = (if hx then q * 2 else q)"
      have b: "p ! 0 = b" by (simp add: Cons)
      have eqs: "(if hx then 1 else 3) < length p" "p ! 1 = p ! 0" "\<not> hx \<longrightarrow> p ! 2 = p ! 0 \<and> p ! 3 = p ! 0"
        using True by (simp_all only: b if_False if_True simp_thms split: if_splits)
      note q = run_length_ok [OF eqs, folded q_def, unfolded b]
      have ch: "ch \<noteq> 42" using c nibble_plain [OF nibble_low, of b] by (auto simp: ch_def)
      have "hx \<or> 42 \<notin> set (drop q p)" using 1(2) by (auto dest: in_set_dropD)
      moreover have "length (drop q p) < length p" using q by simp
      ultimately obtain out where out: "\<And>x. frag_loop hx (drop q p) x = sends out x" "codes out (text_of hx (drop q p))"
        using 1(1) by blast
      have "frag_loop hx p x = sends ([ch, 42, of_nat (29 + rl - 1)] @ out) x" for x
      proof -
        have "frag_loop hx p x = frag_loop hx (drop q p) (SEND (of_nat (29 + rl - 1)) (SEND 42 (SEND ch x)))"
          unfolding q_def rl_def ch_def Cons by (rule trans [OF step if_P [OF True [unfolded Cons]]])
        then show ?thesis by (simp only: out(1) SEND_sends sends_sends append.simps)
      qed
      moreover have "codes ([ch, 42, of_nat (29 + rl - 1)] @ out) (replicate rl ch @ text_of hx (drop q p))"
        by (rule codes_append [OF codes_run out(2)]) (use ch q in \<open>auto simp: rl_def split: if_splits\<close>)
      moreover have "text_of hx p = replicate rl ch @ text_of hx (drop q p)"
      proof -
        have split: "replicate q b @ drop q p = p" by (subst q(4) [symmetric]) (rule append_take_drop_id)
        have "text_of hx (replicate q b @ drop q p) = text_of hx (replicate q b) @ text_of hx (drop q p)"
          by (simp add: text_of_def)
        moreover have "text_of hx (replicate q b) = replicate rl ch"
          using True hextext_run [of b q] by (simp add: text_of_def rl_def ch_def mult.commute)
        ultimately show ?thesis unfolding split by simp
      qed
      ultimately show ?thesis by metis
    next
      case False
      have "hx \<or> 42 \<notin> set rest" "length rest < length p" using 1(2) Cons by auto
      then obtain out where out: "\<And>x. frag_loop hx rest x = sends out x" "codes out (text_of hx rest)"
        using 1(1) by blast
      define cs where "cs = (if hx then [nibble (drop_bit 4 b), nibble (b AND 0xf)] else [b])"
      have "frag_loop hx p x = sends (cs @ out) x" for x
      proof -
        have "frag_loop hx p x =
          (if hx then frag_loop hx rest (SEND (nibble (b AND 0xf)) (SEND (nibble (drop_bit 4 b)) x))
           else frag_loop hx rest (SEND b x))"
          unfolding Cons by (rule trans [OF step if_not_P [OF False [unfolded Cons]]])
        then show ?thesis by (simp only: out(1) SEND_sends sends_sends cs_def append.simps split: if_split) blast
      qed
      moreover have "codes cs cs"
        using c codes_append [OF codes_one codes_one, of "nibble (drop_bit 4 b)" "nibble (b AND 0xf)"] codes_one
          nibble_plain [OF nibble_low, of b] nibble_plain [OF nibble_high, of b]
        by (auto simp: cs_def)
      moreover have "text_of hx p = cs @ text_of hx rest" by (simp add: Cons cs_def text_of_def)
      ultimately show ?thesis using codes_append [OF _ out(2), of cs cs] by metis
    qed
  qed
qed

subsection \<open>Packets\<close>

definition packet_text :: "outfrag list \<Rightarrow> u8 list" where
  "packet_text frags = concat (map (\<lambda>f. text_of (hexify f) (data f)) frags)"

definition plain_frags :: "outfrag list \<Rightarrow> bool" where
  "plain_frags frags \<longleftrightarrow> (\<forall>f\<in>set frags. hexify f \<or> 42 \<notin> set (data f))"

definition packet :: "u8 list \<Rightarrow> u8 list" where
  "packet body = 36 # body @ [35, nibble (drop_bit 4 (sum_list body)), nibble (sum_list body mod 16)]"

lemma frags_ok:
  "plain_frags frags \<Longrightarrow>
   \<exists>out. (\<forall>x. fold (\<lambda>f. frag_loop (hexify f) (data f)) frags x = sends out x) \<and> codes out (packet_text frags)"
proof (induction frags)
  case Nil
  have "\<forall>x. fold (\<lambda>f. frag_loop (hexify f) (data f)) [] x = sends [] x" by simp
  then show ?case using codes_Nil by (simp only: packet_text_def list.map concat.simps) blast
next
  case (Cons f frags)
  obtain out where out: "\<And>x. fold (\<lambda>f. frag_loop (hexify f) (data f)) frags x = sends out x" "codes out (packet_text frags)"
    using Cons by (auto simp: plain_frags_def)
  obtain o1 where o1: "\<And>x. frag_loop (hexify f) (data f) x = sends o1 x" "codes o1 (text_of (hexify f) (data f))"
    using frag_loop_ok [of "hexify f" "data f"] Cons.prems by (auto simp: plain_frags_def)
  have "fold (\<lambda>f. frag_loop (hexify f) (data f)) (f # frags) x = sends (o1 @ out) x" for x
    by (simp add: o1(1) out(1) sends_sends)
  moreover have "codes (o1 @ out) (packet_text (f # frags))"
    using codes_append [OF o1(2) out(2)] by (simp add: packet_text_def)
  ultimately show ?case by blast
qed

text \<open>\<open>k\<close> answers other than \<open>+\<close>, and then a \<open>+\<close>.\<close>

definition acked :: "(nat \<Rightarrow> u8) \<Rightarrow> nat \<Rightarrow> nat \<Rightarrow> bool" where
  "acked inp n k \<longleftrightarrow> (\<forall>i<k. inp (n + i) AND 0x7f \<noteq> 43) \<and> inp (n + k) AND 0x7f = 43"

lemma putfrags_turn:
  assumes "\<And>x. fold (\<lambda>f. frag_loop (hexify f) (data f)) frags x = sends out x"
  shows "putfrags inp frags s =
    (let s1 = s\<lparr>sent := sent s @ packet out, received := received s + 1\<rparr>
     in if inp (received s) AND 0x7f \<noteq> 43 then putfrags inp frags s1 else ret s1)"
  by (subst putfrags.simps)
    (simp add: assms sends_def Let_def gdb_send_def gdb_recv_def packet_def case_prod_beta)

lemma putfrags_acked:
  assumes "\<And>x. fold (\<lambda>f. frag_loop (hexify f) (data f)) frags x = sends out x"
  shows "acked inp (received s) k \<Longrightarrow> putfrags inp frags s =
    ret (s\<lparr>sent := sent s @ concat (replicate (Suc k) (packet out)), received := received s + Suc k\<rparr>)"
proof (induction k arbitrary: s)
  case 0
  then show ?case using putfrags_turn [OF assms, where inp = inp and s = s] by (simp add: acked_def Let_def)
next
  case (Suc k)
  let ?s1 = "s\<lparr>sent := sent s @ packet out, received := received s + 1\<rparr>"
  have "inp (received s) AND 0x7f \<noteq> 43" using Suc.prems by (auto simp: acked_def dest: spec [of _ 0])
  moreover have "acked inp (received ?s1) k" using Suc.prems by (auto simp: acked_def dest: spec [of _ "Suc _"])
  ultimately show ?case using putfrags_turn [OF assms, where inp = inp and s = s] Suc.IH [of ?s1] by (simp add: Let_def)
qed

theorem putfrags_ok:
  assumes "plain_frags frags" "acked inp (received s) k"
  shows "\<exists>body. unrun body = packet_text frags \<and>
    putfrags inp frags s = ret (s\<lparr>sent := sent s @ concat (replicate (Suc k) (packet body)), received := received s + Suc k\<rparr>)"
  using frags_ok [OF assms(1)] putfrags_acked [OF _ assms(2)] codes_unrun by blast

subsection \<open>Receiving a packet\<close>

definition comes :: "(nat \<Rightarrow> u8) \<Rightarrow> nat \<Rightarrow> u8 list \<Rightarrow> bool" where
  "comes inp n bs \<longleftrightarrow> (\<forall>i<length bs. inp (n + i) = bs ! i)"

lemma comes_Nil [simp]: "comes inp n []"
  by (simp add: comes_def)

lemma comes_Cons: "comes inp n (b # bs) \<longleftrightarrow> inp n = b \<and> comes inp (Suc n) bs"
proof
  assume c: "inp n = b \<and> comes inp (Suc n) bs"
  show "comes inp n (b # bs)" unfolding comes_def
  proof (intro allI impI)
    fix i assume "i < length (b # bs)"
    then show "inp (n + i) = (b # bs) ! i" using c by (cases i) (auto simp: comes_def)
  qed
qed (auto simp: comes_def dest: spec [of _ 0] spec [of _ "Suc _"])

lemma comes_append: "comes inp n (xs @ ys) \<longleftrightarrow> comes inp n xs \<and> comes inp (n + length xs) ys"
  by (induction xs arbitrary: n) (simp_all add: comes_Cons)

lemma wait_start_ok:
  "\<forall>b\<in>set junk. b AND 0x7f \<noteq> 36 \<Longrightarrow> comes inp (received s) (junk @ [36]) \<Longrightarrow>
   wait_start inp s = ret (s\<lparr>received := received s + length junk + 1\<rparr>)"
proof (induction junk arbitrary: s)
  case Nil
  then show ?case by (subst wait_start.simps) (simp add: comes_Cons gdb_recv_def)
next
  case (Cons b junk)
  then show ?case
    using Cons.IH [of "s\<lparr>received := received s + 1\<rparr>"]
    by (subst wait_start.simps) (simp add: comes_Cons gdb_recv_def)
qed

lemma packet_body_ok:
  assumes "35 \<notin> set bs" "length bs < room" "comes inp (received s) (bs @ [35])"
    "bs = [] \<longrightarrow> count = 0 \<or> gmem s (buffer + of_nat (count - 1)) \<noteq> 0x7d" "bs \<noteq> [] \<longrightarrow> last bs \<noteq> 0x7d"
  shows "packet_body inp buffer room count ck ch s =
    (count + length bs, ck + sum_list bs, 35,
     s\<lparr>gmem := poke (gmem s) (buffer + of_nat count) bs, received := received s + length bs + 1\<rparr>)"
  using assms
proof (induction bs arbitrary: room count ck ch s)
  case Nil
  then obtain r where "room = Suc r" by (cases room) auto
  then show ?case using Nil by (simp add: comes_Cons gdb_recv_def)
next
  case (Cons b bs)
  obtain r where r: "room = Suc r" using Cons.prems by (cases room) auto
  let ?s = "s\<lparr>received := received s + 1, gmem := (gmem s)(buffer + of_nat count := b)\<rparr>"
  have "packet_body inp buffer r (count + 1) (ck + b) b ?s =
    (count + 1 + length bs, ck + b + sum_list bs, 35,
     ?s\<lparr>gmem := poke (gmem ?s) (buffer + of_nat (count + 1)) bs, received := received ?s + length bs + 1\<rparr>)"
    by (rule Cons.IH) (use Cons.prems r in \<open>auto simp: comes_Cons split: if_splits\<close>)
  then show ?case using Cons.prems r by (simp add: comes_Cons gdb_recv_def ac_simps)
qed

text \<open>The packet a debugger sends: its two digits are those of the checksum.\<close>

lemma packet_digits:
  "word_of_int (push_bit 4 (hex (nibble (drop_bit 4 ck)))) + word_of_int (hex (nibble (ck mod 16))) = (ck :: u8)"
proof -
  have t: "take_bit LENGTH(8) (uint ck) = uint ck"
    by (rule take_bit_int_eq_self) (rule unsigned_greater_eq unsigned_less)+
  have m: "ck mod 16 = take_bit 4 ck" by (simp add: take_bit_eq_mod)
  have "push_bit 4 (hex (nibble (drop_bit 4 ck))) + hex (nibble (ck mod 16)) = push_bit 4 (uint (drop_bit 4 ck)) + uint (take_bit 4 ck)"
    using hex_nibble [OF nibble_high [of ck]] hex_nibble [OF nibble_low [of ck]] by (simp only: m low_nibble)
  also have "\<dots> = uint ck"
    using bits_ident [of 4 "uint ck"] by (simp add: unsigned_drop_bit_eq unsigned_take_bit_eq t [simplified])
  finally show ?thesis by (metis of_int_add word_of_int_uint)
qed

text \<open>The buffer with a packet in it.\<close>

definition filled :: "memory \<Rightarrow> u32 \<Rightarrow> u8 list \<Rightarrow> memory" where
  "filled m buffer bs = (poke m buffer bs)(buffer + of_nat (length bs) := 0)"

lemma filled_poke: "filled m buffer bs = poke m buffer (bs @ [0])"
  by (simp add: filled_def poke_append)

lemma filled_third:
  assumes "2 < length bs" "length bs < BUFMAX"
  shows "filled m buffer bs (buffer + 2) = bs ! 2"
  using poke_inside [of 2 "bs @ [0]" m buffer] assms by (simp add: filled_poke BUFMAX_def nth_append)

lemma getpacket_ok:
  assumes junk: "\<forall>b\<in>set junk. b AND 0x7f \<noteq> 36"
    and bs: "35 \<notin> set bs" "length bs < BUFMAX" "bs \<noteq> [] \<longrightarrow> last bs \<noteq> 0x7d" "filled (gmem s) buffer bs (buffer + 2) \<noteq> 58"
    and stream: "comes inp (received s) (junk @ packet bs)"
  shows "getpacket inp buffer s =
    ret (s\<lparr>gmem := filled (gmem s) buffer bs, sent := sent s @ [43],
           received := received s + length junk + length bs + 4\<rparr>)"
proof -
  let ?ck = "sum_list bs"
  define s1 where "s1 = s\<lparr>received := received s + length junk + 1\<rparr>"
  have st: "comes inp (received s) (junk @ [36])" "comes inp (received s1) (bs @ [35])"
    "inp (received s1 + length bs + 1) = nibble (drop_bit 4 ?ck)" "inp (received s1 + length bs + 2) = nibble (?ck mod 16)"
    using stream by (auto simp: packet_def comes_append comes_Cons s1_def)
  define s2 where "s2 = s1\<lparr>gmem := poke (gmem s1) buffer bs, received := received s1 + length bs + 1\<rparr>"
  have body: "packet_body inp buffer BUFMAX 0 0 36 s1 = (length bs, ?ck, 35, s2)"
    using packet_body_ok [OF bs(1,2) st(2), of 0 buffer 0 36] bs(3) by (simp add: s2_def)
  define s3 where "s3 = s2\<lparr>gmem := (gmem s2)(buffer + of_nat (length bs) := 0)\<rparr>"
  have "gmem s3 = filled (gmem s) buffer bs" by (simp add: s3_def s2_def s1_def filled_def)
  then have "gmem s3 (buffer + 2) \<noteq> 58" using bs(4) by simp
  then have pe: "packet_end inp buffer ?ck 35 s3 = ret (?ck, gdb_send 43 (s3\<lparr>received := received s3 + 2\<rparr>))"
    using st(3,4) packet_digits [of ?ck]
    by (simp add: packet_end_def gdb_recv_def Let_def s3_def s2_def gdb_send_def)
  have ws: "wait_start inp s = ret s1" unfolding s1_def by (rule wait_start_ok [OF junk st(1)])
  have "getpacket inp buffer s = ret (gdb_send 43 (s3\<lparr>received := received s3 + 2\<rparr>))"
    by (subst getpacket.simps) (simp add: ws body s3_def [symmetric] pe)
  then show ?thesis by (simp add: s3_def s2_def s1_def gdb_send_def filled_def)
qed

end
