(* ===== verification/Gdb_Cmds.thy ===== *)
theory Gdb_Cmds
  imports Gdb_Ok Sprintf_Ok
begin

text \<open>
  The commands of the remote debugger on registers and memory: a turn of the loop from the packet
  on the line to the answer, and what it does to the memory.
\<close>

subsection \<open>Hexadecimal data\<close>

lemma hex2bin_ok:
  assumes "holds m p (hextext bs)" "disjoint p (2 * length bs) out (length bs)" "length bs < 2 ^ 31"
  shows "hex2bin (length bs) p out m = (0, poke m out bs)"
  using assms
proof (induction bs arbitrary: p out m)
  case Nil
  then show ?case by simp
next
  case (Cons b bs)
  have h: "m p = nibble (drop_bit 4 b)" "m (p + 1) = nibble (b AND 0xf)" "holds m (p + 2) (hextext bs)"
    using Cons.prems(1) by (simp_all add: add.assoc)
  have d: "disjoint (p + of_nat 2) (2 * length bs) out (length (b # bs))"
    using disjoint_shift [of p 2 "2 * length bs" out "length (b # bs)"] Cons.prems(2) by simp
  have d2: "disjoint (p + 2) (2 * length bs) (out + 1) (length bs)"
    using disjoint_shift [of out 1 "length bs" "p + 2" "2 * length bs"] d by (simp add: disjoint_commute)
  have "holds (m(out := b)) (p + 2) (hextext bs)"
    using holds_poke_other [of "p + 2" "hextext bs" out "[b]" m] d h(3) disjoint_less [OF d, of "2 * length bs" 1] by simp
  then have "hex2bin (length bs) (p + 2) (out + 1) (m(out := b)) = (0, poke (m(out := b)) (out + 1) bs)"
    using Cons.IH d2 Cons.prems(3) by simp
  then show ?case using hex_pair [of b] by (simp add: h Let_def)
qed

lemma number_in_ok:
  assumes "holds m p (digits 16 (unat u) @ [c])" "digit_of 16 c = None" "c \<notin> {120, 88}"
  shows "number_in m p = ret (u, p + of_nat (length (digits 16 (unat u))))"
  using strtoul_text [of m p 16 u c "Some 0"] assms by (simp add: number_in_def)

subsection \<open>Copies without paging\<close>

lemma lookup_off: "cr0 AND 0x80000000 = 0 \<Longrightarrow> phys_addr_lookup cr0 cr3 m v pa = (v, 0xffffffff)"
  by (simp add: phys_addr_lookup_def)

lemma gdb_copyin_off:
  assumes "cr0 AND 0x80000000 = 0"
  shows "gdb_copyin cr0 cr3 pa src dest n m = ret (0, if n = 0 then m else snd (memcpy dest src n m))"
proof -
  have "n \<le> 0xffffffff" using unat_less_u32 [of n] by (simp add: word_le_nat_alt)
  then have "(if 0xffffffff > n then n else 0xffffffff) = n" by (auto simp: not_less)
  moreover have "gdb_copyin cr0 cr3 pa src dest 0 m = ret (0, m)" for pa src dest m
    by (subst gdb_copyin.simps) simp
  ultimately show ?thesis by (subst gdb_copyin.simps) (simp add: lookup_off [OF assms])
qed

lemma gdb_copyout_off:
  assumes "cr0 AND 0x80000000 = 0"
  shows "gdb_copyout cr0 cr3 pa src dest n m = ret (0, if n = 0 then m else snd (memcpy dest src n m))"
proof -
  have "n \<le> 0xffffffff" using unat_less_u32 [of n] by (simp add: word_le_nat_alt)
  then have "(if 0xffffffff > n then n else 0xffffffff) = n" by (auto simp: not_less)
  moreover have "gdb_copyout cr0 cr3 pa src dest 0 m = ret (0, m)" for pa src dest m
    by (subst gdb_copyout.simps) simp
  ultimately show ?thesis by (subst gdb_copyout.simps) (simp add: lookup_off [OF assms])
qed

lemma memcpy_poke:
  assumes "disjoint src (unat n) dest (unat n)"
  shows "memcpy dest src n m = (dest, poke m dest (mem_bytes m src (unat n)))"
proof -
  have "apart dest src (unat n)" using assms by (auto simp: apart_def disjoint_def) metis
  then show ?thesis using memcpy_blit poke_blit [OF unat_le_32] by simp
qed

subsection \<open>A turn\<close>

definition asked :: "gdb_env \<Rightarrow> u8 list \<Rightarrow> stub \<Rightarrow> stub" where
  "asked e bs s = s\<lparr>gmem := filled (gmem s) (inbuf e) bs, sent := sent s @ [43],
     received := received s + length bs + 4, connected := True\<rparr>"

lemma converse_turn_ok:
  assumes "35 \<notin> set bs" "length bs < BUFMAX" "bs \<noteq> [] \<longrightarrow> last bs \<noteq> 0x7d"
    "filled (gmem s) (inbuf e) bs (inbuf e + 2) \<noteq> 58" "comes inp (received s) (packet bs)"
  shows "converse_turn inp e cb s =
    bindr (dispatch inp e cb (asked e bs s)) (\<lambda>(r, retval, s2).
    bindr (answer inp r s2) (\<lambda>s3. ret (retval, s3)))"
proof -
  have "getpacket inp (inbuf e) (gdb.truncate s) =
    ret (gdb.truncate s\<lparr>gmem := filled (gmem s) (inbuf e) bs, sent := sent s @ [43],
           received := received s + length bs + 4\<rparr>)"
    using getpacket_ok [of "[]" bs "gdb.truncate s" "inbuf e" inp] assms by (simp add: gdb.truncate_def)
  then show ?thesis
    by (simp add: converse_turn_def with_gdb_def asked_def) 
qed

lemma putpacket_ok:
  assumes "plain_frags frags" "acked inp (received s) 0"
  shows "\<exists>body. unrun body = packet_text frags \<and>
    putpacket inp frags s = ret (s\<lparr>sent := sent s @ packet body, received := received s + 1\<rparr>)"
proof -
  have "acked inp (received (gdb.truncate s)) 0" using assms(2) by (simp add: gdb.truncate_def)
  then obtain body where b: "unrun body = packet_text frags"
    "putfrags inp frags (gdb.truncate s) =
      ret (gdb.truncate s\<lparr>sent := sent (gdb.truncate s) @ packet body, received := received (gdb.truncate s) + 1\<rparr>)"
    using putfrags_ok [OF assms(1), of inp "gdb.truncate s" 0] by auto
  then show ?thesis by (auto simp: putpacket_def with_gdb_def gdb.truncate_def intro!: exI [of _ body])
qed

lemma filled_holds: "length bs < BUFMAX \<Longrightarrow> holds (filled m p bs) p (bs @ [0])"
  using holds_poke [of "bs @ [0]" m p] by (simp add: filled_poke BUFMAX_def)

lemma filled_outside: "length bs < n \<Longrightarrow> n \<le> unat (a - p) \<Longrightarrow> filled m p bs a = m a"
  by (simp add: filled_poke poke_outside)

text \<open>The answer "OK".\<close>

lemma answer_Ok:
  assumes "acked inp (received s) 0"
  shows "\<exists>body. unrun body = [79, 75] \<and>
    answer inp Ok s = ret (s\<lparr>sent := sent s @ packet body, received := received s + 1\<rparr>)"
  using putpacket_ok [of "[lit ''OK'']" inp s] assms by (simp add: answer_def plain_frags_def lit_def packet_text_def text_of_def)

subsection \<open>Registers\<close>

lemma cmd_G_ok:
  assumes "holds (gmem s) (inbuf e + 1) (hextext bs)" "length bs = 64" "disjoint (inbuf e) 401 (regs e) 64"
  shows "cmd_G e s = ret (Ok, s\<lparr>gmem := poke (gmem s) (regs e) bs, regs_changed := True\<rparr>)"
proof -
  have "disjoint (inbuf e + of_nat 1) 400 (regs e) 64"
    by (rule disjoint_shift) (use assms(3) in simp)
  then have "disjoint (inbuf e + 1) (2 * length bs) (regs e) (length bs)"
    using disjoint_less [of "inbuf e + 1" 400 "regs e" 64 128 64] assms(2) by simp
  then have "hex2bin (length bs) (inbuf e + 1) (regs e) (gmem s) = (0, poke (gmem s) (regs e) bs)"
    using hex2bin_ok [OF assms(1)] assms(2) by simp
  then show ?thesis using assms(2) by (simp add: cmd_G_def sizeof_state_def)
qed

lemma cmd_g_ok:
  assumes "acked inp (received s) 0"
  shows "\<exists>body. unrun body = hextext (mem_bytes (gmem s) (regs e) 64) \<and>
    cmd_g inp e s = ret (Break, s\<lparr>sent := sent s @ packet body, received := received s + 1\<rparr>)"
proof -
  let ?f = "\<lparr>data = mem_bytes (gmem s) (regs e) sizeof_state, hexify = True\<rparr>"
  have "plain_frags [?f]" "packet_text [?f] = hextext (mem_bytes (gmem s) (regs e) 64)"
    by (simp_all add: plain_frags_def packet_text_def text_of_def sizeof_state_def)
  then show ?thesis using putpacket_ok [of "[?f]" inp s] assms by (auto simp: cmd_g_def)
qed

subsection \<open>Memory\<close>

text \<open>The text "addr,len" with the character that ends it.\<close>

definition range_text :: "u32 \<Rightarrow> u32 \<Rightarrow> u8 list" where
  "range_text addr len = digits 16 (unat addr) @ [44] @ digits 16 (unat len)"

lemma range_read:
  assumes "holds m p (range_text addr len @ [c])" "digit_of 16 c = None" "c \<notin> {120, 88}"
  obtains q where "number_in m p = ret (addr, q)" "q \<noteq> p" "m q = 44" "number_in m (q + 1) = ret (len, p + of_nat (length (range_text addr len)))"
    "p + of_nat (length (range_text addr len)) \<noteq> q + 1" "m (p + of_nat (length (range_text addr len))) = c"
proof -
  let ?A = "digits 16 (unat addr)" and ?L = "digits 16 (unat len)"
  define q where "q = p + of_nat (length ?A)"
  have h: "holds m p (?A @ [44])" "m q = 44" "holds m (q + 1) (?L @ [c])"
    using assms(1) by (simp_all add: range_text_def holds_append q_def add.assoc)
  have comma: "digit_of 16 44 = None" "(44 :: u8) \<notin> {120, 88}" by (simp_all add: digit_of_def schar_def)
  have ne: "r + of_nat (length (digits 16 (unat u))) \<noteq> r" for r u :: u32
  proof -
    have l: "digits 16 (unat u) \<noteq> []" "length (digits 16 (unat u)) \<le> 32"
      using digits_short [of 16 u] by (simp_all add: digits.simps [of 16 "unat u"])
    then have "unat (of_nat (length (digits 16 (unat u))) :: u32) = length (digits 16 (unat u))"
      by (intro unat_of_nat_u32) simp
    then show ?thesis using l by auto
  qed
  have e: "q + 1 + of_nat (length ?L) = p + of_nat (length (range_text addr len))"
    by (simp add: range_text_def q_def add.assoc add.commute add.left_commute)
  show ?thesis
  proof (rule that [of q])
    show "number_in m p = ret (addr, q)" unfolding q_def by (rule number_in_ok [OF h(1) comma])
    show "q \<noteq> p" using ne by (simp add: q_def)
    show "m q = 44" by (rule h(2))
    show "number_in m (q + 1) = ret (len, p + of_nat (length (range_text addr len)))"
      using number_in_ok [OF h(3) assms(2,3)] by (simp only: e)
    show "p + of_nat (length (range_text addr len)) \<noteq> q + 1" using ne [of "q + 1" len] by (simp only: e) simp
    show "m (p + of_nat (length (range_text addr len))) = c" using assms(1) by (simp add: holds_append)
  qed
qed

lemma cmd_m_ok:
  assumes "holds (gmem s) (inbuf e + 1) (range_text addr len @ [0])" "client_cr0 e AND 0x80000000 = 0"
    "0 < unat len" "unat len \<le> 200" "disjoint addr (unat len) (inbuf e) (unat len)" "acked inp (received s) 0"
  shows "\<exists>body. unrun body = hextext (mem_bytes (gmem s) addr (unat len)) \<and>
    cmd_m inp e s = ret (Break, s\<lparr>gmem := poke (gmem s) (inbuf e) (mem_bytes (gmem s) addr (unat len)),
      sent := sent s @ packet body, received := received s + 1\<rparr>)"
proof -
  obtain q where q: "number_in (gmem s) (inbuf e + 1) = ret (addr, q)" "q \<noteq> inbuf e + 1" "gmem s q = 44"
    "number_in (gmem s) (q + 1) = ret (len, inbuf e + 1 + of_nat (length (range_text addr len)))"
    "inbuf e + 1 + of_nat (length (range_text addr len)) \<noteq> q + 1"
    by (rule range_read [OF assms(1)]) (auto simp: digit_of_def schar_def)
  let ?bs = "mem_bytes (gmem s) addr (unat len)"
  have len: "len \<noteq> 0" "\<not> len * 2 > of_nat BUFMAX"
  proof -
    show "len \<noteq> 0" using assms(3) by auto
    have "unat (of_nat (unat len * 2) :: u32) = unat len * 2" by (rule unat_of_nat_u32) (use assms(4) in simp)
    then have "unat (len * 2) = unat len * 2" by simp
    then show "\<not> len * 2 > of_nat BUFMAX" using assms(4) by (simp add: word_less_nat_alt BUFMAX_def)
  qed
  have copy: "gdb_copyin (client_cr0 e) (client_cr3 e) (junk_pa e) addr (inbuf e) len (gmem s) = ret (0, poke (gmem s) (inbuf e) ?bs)"
    using len(1) by (simp add: gdb_copyin_off [OF assms(2)] memcpy_poke [OF assms(5)])
  have buf: "mem_bytes (poke (gmem s) (inbuf e) ?bs) (inbuf e) (unat len) = ?bs"
    using mem_bytes_poke [of ?bs "gmem s" "inbuf e"] unat_le_32 by simp
  let ?s = "s\<lparr>gmem := poke (gmem s) (inbuf e) ?bs\<rparr>" and ?f = "\<lparr>data = ?bs, hexify = True\<rparr>"
  have "plain_frags [?f]" "packet_text [?f] = hextext ?bs" by (simp_all add: plain_frags_def packet_text_def text_of_def)
  then obtain body where "unrun body = hextext ?bs"
    "putpacket inp [?f] ?s = ret (?s\<lparr>sent := sent ?s @ packet body, received := received ?s + 1\<rparr>)"
    using putpacket_ok [of "[?f]" inp ?s] assms(6) by auto
  then show ?thesis using len by (auto simp: cmd_m_def q copy mem_frag_def buf)
qed

lemma cmd_M_ok:
  assumes "holds (gmem s) (inbuf e + 1) (range_text addr (of_nat (length bs)) @ [58] @ hextext bs)"
    "client_cr0 e AND 0x80000000 = 0" "unat (inbuf e) + BUFMAX < 2 ^ 32"
    "1 + length (range_text addr (of_nat (length bs))) + 1 + 2 * length bs \<le> BUFMAX"
    "disjoint (outbuf e) (length bs) (inbuf e) 401" "disjoint (outbuf e) (length bs) addr (length bs)"
  shows "cmd_M e s = ret (Ok, s\<lparr>gmem := poke (poke (gmem s) (outbuf e) bs) addr bs\<rparr>)"
proof -
  let ?len = "of_nat (length bs) :: u32" and ?R = "range_text addr (of_nat (length bs))"
  have colon: "digit_of 16 58 = None" "(58 :: u8) \<notin> {120, 88}" by (simp_all add: digit_of_def schar_def)
  have h: "holds (gmem s) (inbuf e + 1) (?R @ [58])"
    "holds (gmem s) (inbuf e + 1 + of_nat (length ?R) + 1) (hextext bs)"
    using assms(1) by (simp_all add: holds_append add.assoc)
  obtain q where q: "number_in (gmem s) (inbuf e + 1) = ret (addr, q)" "q \<noteq> inbuf e + 1" "gmem s q = 44"
    "number_in (gmem s) (q + 1) = ret (?len, inbuf e + 1 + of_nat (length ?R))"
    "inbuf e + 1 + of_nat (length ?R) \<noteq> q + 1" "gmem s (inbuf e + 1 + of_nat (length ?R)) = 58"
    by (rule range_read [OF h(1) colon])
  have len: "length bs \<le> 200" "unat ?len = length bs"
    using assms(4) by (simp_all add: BUFMAX_def unat_of_nat_u32)
  let ?k = "1 + length ?R + 1"
  have at: "inbuf e + 1 + of_nat (length ?R) + 1 = inbuf e + of_nat ?k" by simp
  have "\<not> inbuf e + of_nat (?k + 2 * length bs) > inbuf e + of_nat BUFMAX"
  proof -
    have "unat (of_nat (unat (inbuf e) + j) :: u32) = unat (inbuf e) + j" if "j \<le> BUFMAX" for j
      by (rule unat_of_nat_u32) (use that assms(3) in simp)
    then have "unat (inbuf e + of_nat j) = unat (inbuf e) + j" if "j \<le> BUFMAX" for j using that by simp
    from this [of "?k + 2 * length bs"] this [of BUFMAX] assms(4) show ?thesis by (simp only: word_less_nat_alt)
  qed
  moreover have "inbuf e + 1 + of_nat (length ?R) + 1 + ?len * 2 = inbuf e + of_nat (?k + 2 * length bs)"
    by (simp add: mult.commute)
  ultimately have fits: "\<not> inbuf e + 1 + of_nat (length ?R) + 1 + ?len * 2 > inbuf e + of_nat BUFMAX" by (simp only: not_False_eq_True)
  have "disjoint (inbuf e + of_nat ?k) (401 - ?k) (outbuf e) (length bs)"
    by (rule disjoint_shift) (use assms(4,5) in \<open>simp add: disjoint_commute BUFMAX_def\<close>)
  then have "disjoint (inbuf e + of_nat ?k) (2 * length bs) (outbuf e) (length bs)"
    by (rule disjoint_less) (use assms(4) in \<open>simp_all add: BUFMAX_def\<close>)
  then have hx: "hex2bin (length bs) (inbuf e + 1 + of_nat (length ?R) + 1) (outbuf e) (gmem s) = (0, poke (gmem s) (outbuf e) bs)"
    using hex2bin_ok [OF h(2), of "outbuf e"] len(1) by (simp only: at) simp
  have "mem_bytes (poke (gmem s) (outbuf e) bs) (outbuf e) (length bs) = bs"
    by (rule mem_bytes_poke) (use len in simp)
  then have copy: "gdb_copyout (client_cr0 e) (client_cr3 e) (junk_pa e) (outbuf e) addr ?len (poke (gmem s) (outbuf e) bs) =
    ret (0, poke (poke (gmem s) (outbuf e) bs) addr bs)"
    using memcpy_poke [of "outbuf e" ?len addr "poke (gmem s) (outbuf e) bs"] assms(6) len(2)
    by (cases "bs = []") (auto simp: gdb_copyout_off [OF assms(2)])
  show ?thesis
    using q(2,3,5,6) fits by (simp only: cmd_M_def q(1,4) bindr_ret prod.case if_False simp_thms len(2) hx Let_def) (simp add: copy)
qed

subsection \<open>Turns of the loop\<close>

lemma range_text_plain: "c \<in> set (range_text addr len) \<Longrightarrow> c \<notin> {0, 35, 58, 0x7d}"
proof -
  have "dig k \<notin> {0, 35, 58, 0x7d}" if "k < 16" for k using dval_dig [OF that] by auto
  then have "c \<in> set (digits 16 n) \<Longrightarrow> c \<notin> {0, 35, 58, 0x7d}" for n using digits_set [of 16 c n] by auto
  then show "c \<in> set (range_text addr len) \<Longrightarrow> c \<notin> {0, 35, 58, 0x7d}" by (auto simp: range_text_def)
qed

lemma range_text_length: "3 \<le> length (range_text addr len)" "length (range_text addr len) \<le> 65"
proof -
  have "0 < length (digits 16 n)" for n by simp
  from this [of "unat addr"] this [of "unat len"] show "3 \<le> length (range_text addr len)"
    unfolding range_text_def by (simp del: length_greater_0_conv)
  show "length (range_text addr len) \<le> 65"
    using digits_short [of 16 addr] digits_short [of 16 len] by (simp add: range_text_def)
qed

lemma asked_holds: "length bs < BUFMAX \<Longrightarrow> holds (gmem (asked e bs s)) (inbuf e) (bs @ [0])"
  by (simp add: asked_def filled_holds)

lemma asked_outside:
  assumes "disjoint a n (inbuf e) 401" "length bs < BUFMAX"
  shows "mem_bytes (gmem (asked e bs s)) a n = mem_bytes (gmem s) a n"
  by (rule mem_bytes_cong)
    (use assms(2) disjoint_outside [OF assms(1)] in \<open>auto simp: asked_def BUFMAX_def intro!: filled_outside [of bs 401]\<close>)

text \<open>A packet of at least three bytes; its third byte must not be the colon of a sequence number.\<close>

lemma turn_dispatches:
  assumes "35 \<notin> set bs" "length bs < BUFMAX" "last bs \<noteq> 0x7d" "2 < length bs" "bs ! 2 \<noteq> 58"
    "comes inp (received s) (packet bs)"
  shows "converse_turn inp e cb s =
    bindr (dispatch inp e cb (asked e bs s)) (\<lambda>(r, retval, s2).
    bindr (answer inp r s2) (\<lambda>s3. ret (retval, s3)))"
  using converse_turn_ok [OF assms(1,2) _ _ assms(6)] assms filled_third [of bs] by simp

lemma turn_answers_Ok:
  assumes "converse_turn inp e cb s =
      bindr (dispatch inp e cb (asked e bs s)) (\<lambda>(r, retval, s2). bindr (answer inp r s2) (\<lambda>s3. ret (retval, s3)))"
    and "dispatch inp e cb (asked e bs s) = ret (Ok, a, s2)" "received s2 = received s + length bs + 4"
    and "acked inp (received s + length bs + 4) 0"
  shows "\<exists>body. unrun body = [79, 75] \<and>
    converse_turn inp e cb s = ret (a, s2\<lparr>sent := sent s2 @ packet body, received := received s2 + 1\<rparr>)"
  using answer_Ok [of inp s2] assms by auto

lemma comes_acked: "comes inp n (xs @ 43 # ys) \<Longrightarrow> acked inp (n + length xs) 0"
  by (simp add: comes_append comes_Cons acked_def)

lemma comes_take: "comes inp n (xs @ ys) \<Longrightarrow> comes inp n xs"
  by (simp add: comes_append)

lemma length_packet [simp]: "length (packet bs) = length bs + 4"
  by (simp add: packet_def)

text \<open>The commands on whole packets.\<close>

lemma turn_G:
  assumes "length bs = 64" "disjoint (inbuf e) 401 (regs e) 64"
    and "comes inp (received s) (packet (71 # hextext bs) @ [43])"
  shows "\<exists>body. unrun body = [79, 75] \<and> converse_turn inp e cb s = ret (GDB_MORE,
    s\<lparr>gmem := poke (filled (gmem s) (inbuf e) (71 # hextext bs)) (regs e) bs, sent := sent s @ [43] @ packet body,
      received := received s + 134, connected := True, regs_changed := True\<rparr>)"
proof -
  let ?bs = "71 # hextext bs" and ?s = "asked e (71 # hextext bs) s"
  have len: "length ?bs = 129" using assms(1) by simp
  have "hextext bs \<noteq> []" using assms(1) by (cases bs) simp_all
  then have "last (hextext bs) \<in> set (hextext bs)" "hextext bs ! 1 \<in> set (hextext bs)" using len by simp_all
  then have turn: "converse_turn inp e cb s =
    bindr (dispatch inp e cb ?s) (\<lambda>(r, retval, s2). bindr (answer inp r s2) (\<lambda>s3. ret (retval, s3)))"
    using len hextext_plain [of _ bs] comes_take [OF assms(3)] \<open>hextext bs \<noteq> []\<close>
    by (intro turn_dispatches) (auto simp: BUFMAX_def)
  have h: "gmem ?s (inbuf e) = 71" "holds (gmem ?s) (inbuf e + 1) (hextext bs)"
    using asked_holds [of ?bs e s] len by (simp_all add: BUFMAX_def holds_append)
  have d: "dispatch inp e cb ?s = ret (Ok, GDB_MORE, ?s\<lparr>gmem := poke (gmem ?s) (regs e) bs, regs_changed := True\<rparr>)"
    using cmd_G_ok [OF h(2) assms(1,2)] by (simp add: dispatch_def h(1))
  have "received (?s\<lparr>gmem := poke (gmem ?s) (regs e) bs, regs_changed := True\<rparr>) = received s + length ?bs + 4"
    by (simp add: asked_def)
  moreover have "acked inp (received s + length ?bs + 4) 0" using comes_acked [OF assms(3)] len by (simp add: add.assoc)
  ultimately obtain body where "unrun body = [79, 75]" "converse_turn inp e cb s = ret (GDB_MORE,
    ?s\<lparr>gmem := poke (gmem ?s) (regs e) bs, regs_changed := True, sent := sent ?s @ packet body, received := received ?s + 1\<rparr>)"
    using turn_answers_Ok [OF turn d] by auto
  then show ?thesis using assms(1) by (intro exI [of _ body]) (simp add: asked_def)
qed

lemma turn_g:
  assumes "gmem s (inbuf e + 2) \<noteq> 58" "disjoint (regs e) 64 (inbuf e) 401"
    and "comes inp (received s) (packet [103] @ [43])"
  shows "\<exists>s' body. unrun body = hextext (mem_bytes (gmem s) (regs e) 64) \<and>
    converse_turn inp e cb s = ret (GDB_MORE, s') \<and> sent s' = sent s @ [43] @ packet body \<and>
    mem_bytes (gmem s') (regs e) 64 = mem_bytes (gmem s) (regs e) 64"
proof -
  let ?s = "asked e [103] s"
  have "unat ((inbuf e + 2) - inbuf e) = 2" by simp
  then have "filled (gmem s) (inbuf e) [103] (inbuf e + 2) \<noteq> 58"
    using assms(1) filled_outside [of "[103]" 2 "inbuf e + 2" "inbuf e" "gmem s"] by simp
  then have turn: "converse_turn inp e cb s =
    bindr (dispatch inp e cb ?s) (\<lambda>(r, retval, s2). bindr (answer inp r s2) (\<lambda>s3. ret (retval, s3)))"
    using comes_take [OF assms(3)] by (intro converse_turn_ok) (auto simp: BUFMAX_def)
  have h: "gmem ?s (inbuf e) = 103" using asked_holds [of "[103]" e s] by (simp add: BUFMAX_def)
  have m: "mem_bytes (gmem ?s) (regs e) 64 = mem_bytes (gmem s) (regs e) 64"
    by (rule asked_outside [OF assms(2)]) (simp add: BUFMAX_def)
  have "acked inp (received ?s) 0" using comes_acked [OF assms(3)] by (simp add: asked_def add.commute)
  then obtain body where b: "unrun body = hextext (mem_bytes (gmem s) (regs e) 64)"
    "cmd_g inp e ?s = ret (Break, ?s\<lparr>sent := sent ?s @ packet body, received := received ?s + 1\<rparr>)"
    using cmd_g_ok [of inp ?s e] m by auto
  have "converse_turn inp e cb s = ret (GDB_MORE, ?s\<lparr>sent := sent ?s @ packet body, received := received ?s + 1\<rparr>)"
    by (simp add: turn dispatch_def h b(2) answer_def)
  then show ?thesis using m b(1) by (auto simp: asked_def)
qed

lemma turn_m:
  assumes "client_cr0 e AND 0x80000000 = 0" "0 < unat len" "unat len \<le> 200"
    and "disjoint addr (unat len) (inbuf e) 401"
    and "comes inp (received s) (packet (109 # range_text addr len) @ [43])"
  shows "\<exists>s' body. unrun body = hextext (mem_bytes (gmem s) addr (unat len)) \<and>
    converse_turn inp e cb s = ret (GDB_MORE, s') \<and> sent s' = sent s @ [43] @ packet body \<and>
    (\<forall>a. 401 \<le> unat (a - inbuf e) \<longrightarrow> gmem s' a = gmem s a)"
proof -
  let ?bs = "109 # range_text addr len"
  let ?s = "asked e ?bs s"
  have ne: "range_text addr len \<noteq> []" using range_text_length(1) [of addr len] by auto
  have len: "length ?bs \<le> 66" "2 < length ?bs" using range_text_length [of addr len] by simp_all
  have "last (range_text addr len) \<in> set (range_text addr len)" "range_text addr len ! 1 \<in> set (range_text addr len)"
    using range_text_length(1) [of addr len] ne by simp_all
  then have turn: "converse_turn inp e cb s =
    bindr (dispatch inp e cb ?s) (\<lambda>(r, retval, s2). bindr (answer inp r s2) (\<lambda>s3. ret (retval, s3)))"
    using len ne range_text_plain [of _ addr len] comes_take [OF assms(5)]
    by (intro turn_dispatches) (auto simp: BUFMAX_def)
  have h: "gmem ?s (inbuf e) = 109" "holds (gmem ?s) (inbuf e + 1) (range_text addr len @ [0])"
    using asked_holds [of ?bs e s] len by (simp_all add: BUFMAX_def)
  have m: "mem_bytes (gmem ?s) addr (unat len) = mem_bytes (gmem s) addr (unat len)"
    by (rule asked_outside [OF assms(4)]) (use len in \<open>simp add: BUFMAX_def\<close>)
  have "disjoint addr (unat len) (inbuf e) (unat len)"
    by (rule disjoint_less [OF assms(4)]) (use assms(3) in simp_all)
  moreover have "acked inp (received ?s) 0" using comes_acked [OF assms(5)] by (simp add: asked_def ac_simps)
  ultimately obtain body where b: "unrun body = hextext (mem_bytes (gmem s) addr (unat len))"
    "cmd_m inp e ?s = ret (Break, ?s\<lparr>gmem := poke (gmem ?s) (inbuf e) (mem_bytes (gmem s) addr (unat len)),
      sent := sent ?s @ packet body, received := received ?s + 1\<rparr>)"
    using cmd_m_ok [OF h(2) assms(1-3)] m by auto
  have "converse_turn inp e cb s = ret (GDB_MORE, ?s\<lparr>gmem := poke (gmem ?s) (inbuf e) (mem_bytes (gmem s) addr (unat len)),
      sent := sent ?s @ packet body, received := received ?s + 1\<rparr>)"
    by (simp add: turn dispatch_def h(1) b(2) answer_def)
  moreover have "poke (gmem ?s) (inbuf e) (mem_bytes (gmem s) addr (unat len)) a = gmem s a" if "401 \<le> unat (a - inbuf e)" for a
    using that assms(3) len filled_outside [of ?bs 401 a "inbuf e" "gmem s"] by (simp add: poke_outside asked_def)
  ultimately show ?thesis using b(1) by (auto simp: asked_def)
qed

lemma turn_M:
  defines "rt bs addr \<equiv> range_text addr (of_nat (length bs))"
  assumes "client_cr0 e AND 0x80000000 = 0" "unat (inbuf e) + BUFMAX < 2 ^ 32"
    and "length (rt bs addr) + 2 + 2 * length bs < BUFMAX"
    and "disjoint (outbuf e) (length bs) (inbuf e) 401" "disjoint (outbuf e) (length bs) addr (length bs)"
    and "comes inp (received s) (packet (77 # rt bs addr @ [58] @ hextext bs) @ [43])"
  shows "\<exists>s' body. unrun body = [79, 75] \<and> converse_turn inp e cb s = ret (GDB_MORE, s') \<and>
    sent s' = sent s @ [43] @ packet body \<and> mem_bytes (gmem s') addr (length bs) = bs"
proof -
  let ?R = "rt bs addr" 
  let ?bs = "77 # ?R @ [58] @ hextext bs"
  let ?s = "asked e ?bs s"
  have R: "3 \<le> length ?R" "c \<in> set ?R \<Longrightarrow> c \<notin> {35, 58, 0x7d}" for c
    using range_text_length(1) range_text_plain unfolding rt_def by blast+
  have len: "length ?bs < BUFMAX" "2 < length ?bs" using assms(4) R(1) by (simp, simp del: length_greater_0_conv)
  have "?R ! 1 \<in> set ?R" "(?R @ [58] @ hextext bs) ! 1 = ?R ! 1" using R(1) by (simp_all add: nth_append)
  moreover have "last ?bs \<noteq> 0x7d" using hextext_plain [of "last (hextext bs)" bs] by (cases "hextext bs = []") auto
  ultimately have turn: "converse_turn inp e cb s =
    bindr (dispatch inp e cb ?s) (\<lambda>(r, retval, s2). bindr (answer inp r s2) (\<lambda>s3. ret (retval, s3)))"
    using len R(2) hextext_plain [of _ bs] comes_take [OF assms(7)] by (intro turn_dispatches) auto
  have hs: "holds (gmem ?s) (inbuf e) (?bs @ [0])" by (rule asked_holds [OF len(1)])
  then have h: "gmem ?s (inbuf e) = 77" "holds (gmem ?s) (inbuf e + 1) (?R @ [58] @ hextext bs)"
    by (simp_all add: holds_append)
  have "cmd_M e ?s = ret (Ok, ?s\<lparr>gmem := poke (poke (gmem ?s) (outbuf e) bs) addr bs\<rparr>)"
    by (rule cmd_M_ok [of ?s e addr bs, folded rt_def, OF h(2) assms(2,3) _ assms(5,6)]) (use len(1) in simp)
  then have d: "dispatch inp e cb ?s = ret (Ok, GDB_MORE, ?s\<lparr>gmem := poke (poke (gmem ?s) (outbuf e) bs) addr bs\<rparr>)"
    by (simp add: dispatch_def h(1) [simplified])
  have "received (?s\<lparr>gmem := poke (poke (gmem ?s) (outbuf e) bs) addr bs\<rparr>) = received s + length ?bs + 4"
    by (simp add: asked_def)
  moreover have "acked inp (received s + length ?bs + 4) 0" using comes_acked [OF assms(7)] by (simp add: ac_simps)
  ultimately obtain body where "unrun body = [79, 75]"
    "converse_turn inp e cb s = ret (GDB_MORE, ?s\<lparr>gmem := poke (poke (gmem ?s) (outbuf e) bs) addr bs,
       sent := sent ?s @ packet body, received := received ?s + 1\<rparr>)"
    using turn_answers_Ok [OF turn d] by auto
  moreover have "mem_bytes (poke m addr bs) addr (length bs) = bs" for m
    by (rule mem_bytes_poke) (use len in \<open>simp add: BUFMAX_def\<close>)
  ultimately show ?thesis by (auto simp: asked_def)
qed

end
