(* ===== verification/Debugger_Ok.thy ===== *)
theory Debugger_Ok
  imports Debugger Descriptors_Ok Gdb_Cmds
begin

text \<open>
  The registers that the debugger exchanges with the task, the screen of an exception and the way
  back to the screen of the program (kernel/debugger.c).
\<close>

subsection \<open>Copies of words\<close>

text \<open>Two words without a common byte.\<close>

definition apart4 :: "u32 \<Rightarrow> u32 \<Rightarrow> bool" where
  "apart4 a b \<longleftrightarrow> 4 \<le> unat (b - a) \<and> unat (b - a) \<le> 2 ^ 32 - 4"

lemma unat_minus_swap: "a \<noteq> b \<Longrightarrow> unat (a - b) = 2 ^ 32 - unat (b - a :: u32)"
proof -
  assume "a \<noteq> b"
  then have "unat a \<noteq> unat b" by (simp add: word_unat_eq_iff)
  then show ?thesis
    using unat_of_nat_diff [of "unat a" "unat b"] unat_of_nat_diff [of "unat b" "unat a"] unat_less_u32 [of a] unat_less_u32 [of b]
    by (auto split: if_splits)
qed

lemma apart4_commute: "apart4 a b \<longleftrightarrow> apart4 b a"
  using unat_minus_swap [of a b] by (cases "a = b") (auto simp: apart4_def)

lemma read_apart: "apart4 a b \<Longrightarrow> read32 b (write32 a w m) = read32 b m"
  by (simp add: apart4_def read32_write32_other)

lemma disjoint_apart4:
  assumes "disjoint p n q k" "i + 4 \<le> n" "j + 4 \<le> k"
  shows "apart4 (p + of_nat i) (q + of_nat j)"
proof -
  have far: "4 \<le> unat (q + of_nat j - (p + of_nat i))" if "disjoint p n q k" "i + 4 \<le> n" "j + 4 \<le> k" for p n q k i j
  proof (rule ccontr)
    let ?d = "unat (q + of_nat j - (p + of_nat i))"
    assume "\<not> 4 \<le> ?d"
    then have "p + of_nat (i + ?d) \<noteq> q + of_nat j"
      using that by (intro that(1) [unfolded disjoint_def, rule_format]) auto
    then show False by (simp add: add.assoc [symmetric])
  qed
  have "4 \<le> unat (p + of_nat i - (q + of_nat j))" by (rule far) (use assms disjoint_commute in auto)
  moreover have "4 \<le> unat (q + of_nat j - (p + of_nat i))" by (rule far [OF assms])
  moreover have "unat (p + of_nat i - (q + of_nat j)) = 2 ^ 32 - unat (q + of_nat j - (p + of_nat i))"
    by (rule unat_minus_swap) (use calculation(2) in auto)
  ultimately show ?thesis by (simp add: apart4_def)
qed

definition copy_words :: "(u32 \<times> u32) list \<Rightarrow> memory \<Rightarrow> memory" where
  "copy_words ps m = fold (\<lambda>(d, s) m. write32 d (read32 s m) m) ps m"

lemma copy_words_Cons: "copy_words ((d, s) # ps) m = copy_words ps (write32 d (read32 s m) m)"
  by (simp add: copy_words_def)

lemma copy_words_apart: "\<forall>(d, s)\<in>set ps. apart4 d a \<Longrightarrow> read32 a (copy_words ps m) = read32 a m"
  by (induction ps arbitrary: m) (auto simp: copy_words_Cons read_apart, simp add: copy_words_def)

lemma copy_words_byte: "\<forall>(d, s)\<in>set ps. 4 \<le> unat (a - d) \<Longrightarrow> copy_words ps m a = m a"
  by (induction ps arbitrary: m) (auto simp: copy_words_Cons write32_outside, simp add: copy_words_def)

lemma copy_words_ok:
  assumes "sorted_wrt (\<lambda>x y. apart4 (fst x) (fst y)) ps" "\<forall>x\<in>set ps. \<forall>y\<in>set ps. apart4 (fst x) (snd y)" "(d, s) \<in> set ps"
  shows "read32 d (copy_words ps m) = read32 s m"
  using assms
proof (induction ps arbitrary: m)
  case (Cons p ps)
  obtain d0 s0 where p: "p = (d0, s0)" by (cases p)
  let ?m = "write32 d0 (read32 s0 m) m"
  show ?case
  proof (cases "(d, s) = (d0, s0)")
    case True
    have "\<forall>(d', s')\<in>set ps. apart4 d' d0" using Cons.prems(1) apart4_commute by (auto simp: p)
    from copy_words_apart [OF this] show ?thesis using True by (simp add: p copy_words_Cons read32_write32)
  next
    case False
    then have i: "(d, s) \<in> set ps" using Cons.prems(3) by (auto simp: p)
    then have "read32 d (copy_words ps ?m) = read32 s ?m" using Cons by simp
    moreover have "apart4 d0 s" using Cons.prems(2) i by (force simp: p)
    ultimately show ?thesis by (simp add: p copy_words_Cons read_apart)
  qed
qed simp

subsection \<open>The registers of the task\<close>

definition tss_pairs :: "u32 \<Rightarrow> u32 \<Rightarrow> (u32 \<times> u32) list" where
  "tss_pairs t st = map (\<lambda>i. (t + of_nat (tss_regs ! i), st + of_nat (4 * i))) [0..<16]"

lemma load_pairs: "load_regs t st m = copy_words (tss_pairs t st) m"
  by (simp add: load_regs_def copy_words_def tss_pairs_def fold_map comp_def)

lemma save_pairs: "save_regs t st m = copy_words (map prod.swap (tss_pairs t st)) m"
  by (simp add: save_regs_def copy_words_def tss_pairs_def fold_map comp_def)

lemma tss_offset: "i < 16 \<Longrightarrow> tss_regs ! i + 4 \<le> 104"
proof -
  assume "i < 16"
  moreover have "\<forall>i\<in>set [0..<16]. tss_regs ! i + 4 \<le> 104" by (simp add: tss_regs_def upt_conv_Cons)
  ultimately show ?thesis by simp
qed

lemma within_apart4:
  assumes "i + 4 \<le> j \<or> j + 4 \<le> i" "i < 1000" "j < 1000"
  shows "apart4 (p + of_nat i) (p + of_nat j)"
  using unat_diff_far [of j i] assms by (auto simp: apart4_def)

lemma tss_distinct: "i < j \<Longrightarrow> j < 16 \<Longrightarrow> apart4 (t + of_nat (tss_regs ! i)) (t + of_nat (tss_regs ! j))"
proof -
  assume "i < j" "j < 16"
  moreover have "\<forall>i\<in>set [0..<16]. \<forall>j\<in>set [0..<16]. i < j \<longrightarrow>
      tss_regs ! i + 4 \<le> tss_regs ! j \<or> tss_regs ! j + 4 \<le> tss_regs ! i"
    by (simp add: tss_regs_def upt_conv_Cons)
  moreover have "i < 16" "tss_regs ! i < 1000" "tss_regs ! j < 1000"
    using tss_offset [of i] tss_offset [of j] \<open>i < j\<close> \<open>j < 16\<close> by simp_all
  ultimately show ?thesis by (intro within_apart4) auto
qed

definition reg_at :: "u32 \<Rightarrow> nat \<Rightarrow> memory \<Rightarrow> u32" where
  "reg_at t i m = read32 (t + of_nat (tss_regs ! i)) m"

definition state_at :: "u32 \<Rightarrow> nat \<Rightarrow> memory \<Rightarrow> u32" where
  "state_at st i m = read32 (st + of_nat (4 * i)) m"

lemma pair_apart: "disjoint t 104 st 64 \<Longrightarrow> i < 16 \<Longrightarrow> j < 16 \<Longrightarrow> apart4 (t + of_nat (tss_regs ! i)) (st + 4 * of_nat j)"
  using disjoint_apart4 [of t 104 st 64 "tss_regs ! i" "4 * j"] tss_offset [of i] by simp

lemma state_distinct: "i < j \<Longrightarrow> j < 16 \<Longrightarrow> apart4 (st + 4 * of_nat i) (st + 4 * of_nat j)"
  using within_apart4 [of "4 * i" "4 * j" st] by simp

lemmas pair_facts = tss_pairs_def sorted_wrt_map sorted_wrt_iff_nth_less tss_distinct pair_apart state_distinct
  apart4_commute [of "_ + 4 * _" "_ + of_nat _"]

lemma load_regs_ok: "disjoint t 104 st 64 \<Longrightarrow> i < 16 \<Longrightarrow> reg_at t i (load_regs t st m) = state_at st i m"
  unfolding load_pairs reg_at_def state_at_def by (rule copy_words_ok) (auto simp: pair_facts)

lemma save_regs_ok: "disjoint t 104 st 64 \<Longrightarrow> i < 16 \<Longrightarrow> state_at st i (save_regs t st m) = reg_at t i m"
  unfolding save_pairs reg_at_def state_at_def by (rule copy_words_ok) (auto simp: pair_facts)

lemma save_regs_tss: "disjoint t 104 st 64 \<Longrightarrow> i < 16 \<Longrightarrow> reg_at t i (save_regs t st m) = reg_at t i m"
  unfolding save_pairs reg_at_def by (rule copy_words_apart) (auto simp: pair_facts)

subsection \<open>Numbers on the screen\<close>

text \<open>The byte of the character \<open>i\<close> of a field in line \<open>l\<close>, column \<open>c\<close>, both from 1 on.\<close>

definition char_pos :: "nat \<Rightarrow> nat \<Rightarrow> nat \<Rightarrow> nat" where
  "char_pos l c i = (l - 1) * 160 + (c - 1 + i) * 2"

definition field_text :: "memory \<Rightarrow> nat \<Rightarrow> nat \<Rightarrow> nat \<Rightarrow> u8 list" where
  "field_text m l c n = map (\<lambda>i. m (screen_base + of_nat (char_pos l c i))) [0..<n]"

text \<open>The number of upper case hexadecimal digits.\<close>

definition hexval :: "u8 list \<Rightarrow> nat" where
  "hexval cs = foldl (\<lambda>a c. 16 * a + (if c \<le> 57 then unat c - 48 else unat c - 55)) 0 cs"

definition hex_cells :: "nat \<Rightarrow> u32 \<Rightarrow> u8 list" where
  "hex_cells n v = map (\<lambda>i. disp_hex ! unat (drop_bit (4 * (n - 1 - i)) v AND 15)) [0..<n]"

lemma hex_cells_Suc: "hex_cells (Suc n) v = hex_cells n (drop_bit 4 v) @ [disp_hex ! unat (v AND 15)]"
proof -
  have "drop_bit (4 * (n - 1 - i)) (drop_bit 4 v) = drop_bit (4 * (n - i)) v" if "i < n" for i
  proof -
    have "4 * (n - 1 - i) + 4 = 4 * (n - i)" using that by simp
    then show ?thesis by simp
  qed
  then show ?thesis by (simp add: hex_cells_def)
qed

lemma low_digit: "unat (v AND 15 :: u32) = unat v mod 16"
proof -
  have "v AND 15 = take_bit 4 v" using take_bit_eq_mask [of 4 v] by (simp add: mask_eq_exp_minus_1)
  then show ?thesis by (simp add: take_bit_eq_mod unat_mod_distrib)
qed

lemma hexval_cells: "hexval (hex_cells n v) = unat v mod 16 ^ n"
proof (induction n arbitrary: v)
  case 0
  then show ?case by (simp add: hex_cells_def hexval_def)
next
  case (Suc n)
  have d: "(if disp_hex ! k \<le> 57 then unat (disp_hex ! k) - 48 else unat (disp_hex ! k) - 55) = k" if "k < 16" for k
  proof -
    have "\<forall>k\<in>set [0..<16]. (if disp_hex ! k \<le> 57 then unat (disp_hex ! k) - 48 else unat (disp_hex ! k) - 55) = k"
      by (simp add: disp_hex_def upt_conv_Cons)
    then show ?thesis using that by simp
  qed
  have "unat v mod 16 < 16" by simp
  note d [OF this]
  moreover have "unat (drop_bit 4 v) = unat v div 16" by (simp add: unat_drop_bit_eq drop_bit_nat_def)
  moreover have "unat v mod (16 * 16 ^ n) = 16 * (unat v div 16 mod 16 ^ n) + unat v mod 16" by (rule mod_mult2_eq)
  moreover have "hexval (cs @ [c]) = 16 * hexval cs + (if c \<le> 57 then unat c - 48 else unat c - 55)" for cs c
    by (simp add: hexval_def)
  ultimately show ?case by (simp add: hex_cells_Suc low_digit Suc.IH)
qed

text \<open>The loop, from the cell after the last digit down.\<close>

definition scr :: "nat \<Rightarrow> u32" where
  "scr x = screen_base + of_nat x"

lemma scr_eq: "x < 4000 \<Longrightarrow> y < 4000 \<Longrightarrow> scr x = scr y \<longleftrightarrow> x = y"
proof
  assume "x < 4000" "y < 4000" "scr x = scr y"
  then have "unat (of_nat x :: u32) = unat (of_nat y :: u32)" by (simp add: scr_def)
  then show "x = y" using \<open>x < 4000\<close> \<open>y < 4000\<close> by (simp add: unat_of_nat_u32)
qed simp

lemma scr_unat: "x < 4000 \<Longrightarrow> unat (scr x - screen_base) = x"
  by (simp add: scr_def unat_of_nat_u32)

definition off_screen :: "u32 \<Rightarrow> bool" where
  "off_screen a \<longleftrightarrow> 4000 \<le> unat (a - screen_base)"

lemma off_screen_scr: "off_screen a \<Longrightarrow> x < 4000 \<Longrightarrow> a \<noteq> scr x"
  using scr_unat by (auto simp: off_screen_def)

lemma hex_loop_other:
  assumes "x + 2 * n < 4000" and "\<And>i. i < n \<Longrightarrow> a \<noteq> scr (x + 2 * i)"
  shows "hex_loop n (scr (x + 2 * n)) v m a = m a"
  using assms
proof (induction n arbitrary: v m)
  case (Suc n)
  have "scr (x + 2 * Suc n) - 2 = scr (x + 2 * n)" by (simp add: scr_def)
  then show ?case using Suc.IH [of "drop_bit 4 v"] Suc.prems by simp
qed simp

lemma hex_loop_cells:
  assumes "x + 2 * n < 4000" and "i < n"
  shows "hex_loop n (scr (x + 2 * n)) v m (scr (x + 2 * i)) = hex_cells n v ! i"
  using assms
proof (induction n arbitrary: v m)
  case (Suc n)
  have e: "scr (x + 2 * Suc n) - 2 = scr (x + 2 * n)" by (simp add: scr_def)
  show ?case
  proof (cases "i = n")
    case True
    have "scr (x + 2 * n) \<noteq> scr (x + 2 * j)" if "j < n" for j
      using that Suc.prems scr_eq [of "x + 2 * n" "x + 2 * j"] by simp
    then have "hex_loop n (scr (x + 2 * n)) w m' (scr (x + 2 * n)) = m' (scr (x + 2 * n))" for w m'
      by (intro hex_loop_other) (use Suc.prems in auto)
    then show ?thesis using True by (simp only: hex_loop.simps e) (simp add: hex_cells_Suc nth_append hex_cells_def)
  next
    case False
    then have "i < n" using Suc.prems by simp
    then have "hex_loop n (scr (x + 2 * n)) (drop_bit 4 v) m' (scr (x + 2 * i)) = hex_cells n (drop_bit 4 v) ! i" for m'
      using Suc.IH Suc.prems by simp
    moreover have "length (hex_cells n w) = n" for w by (simp add: hex_cells_def)
    ultimately show ?thesis using \<open>i < n\<close> by (simp only: hex_loop.simps e) (simp add: hex_cells_Suc nth_append)
  qed
qed simp

text \<open>A field that fits in the screen.\<close>

definition on_screen :: "nat \<Rightarrow> nat \<Rightarrow> nat \<Rightarrow> bool" where
  "on_screen l c n \<longleftrightarrow> 1 \<le> l \<and> l \<le> 24 \<and> 1 \<le> c \<and> 0 < n \<and> c + n \<le> 81"

lemma char_pos_0: "char_pos l c i = char_pos l c 0 + 2 * i"
  by (simp add: char_pos_def)

lemma char_pos_bound: "on_screen l c n \<Longrightarrow> char_pos l c 0 + 2 * n < 4000"
  by (auto simp: on_screen_def char_pos_def)

lemma write_hex_loop:
  assumes "on_screen l c n"
  shows "write_hex l c n v m = hex_loop n (scr (char_pos l c 0 + 2 * n)) v m"
proof -
  have "(l - 1) * 160 + (c + n - 1) * 2 = char_pos l c 0 + 2 * n"
    using assms by (auto simp: on_screen_def char_pos_def)
  then show ?thesis by (simp only: write_hex_def scr_def)
qed

lemma write_hex_text:
  assumes "on_screen l c n"
  shows "field_text (write_hex l c n v m) l c n = hex_cells n v"
proof (rule nth_equalityI)
  fix i assume "i < length (field_text (write_hex l c n v m) l c n)"
  then have i: "i < n" by (simp add: field_text_def)
  have "write_hex l c n v m (scr (char_pos l c i)) = hex_cells n v ! i"
    unfolding write_hex_loop [OF assms] char_pos_0 [of l c i] by (rule hex_loop_cells [OF char_pos_bound [OF assms] i])
  then show "field_text (write_hex l c n v m) l c n ! i = hex_cells n v ! i" using i by (simp add: field_text_def scr_def)
qed (simp add: field_text_def hex_cells_def)

lemma write_hex_keeps:
  assumes "on_screen l c n" "\<And>i. i < n \<Longrightarrow> a \<noteq> scr (char_pos l c i)"
  shows "write_hex l c n v m a = m a"
  unfolding write_hex_loop [OF assms(1)]
  by (rule hex_loop_other [OF char_pos_bound [OF assms(1)]]) (use assms(2) char_pos_0 in metis)

lemma char_pos_less: "on_screen l c n \<Longrightarrow> i < n \<Longrightarrow> char_pos l c i < 4000"
  using char_pos_bound [of l c n] char_pos_0 [of l c i] by simp

lemma write_hex_off: "on_screen l c n \<Longrightarrow> off_screen a \<Longrightarrow> write_hex l c n v m a = m a"
  using off_screen_scr char_pos_less by (intro write_hex_keeps) blast+

definition apart_fields :: "nat \<times> nat \<times> nat \<times> u32 \<Rightarrow> nat \<times> nat \<times> nat \<times> u32 \<Rightarrow> bool" where
  "apart_fields = (\<lambda>(l, c, n, _) (l', c', n', _). l \<noteq> l' \<or> c + n \<le> c' \<or> c' + n' \<le> c)"

lemma char_pos_eq:
  assumes "on_screen l c n" "on_screen l' c' n'" "i < n" "j < n'" "char_pos l c i = char_pos l' c' j"
  shows "l = l' \<and> c + i = c' + j"
proof -
  let ?x = "c - 1 + i" and ?y = "c' - 1 + j"
  have b: "?x < 80" "?y < 80" using assms(1-4) by (auto simp: on_screen_def)
  have e: "(l - 1) * 80 + ?x = (l' - 1) * 80 + ?y" using assms(5) by (simp add: char_pos_def)
  have q: "(k * 80 + x) div 80 = k" if "x < 80" for k x :: nat using that by simp
  have "l - 1 = l' - 1" using q [OF b(1), of "l - 1"] q [OF b(2), of "l' - 1"] e by metis
  then show ?thesis using e assms(1,2) by (auto simp: on_screen_def)
qed

lemma write_hex_other:
  assumes "on_screen l c n" "on_screen l' c' n'" "apart_fields (l, c, n, v) (l', c', n', v')"
  shows "field_text (write_hex l c n v m) l' c' n' = field_text m l' c' n'"
proof -
  have "write_hex l c n v m (scr (char_pos l' c' j)) = m (scr (char_pos l' c' j))" if j: "j < n'" for j
  proof (rule write_hex_keeps [OF assms(1)])
    fix i assume i: "i < n"
    have "char_pos l c i \<noteq> char_pos l' c' j"
      using char_pos_eq [OF assms(1,2) i j] assms(3) i j by (auto simp: apart_fields_def)
    then show "scr (char_pos l' c' j) \<noteq> scr (char_pos l c i)"
      using scr_eq [OF char_pos_less [OF assms(2) j] char_pos_less [OF assms(1) i]] by simp
  qed
  then show ?thesis by (simp add: field_text_def scr_def)
qed

definition write_fields :: "(nat \<times> nat \<times> nat \<times> u32) list \<Rightarrow> memory \<Rightarrow> memory" where
  "write_fields fs m = fold (\<lambda>(l, c, n, v). write_hex l c n v) fs m"

lemma write_fields_other:
  assumes "\<forall>(l', c', n', v')\<in>set fs. on_screen l' c' n' \<and> apart_fields (l', c', n', v') (l, c, n, v)" "on_screen l c n"
  shows "field_text (write_fields fs m) l c n = field_text m l c n"
  using assms(1)
proof (induction fs arbitrary: m)
  case (Cons f fs)
  then show ?case using write_hex_other [OF _ assms(2)] by (cases f) (auto simp: write_fields_def)
qed (simp add: write_fields_def)

lemma write_fields_text:
  assumes "\<forall>(l, c, n, v)\<in>set fs. on_screen l c n" "sorted_wrt (\<lambda>x y. apart_fields y x) fs" "(l, c, n, v) \<in> set fs"
  shows "field_text (write_fields fs m) l c n = hex_cells n v"
  using assms
proof (induction fs arbitrary: m)
  case (Cons f fs)
  show ?case
  proof (cases "f = (l, c, n, v)")
    case True
    have "field_text (write_fields fs (write_hex l c n v m)) l c n = field_text (write_hex l c n v m) l c n"
      by (rule write_fields_other [where v = v]) (use Cons.prems True in auto)
    then show ?thesis using True Cons.prems write_hex_text by (simp add: write_fields_def)
  next
    case False
    then show ?thesis using Cons by (auto simp: write_fields_def)
  qed
qed simp

lemma write_fields_off:
  "\<forall>(l, c, n, v)\<in>set fs. on_screen l c n \<Longrightarrow> off_screen a \<Longrightarrow> write_fields fs m a = m a"
  by (induction fs arbitrary: m) (auto simp: write_fields_def write_hex_off)

subsection \<open>The whole screen\<close>

definition same_off :: "memory \<Rightarrow> memory \<Rightarrow> bool" where
  "same_off m m' \<longleftrightarrow> (\<forall>a. off_screen a \<longrightarrow> m' a = m a)"

lemma same_off_refl [simp]: "same_off m m"
  by (simp add: same_off_def)

lemma same_off_fold:
  "(\<And>i m'. i \<in> set xs \<Longrightarrow> same_off m' (f i m')) \<Longrightarrow> same_off m (fold f xs m)"
proof (induction xs arbitrary: m)
  case (Cons x xs)
  have "same_off m (f x m)" "same_off (f x m) (fold f xs (f x m))" using Cons by auto
  then show ?case by (simp add: same_off_def)
qed simp

lemma same_off_upd: "x < 4000 \<Longrightarrow> same_off m (m(scr x := v))"
  using off_screen_scr by (auto simp: same_off_def)

lemma draw_form_off: "same_off m (draw_form dump m)"
proof -
  let ?m1 = "fold (\<lambda>i m. fold (\<lambda>j m. m(scr (i * 160 + j * 2) := m (dump + of_nat (81 * i + j)))) [0..<80] m) [0..<25] m"
  let ?m2 = "fold (\<lambda>i m. m(scr (2 * i + 1) := 0x30)) [0..<2000] ?m1"
  have "same_off m ?m1" by (intro same_off_fold same_off_upd) auto
  moreover have "same_off ?m1 ?m2" by (intro same_off_fold same_off_upd) auto
  moreover have "same_off ?m2 (fold (\<lambda>i m. m(scr (2 * i + 1) := 0x34)) [161..<239] ?m2)" by (intro same_off_fold same_off_upd) auto
  ultimately show ?thesis unfolding draw_form_def Let_def scr_def [symmetric] by (simp add: same_off_def)
qed

definition tss_off_screen :: "u32 \<Rightarrow> bool" where
  "tss_off_screen t \<longleftrightarrow> (\<forall>i<104. off_screen (t + of_nat i))"

lemma tss_offD: "tss_off_screen t \<Longrightarrow> i < 104 \<Longrightarrow> off_screen (t + of_nat i)"
  unfolding tss_off_screen_def by blast

lemma read_off:
  assumes "tss_off_screen t" "same_off m m'" "k + 4 \<le> 104"
  shows "read32 (t + of_nat k) m' = read32 (t + of_nat k) m"
proof -
  have "m' (t + of_nat (k + j)) = m (t + of_nat (k + j))" if "j < 4" for j
    using tss_offD [OF assms(1), of "k + j"] assms(2,3) that unfolding same_off_def by force
  from this [of 0] this [of 1] this [of 2] this [of 3] show ?thesis by (simp add: read32_def ac_simps)
qed

definition dump_fields :: "u32 \<Rightarrow> u32 \<Rightarrow> u32 \<Rightarrow> memory \<Rightarrow> (nat \<times> nat \<times> nat \<times> u32) list" where
  "dump_fields trapno error_code t m =
     [(7, 21, 2, trapno), (7, 60, 8, error_code), (9, 21, 8, t)] @
     map (\<lambda>(l, c, n, off). (l, c, n, read32 (t + of_nat off) m)) tss_fields @ [(23, 70, 1, ucast (m (t + 100)) AND 1)]"

lemma dump_fields_on_screen: "\<forall>(l, c, n, v)\<in>set (dump_fields trapno error_code t m). on_screen l c n"
  by (simp add: dump_fields_def tss_fields_def on_screen_def)

lemma dump_fields_apart: "sorted_wrt (\<lambda>x y. apart_fields y x) (dump_fields trapno error_code t m)"
  by (simp add: dump_fields_def tss_fields_def apart_fields_def)

lemma read_steps:
  assumes "tss_off_screen t" "\<forall>(l, c, n, k)\<in>set fs. on_screen l c n \<and> k + 4 \<le> 104" "same_off m m'"
  shows "fold (\<lambda>(l, c, n, k) m. write_hex l c n (read32 (t + of_nat k) m) m) fs m' =
    write_fields (map (\<lambda>(l, c, n, off). (l, c, n, read32 (t + of_nat off) m)) fs) m'"
  using assms(2,3)
proof (induction fs arbitrary: m')
  case (Cons f fs)
  obtain l c n k where f: "f = (l, c, n, k)" by (cases f)
  have h: "on_screen l c n" "k + 4 \<le> 104" using Cons.prems(1) by (auto simp: f)
  have "same_off m (write_hex l c n v m')" for v using Cons.prems(2) write_hex_off [OF h(1)] by (simp add: same_off_def)
  then show ?case using Cons read_off [OF assms(1) Cons.prems(2) h(2)] by (simp add: f write_fields_def)
qed (simp add: write_fields_def)

lemma dump_registers_fields:
  assumes "tss_off_screen t"
  shows "dump_registers dump trapno error_code t m = write_fields (dump_fields trapno error_code t m) (draw_form dump m)"
proof -
  let ?h = "[(7, 21, 2, trapno), (7, 60, 8, error_code), (9, 21, 8, t)]"
  let ?r = "map (\<lambda>(l, c, n, off). (l, c, n, read32 (t + of_nat off) m)) tss_fields"
  define m1 where "m1 = write_fields ?h (draw_form dump m)"
  have on: "\<forall>(l, c, n, v)\<in>set ?h. on_screen l c n" "\<forall>(l, c, n, v)\<in>set ?r. on_screen l c n"
    by (simp_all add: on_screen_def tss_fields_def)
  have s1: "same_off m m1" using draw_form_off write_fields_off [OF on(1)] by (simp add: m1_def same_off_def)
  have r: "fold (\<lambda>(l, c, n, k) m. write_hex l c n (read32 (t + of_nat k) m) m) tss_fields m1 = write_fields ?r m1"
    by (rule read_steps [OF assms _ s1]) (simp add: tss_fields_def on_screen_def)
  have "write_fields ?r m1 (t + 100) = m (t + 100)"
  proof -
    have "off_screen (t + 100)" using tss_offD [OF assms, of 100] by simp
    then show ?thesis using s1 write_fields_off [OF on(2)] by (simp add: same_off_def)
  qed
  moreover have "dump_registers dump trapno error_code t m =
    write_hex 23 70 1 (ucast (write_fields ?r m1 (t + 100)) AND 1) (write_fields ?r m1)"
    unfolding r [symmetric] Let_def by (simp add: dump_registers_def Let_def m1_def write_fields_def)
  moreover have "write_fields (dump_fields trapno error_code t m) (draw_form dump m) =
    write_hex 23 70 1 (ucast (m (t + 100)) AND 1) (write_fields ?r m1)"
    by (simp add: dump_fields_def write_fields_def m1_def)
  ultimately show ?thesis by (simp only:)
qed

theorem dump_registers_ok:
  assumes "tss_off_screen t" "(l, c, n, v) \<in> set (dump_fields trapno error_code t m)"
  shows "hexval (field_text (dump_registers dump trapno error_code t m) l c n) = unat v mod 16 ^ n"
  using write_fields_text [OF dump_fields_on_screen dump_fields_apart assms(2)]
  by (simp add: dump_registers_fields [OF assms(1)] hexval_cells)

lemma dump_registers_off: "tss_off_screen t \<Longrightarrow> same_off m (dump_registers dump trapno error_code t m)"
  using draw_form_off write_fields_off [OF dump_fields_on_screen] by (simp add: dump_registers_fields same_off_def)

subsection \<open>Back to the screen of the program\<close>

lemma wait_key_ok:
  "(\<And>i. i < j \<Longrightarrow> inp (key_reads d + i) = c) \<Longrightarrow> inp (key_reads d + j) \<noteq> c \<Longrightarrow>
   wait_key inp c d = ret (d\<lparr>key_reads := key_reads d + j + 1\<rparr>)"
proof (induction j arbitrary: d)
  case 0
  then show ?case by (subst wait_key.simps) simp
next
  case (Suc j)
  have "wait_key inp c (d\<lparr>key_reads := key_reads d + 1\<rparr>) =
    ret (d\<lparr>key_reads := key_reads d + 1, key_reads := key_reads d + 1 + j + 1\<rparr>)"
    using Suc.IH [of "d\<lparr>key_reads := key_reads d + 1\<rparr>"] Suc.prems(1) [of "Suc _"] Suc.prems(2) by simp
  then show ?case using Suc.prems(1) [of 0] by (subst wait_key.simps) simp
qed

text \<open>What the handler keeps while it waits for a key: the copy of the screen, and the rest of memory.\<close>

definition kept :: "trap_env \<Rightarrow> memory \<Rightarrow> memory \<Rightarrow> bool" where
  "kept v m0 m \<longleftrightarrow> mem_bytes m (video_mem v) 4000 = mem_bytes m0 screen_base 4000 \<and>
     (\<forall>a. off_screen a \<longrightarrow> 4000 \<le> unat (a - video_mem v) \<longrightarrow> m a = m0 a)"

definition screen_apart :: "trap_env \<Rightarrow> u32 \<Rightarrow> bool" where
  "screen_apart v t \<longleftrightarrow> disjoint (video_mem v) 4000 screen_base 4000 \<and> tss_off_screen t"

lemma kept_off:
  assumes "screen_apart v t" "kept v m0 m" "same_off m m'"
  shows "kept v m0 m'"
proof -
  have "off_screen (video_mem v + of_nat i)" if "i < 4000" for i
    using assms(1) disjoint_outside [OF _ that] by (auto simp: screen_apart_def off_screen_def)
  then have "mem_bytes m' (video_mem v) 4000 = mem_bytes m (video_mem v) 4000"
    using assms(3) by (intro mem_bytes_cong) (auto simp: same_off_def)
  then show ?thesis using assms(2,3) by (simp add: kept_def same_off_def)
qed

lemma memcpy_screen:
  assumes "disjoint p 4000 q 4000"
  shows "snd (memcpy q p 4000 m) = poke m q (mem_bytes m p 4000)"
  using memcpy_poke [of p 4000 q m] assms by simp

lemma poke_screen_off: "length bs = 4000 \<Longrightarrow> same_off m (poke m screen_base bs)"
  by (simp add: same_off_def off_screen_def poke_outside)

lemma copy_back:
  assumes "screen_apart v t" "kept v m0 m" "4000 \<le> unat (a - video_mem v)"
  shows "snd (memcpy screen_base (video_mem v) 4000 m) a = m0 a"
proof -
  have e: "snd (memcpy screen_base (video_mem v) 4000 m) = poke m screen_base (mem_bytes m0 screen_base 4000)"
    using assms(1,2) by (simp add: screen_apart_def memcpy_screen kept_def)
  show ?thesis
  proof (cases "off_screen a")
    case True
    then have "poke m screen_base (mem_bytes m0 screen_base 4000) a = m a" by (simp add: off_screen_def poke_outside)
    then show ?thesis using assms(2,3) True by (simp add: e kept_def)
  next
    case False
    let ?i = "unat (a - screen_base)"
    have i: "?i < 4000" "a = screen_base + of_nat ?i" using False by (simp_all add: off_screen_def)
    have "poke m screen_base (mem_bytes m0 screen_base 4000) (screen_base + of_nat ?i) = m0 (screen_base + of_nat ?i)"
      using poke_inside [of ?i "mem_bytes m0 screen_base 4000" m screen_base] i(1) by simp
    then show ?thesis by (simp only: e i(2) [symmetric])
  qed
qed

lemma kept_copy:
  assumes "screen_apart v t" "kept v m0 m"
  shows "kept v m0 (snd (memcpy screen_base (video_mem v) 4000 m))"
proof (rule kept_off [OF assms])
  show "same_off m (snd (memcpy screen_base (video_mem v) 4000 m))"
    using assms(1) poke_screen_off by (simp add: screen_apart_def memcpy_screen)
qed

lemma kept_first:
  assumes "screen_apart v t"
  shows "kept v m (snd (memcpy (video_mem v) screen_base 4000 m))"
proof -
  have e: "snd (memcpy (video_mem v) screen_base 4000 m) = poke m (video_mem v) (mem_bytes m screen_base 4000)"
    using assms by (intro memcpy_screen) (simp add: screen_apart_def disjoint_commute)
  show ?thesis using mem_bytes_poke [of "mem_bytes m screen_base 4000" m "video_mem v"] by (simp add: e kept_def poke_outside)
qed

abbreviation dmem :: "dbg \<Rightarrow> memory" where "dmem d \<equiv> gmem (stub_of d)"

lemma trap_loop_i:
  assumes "screen_apart v t" "kept v m0 (dmem d)" "inp60 (key_reads d) = 0x17"
    "\<And>i. i < j \<Longrightarrow> inp60 (key_reads d + 1 + i) = 0x17" "inp60 (key_reads d + 1 + j) \<noteq> 0x17"
  shows "\<exists>m'. trap_loop inp inp60 v trapno error_code t shn d =
      ret (Returned (d\<lparr>stub_of := (stub_of d)\<lparr>gmem := m'\<rparr>, key_reads := key_reads d + j + 2\<rparr>)) \<and>
    (\<forall>a. 4000 \<le> unat (a - video_mem v) \<longrightarrow> m' a = m0 a)"
proof -
  let ?d = "copy_screen screen_base (video_mem v) (d\<lparr>key_reads := key_reads d + 1\<rparr>)"
  have "wait_key inp60 0x17 ?d = ret (?d\<lparr>key_reads := key_reads ?d + j + 1\<rparr>)"
    by (rule wait_key_ok) (use assms(4,5) in \<open>simp_all add: copy_screen_def on_mem_def\<close>)
  then show ?thesis using copy_back [OF assms(1,2)] assms(3)
    by (subst trap_loop.simps) (auto simp: copy_screen_def on_mem_def)
qed

theorem trap_loop_restores:
  assumes "screen_apart v t" "kept v m0 (dmem d)" "\<And>i. i < n \<Longrightarrow> inp60 (key_reads d + i) \<notin> {1, 0x17, 0x20}"
    "inp60 (key_reads d + n) = 0x17" "inp60 (key_reads d + n + 1) = 0x17" "inp60 (key_reads d + n + 2) \<noteq> 0x17"
  shows "\<exists>m'. trap_loop inp inp60 v trapno error_code t shn d =
      ret (Returned (d\<lparr>stub_of := (stub_of d)\<lparr>gmem := m'\<rparr>, key_reads := key_reads d + n + 3\<rparr>)) \<and>
    (\<forall>a. 4000 \<le> unat (a - video_mem v) \<longrightarrow> m' a = m0 a)"
  using assms(2-)
proof (induction n arbitrary: d shn rule: less_induct)
  case (less n)
  let ?k = "key_reads d"
  show ?case
  proof (cases n)
    case 0
    then show ?thesis
      using trap_loop_i [OF assms(1) less.prems(1), of inp60 1] less.prems by (simp add: eval_nat_numeral)
  next
    case (Suc n1)
    have c: "inp60 ?k \<notin> {1, 0x17, 0x20}" using less.prems(2) [of 0] Suc by simp
    show ?thesis
    proof (cases "inp60 ?k = 0x39")
      case False
      let ?d = "d\<lparr>key_reads := ?k + 1\<rparr>"
      have step: "trap_loop inp inp60 v trapno error_code t shn d = trap_loop inp inp60 v trapno error_code t shn ?d"
        using c False by (subst trap_loop.simps) simp
      show ?thesis
        unfolding step using less.IH [of n1 ?d shn] less.prems(1) less.prems(2) [of "Suc _"] less.prems(3-) Suc by simp
    next
      case True
      obtain j where j: "inp60 (?k + 1 + j) \<noteq> 0x39" "\<And>i. i < j \<Longrightarrow> inp60 (?k + 1 + i) = 0x39"
        using exists_least_iff [of "\<lambda>j. inp60 (?k + 1 + j) \<noteq> 0x39"] less.prems(3) Suc by auto
      have jn: "j \<le> n1" using j(2) [of n1] less.prems(3) Suc by (cases "n1 < j") auto
      define d2 where "d2 = (if (1 - shn) \<noteq> 0 then on_mem (dump_registers (dump_text v) trapno error_code t) (d\<lparr>key_reads := ?k + 1\<rparr>)
        else copy_screen screen_base (video_mem v) (d\<lparr>key_reads := ?k + 1\<rparr>))"
      define d3 where "d3 = d2\<lparr>key_reads := ?k + j + 2\<rparr>"
      have kr: "key_reads d2 = ?k + 1" by (simp add: d2_def copy_screen_def on_mem_def)
      have "wait_key inp60 0x39 d2 = ret (d2\<lparr>key_reads := key_reads d2 + j + 1\<rparr>)"
        by (rule wait_key_ok) (use j kr in simp_all)
      then have wait: "wait_key inp60 0x39 d2 = ret d3" by (simp add: kr d3_def)
      have step: "trap_loop inp inp60 v trapno error_code t shn d = trap_loop inp inp60 v trapno error_code t (1 - shn) d3"
      proof -
        have "trap_loop inp inp60 v trapno error_code t shn d =
          bindr (wait_key inp60 0x39 d2) (trap_loop inp inp60 v trapno error_code t (1 - shn))"
          unfolding d2_def by (subst trap_loop.simps) (simp add: True Let_def)
        then show ?thesis by (simp add: wait)
      qed
      have "kept v m0 (dmem d2)"
      proof (cases "1 - shn \<noteq> 0")
        case True
        have "tss_off_screen t" using assms(1) by (simp add: screen_apart_def)
        then show ?thesis using True kept_off [OF assms(1) less.prems(1) dump_registers_off] by (simp add: d2_def on_mem_def)
      next
        case False
        then show ?thesis using kept_copy [OF assms(1) less.prems(1)] by (simp add: d2_def copy_screen_def on_mem_def)
      qed
      then have k3: "kept v m0 (dmem d3)" by (simp add: d3_def)
      have d3: "d3 = d\<lparr>stub_of := (stub_of d)\<lparr>gmem := dmem d3\<rparr>, key_reads := ?k + j + 2\<rparr>"
        by (simp add: d3_def d2_def copy_screen_def on_mem_def)
      have k3r: "key_reads d3 = ?k + j + 2" by (simp add: d3_def)
      have "\<exists>m'. trap_loop inp inp60 v trapno error_code t (1 - shn) d3 =
          ret (Returned (d3\<lparr>stub_of := (stub_of d3)\<lparr>gmem := m'\<rparr>, key_reads := ?k + n + 3\<rparr>)) \<and>
        (\<forall>a. 4000 \<le> unat (a - video_mem v) \<longrightarrow> m' a = m0 a)"
      proof (cases "j = n1")
        case True
        then show ?thesis
          using trap_loop_i [OF assms(1) k3, of inp60 0] less.prems(4,5) Suc k3r by (simp add: eval_nat_numeral)
      next
        case False
        define n2 where "n2 = n - (j + 2)"
        have n2: "n = j + 2 + n2" "n2 < n" using False jn Suc by (simp_all add: n2_def)
        have "\<And>i. i < n2 \<Longrightarrow> inp60 (key_reads d3 + i) \<notin> {1, 0x17, 0x20}"
          using less.prems(2) [of "j + 2 + _"] n2 by (simp add: k3r add.assoc)
        then show ?thesis
          using less.IH [OF n2(2) k3, of "1 - shn"] less.prems(3-) n2(1) by (simp add: k3r add.assoc)
      qed
      then show ?thesis unfolding step by (subst (asm) (2) d3) (auto simp: d3_def d2_def copy_screen_def on_mem_def)
    qed
  qed
qed

subsection \<open>Continuing\<close>

lemma number_in_none: "m p = 0 \<Longrightarrow> number_in m p = ret (0, p)"
  by (simp add: number_in_def strtoul_def skip_spaces.simps [of m p] isspace_def number_base_def
      strtoul_loop.simps [of m 16 p] digit_of_def schar_def)

lemma state_at_cong:
  assumes "\<And>k. k < 64 \<Longrightarrow> m' (st + of_nat k) = m (st + of_nat k)" "i < 16"
  shows "state_at st i m' = state_at st i m"
proof -
  have "m' (st + of_nat (4 * i + j)) = m (st + of_nat (4 * i + j))" if "j < 4" for j
    using assms that by (intro assms(1)) simp
  from this [of 0] this [of 1] this [of 2] this [of 3] show ?thesis by (simp add: state_at_def read32_def ac_simps)
qed

lemma state_at_write:
  assumes "i < 16" "j < 16"
  shows "state_at st i (write32 (st + 4 * of_nat j) w m) = (if i = j then w else state_at st i m)"
proof (cases "i = j")
  case False
  then have "apart4 (st + 4 * of_nat j) (st + 4 * of_nat i)"
    using assms state_distinct [of i j st] state_distinct [of j i st] apart4_commute by (cases "i < j") auto
  then show ?thesis using False by (simp add: state_at_def read_apart)
qed (simp add: state_at_def read32_write32)

lemma turn_c:
  assumes "gmem s (inbuf e + 2) \<noteq> 58" "comes inp (received s) (packet [99])"
  shows "converse_turn inp e cb s = ret (GDB_CONT, (asked e [99] s)\<lparr>signo := 0,
    gmem := write32 (regs e + 36) (state_at (regs e) 9 (gmem (asked e [99] s)) AND NOT 0x100) (gmem (asked e [99] s))\<rparr>)"
proof -
  let ?s = "asked e [99] s"
  have "unat ((inbuf e + 2) - inbuf e) = 2" by simp
  then have "filled (gmem s) (inbuf e) [99] (inbuf e + 2) \<noteq> 58"
    using assms(1) filled_outside [of "[99]" 2 "inbuf e + 2" "inbuf e" "gmem s"] by simp
  then have turn: "converse_turn inp e cb s =
    bindr (dispatch inp e cb ?s) (\<lambda>(r, retval, s2). bindr (answer inp r s2) (\<lambda>s3. ret (retval, s3)))"
    using assms(2) by (intro converse_turn_ok) (auto simp: BUFMAX_def)
  have h: "gmem ?s (inbuf e) = 99" "gmem ?s (inbuf e + 1) = 0" using asked_holds [of "[99]" e s] by (simp_all add: BUFMAX_def)
  have "resume_at e (inbuf e + 1) False ?s =
    ret (?s\<lparr>gmem := write32 (regs e + 36) (state_at (regs e) 9 (gmem ?s) AND NOT 0x100) (gmem ?s)\<rparr>)"
    by (simp add: resume_at_def number_in_none [of "gmem ?s"] h(2) gdb_set_trace_flag_def EFL_TF_def EFLAGS_def state_at_def Let_def)
  then show ?thesis
    by (simp only: turn dispatch_def Let_def h(1)) (simp add: cmd_cs_def h(1) answer_def)
qed

lemma report_S:
  assumes "acked inp (received s) 0"
  shows "\<exists>body. unrun body = 83 # hextext [signo s] \<and>
    report inp e None s = ret (s\<lparr>sent := sent s @ packet body, received := received s + 1\<rparr>)"
  using putpacket_ok [of "[lit ''S'', hexbyte (signo s)]" inp s] assms
  by (simp add: report_def plain_frags_def lit_def hexbyte_def packet_text_def text_of_def)

theorem debugger_continues_ok:
  assumes "disjoint t 104 (regs e) 64" "disjoint (regs e) 64 (inbuf e) 401" "dmem d (inbuf e + 2) \<noteq> 58"
    "acked inp (received (stub_of d)) 0" "comes inp (received (stub_of d) + 1) (packet [99])"
  shows "\<exists>d' body. debugger inp cr0 e trapno t d = ret (Returned d') \<and> do_debug d' = do_debug d \<and>
    unrun body = 83 # hextext [signal_of trapno] \<and> sent (stub_of d') = sent (stub_of d) @ packet body @ [43] \<and>
    (\<forall>i<16. reg_at t i (dmem d') = (if i = 9 then reg_at t 9 (dmem d) AND NOT 0x100 else reg_at t i (dmem d)))"
proof -
  let ?m = "save_regs t (regs e) (dmem d)"
  let ?s0 = "(stub_of d)\<lparr>thread_id := - 1, signo := signal_of trapno, gmem := ?m\<rparr>"
  let ?e = "copy_client_paging_registers cr0 (read32 (t + 28) ?m) e"
  have env: "inbuf ?e = inbuf e" "regs ?e = regs e" by (simp_all add: copy_client_paging_registers_def)
  obtain body where b: "unrun body = 83 # hextext [signal_of trapno]"
    "report inp ?e None (?s0\<lparr>regs_changed := False\<rparr>) =
      ret (?s0\<lparr>regs_changed := False, sent := sent (stub_of d) @ packet body, received := received (stub_of d) + 1\<rparr>)"
    using report_S [of inp "?s0\<lparr>regs_changed := False\<rparr>" ?e] assms(4) by auto
  define s1 where "s1 = ?s0\<lparr>regs_changed := False, sent := sent (stub_of d) @ packet body, received := received (stub_of d) + 1\<rparr>"
  have m1: "gmem s1 = ?m" by (simp add: s1_def)
  have "?m (inbuf e + 2) = dmem d (inbuf e + 2)"
  proof -
    have "4 \<le> unat (inbuf e + 2 - (regs e + 4 * of_nat i))" if "i < 16" for i
    proof -
      have "disjoint (regs e + of_nat (4 * i)) 4 (inbuf e) 401"
      proof (rule disjoint_less)
        show "disjoint (regs e + of_nat (4 * i)) (64 - 4 * i) (inbuf e) 401"
          by (rule disjoint_shift) (use assms(2) that in simp)
      qed (use that in simp_all)
      then show ?thesis
        using disjoint_outside [of "inbuf e" 401 "regs e + 4 * of_nat i" 4 2] by (simp add: disjoint_commute)
    qed
    then show ?thesis unfolding save_pairs by (intro copy_words_byte) (auto simp: tss_pairs_def)
  qed
  then have "converse_turn inp ?e None s1 = ret (GDB_CONT, (asked ?e [99] s1)\<lparr>signo := 0,
    gmem := write32 (regs e + 36) (state_at (regs e) 9 (gmem (asked ?e [99] s1)) AND NOT 0x100) (gmem (asked ?e [99] s1))\<rparr>)"
    using turn_c [of s1 ?e inp None] assms(3,5) by (simp add: env s1_def)
  moreover define s2 where "s2 = (asked ?e [99] s1)\<lparr>signo := 0,
    gmem := write32 (regs e + 36) (state_at (regs e) 9 (gmem (asked ?e [99] s1)) AND NOT 0x100) (gmem (asked ?e [99] s1))\<rparr>"
  ultimately have "converse_loop inp ?e None s1 = ret (GDB_CONT, s2)" by (subst converse_loop.simps) simp
  then have conv: "gdb_serial_converse inp ?e None ?s0 = ret (GDB_CONT, s2)"
    using b(2) by (simp add: gdb_serial_converse_def s1_def)
  have st: "state_at (regs e) i (gmem (asked ?e [99] s1)) = reg_at t i (dmem d)" if "i < 16" for i
  proof -
    have "state_at (regs e) i (gmem (asked ?e [99] s1)) = state_at (regs e) i ?m"
    proof (rule state_at_cong [OF _ that])
      fix k :: nat assume "k < 64"
      from disjoint_outside [OF assms(2) this] show "gmem (asked ?e [99] s1) (regs e + of_nat k) = ?m (regs e + of_nat k)"
        by (simp add: asked_def env m1 filled_outside [of _ 401])
    qed
    then show ?thesis using save_regs_ok [OF assms(1) that] by simp
  qed
  have "reg_at t i (load_regs t (regs e) (gmem s2)) = (if i = 9 then reg_at t 9 (dmem d) AND NOT 0x100 else reg_at t i (dmem d))"
    if i: "i < 16" for i
    using load_regs_ok [OF assms(1) i] state_at_write [of i 9 "regs e"] st i by (simp add: s2_def)
  moreover have "sent s2 = sent (stub_of d) @ packet body @ [43]" by (simp add: s2_def asked_def s1_def)
  moreover have "debugger inp cr0 e trapno t d = ret (Returned (d\<lparr>stub_of := s2\<lparr>gmem := load_regs t (regs e) (gmem s2)\<rparr>\<rparr>))"
    using conv by (simp add: debugger_def Let_def)
  ultimately show ?thesis using b(1) by auto
qed

subsection \<open>The segment of the interrupted task\<close>

definition bytes64 :: "u64 \<Rightarrow> u8 list" where
  "bytes64 e = map (\<lambda>i. ucast (drop_bit (8 * i) e)) [0..<8]"

lemma tss_sel_desc:
  assumes "holds m (gdtp + 8 * ucast (drop_bit 3 sel)) (bytes64 e)"
  shows "tss_sel_2_tss gdtp sel m = desc_base e"
proof -
  let ?p = "gdtp + 8 * ucast (drop_bit 3 sel)"
  have b: "m (?p + of_nat i) = ucast (drop_bit (8 * i) e)" if "i < 8" for i
    using holds_nth [OF assms, of i] that by (simp add: bytes64_def)
  have b2: "m (?p + 2) = ucast (drop_bit 16 e)" "m (?p + 3) = ucast (drop_bit 24 e)" "m (?p + 4) = ucast (drop_bit 32 e)"
    "m (?p + 5) = ucast (drop_bit 40 e)" "m (?p + 7) = ucast (drop_bit 56 e)"
    using b [of 2] b [of 3] b [of 4] b [of 5] b [of 7] by simp_all
  define w where "w = read32 (?p + 2) m AND 0xffffff"
  have low: "w = field e 16 24"
  proof (rule bit_word_eqI)
    fix i assume "i < LENGTH(32)"
    have mask: "(0xffffff :: u32) = mask 24" by (simp add: mask_eq_exp_minus_1)
    have r: "read32 (?p + 2) m = ucast (ucast (drop_bit 16 e) :: u8) OR push_bit 8 (ucast (ucast (drop_bit 24 e) :: u8)) OR
      push_bit 16 (ucast (ucast (drop_bit 32 e) :: u8)) OR push_bit 24 (ucast (ucast (drop_bit 40 e) :: u8))"
      using b2 by (simp add: read32_def add.assoc)
    have "i < 8 \<or> i = 8 + (i - 8) \<and> i - 8 < 8 \<or> i = 16 + (i - 16) \<and> i - 16 < 8 \<or> 24 \<le> i" by auto
    then consider "i < 8" | j where "i = 8 + j" "j < 8" | j where "i = 16 + j" "j < 8" | "24 \<le> i" by blast
    then show "bit w i = bit (field e 16 24) i"
      unfolding w_def mask r
      by cases (simp_all add: field_def bit_and_iff bit_or_iff bit_push_bit_iff bit_unsigned_iff bit_drop_bit_eq bit_take_bit_iff bit_mask_iff)
  qed
  have high: "push_bit 24 (ucast (m (?p + 7))) = push_bit 24 (field e 56 8)"
    by (rule bit_word_eqI) (auto simp: b2(5) field_def bit_push_bit_iff bit_unsigned_iff bit_drop_bit_eq bit_take_bit_iff)
  have "field e 16 24 + push_bit 24 (field e 56 8) = field e 16 24 OR push_bit 24 (field e 56 8)"
    by (rule disjunctive_add) (auto simp: field_def bit_unsigned_iff bit_take_bit_iff bit_push_bit_iff)
  then show ?thesis using low high by (simp add: tss_sel_2_tss_def Let_def w_def desc_base_def)
qed

end
