(* ===== verification/Gdb_Props.thy ===== *)
theory Gdb_Props
  imports Gdb_Cmds
begin

text \<open>
  The properties of the remote debugger (kernel/gdb\_serial.c), each with the inputs it is applied to.
\<close>

text \<open>A line on which some bytes arrive and then only \<open>+\<close>, and a stub with empty buffers.\<close>

definition line :: "u8 list \<Rightarrow> nat \<Rightarrow> u8" where
  "line bs n = (if n < length bs then bs ! n else 43)"

lemma line_comes: "comes (line (xs @ ys @ zs)) (length xs) ys"
  by (auto simp: comes_def line_def nth_append)

lemma line_acked: "length bs \<le> n \<Longrightarrow> acked (line bs) n 0"
  by (simp add: acked_def line_def)

definition idle_stub :: stub where
  "idle_stub = \<lparr>gmem = (\<lambda>_. 7), sent = [], received = 0, thread_id = - 1, signo = 5, regs_changed = False,
     connected = False, gdb_serial_debug = False\<rparr>"

definition sample_env :: gdb_env where
  "sample_env = \<lparr>inbuf = 0x1000, outbuf = 0x2000, regs = 0x3000, client_cr0 = 0, client_cr3 = 0, junk_pa = 0\<rparr>"

subsection \<open>Packets\<close>

text \<open>
  C25: What \<open>putfrags\<close> sends is a packet whose body, with the runs undone the way the debugger does it,
  is the text of the fragments: hexadecimal digits or the plain bytes. The packet ends with the
  checksum of the body and is sent again until it is acknowledged.
\<close>

theorem packet_decodes:
  assumes "plain_frags frags" and "acked inp (received s) k"
  shows "\<exists>body. unrun body = packet_text frags \<and>
    putfrags inp frags s =
      ret (s\<lparr>sent := sent s @ concat (replicate (Suc k) (packet body)), received := received s + Suc k\<rparr>)"
  by (rule putfrags_ok [OF assms])

theorem packet_decodes_witness:
  "\<exists>body. unrun body = [83, 48, 53] \<and>
     putfrags (line [45]) [lit ''S'', hexbyte 5] \<lparr>gmem = (\<lambda>_. 0), sent = [], received = 0\<rparr> =
       ret \<lparr>gmem = (\<lambda>_. 0), sent = packet body @ packet body, received = Suc (Suc 0)\<rparr>"
proof -
  have "acked (line [45]) (received \<lparr>gmem = (\<lambda>_. 0 :: u8), sent = [], received = 0\<rparr>) 1"
    by (simp add: acked_def line_def)
  moreover have "packet_text [lit ''S'', hexbyte 5] = [83, 48, 53]"
    by (simp add: packet_text_def text_of_def lit_def hexbyte_def nibble_def hexchars_def)
  ultimately show ?thesis
    using packet_decodes [of "[lit ''S'', hexbyte 5]" "line [45]" "\<lparr>gmem = (\<lambda>_. 0), sent = [], received = 0\<rparr>" 1]
    by (simp add: plain_frags_def lit_def hexbyte_def)
qed

text \<open>
  A packet that comes in, after any characters without \<open>$\<close>, is in the buffer with a NUL behind it
  and is acknowledged by \<open>+\<close>; nothing else in memory changes.
\<close>

theorem getpacket_receives:
  assumes "\<forall>b\<in>set junk. b AND 0x7f \<noteq> 36" and "35 \<notin> set bs" and "length bs < BUFMAX"
    and "bs \<noteq> [] \<longrightarrow> last bs \<noteq> 0x7d" and "filled (gmem s) buffer bs (buffer + 2) \<noteq> 58"
    and "comes inp (received s) (junk @ packet bs)"
  shows "\<exists>s'. getpacket inp buffer s = ret s' \<and> holds (gmem s') buffer (bs @ [0]) \<and> sent s' = sent s @ [43] \<and>
    received s' = received s + length junk + length bs + 4 \<and>
    (\<forall>a. length bs < unat (a - buffer) \<longrightarrow> gmem s' a = gmem s a)"
  using getpacket_ok [OF assms] filled_holds [OF assms(3), of "gmem s" buffer]
    filled_outside [of bs "Suc (length bs)" _ buffer "gmem s"] by (simp add: Suc_le_eq)

theorem getpacket_receives_witness:
  "\<exists>s'. getpacket (line (43 # packet [103, 1, 2])) 0x1000 \<lparr>gmem = (\<lambda>_. 7), sent = [], received = 0\<rparr> = ret s' \<and>
     holds (gmem s') 0x1000 [103, 1, 2, 0] \<and> sent s' = [43]"
  using getpacket_receives [of "[43]" "[103, 1, 2]" "\<lparr>gmem = (\<lambda>_. 7), sent = [], received = 0\<rparr>" "0x1000" "line (43 # packet [103, 1, 2])"]
    line_comes [of "[]" "43 # packet [103, 1, 2]" "[]"]
  by (auto simp: BUFMAX_def filled_def)

text \<open>
  A packet of 400 bytes without \<open>#\<close> whose sum is 255 modulo 256 is taken as valid: the missing
  checksum is the initial value -1 of an \<open>unsigned char\<close>, and no answer is sent.
\<close>

lemma packet_body_full:
  assumes "comes inp (received s) bs" "35 \<notin> set bs" "bs \<noteq> []"
  shows "packet_body inp buffer (length bs) count ck ch s =
    (count + length bs, ck + sum_list bs, last bs,
     s\<lparr>gmem := poke (gmem s) (buffer + of_nat count) bs, received := received s + length bs\<rparr>)"
  using assms
proof (induction bs arbitrary: count ck ch s)
  case (Cons b bs)
  let ?s = "s\<lparr>received := received s + 1, gmem := (gmem s)(buffer + of_nat count := b)\<rparr>"
  show ?case
  proof (cases "bs = []")
    case False
    have "packet_body inp buffer (length bs) (count + 1) (ck + b) b ?s =
      (count + 1 + length bs, ck + b + sum_list bs, last bs,
       ?s\<lparr>gmem := poke (gmem ?s) (buffer + of_nat (count + 1)) bs, received := received ?s + length bs\<rparr>)"
      by (rule Cons.IH) (use Cons.prems False in \<open>auto simp: comes_Cons\<close>)
    then show ?thesis using Cons.prems False by (simp add: comes_Cons gdb_recv_def ac_simps)
  next
    case True
    have "s\<lparr>received := Suc (received s), gmem := m\<rparr> = s\<lparr>gmem := m, received := Suc (received s)\<rparr>" for m by simp
    then show ?thesis using Cons.prems True by (simp add: comes_Cons gdb_recv_def fun_upd_def cong del: if_weak_cong)
  qed
qed simp

theorem getpacket_accepts_unterminated:
  assumes "length bs = BUFMAX" and "35 \<notin> set bs" and "sum_list bs = 255" and "comes inp (received s) (36 # bs)"
  shows "getpacket inp buffer s = ret (s\<lparr>gmem := filled (gmem s) buffer bs, received := received s + 401\<rparr>)"
proof -
  let ?s = "s\<lparr>received := received s + 1\<rparr>"
  have ws: "wait_start inp s = ret ?s" using wait_start_ok [of "[]" inp s] assms(4) by (simp add: comes_Cons)
  have ne: "bs \<noteq> []" using assms(1) by (auto simp: BUFMAX_def)
  have "packet_body inp buffer BUFMAX 0 0 36 ?s =
    (BUFMAX, 255, last bs, ?s\<lparr>gmem := poke (gmem ?s) (buffer + of_nat 0) bs, received := received ?s + BUFMAX\<rparr>)"
    using packet_body_full [of inp ?s bs buffer 0 0 36] assms ne by (simp add: comes_Cons)
  moreover have "last bs \<noteq> 35" using assms(2) ne last_in_set by metis
  ultimately show ?thesis
    by (subst getpacket.simps) (simp add: ws packet_end_def filled_def assms(1), simp add: BUFMAX_def)
qed

theorem getpacket_accepts_unterminated_witness:
  "\<exists>s'. getpacket (line (36 # 255 # replicate 399 0)) 0x1000 \<lparr>gmem = (\<lambda>_. 7), sent = [], received = 0\<rparr> = ret s' \<and> sent s' = []"
  using getpacket_accepts_unterminated [of "255 # replicate 399 0" "line (36 # 255 # replicate 399 0)"
      "\<lparr>gmem = (\<lambda>_. 7), sent = [], received = 0\<rparr>" "0x1000"]
    line_comes [of "[]" "36 # 255 # replicate 399 0" "[]"]
  by (simp add: BUFMAX_def sum_list_replicate)

text \<open>
  The count of a run can be one of the two characters that delimit packets: four equal bytes of
  equal digits, such as a register that is 0, are sent with \<open>$\<close>, and seven equal characters with \<open>#\<close>.
\<close>

theorem run_sends_delimiter:
  assumes "drop_bit 4 b = b AND 0xf"
  shows "frag_loop True (replicate 4 b) x = sends [nibble (b AND 0xf), 42, 36] x \<and>
    frag_loop False (replicate 7 c) x = sends [c, 42, 35] x"
proof
  have e: "frag_loop hx [] x = x" for hx x by (simp add: frag_loop.simps)
  have r: "run_length True [b, b, b, b] = 4" "run_length False [c, c, c, c, c, c, c] = 7" by (simp_all add: run_length_def)
  have l: "replicate 4 b = [b, b, b, b]" "replicate 7 c = [c, c, c, c, c, c, c]" by (simp_all add: numeral_eq_Suc)
  show "frag_loop True (replicate 4 b) x = sends [nibble (b AND 0xf), 42, 36] x"
    unfolding l by (subst frag_loop.simps) (simp add: assms r e SEND_sends sends_sends)
  show "frag_loop False (replicate 7 c) x = sends [c, 42, 35] x"
    unfolding l by (subst frag_loop.simps) (simp add: r e SEND_sends sends_sends)
qed

theorem run_sends_delimiter_witness:
  "frag_loop True (replicate 4 0) (s, 0) = sends [48, 42, 36] (s, 0)"
  using run_sends_delimiter [where b = 0 and x = "(s, 0)"] by (simp add: nibble_def hexchars_def)

subsection \<open>Registers and memory\<close>

lemma disjoint_below: "unat p + n \<le> unat q \<Longrightarrow> unat q + k \<le> 2 ^ 32 \<Longrightarrow> disjoint p n q k"
  unfolding disjoint_def
proof (intro allI impI)
  fix i j assume h: "unat p + n \<le> unat q" "unat q + k \<le> 2 ^ 32" "i < n" "j < k"
  have "unat (of_nat (unat p + i) :: u32) = unat p + i" "unat (of_nat (unat q + j) :: u32) = unat q + j"
    by (rule unat_of_nat_u32, use h in simp)+
  then have "unat (p + of_nat i) \<noteq> unat (q + of_nat j)" using h by simp
  then show "p + of_nat i \<noteq> q + of_nat j" by metis
qed

lemma sample_disjoint:
  "disjoint (inbuf sample_env) 401 (regs sample_env) 64" "disjoint 0x5000 4 (inbuf sample_env) 401"
  "disjoint (outbuf sample_env) 4 (inbuf sample_env) 401" "disjoint (outbuf sample_env) 4 0x5000 4"
  by (auto simp: sample_env_def disjoint_commute [of "0x5000"] disjoint_commute [of "0x2000" _ "0x1000"] intro!: disjoint_below)

text \<open>
  C26: The registers the debugger sets with \<open>G\<close> are those it reads back with \<open>g\<close>: the command is
  answered "OK", the bytes are in \<open>*p->regs\<close>, and the next packet is answered by their digits.
\<close>

theorem gdb_registers_read_back:
  assumes "length bs = 64" and "disjoint (inbuf e) 401 (regs e) 64"
    and "comes inp (received s) (packet (71 # hextext bs) @ [43] @ packet [103] @ [43])"
  shows "\<exists>s1 s2 body1 body2. converse_turn inp e cb s = ret (GDB_MORE, s1) \<and> converse_turn inp e cb s1 = ret (GDB_MORE, s2) \<and>
    sent s2 = sent s @ [43] @ packet body1 @ [43] @ packet body2 \<and> unrun body1 = [79, 75] \<and> unrun body2 = hextext bs \<and>
    regs_changed s1 \<and> mem_bytes (gmem s2) (regs e) 64 = bs"
proof -
  let ?p = "71 # hextext bs"
  have c1: "comes inp (received s) (packet ?p @ [43])" "comes inp (received s + 134) (packet [103] @ [43])"
    using assms(1,3) by (simp_all add: comes_append comes_Cons ac_simps)
  obtain body1 s1 where t1: "unrun body1 = [79, 75]" "converse_turn inp e cb s = ret (GDB_MORE, s1)"
    and s1: "gmem s1 = poke (filled (gmem s) (inbuf e) ?p) (regs e) bs" "sent s1 = sent s @ [43] @ packet body1"
      "received s1 = received s + 134" "regs_changed s1"
    using turn_G [OF assms(1,2) c1(1), of cb] by (elim exE conjE) (rule that, auto)
  have m1: "mem_bytes (gmem s1) (regs e) 64 = bs" using mem_bytes_poke [of bs] assms(1) by (simp add: s1(1))
  have "holds (filled (gmem s) (inbuf e) ?p) (inbuf e) (?p @ [0])"
    by (rule filled_holds) (use assms(1) in \<open>simp add: BUFMAX_def\<close>)
  moreover have "disjoint (inbuf e) (length (?p @ [0])) (regs e) (length bs)"
    by (rule disjoint_less [OF assms(2)]) (use assms(1) in simp_all)
  ultimately have "holds (gmem s1) (inbuf e) (?p @ [0])" using s1(1) holds_poke_other by metis
  from holds_nth [OF this, of 2] have "gmem s1 (inbuf e + 2) = hextext bs ! 1"
    using assms(1) by (simp add: nth_append)
  moreover have "hextext bs ! 1 \<in> set (hextext bs)" using assms(1) by simp
  ultimately have "gmem s1 (inbuf e + 2) \<noteq> 58" using hextext_plain by auto
  then obtain s2 body2 where "unrun body2 = hextext bs" "converse_turn inp e cb s1 = ret (GDB_MORE, s2)"
    "sent s2 = sent s1 @ [43] @ packet body2" "mem_bytes (gmem s2) (regs e) 64 = bs"
    using turn_g [of s1 e inp cb] m1 assms(2) c1(2) s1(3) by (auto simp: disjoint_commute)
  then show ?thesis using t1 s1(2,4) by (intro exI [of _ s1] exI [of _ s2] exI [of _ body1] exI [of _ body2]) simp
qed

theorem gdb_registers_read_back_witness:
  "\<exists>inp s1 s2. converse_turn inp sample_env None idle_stub = ret (GDB_MORE, s1) \<and>
     converse_turn inp sample_env None s1 = ret (GDB_MORE, s2) \<and> mem_bytes (gmem s2) 0x3000 64 = replicate 64 9"
proof -
  let ?xs = "packet (71 # hextext (replicate 64 9)) @ [43] @ packet [103] @ [43]"
  have "comes (line ?xs) (received idle_stub) ?xs" using line_comes [of "[]" ?xs "[]"] by (simp add: idle_stub_def)
  from gdb_registers_read_back [OF length_replicate sample_disjoint(1) this, of None] show ?thesis
    by (auto simp: sample_env_def)
qed

text \<open>
  The debugger reads memory as it is: when paging is off, the packet \<open>m\<close> with an address and a
  length up to 200 is answered by the digits of the bytes there, and only the buffer changes.
\<close>

theorem gdb_memory_read:
  assumes "client_cr0 e AND 0x80000000 = 0" and "0 < unat len" and "unat len \<le> 200"
    and "disjoint addr (unat len) (inbuf e) 401"
    and "comes inp (received s) (packet (109 # range_text addr len) @ [43])"
  shows "\<exists>s' body. unrun body = hextext (mem_bytes (gmem s) addr (unat len)) \<and>
    converse_turn inp e cb s = ret (GDB_MORE, s') \<and> sent s' = sent s @ [43] @ packet body \<and>
    (\<forall>a. 401 \<le> unat (a - inbuf e) \<longrightarrow> gmem s' a = gmem s a)"
  by (rule turn_m [OF assms])

theorem gdb_memory_read_witness:
  "\<exists>inp s' body. unrun body = [48, 55, 48, 55, 48, 55, 48, 55] \<and>
     converse_turn inp sample_env None idle_stub = ret (GDB_MORE, s') \<and> sent s' = 43 # packet body"
proof -
  let ?xs = "packet (109 # range_text 0x5000 4) @ [43]"
  have c: "comes (line ?xs) (received idle_stub) ?xs" using line_comes [of "[]" ?xs "[]"] by (simp add: idle_stub_def)
  have "hextext (mem_bytes (gmem idle_stub) 0x5000 4) = [48, 55, 48, 55, 48, 55, 48, 55]"
    by (simp add: idle_stub_def mem_bytes_def upt_conv_Cons nibble_def hexchars_def)
  then show ?thesis
    using gdb_memory_read [of sample_env 4 "0x5000" "line ?xs" idle_stub None] sample_disjoint(2) c
    by (auto simp: sample_env_def idle_stub_def)
qed

text \<open>
  The debugger writes memory: when paging is off, the packet \<open>M\<close> whose bytes fit in the buffer is
  answered "OK", and the bytes are at the address.
\<close>

theorem gdb_memory_write:
  assumes "client_cr0 e AND 0x80000000 = 0" and "unat (inbuf e) + BUFMAX < 2 ^ 32"
    and "length (range_text addr (of_nat (length bs))) + 2 + 2 * length bs < BUFMAX"
    and "disjoint (outbuf e) (length bs) (inbuf e) 401" and "disjoint (outbuf e) (length bs) addr (length bs)"
    and "comes inp (received s) (packet (77 # range_text addr (of_nat (length bs)) @ [58] @ hextext bs) @ [43])"
  shows "\<exists>s' body. unrun body = [79, 75] \<and> converse_turn inp e cb s = ret (GDB_MORE, s') \<and>
    sent s' = sent s @ [43] @ packet body \<and> mem_bytes (gmem s') addr (length bs) = bs"
  by (rule turn_M [OF assms])

theorem gdb_memory_write_witness:
  "\<exists>inp s'. converse_turn inp sample_env None idle_stub = ret (GDB_MORE, s') \<and> mem_bytes (gmem s') 0x5000 4 = [1, 2, 3, 4]"
proof -
  define bs :: "u8 list" where "bs = [1, 2, 3, 4]"
  have l: "length bs = 4" by (simp add: bs_def)
  let ?xs = "packet (77 # range_text 0x5000 (of_nat (length bs)) @ [58] @ hextext bs) @ [43]"
  have c: "comes (line ?xs) (received idle_stub) ?xs" using line_comes [of "[]" ?xs "[]"] by (simp add: idle_stub_def)
  have "length (range_text 0x5000 (of_nat (length bs))) + 2 + 2 * length bs < BUFMAX"
    using range_text_length(2) [of "0x5000" "of_nat (length bs)"] by (simp add: l BUFMAX_def)
  moreover have "disjoint (outbuf sample_env) (length bs) (inbuf sample_env) 401" "disjoint (outbuf sample_env) (length bs) 0x5000 (length bs)"
    using sample_disjoint(3,4) by (simp_all only: l)
  ultimately obtain s' where "converse_turn (line ?xs) sample_env None idle_stub = ret (GDB_MORE, s')"
    "mem_bytes (gmem s') 0x5000 (length bs) = bs"
    using gdb_memory_write [OF _ _ _ _ _ c, of sample_env None] by (auto simp: sample_env_def BUFMAX_def)
  then show ?thesis unfolding l by (auto simp: bs_def)
qed

text \<open>
  The check of the register number of \<open>P\<close> overflows: for 0x3fffffff, (reg + 1) * 4 is 0, so the
  number is accepted and the four bytes before the registers are overwritten.
\<close>

theorem gdb_register_before_first:
  assumes "holds (gmem s) (inbuf e + 1) (digits 16 0x3fffffff @ [61] @ hextext bs)" and "length bs = 4"
    and "disjoint (inbuf e) 401 (regs e - 4) 4"
  shows "cmd_P e s = ret (Ok, s\<lparr>gmem := poke (gmem s) (regs e - 4) bs, regs_changed := True\<rparr>)"
proof -
  let ?D = "digits 16 (unat (0x3fffffff :: u32))"
  let ?n = "length ?D"
  have eq: "digit_of 16 61 = None" "(61 :: u8) \<notin> {120, 88}" by (simp_all add: digit_of_def schar_def)
  have h: "holds (gmem s) (inbuf e + 1) (?D @ [61])" "holds (gmem s) (inbuf e + 1 + of_nat ?n + 1) (hextext bs)"
    using assms(1) by (simp_all add: holds_append add.assoc)
  have n: "number_in (gmem s) (inbuf e + 1) = ret (0x3fffffff, inbuf e + 1 + of_nat ?n)"
    by (rule number_in_ok [OF h(1) eq])
  have short: "0 < ?n" "?n \<le> 32" using digits_short [of 16 "0x3fffffff :: u32"] by simp_all
  then have "unat (of_nat ?n :: u32) = ?n" by (intro unat_of_nat_u32) simp
  then have ne: "inbuf e + 1 + of_nat ?n \<noteq> inbuf e + 1" using short by auto
  have c: "gmem s (inbuf e + 1 + of_nat ?n) = 61" using h(1) by (simp add: holds_append)
  have "disjoint (inbuf e + of_nat (2 + ?n)) (401 - (2 + ?n)) (regs e - 4) 4"
    by (rule disjoint_shift) (use assms(3) short in simp)
  then have "disjoint (inbuf e + of_nat (2 + ?n)) (2 * length bs) (regs e - 4) (length bs)"
    by (rule disjoint_less) (use assms(2) short in simp_all)
  moreover have at: "inbuf e + of_nat (2 + ?n) = inbuf e + 1 + of_nat ?n + 1" by simp
  ultimately have "hex2bin (length bs) (inbuf e + 1 + of_nat ?n + 1) (regs e - 4) (gmem s) = (0, poke (gmem s) (regs e - 4) bs)"
    by (intro hex2bin_ok [OF h(2)]) (simp_all only: at, simp add: assms(2))
  moreover have "regs e + 4 * 0x3fffffff = regs e - 4"
  proof -
    have "(4 * 0x3fffffff :: u32) = - 4" by simp
    then show ?thesis by (simp only: add_uminus_conv_diff)
  qed
  ultimately show ?thesis
    using ne c assms(2) by (simp only: cmd_P_def n bindr_ret prod.case) (simp add: sizeof_state_def)
qed

theorem gdb_register_before_first_witness:
  "\<exists>s'. cmd_P sample_env (idle_stub\<lparr>gmem := poke (\<lambda>_. 0) 0x1001 (digits 16 0x3fffffff @ [61] @ hextext [1, 2, 3, 4])\<rparr>) = ret (Ok, s') \<and>
     gmem s' 0x2ffc = 1"
proof -
  let ?txt = "digits 16 0x3fffffff @ [61] @ hextext [1, 2, 3, 4 :: u8]"
  have "length (digits 16 0x3fffffff) \<le> 32" using digits_short [of 16 "0x3fffffff :: u32"] by simp
  then have "holds (poke (\<lambda>_. 0) 0x1001 ?txt) 0x1001 ?txt" by (intro holds_poke) simp
  moreover have "disjoint 0x1000 401 0x2ffc 4" by (rule disjoint_below) simp_all
  ultimately show ?thesis
    using gdb_register_before_first [of "idle_stub\<lparr>gmem := poke (\<lambda>_. 0) 0x1001 ?txt\<rparr>" sample_env "[1, 2, 3, 4]"]
    by (simp add: sample_env_def)
qed

end
