(* ===== verification/Debugger_Props.thy ===== *)
theory Debugger_Props
  imports Debugger_Ok Gdb_Props
begin

text \<open>The properties of the exception reports (kernel/debugger.c), each with the inputs it is applied to.\<close>

definition sample_dbg :: dbg where
  "sample_dbg = \<lparr>stub_of = idle_stub, do_debug = False, serial_on = False, key_reads = 0\<rparr>"

definition sample_trap :: trap_env where
  "sample_trap = \<lparr>genv = sample_env, cpu_cr0 = 0, video_mem = 0x200000, dump_text = 0x300000\<rparr>"

text \<open>
  C27: A debugger that only continues leaves the interrupted task as it was: the signal of the exception
  is reported, and after the packet \<open>c\<close> every register in the task state segment has its value
  again, with the trace flag cleared.
\<close>

theorem debugger_continues:
  assumes "disjoint t 104 (regs e) 64" and "disjoint (regs e) 64 (inbuf e) 401" and "dmem d (inbuf e + 2) \<noteq> 58"
    and "acked inp (received (stub_of d)) 0" and "comes inp (received (stub_of d) + 1) (packet [99])"
  shows "\<exists>d' body. debugger inp cr0 e trapno t d = ret (Returned d') \<and> do_debug d' = do_debug d \<and>
    unrun body = 83 # hextext [signal_of trapno] \<and> sent (stub_of d') = sent (stub_of d) @ packet body @ [43] \<and>
    (\<forall>i<16. reg_at t i (dmem d') = (if i = 9 then reg_at t 9 (dmem d) AND NOT 0x100 else reg_at t i (dmem d)))"
  by (rule debugger_continues_ok [OF assms])

theorem debugger_continues_witness:
  "\<exists>d' body. debugger (line (43 # packet [99])) 0 sample_env 14 0x8000 sample_dbg = ret (Returned d') \<and>
     unrun body = [83, 48, 98] \<and> sent (stub_of d') = packet body @ [43] \<and>
     reg_at 0x8000 8 (dmem d') = 0x07070707 \<and> reg_at 0x8000 9 (dmem d') = 0x07070607"
proof -
  let ?xs = "43 # packet [99]"
  have z: "received (stub_of sample_dbg) = 0" "sent (stub_of sample_dbg) = []" by (simp_all add: sample_dbg_def idle_stub_def)
  have c: "comes (line ?xs) (received (stub_of sample_dbg) + 1) (packet [99])" and a: "acked (line ?xs) (received (stub_of sample_dbg)) 0"
    using line_comes [of "[43]" "packet [99]" "[]"] by (simp_all add: z acked_def line_def)
  have d: "disjoint 0x8000 104 (regs sample_env) 64" "disjoint (regs sample_env) 64 (inbuf sample_env) 401"
    by (simp_all add: sample_env_def disjoint_below disjoint_commute [of _ 104] disjoint_commute [of _ 64 _ 401])
  have "dmem sample_dbg (inbuf sample_env + 2) \<noteq> 58" by (simp add: sample_dbg_def idle_stub_def)
  from debugger_continues [OF d this a c, of 0 14] obtain d' body where
    "debugger (line ?xs) 0 sample_env 14 0x8000 sample_dbg = ret (Returned d')"
    "unrun body = 83 # hextext [signal_of 14]" "sent (stub_of d') = packet body @ [43]"
    "\<forall>i<16. reg_at 0x8000 i (dmem d') =
      (if i = 9 then reg_at 0x8000 9 (dmem sample_dbg) AND NOT 0x100 else reg_at 0x8000 i (dmem sample_dbg))"
    by (auto simp: z)
  moreover have "reg_at 0x8000 i (dmem sample_dbg) = 0x07070707" for i
    by (simp add: reg_at_def read32_def sample_dbg_def idle_stub_def)
  ultimately show ?thesis
    by (intro exI [of _ d'] exI [of _ body]) (simp add: signal_of_def SIGSEGV_def nibble_def hexchars_def)
qed


lemma low_tss: "tss_off_screen 0"
proof -
  have "off_screen (of_nat i)" if "i < 104" for i
    using unat_of_nat_diff [of i "0xb8000"] that by (simp add: off_screen_def screen_base_def)
  then show ?thesis by (simp add: tss_off_screen_def)
qed


text \<open>
  C29: After an exception the user can go back to the program: whatever other keys but Esc and d are
  read before, when i is read the handler returns with the screen and the rest of memory as before the
  exception, and nothing is sent.
\<close>

theorem trap_returns_to_program:
  assumes "\<not> do_debug d" and "disjoint (video_mem v) 4000 screen_base 4000"
    and "tss_off_screen (tss_sel_2_tss gdtp (ucast (read32 (tss_sel_2_tss gdtp task (dmem d)) (dmem d))) (dmem d))"
    and "\<forall>i<n. inp60 (key_reads d + i) \<notin> {1, 0x17, 0x20}"
    and "inp60 (key_reads d + n) = 0x17" and "inp60 (key_reads d + n + 1) = 0x17" and "inp60 (key_reads d + n + 2) \<noteq> 0x17"
  shows "\<exists>d'. trap_handler inp inp60 v gdtp task trapno error_code d = ret (Returned d') \<and>
    (\<forall>a. 4000 \<le> unat (a - video_mem v) \<longrightarrow> dmem d' a = dmem d a) \<and> sent (stub_of d') = sent (stub_of d)"
proof -
  let ?t = "tss_sel_2_tss gdtp (ucast (read32 (tss_sel_2_tss gdtp task (dmem d)) (dmem d))) (dmem d)"
  let ?d = "on_mem (dump_registers (dump_text v) trapno error_code ?t) (copy_screen (video_mem v) screen_base d)"
  have a: "screen_apart v ?t" using assms(2,3) by (simp add: screen_apart_def)
  have k: "kept v (dmem d) (dmem ?d)"
    using kept_off [OF a kept_first [OF a] dump_registers_off [OF assms(3)]] by (simp add: on_mem_def copy_screen_def)
  have r: "key_reads ?d = key_reads d" "sent (stub_of ?d) = sent (stub_of d)" by (simp_all add: on_mem_def copy_screen_def)
  from trap_loop_restores [OF a k, of n inp60 inp trapno error_code 1] assms(4-) show ?thesis
    using assms(1) r by (auto simp: trap_handler_def Let_def)
qed

theorem trap_returns_to_program_witness:
  "\<exists>d'. trap_handler (\<lambda>_. 0) (\<lambda>i. [0x39, 0xb9, 0x1e, 0x17, 0x17, 0x97] ! min i 5) sample_trap 0 0 6 0
       (sample_dbg\<lparr>stub_of := idle_stub\<lparr>gmem := (\<lambda>_. 0)\<rparr>\<rparr>) = ret (Returned d') \<and> dmem d' 0xb8000 = 0"
proof -
  let ?d = "sample_dbg\<lparr>stub_of := idle_stub\<lparr>gmem := (\<lambda>_. 0)\<rparr>\<rparr>"
  have z: "tss_sel_2_tss 0 s (\<lambda>_. 0) = 0" for s by (simp add: tss_sel_2_tss_def read32_def)
  have "disjoint screen_base 4000 (video_mem sample_trap) 4000"
    by (rule disjoint_below) (simp_all add: screen_base_def sample_trap_def)
  then have dj: "disjoint (video_mem sample_trap) 4000 screen_base 4000" by (simp add: disjoint_commute)
  have keys: "\<forall>i<3. [0x39, 0xb9, 0x1e, 0x17, 0x17, 0x97 :: u8] ! min i 5 \<notin> {1, 0x17, 0x20}"
    by (simp add: numeral_3_eq_3 less_Suc_eq)
  show ?thesis
    using trap_returns_to_program [of ?d sample_trap 0 0 3 "\<lambda>i. [0x39, 0xb9, 0x1e, 0x17, 0x17, 0x97] ! min i 5" "\<lambda>_. 0" 6 0] dj keys
    by (auto simp: z low_tss sample_dbg_def sample_trap_def)
qed






end
