(* ===== verification/Kbd_Bits.thy ===== *)
theory Kbd_Bits
  imports Prelude
begin

text \<open>
  The operations on single bits in memory of kernel/kbd-linux/asm/bitops.h, and the scancodes of
  kernel/kbd-linux/scancode.c. A bitmap is the 32-bit words from its address on, also before and
  behind it, since the number of a bit may be any \<open>int\<close>.
\<close>

type_synonym bitmap = "int \<Rightarrow> u32"

subsection \<open>Bits\<close>

text \<open>The bit that \<open>btl\<close> and its variants select, and the value of \<open>sbbl\<close> after them.\<close>

definition bit_mask :: "int \<Rightarrow> u32" where
  "bit_mask nr = push_bit (nat (nr mod 32)) 1"

definition oldbit :: "int \<Rightarrow> bitmap \<Rightarrow> int" where
  "oldbit nr w = (if w (nr div 32) AND bit_mask nr \<noteq> 0 then - 1 else 0)"

definition set_bit_at :: "int \<Rightarrow> bitmap \<Rightarrow> bitmap" where
  "set_bit_at nr w = w(nr div 32 := w (nr div 32) OR bit_mask nr)"

definition clear_bit :: "int \<Rightarrow> bitmap \<Rightarrow> bitmap" where
  "clear_bit nr w = w(nr div 32 := w (nr div 32) AND NOT (bit_mask nr))"

definition change_bit :: "int \<Rightarrow> bitmap \<Rightarrow> bitmap" where
  "change_bit nr w = w(nr div 32 := w (nr div 32) XOR bit_mask nr)"

definition test_and_set_bit :: "int \<Rightarrow> bitmap \<Rightarrow> int \<times> bitmap" where
  "test_and_set_bit nr w = (oldbit nr w, set_bit_at nr w)"

definition test_and_clear_bit :: "int \<Rightarrow> bitmap \<Rightarrow> int \<times> bitmap" where
  "test_and_clear_bit nr w = (oldbit nr w, clear_bit nr w)"

definition test_and_change_bit :: "int \<Rightarrow> bitmap \<Rightarrow> int \<times> bitmap" where
  "test_and_change_bit nr w = (oldbit nr w, change_bit nr w)"

definition constant_test_bit :: "int \<Rightarrow> bitmap \<Rightarrow> int" where
  "constant_test_bit nr w = (if bit_mask nr AND w (nr div 32) \<noteq> 0 then 1 else 0)"

definition variable_test_bit :: "int \<Rightarrow> bitmap \<Rightarrow> int" where
  "variable_test_bit nr w = oldbit nr w"

subsection \<open>Searches\<close>

text \<open>\<open>bsfl\<close>: the lowest bit set; it is not used on 0.\<close>

fun bsf_from :: "nat \<Rightarrow> nat \<Rightarrow> u32 \<Rightarrow> nat" where
  "bsf_from 0 i x = i"
| "bsf_from (Suc n) i x = (if bit x i then i else bsf_from n (Suc i) x)"

definition bsf :: "u32 \<Rightarrow> nat" where
  "bsf x = bsf_from 32 0 x"

text \<open>\<open>repe; scasl\<close> over \<open>n\<close> words, from word \<open>i\<close> on.\<close>

fun scan_words :: "nat \<Rightarrow> int \<Rightarrow> bitmap \<Rightarrow> int" where
  "scan_words 0 i w = 32 * i"
| "scan_words (Suc n) i w =
     (if w i = - 1 then scan_words n (i + 1) w else 32 * i + int (bsf (w i XOR - 1)))"

definition find_first_zero_bit :: "bitmap \<Rightarrow> u32 \<Rightarrow> int" where
  "find_first_zero_bit w len = (if len = 0 then 0 else scan_words (unat (drop_bit 5 (len + 31))) 0 w)"

definition find_next_zero_bit :: "bitmap \<Rightarrow> int \<Rightarrow> int \<Rightarrow> int" where
  "find_next_zero_bit w len offset =
     (let p = offset div 32; b = nat (offset mod 32) in
      if b \<noteq> 0 then
        let x = NOT (drop_bit b (w p)); found = (if x = 0 then 32 else bsf x)
        in if found < 32 - b then int found + offset
           else offset + int (32 - b) + find_first_zero_bit (\<lambda>i. w (p + 1 + i)) (word_of_int (len - 32 * (p + 1)))
      else offset + find_first_zero_bit (\<lambda>i. w (p + i)) (word_of_int (len - 32 * p)))"

definition ffz :: "u32 \<Rightarrow> nat" where
  "ffz x = bsf (NOT x)"

definition ffs :: "u32 \<Rightarrow> nat" where
  "ffs x = (if x = 0 then 0 else bsf x + 1)"

subsection \<open>Scancodes\<close>

definition EINVAL :: int where "EINVAL = 1"
definition SC_LIM :: u32 where "SC_LIM = 89"
definition E1_PAUSE :: u8 where "E1_PAUSE = 119"

text \<open>The initial tables, with the names of the keycodes replaced by their numbers.\<close>

definition initial_high_keys :: "u8 list" where
  "initial_high_keys =
     [124, 125, 126, 127, 0, 0, 0,
      0, 0, 0, 0, 0, 0, 0, 0,
      0, 0, 0, 0, 0, 122, 0, 123,
      0, 0, 0, 89, 120, 0, 0, 90,
      91, 92, 93, 94,
      95, 124, 121, 0]"

definition initial_e0_keys :: "u8 list" where
  "initial_e0_keys =
     [0, 0, 0, 0, 0, 0, 0, 0,
      0, 0, 0, 0, 0, 0, 0, 0,
      0, 0, 0, 0, 0, 0, 0, 0,
      0, 0, 0, 0, 96, 97, 0, 0,
      0, 0, 0, 0, 0, 0, 0, 0,
      0, 0, 0, 0, 0, 0, 0, 0,
      0, 0, 0, 0, 0, 98, 0, 99,
      100, 0, 0, 0, 0, 113, 114, 115,
      116, 117, 0, 0, 0, 0, 101, 102,
      103, 104, 0, 105, 124, 106, 118, 107,
      108, 109, 110, 111, 0, 0, 0, 0,
      0, 0, 0, 125, 126, 127, 0, 0,
      0, 0, 0, 0, 0, 0, 0, 0,
      0, 0, 0, 0, 0, 0, 0, 112,
      0, 0, 0, 0, 0, 0, 0, 0,
      0, 0, 0, 0, 0, 0, 0, 0]"

record scan_state =
  high_keys :: "u8 list"
  e0_keys :: "u8 list"
  prev_scancode :: nat

definition setkeycode :: "u32 \<Rightarrow> u32 \<Rightarrow> scan_state \<Rightarrow> int \<times> scan_state" where
  "setkeycode scancode keycode s =
     (if scancode < SC_LIM \<or> scancode > 255 \<or> keycode > 127 then (- EINVAL, s)
      else if scancode < 128 then (0, s\<lparr>high_keys := (high_keys s)[unat (scancode - SC_LIM) := ucast keycode]\<rparr>)
      else (0, s\<lparr>e0_keys := (e0_keys s)[unat (scancode - 128) := ucast keycode]\<rparr>))"

definition getkeycode :: "u32 \<Rightarrow> scan_state \<Rightarrow> int" where
  "getkeycode scancode s =
     (if scancode < SC_LIM \<or> scancode > 255 then - EINVAL
      else if scancode < 128 then uint (high_keys s ! unat (scancode - SC_LIM))
      else uint (e0_keys s ! unat (scancode - 128)))"

text \<open>The keycode of a scancode, when there is one.\<close>

definition translate :: "u8 \<Rightarrow> scan_state \<Rightarrow> u8 option \<times> scan_state" where
  "translate scancode s =
     (if scancode = 0xe0 \<or> scancode = 0xe1 then (None, s\<lparr>prev_scancode := unat scancode\<rparr>)
      else if scancode = 0x00 \<or> scancode = 0xff then (None, s\<lparr>prev_scancode := 0\<rparr>)
      else
        let sc = scancode AND 0x7f in
        if prev_scancode s \<noteq> 0 then
          if prev_scancode s \<noteq> 0xe0 then
            if prev_scancode s = 0xe1 \<and> sc = 0x1d then (None, s\<lparr>prev_scancode := 0x100\<rparr>)
            else if prev_scancode s = 0x100 \<and> sc = 0x45 then (Some E1_PAUSE, s\<lparr>prev_scancode := 0\<rparr>)
            else (None, s\<lparr>prev_scancode := 0\<rparr>)
          else
            let s1 = s\<lparr>prev_scancode := 0\<rparr> in
            if sc = 0x2a \<or> sc = 0x36 then (None, s1)
            else if e0_keys s1 ! unat sc \<noteq> 0 then (Some (e0_keys s1 ! unat sc), s1)
            else (None, s1)
        else if sc \<ge> ucast SC_LIM then
          let keycode = high_keys s ! unat (sc - ucast SC_LIM)
          in (if keycode = 0 then None else Some keycode, s)
        else (Some sc, s))"

text \<open>Whether a key that is released without having been pressed counts as released.\<close>

definition unexpected_up :: "u8 \<Rightarrow> bool" where
  "unexpected_up keycode = (if keycode \<ge> ucast SC_LIM \<or> keycode = 85 then False else True)"

end
