(* ===== verification/Keyboard.thy ===== *)
theory Keyboard
  imports Keymap Kbd_Bits Strto
begin

text \<open>
  The keyboard driver (kernel/kbd-linux/keyboard.c, linux/kbd\_kern.h) with its glue to the kernel
  (kernel/keyboard-glue.c). What the driver hands to \<open>keyboard_data\<close> and \<open>kbd_leds\<close>, which are not
  defined in the repository, is collected in the state. The console in the foreground is always
  number 0. The empty functions of the glue are left out where they are called.
\<close>

subsection \<open>State\<close>

record kbd_struct =
  lockstate :: u8
  slockstate :: u8
  ledmode :: "2 word"
  ledflagstate :: "3 word"
  default_ledflagstate :: "3 word"
  kbdmode :: "2 word"
  modeflags :: "5 word"

datatype event = Chars "u8 list" | Leds u8 | Ledfunc u8

text \<open>\<open>tty\<close> and \<open>ledfunc\<close> tell whether these pointers are set.\<close>

record keyboard =
  k_down :: "u8 list"
  key_down :: bitmap
  dead_key_next :: bool
  shift_state :: u32
  npadch :: int
  diacr :: u8
  rep :: bool
  kbd_table :: "kbd_struct list"
  tty :: bool
  stopped :: bool
  ledstate :: u8
  ledioctl :: u8
  ledptrs :: "(u32 \<times> u32 \<times> bool) list"
  ledfunc :: bool
  scan :: scan_state
  tasklet_enabled :: bool
  init_done :: bool
  events :: "event list"

definition KT_LATIN :: nat where "KT_LATIN = 0"
definition KT_SPEC :: nat where "KT_SPEC = 2"
definition KT_SHIFT :: nat where "KT_SHIFT = 7"
definition KT_LETTER :: nat where "KT_LETTER = 11"
definition KT_SLOCK :: nat where "KT_SLOCK = 12"
definition KG_SHIFT :: nat where "KG_SHIFT = 0"
definition KG_CAPSSHIFT :: nat where "KG_CAPSSHIFT = 8"
definition NR_SHIFT :: nat where "NR_SHIFT = 9"

definition VC_NUMLOCK :: nat where "VC_NUMLOCK = 1"
definition VC_CAPSLOCK :: nat where "VC_CAPSLOCK = 2"
definition VC_XLATE :: "2 word" where "VC_XLATE = 0"
definition VC_MEDIUMRAW :: "2 word" where "VC_MEDIUMRAW = 1"
definition VC_RAW :: "2 word" where "VC_RAW = 2"
definition VC_UNICODE :: "2 word" where "VC_UNICODE = 3"
definition VC_APPLIC :: nat where "VC_APPLIC = 0"
definition VC_CKMODE :: nat where "VC_CKMODE = 1"
definition VC_REPEAT :: nat where "VC_REPEAT = 2"
definition VC_CRLF :: nat where "VC_CRLF = 3"
definition VC_META :: nat where "VC_META = 4"
definition LED_SHOW_FLAGS :: "2 word" where "LED_SHOW_FLAGS = 0"
definition LED_SHOW_IOCTL :: "2 word" where "LED_SHOW_IOCTL = 1"
definition LED_SHOW_MEM :: "2 word" where "LED_SHOW_MEM = 2"
definition MAX_NR_CONSOLES :: nat where "MAX_NR_CONSOLES = 63"

text \<open>The keyboard structure of the console in the foreground.\<close>

definition fg_console :: nat where "fg_console = 0"

definition kbd :: "keyboard \<Rightarrow> kbd_struct" where
  "kbd s = kbd_table s ! fg_console"

definition on_kbd :: "(kbd_struct \<Rightarrow> kbd_struct) \<Rightarrow> keyboard \<Rightarrow> keyboard" where
  "on_kbd f s = s\<lparr>kbd_table := (kbd_table s)[fg_console := f (kbd s)]\<rparr>"

definition vc_kbd_mode :: "kbd_struct \<Rightarrow> nat \<Rightarrow> bool" where
  "vc_kbd_mode k flag \<longleftrightarrow> drop_bit flag (modeflags k) AND 1 \<noteq> 0"

definition vc_kbd_led :: "kbd_struct \<Rightarrow> nat \<Rightarrow> bool" where
  "vc_kbd_led k flag \<longleftrightarrow> drop_bit flag (ledflagstate k) AND 1 \<noteq> 0"

definition set_vc_kbd_mode :: "nat \<Rightarrow> kbd_struct \<Rightarrow> kbd_struct" where
  "set_vc_kbd_mode flag k = k\<lparr>modeflags := modeflags k OR push_bit flag 1\<rparr>"

definition set_vc_kbd_led :: "nat \<Rightarrow> kbd_struct \<Rightarrow> kbd_struct" where
  "set_vc_kbd_led flag k = k\<lparr>ledflagstate := ledflagstate k OR push_bit flag 1\<rparr>"

definition clr_vc_kbd_mode :: "nat \<Rightarrow> kbd_struct \<Rightarrow> kbd_struct" where
  "clr_vc_kbd_mode flag k = k\<lparr>modeflags := modeflags k AND NOT (push_bit flag 1)\<rparr>"

definition clr_vc_kbd_led :: "nat \<Rightarrow> kbd_struct \<Rightarrow> kbd_struct" where
  "clr_vc_kbd_led flag k = k\<lparr>ledflagstate := ledflagstate k AND NOT (push_bit flag 1)\<rparr>"

definition chg_vc_kbd_lock :: "nat \<Rightarrow> kbd_struct \<Rightarrow> kbd_struct" where
  "chg_vc_kbd_lock flag k = k\<lparr>lockstate := lockstate k XOR push_bit flag 1\<rparr>"

definition chg_vc_kbd_slock :: "nat \<Rightarrow> kbd_struct \<Rightarrow> kbd_struct" where
  "chg_vc_kbd_slock flag k = k\<lparr>slockstate := slockstate k XOR push_bit flag 1\<rparr>"

definition chg_vc_kbd_mode :: "nat \<Rightarrow> kbd_struct \<Rightarrow> kbd_struct" where
  "chg_vc_kbd_mode flag k = k\<lparr>modeflags := modeflags k XOR push_bit flag 1\<rparr>"

definition chg_vc_kbd_led :: "nat \<Rightarrow> kbd_struct \<Rightarrow> kbd_struct" where
  "chg_vc_kbd_led flag k = k\<lparr>ledflagstate := ledflagstate k XOR push_bit flag 1\<rparr>"

subsection \<open>keyboard-glue.c\<close>

text \<open>\<open>keyboard_data\<close> is given the string that begins with these bytes.\<close>

definition keyboard_data :: "u8 list \<Rightarrow> keyboard \<Rightarrow> keyboard" where
  "keyboard_data str s = s\<lparr>events := events s @ [Chars (takeWhile (\<lambda>b. b \<noteq> 0) str)]\<rparr>"

definition keyboard_pckbd_leds :: "u8 \<Rightarrow> keyboard \<Rightarrow> keyboard" where
  "keyboard_pckbd_leds leds s = s\<lparr>events := events s @ [Leds leds]\<rparr>"

definition keyboard_vc_cons_allocated :: "int \<Rightarrow> bool" where
  "keyboard_vc_cons_allocated nr \<longleftrightarrow> nr = 0"

definition keyboard_send_str :: "u8 list \<Rightarrow> keyboard \<Rightarrow> keyboard" where
  "keyboard_send_str str s = keyboard_data str s"

definition keyboard_send_ch :: "u32 \<Rightarrow> keyboard \<Rightarrow> keyboard" where
  "keyboard_send_ch ch s = keyboard_data [ucast ch, 0] s"

definition keyboard_stop_tty :: "keyboard \<Rightarrow> keyboard" where
  "keyboard_stop_tty s = (if stopped s then s else s\<lparr>stopped := True\<rparr>)"

definition keyboard_start_tty :: "keyboard \<Rightarrow> keyboard" where
  "keyboard_start_tty s = (if \<not> stopped s then s else s\<lparr>stopped := False\<rparr>)"

definition keyboard_tty_do_repeat_key :: bool where
  "keyboard_tty_do_repeat_key = True"

subsection \<open>Characters\<close>

definition put_queue :: "u32 \<Rightarrow> keyboard \<Rightarrow> keyboard" where
  "put_queue ch s = (if tty s then keyboard_send_ch ch s else s)"

definition puts_queue :: "u8 list \<Rightarrow> keyboard \<Rightarrow> keyboard" where
  "puts_queue cp s = (if \<not> tty s then s else keyboard_send_str cp s)"

definition to_utf8 :: "u16 \<Rightarrow> keyboard \<Rightarrow> keyboard" where
  "to_utf8 c0 s =
     (let c = ucast c0 :: u32 in
      if c < 0x80 then put_queue c s
      else if c < 0x800 then put_queue (0x80 OR (c AND 0x3f)) (put_queue (0xc0 OR drop_bit 6 c) s)
      else put_queue (0x80 OR (c AND 0x3f))
        (put_queue (0x80 OR (drop_bit 6 c AND 0x3f)) (put_queue (0xe0 OR drop_bit 12 c) s)))"

definition applkey :: "u8 \<Rightarrow> bool \<Rightarrow> keyboard \<Rightarrow> keyboard" where
  "applkey key mode s = puts_queue [0x1b, if mode then 79 else 91, key, 0] s"

text \<open>The result of \<open>handle_diacr\<close> is the character to go on with.\<close>

definition handle_diacr :: "u8 \<Rightarrow> keyboard \<Rightarrow> u8 \<times> keyboard" where
  "handle_diacr ch s =
     (let d = diacr s; s1 = s\<lparr>diacr := 0\<rparr> in
      case find (\<lambda>(a, b, _). a = d \<and> b = ch) accent_table of
        Some (_, _, r) \<Rightarrow> (r, s1)
      | None \<Rightarrow> if ch = 32 \<or> ch = d then (d, s1) else (ch, put_queue (ucast d) s1))"

subsection \<open>Modifiers\<close>

text \<open>What \<open>compute_shiftstate\<close> does for the key \<open>k\<close>.\<close>

definition count_key :: "nat \<Rightarrow> keyboard \<Rightarrow> keyboard res" where
  "count_key k s =
     (if variable_test_bit (int k) (key_down s) \<noteq> 0 then
        let sym = plain_map ! k XOR 0xf000; ktyp = unat (drop_bit 8 sym)
        in if ktyp = KT_SHIFT \<or> ktyp = KT_SLOCK then
             let v = unat (sym AND 0xff); val = (if v = KG_CAPSSHIFT then KG_SHIFT else v)
             in if val \<ge> NR_SHIFT then err Out_Of_Bounds
                else ret (s\<lparr>k_down := (k_down s)[val := k_down s ! val + 1], shift_state := shift_state s OR push_bit val 1\<rparr>)
           else ret s
      else ret s)"

fun count_keys :: "nat list \<Rightarrow> keyboard \<Rightarrow> keyboard res" where
  "count_keys [] s = ret s"
| "count_keys (k # ks) s = bindr (count_key k s) (count_keys ks)"

text \<open>The words of \<open>key_down\<close> that are 0 are skipped.\<close>

fun count_words :: "nat list \<Rightarrow> keyboard \<Rightarrow> keyboard res" where
  "count_words [] s = ret s"
| "count_words (i # is) s =
     bindr (if key_down s (int i) \<noteq> 0 then count_keys [32 * i..<32 * i + 32] s else ret s) (count_words is)"

definition compute_shiftstate :: "keyboard \<Rightarrow> keyboard res" where
  "compute_shiftstate s = count_words [0..<8] (s\<lparr>shift_state := 0, k_down := replicate NR_SHIFT 0\<rparr>)"

definition do_shift :: "u8 \<Rightarrow> bool \<Rightarrow> keyboard \<Rightarrow> keyboard res" where
  "do_shift value up s =
     (if rep s then ret s
      else
        let old_state = shift_state s;
            (v, s1) =
              (if unat value = KG_CAPSSHIFT then
                 (KG_SHIFT, if \<not> up then on_kbd (clr_vc_kbd_led VC_CAPSLOCK) s else s)
               else (unat value, s))
        in if v \<ge> NR_SHIFT then err Out_Of_Bounds
           else
             let n = k_down s1 ! v;
                 n1 = (if up then (if n \<noteq> 0 then n - 1 else n) else n + 1);
                 s2 = s1\<lparr>k_down := (k_down s1)[v := n1],
                         shift_state := (if n1 \<noteq> 0 then shift_state s1 OR push_bit v 1
                                         else shift_state s1 AND NOT (push_bit v 1))\<rparr>
             in ret (if up \<and> shift_state s2 \<noteq> old_state \<and> npadch s2 \<noteq> - 1 then
                       (if kbdmode (kbd s2) = VC_UNICODE then to_utf8 (word_of_int (npadch s2)) s2
                        else put_queue (word_of_int (npadch s2) AND 0xff) s2)\<lparr>npadch := - 1\<rparr>
                     else s2))"

definition do_lock :: "u8 \<Rightarrow> bool \<Rightarrow> keyboard \<Rightarrow> keyboard" where
  "do_lock value up s = (if up \<or> rep s then s else on_kbd (chg_vc_kbd_lock (unat value)) s)"

definition do_slock :: "u8 \<Rightarrow> bool \<Rightarrow> keyboard \<Rightarrow> keyboard res" where
  "do_slock value up s =
     bindr (do_shift value up s) (\<lambda>s1.
     ret (if up \<or> rep s1 then s1
          else
            let s2 = on_kbd (chg_vc_kbd_slock (unat value)) s1
            in if key_maps (unat (lockstate (kbd s2) XOR slockstate (kbd s2))) = None then
                 on_kbd (chg_vc_kbd_slock (unat value)) (on_kbd (\<lambda>k. k\<lparr>slockstate := 0\<rparr>) s2)
               else s2))"

subsection \<open>Keys of the other types\<close>

definition enter :: "keyboard \<Rightarrow> keyboard" where
  "enter s =
     (let s1 = (if diacr s \<noteq> 0 then (put_queue (ucast (diacr s)) s)\<lparr>diacr := 0\<rparr> else s);
          s2 = put_queue 13 s1
      in if vc_kbd_mode (kbd s2) VC_CRLF then put_queue 10 s2 else s2)"

definition caps_toggle :: "keyboard \<Rightarrow> keyboard" where
  "caps_toggle s = (if rep s then s else on_kbd (chg_vc_kbd_led VC_CAPSLOCK) s)"

definition caps_on :: "keyboard \<Rightarrow> keyboard" where
  "caps_on s = (if rep s then s else on_kbd (set_vc_kbd_led VC_CAPSLOCK) s)"

definition hold :: "keyboard \<Rightarrow> keyboard" where
  "hold s = (if rep s \<or> \<not> tty s then s else if stopped s then keyboard_start_tty s else keyboard_stop_tty s)"

definition bare_num :: "keyboard \<Rightarrow> keyboard" where
  "bare_num s = (if \<not> rep s then on_kbd (chg_vc_kbd_led VC_NUMLOCK) s else s)"

definition num :: "keyboard \<Rightarrow> keyboard" where
  "num s = (if vc_kbd_mode (kbd s) VC_APPLIC then applkey 80 True s else bare_num s)"

text \<open>The console that the keys for the one before and the one behind look for.\<close>

definition vc_cons_allocated :: "int \<Rightarrow> bool" where
  "vc_cons_allocated i \<longleftrightarrow> 0 \<le> i \<and> i < int MAX_NR_CONSOLES \<and> keyboard_vc_cons_allocated i"

partial_function (option) decr_console :: "int \<Rightarrow> int \<Rightarrow> int option" where
  "decr_console fg i =
     (if i \<noteq> fg then
        let i1 = (if i = - 1 then int MAX_NR_CONSOLES - 1 else i)
        in if vc_cons_allocated i1 then Some i1 else decr_console fg (i1 - 1)
      else Some i)"

partial_function (option) incr_console :: "int \<Rightarrow> int \<Rightarrow> int option" where
  "incr_console fg i =
     (if i \<noteq> fg then
        let i1 = (if i = int MAX_NR_CONSOLES then 0 else i)
        in if vc_cons_allocated i1 then Some i1 else incr_console fg (i1 + 1)
      else Some i)"

declare decr_console.simps [code] incr_console.simps [code]

text \<open>\<open>set_console\<close> does nothing with the number it is given.\<close>

definition keyboard_set_console :: "int option \<Rightarrow> keyboard \<Rightarrow> keyboard res" where
  "keyboard_set_console nr s = (case nr of None \<Rightarrow> None | Some _ \<Rightarrow> ret s)"

text \<open>The calls of \<open>spec_fn_table\<close>; those that are missing end in empty functions of the glue.\<close>

definition spec_fn :: "nat \<Rightarrow> keyboard \<Rightarrow> keyboard res" where
  "spec_fn value s =
     (if value = 0 then compute_shiftstate s
      else if value = 1 then ret (enter s)
      else if value = 7 then ret (caps_toggle s)
      else if value = 8 then ret (num s)
      else if value = 9 then ret (hold s)
      else if value = 13 then ret (caps_on s)
      else if value = 14 then ret (s\<lparr>dead_key_next := True\<rparr>)
      else if value = 16 then keyboard_set_console (decr_console (int fg_console) (int fg_console - 1)) s
      else if value = 17 then keyboard_set_console (incr_console (int fg_console) (int fg_console + 1)) s
      else if value = 19 then ret (bare_num s)
      else ret s)"

text \<open>In the raw modes only \<open>K_SAK\<close>, number 15, is allowed.\<close>

definition do_spec :: "u8 \<Rightarrow> bool \<Rightarrow> keyboard \<Rightarrow> keyboard res" where
  "do_spec value up s =
     (if up then ret s
      else if value \<ge> 20 then ret s
      else if (kbdmode (kbd s) = VC_RAW \<or> kbdmode (kbd s) = VC_MEDIUMRAW) \<and> value \<noteq> 15 then ret s
      else spec_fn (unat value) s)"

definition do_self :: "u8 \<Rightarrow> bool \<Rightarrow> keyboard \<Rightarrow> keyboard" where
  "do_self value up s =
     (if up then s
      else
        let (value1, s1) = (if diacr s \<noteq> 0 then handle_diacr value s else (value, s))
        in if dead_key_next s1 then s1\<lparr>dead_key_next := False, diacr := value1\<rparr>
           else put_queue (ucast value1) s1)"

definition do_dead2 :: "u8 \<Rightarrow> bool \<Rightarrow> keyboard \<Rightarrow> keyboard" where
  "do_dead2 value up s =
     (if up then s
      else let (value1, s1) = (if diacr s \<noteq> 0 then handle_diacr value s else (value, s)) in s1\<lparr>diacr := value1\<rparr>)"

definition ret_diacr :: "u8 list" where
  "ret_diacr = [96, 39, 94, 126, 34, 44]"

definition do_dead :: "u8 \<Rightarrow> bool \<Rightarrow> keyboard \<Rightarrow> keyboard res" where
  "do_dead value up s =
     (if unat value \<ge> length ret_diacr then err Out_Of_Bounds else ret (do_dead2 (ret_diacr ! unat value) up s))"

definition do_fn :: "u8 \<Rightarrow> bool \<Rightarrow> keyboard \<Rightarrow> keyboard" where
  "do_fn value up s =
     (if up then s
      else case func_table (unat value) of None \<Rightarrow> s | Some off \<Rightarrow> puts_queue (drop off func_buf) s)"

text \<open>"BDCA" with its NUL.\<close>

definition do_cur :: "u8 \<Rightarrow> bool \<Rightarrow> keyboard \<Rightarrow> keyboard res" where
  "do_cur value up s =
     (if up then ret s
      else if value > 4 then err Out_Of_Bounds
      else ret (applkey ([66, 68, 67, 65, 0] ! unat value) (vc_kbd_mode (kbd s) VC_CKMODE) s))"

text \<open>The strings "0123456789+-*/\015,.?()" and "pqrstuvwxylSRQMnnmPQ" with their NUL.\<close>

definition pad_chars :: "u8 list" where
  "pad_chars = [48, 49, 50, 51, 52, 53, 54, 55, 56, 57, 43, 45, 42, 47, 13, 44, 46, 63, 40, 41, 0]"

definition app_map :: "u8 list" where
  "app_map = [112, 113, 114, 115, 116, 117, 118, 119, 120, 121, 108, 83, 82, 81, 77, 110, 110, 109, 80, 81, 0]"

definition do_pad :: "u8 \<Rightarrow> bool \<Rightarrow> keyboard \<Rightarrow> keyboard res" where
  "do_pad value up s =
     (let n = unat value in
      if up then ret s
      else if vc_kbd_mode (kbd s) VC_APPLIC \<and> k_down s ! KG_SHIFT = 0 then
        if n \<ge> length app_map then err Out_Of_Bounds else ret (applkey (app_map ! n) True s)
      else if \<not> vc_kbd_led (kbd s) VC_NUMLOCK \<and> n \<in> {0, 1, 2, 3, 4, 5, 6, 7, 8, 9, 15, 16} then
        if n = 15 \<or> n = 16 then ret (do_fn 22 False s)
        else if n = 0 then ret (do_fn 21 False s)
        else if n = 1 then ret (do_fn 23 False s)
        else if n = 2 then do_cur 0 False s
        else if n = 3 then ret (do_fn 25 False s)
        else if n = 4 then do_cur 1 False s
        else if n = 6 then do_cur 2 False s
        else if n = 7 then ret (do_fn 20 False s)
        else if n = 8 then do_cur 3 False s
        else if n = 9 then ret (do_fn 24 False s)
        else ret (applkey 71 (vc_kbd_mode (kbd s) VC_APPLIC) s)
      else if n \<ge> length pad_chars then err Out_Of_Bounds
      else
        let s1 = put_queue (ucast (pad_chars ! n)) s
        in ret (if n = 14 \<and> vc_kbd_mode (kbd s1) VC_CRLF then put_queue 10 s1 else s1))"

definition do_meta :: "u8 \<Rightarrow> bool \<Rightarrow> keyboard \<Rightarrow> keyboard" where
  "do_meta value up s =
     (if up then s
      else if vc_kbd_mode (kbd s) VC_META then put_queue (ucast value) (put_queue 27 s)
      else put_queue (ucast value OR 0x80) s)"

text \<open>\<open>npadch\<close> has 32 bits.\<close>

definition do_ascii :: "u8 \<Rightarrow> bool \<Rightarrow> keyboard \<Rightarrow> keyboard" where
  "do_ascii value up s =
     (if up then s
      else
        let (v, base) = (if value < 10 then (uint value, 10) else (uint (value - 10), 16))
        in s\<lparr>npadch := (if npadch s = - 1 then v else w32 (npadch s * base + v))\<rparr>)"

text \<open>The table of handlers; the types that are missing are ignored.\<close>

definition key_handler :: "nat \<Rightarrow> u8 \<Rightarrow> bool \<Rightarrow> keyboard \<Rightarrow> keyboard res" where
  "key_handler ty value up s =
     (if ty = 0 then ret (do_self value up s)
      else if ty = 1 then ret (do_fn value up s)
      else if ty = 2 then do_spec value up s
      else if ty = 3 then do_pad value up s
      else if ty = 4 then do_dead value up s
      else if ty = 6 then do_cur value up s
      else if ty = 7 then do_shift value up s
      else if ty = 8 then ret (do_meta value up s)
      else if ty = 9 then ret (do_ascii value up s)
      else if ty = 10 then ret (do_lock value up s)
      else if ty = 12 then do_slock value up s
      else if ty = 13 then ret (do_dead2 value up s)
      else ret s)"

subsection \<open>A scancode\<close>

definition clear_slock :: "keyboard \<Rightarrow> keyboard" where
  "clear_slock = on_kbd (\<lambda>k. k\<lparr>slockstate := 0\<rparr>)"

text \<open>The part under the condition that the key is not repeated or may be.\<close>

definition handle_key :: "u8 \<Rightarrow> bool \<Rightarrow> bool \<Rightarrow> keyboard \<Rightarrow> keyboard res" where
  "handle_key keycode up raw s =
     (let shift_final = (shift_state s OR ucast (slockstate (kbd s))) XOR ucast (lockstate (kbd s)) in
      if shift_final \<ge> 256 then err Out_Of_Bounds
      else case key_maps (unat shift_final) of
        None \<Rightarrow> bindr (compute_shiftstate s) (\<lambda>s1. ret (clear_slock s1))
      | Some key_map \<Rightarrow>
          let keysym = key_map ! unat keycode; ktyp = drop_bit 8 keysym in
          if ktyp \<ge> 0xf0 then
            let ty = unat (ktyp - 0xf0) in
            if raw \<and> ty \<noteq> KT_SPEC \<and> ty \<noteq> KT_SHIFT then ret s
            else
              let (ty1, sym1) =
                (if ty = KT_LETTER then
                   (KT_LATIN,
                    if vc_kbd_led (kbd s) VC_CAPSLOCK then
                      (case key_maps (unat (shift_final XOR push_bit KG_SHIFT 1)) of
                         None \<Rightarrow> keysym | Some map1 \<Rightarrow> map1 ! unat keycode)
                    else keysym)
                 else (ty, keysym))
              in bindr (key_handler ty1 (ucast sym1) up s) (\<lambda>s1.
                 ret (if ty1 \<noteq> KT_SLOCK then clear_slock s1 else s1))
          else ret (if \<not> up \<and> \<not> raw then to_utf8 keysym s else s))"

text \<open>The flag for a released key as it is added to the code.\<close>

definition up_bit :: "bool \<Rightarrow> u32" where
  "up_bit up = (if up then 0x80 else 0)"

text \<open>The key goes down or up in the bitmap; the result tells whether it counts as released.\<close>

definition key_change :: "u8 \<Rightarrow> bool \<Rightarrow> keyboard \<Rightarrow> bool \<times> keyboard" where
  "key_change keycode down s =
     (if \<not> down then
        let (old, bits) = test_and_clear_bit (uint keycode) (key_down s)
        in (if old = 0 then unexpected_up keycode else True, s\<lparr>rep := False, key_down := bits\<rparr>)
      else
        let (old, bits) = test_and_set_bit (uint keycode) (key_down s)
        in (False, s\<lparr>rep := (old \<noteq> 0), key_down := bits\<rparr>))"

definition handle_keycode :: "u8 \<Rightarrow> bool \<Rightarrow> bool \<Rightarrow> keyboard \<Rightarrow> keyboard res" where
  "handle_keycode keycode up raw_mode s =
     (let medium = (kbdmode (kbd s) = VC_MEDIUMRAW);
          s1 = (if medium then put_queue (ucast keycode + up_bit up) s else s)
      in if \<not> rep s1 \<or> (vc_kbd_mode (kbd s1) VC_REPEAT \<and> tty s1 \<and> keyboard_tty_do_repeat_key)
         then handle_key keycode up (medium \<or> raw_mode) s1 else ret s1)"

definition handle_scancode :: "u8 \<Rightarrow> bool \<Rightarrow> keyboard \<Rightarrow> keyboard res" where
  "handle_scancode scancode down s =
     (let s1 = s\<lparr>tty := True\<rparr>;
          raw_mode = (kbdmode (kbd s1) = VC_RAW);
          s2 = (if raw_mode then put_queue (ucast scancode OR up_bit (\<not> down)) s1 else s1);
          (kc, scan3) = translate scancode (scan s2);
          s3 = s2\<lparr>scan := scan3\<rparr>
      in case kc of
           None \<Rightarrow> ret s3
         | Some keycode \<Rightarrow> let (up, s4) = key_change keycode down s3 in handle_keycode keycode up raw_mode s4)"

subsection \<open>Lights\<close>

text \<open>\<open>peek\<close> reads a word of memory.\<close>

definition led_bit :: "(u32 \<Rightarrow> u32) \<Rightarrow> (u32 \<times> u32 \<times> bool) list \<Rightarrow> nat \<Rightarrow> u8 \<Rightarrow> u8" where
  "led_bit peek ptrs i leds =
     (let (addr, msk, valid) = ptrs ! i in
      if valid then (if peek addr AND msk \<noteq> 0 then leds OR push_bit i 1 else leds AND NOT (push_bit i 1)) else leds)"

definition getleds :: "(u32 \<Rightarrow> u32) \<Rightarrow> keyboard \<Rightarrow> u8" where
  "getleds peek s =
     (if ledmode (kbd s) = LED_SHOW_IOCTL then ledioctl s
      else
        let leds = ucast (ledflagstate (kbd s)) in
        if ledmode (kbd s) = LED_SHOW_MEM then
          led_bit peek (ledptrs s) 2 (led_bit peek (ledptrs s) 1 (led_bit peek (ledptrs s) 0 leds))
        else leds)"

definition kbd_bh :: "(u32 \<Rightarrow> u32) \<Rightarrow> keyboard \<Rightarrow> keyboard" where
  "kbd_bh peek s =
     (let leds = getleds peek s in
      if leds \<noteq> ledstate s then
        let s1 = keyboard_pckbd_leds leds (s\<lparr>ledstate := leds\<rparr>)
        in if ledfunc s1 then s1\<lparr>events := events s1 @ [Ledfunc leds]\<rparr> else s1
      else s)"

definition keyboard_schedule_tasklet :: "(u32 \<Rightarrow> u32) \<Rightarrow> keyboard \<Rightarrow> keyboard" where
  "keyboard_schedule_tasklet peek s = (if tasklet_enabled s then kbd_bh peek s else s)"

definition getledstate :: "keyboard \<Rightarrow> u8" where
  "getledstate s = ledstate s"

text \<open>\<open>console\<close> is the number of the structure that the pointer leads to.\<close>

definition setledstate :: "(u32 \<Rightarrow> u32) \<Rightarrow> nat \<Rightarrow> u32 \<Rightarrow> keyboard \<Rightarrow> keyboard res" where
  "setledstate peek console led s =
     (if console \<ge> length (kbd_table s) then err Out_Of_Bounds
      else
        let (mode, s1) = (if led AND NOT 7 = 0 then (LED_SHOW_IOCTL, s\<lparr>ledioctl := ucast led\<rparr>) else (LED_SHOW_FLAGS, s))
        in ret (keyboard_schedule_tasklet peek
             (s1\<lparr>kbd_table := (kbd_table s1)[console := (kbd_table s1 ! console)\<lparr>ledmode := mode\<rparr>]\<rparr>)))"

definition register_leds :: "nat \<Rightarrow> u32 \<Rightarrow> u32 \<Rightarrow> u32 \<Rightarrow> keyboard \<Rightarrow> keyboard res" where
  "register_leds console led addr msk s =
     (if console \<ge> length (kbd_table s) then err Out_Of_Bounds
      else
        let (mode, s1) =
          (if led < 3 then (LED_SHOW_MEM, s\<lparr>ledptrs := (ledptrs s)[unat led := (addr, msk, True)]\<rparr>)
           else (LED_SHOW_FLAGS, s))
        in ret (s1\<lparr>kbd_table := (kbd_table s1)[console := (kbd_table s1 ! console)\<lparr>ledmode := mode\<rparr>]\<rparr>))"

subsection \<open>Start\<close>

definition KBD_DEFMODE :: "5 word" where "KBD_DEFMODE = push_bit VC_REPEAT 1 OR push_bit VC_META 1"

definition kbd0 :: kbd_struct where
  "kbd0 = \<lparr>lockstate = 0, slockstate = 0, ledmode = LED_SHOW_FLAGS, ledflagstate = 0, default_ledflagstate = 0,
     kbdmode = VC_XLATE, modeflags = KBD_DEFMODE\<rparr>"

definition kbd_init :: "(u32 \<Rightarrow> u32) \<Rightarrow> keyboard \<Rightarrow> keyboard" where
  "kbd_init peek s =
     keyboard_schedule_tasklet peek (s\<lparr>kbd_table := replicate MAX_NR_CONSOLES kbd0, tasklet_enabled := True\<rparr>)"

text \<open>The scancode is an \<open>int\<close>, of which the low byte is used.\<close>

definition do_scancode :: "(u32 \<Rightarrow> u32) \<Rightarrow> u32 \<Rightarrow> keyboard \<Rightarrow> keyboard res" where
  "do_scancode peek scancode s0 =
     (let s1 = (if \<not> init_done s0 then kbd_init peek (s0\<lparr>init_done := True\<rparr>) else s0) in
      if scancode \<noteq> 0 \<and> scancode \<noteq> 0xff then
        bindr (handle_scancode (ucast scancode) (scancode AND 0x80 = 0) s1) (\<lambda>s2. ret (kbd_bh peek s2))
      else ret s1)"

text \<open>The state before the first scancode: all static data.\<close>

definition boot_keyboard :: keyboard where
  "boot_keyboard = \<lparr>k_down = replicate NR_SHIFT 0, key_down = (\<lambda>_. 0), dead_key_next = False, shift_state = 0,
     npadch = - 1, diacr = 0, rep = False,
     kbd_table = replicate MAX_NR_CONSOLES \<lparr>lockstate = 0, slockstate = 0, ledmode = 0, ledflagstate = 0,
       default_ledflagstate = 0, kbdmode = 0, modeflags = 0\<rparr>,
     tty = False, stopped = False, ledstate = 0xff, ledioctl = 0, ledptrs = replicate 3 (0, 0, False),
     ledfunc = False, scan = \<lparr>high_keys = initial_high_keys, e0_keys = initial_e0_keys, prev_scancode = 0\<rparr>,
     tasklet_enabled = False, init_done = False, events = []\<rparr>"

end
