(* ===== verification/Keyboard_Ok.thy ===== *)
theory Keyboard_Ok
  imports Keyboard
begin

text \<open>
  The keyboard driver: the bitmap of keys as a set, no scancode makes an index leave its table, and
  the counters of the modifier keys, updated key by key, are what a count over the bitmap gives.
\<close>

subsection \<open>Bitmaps as sets\<close>

definition bit_in :: "bitmap \<Rightarrow> int \<Rightarrow> bool" where
  "bit_in w nr \<longleftrightarrow> bit (w (nr div 32)) (nat (nr mod 32))"

lemma bit_mask_bit: "bit (bit_mask nr) i \<longleftrightarrow> i = nat (nr mod 32)"
proof -
  have "nat (nr mod 32) < 32" by (simp add: nat_less_iff)
  then show ?thesis unfolding bit_mask_def bit_push_bit_iff bit_1_iff by auto
qed

lemma word_nonzero: "(x :: u32) \<noteq> 0 \<longleftrightarrow> (\<exists>i. bit x i)"
  using bit_imp_le_length [of x] by (auto simp: bit_eq_iff)

lemma oldbit_in: "oldbit nr w \<noteq> 0 \<longleftrightarrow> bit_in w nr"
proof -
  have "w (nr div 32) AND bit_mask nr \<noteq> 0 \<longleftrightarrow> bit (w (nr div 32)) (nat (nr mod 32))"
    by (auto simp: word_nonzero bit_and_iff bit_mask_bit)
  then show ?thesis by (simp add: oldbit_def bit_in_def)
qed

lemma same_bit: "nr div 32 = k div 32 \<and> nat (nr mod 32) = nat (k mod 32) \<longleftrightarrow> nr = (k :: int)"
proof
  assume h: "nr div 32 = k div 32 \<and> nat (nr mod 32) = nat (k mod 32)"
  then have "nr mod 32 = k mod 32" using eq_nat_nat_iff [of "nr mod 32" "k mod 32"] by simp
  then show "nr = k" using h by (metis div_mult_mod_eq)
qed simp

lemma bit_in_set: "bit_in (set_bit_at k w) nr \<longleftrightarrow> nr = k \<or> bit_in w nr"
  using same_bit [of nr k] by (auto simp: bit_in_def set_bit_at_def bit_or_iff bit_mask_bit)

lemma bit_in_clear: "bit_in (clear_bit k w) nr \<longleftrightarrow> nr \<noteq> k \<and> bit_in w nr"
proof -
  have "nat (nr mod 32) < 32" by (simp add: nat_less_iff)
  then show ?thesis
    using same_bit [of nr k] by (auto simp: bit_in_def clear_bit_def bit_and_iff bit_not_iff bit_mask_bit)
qed

lemma bit_in_change: "bit_in (change_bit k w) nr \<longleftrightarrow> (nr = k) \<noteq> bit_in w nr"
  using same_bit [of nr k] by (auto simp: bit_in_def change_bit_def bit_xor_iff bit_mask_bit)

lemma constant_test_ok: "constant_test_bit nr w \<noteq> 0 \<longleftrightarrow> variable_test_bit nr w \<noteq> 0"
  by (simp add: constant_test_bit_def variable_test_bit_def oldbit_def and.commute)

lemma bsf_from_ok:
  "(\<exists>j<n. bit x (i + j)) \<Longrightarrow> bit x (bsf_from n i x) \<and> (\<forall>j. i \<le> j \<longrightarrow> j < bsf_from n i x \<longrightarrow> \<not> bit x j) \<and> bsf_from n i x < i + n"
proof (induction n arbitrary: i)
  case (Suc n)
  show ?case
  proof (cases "bit x i")
    case False
    then have "\<exists>j<n. bit x (Suc i + j)" using Suc.prems by (metis add_Suc_right add_Suc less_Suc_eq_0_disj add_0_right)
    note ih = Suc.IH [OF this]
    have "\<not> bit x j" if "i \<le> j" "j < bsf_from n (Suc i) x" for j using that ih False by (cases "i = j") auto
    then show ?thesis using ih False by auto
  qed simp
qed simp

lemma bsf_ok: "x \<noteq> 0 \<Longrightarrow> bit x (bsf x) \<and> (\<forall>j<bsf x. \<not> bit x j) \<and> bsf x < 32"
proof -
  assume "x \<noteq> 0"
  then obtain j where "bit x j" by (auto simp: word_nonzero)
  moreover from this have "j < 32" using bit_imp_le_length by fastforce
  ultimately show ?thesis using bsf_from_ok [of 32 x 0] by (auto simp: bsf_def)
qed

text \<open>The search finds the first bit that is 0, or the end of the last word it looked at.\<close>

definition first_zero :: "bitmap \<Rightarrow> int \<Rightarrow> int \<Rightarrow> int \<Rightarrow> bool" where
  "first_zero w lo hi r \<longleftrightarrow> lo \<le> r \<and> r \<le> hi \<and> (\<forall>k. lo \<le> k \<longrightarrow> k < r \<longrightarrow> bit_in w k) \<and> (r < hi \<longrightarrow> \<not> bit_in w r)"

lemma word_bits: "j < 32 \<Longrightarrow> bit_in w (32 * i + int j) \<longleftrightarrow> bit (w i) j"
proof -
  assume "j < 32"
  then have "(32 * i + int j) div 32 = i" "(32 * i + int j) mod 32 = int j" by auto
  then show ?thesis by (simp add: bit_in_def)
qed

lemma word_bits_all: "(\<And>j. j < n \<Longrightarrow> bit (w i) j) \<Longrightarrow> n \<le> 32 \<Longrightarrow> 32 * i \<le> k \<Longrightarrow> k < 32 * i + int n \<Longrightarrow> bit_in w k"
  using word_bits [of "nat (k - 32 * i)" w i] by simp

lemma first_zero_skip:
  assumes "\<And>k. lo \<le> k \<Longrightarrow> k < mid \<Longrightarrow> bit_in w k" "lo \<le> mid" "first_zero w mid hi r"
  shows "first_zero w lo hi r"
  using assms unfolding first_zero_def by (meson dual_order.trans linorder_not_le)

lemma scan_words_ok: "first_zero w (32 * i) (32 * (i + int n)) (scan_words n i w)"
proof (induction n arbitrary: i)
  case 0
  then show ?case by (simp add: first_zero_def)
next
  case (Suc n)
  have hi: "32 * (i + 1 + int n) = 32 * (i + int (Suc n))" by simp
  show ?case
  proof (cases "w i = - 1")
    case True
    have "first_zero w (32 * i) (32 * (i + int (Suc n))) (scan_words n (i + 1) w)"
    proof (rule first_zero_skip [of _ "32 * i + int 32"])
      show "bit_in w k" if "32 * i \<le> k" "k < 32 * i + int 32" for k
        by (rule word_bits_all [OF _ _ that]) (simp_all add: True)
      show "first_zero w (32 * i + int 32) (32 * (i + int (Suc n))) (scan_words n (i + 1) w)"
        using Suc.IH [of "i + 1"] unfolding hi by simp
    qed simp
    then show ?thesis using True by simp
  next
    case False
    let ?b = "bsf (w i XOR - 1)"
    have "w i XOR - 1 \<noteq> 0" using False unfolding word_nonzero by (auto simp: bit_eq_iff bit_xor_iff bit_not_iff)
    from bsf_ok [OF this] have b: "\<not> bit (w i) ?b" "\<And>j. j < ?b \<Longrightarrow> bit (w i) j" "?b < 32"
      by (auto simp: bit_not_iff)
    have "first_zero w (32 * i) (32 * (i + int (Suc n))) (32 * i + int ?b)"
      using word_bits [OF b(3)] word_bits_all [where n = ?b and w = w and i = i] b by (auto simp: first_zero_def)
    then show ?thesis using False by simp
  qed
qed

theorem find_first_zero_bit_ok:
  assumes "len \<noteq> 0"
  shows "first_zero w 0 (32 * int (unat (drop_bit 5 (len + 31)))) (find_first_zero_bit w len)"
  using scan_words_ok [of w 0 "unat (drop_bit 5 (len + 31))"] assms by (simp add: find_first_zero_bit_def)

subsection \<open>The tables\<close>

text \<open>The modifier that a keysym stands for, and the keysyms that occur.\<close>

definition shift_val :: "u16 \<Rightarrow> nat option" where
  "shift_val x = (if 0xf700 \<le> x \<and> x \<le> 0xf703 then Some (unat (x - 0xf700)) else None)"

definition sym_ok :: "u16 \<Rightarrow> bool" where
  "sym_ok x \<longleftrightarrow> 0xf000 \<le> x \<and> x < 0xf300 \<or> 0xf300 \<le> x \<and> x \<le> 0xf314 \<or> 0xf500 \<le> x \<and> x < 0xf600 \<or>
     0xf600 \<le> x \<and> x \<le> 0xf603 \<or> 0xf700 \<le> x \<and> x \<le> 0xf703 \<or> 0xf800 \<le> x \<and> x < 0xfa00 \<or> 0xfb00 \<le> x \<and> x < 0xfc00"

definition count_sym :: "u16 \<Rightarrow> nat option" where
  "count_sym x =
     (let sym = x XOR 0xf000; ktyp = unat (drop_bit 8 sym)
      in if ktyp = KT_SHIFT \<or> ktyp = KT_SLOCK then Some (unat (sym AND 0xff)) else None)"

lemma plain_count: "list_all (\<lambda>x. count_sym x = shift_val x) plain_map"
  by code_simp

lemma table_cases:
  assumes "key_maps i = Some m"
  shows "m \<in> {plain_map, shift_map, altgr_map, ctrl_map, altgr_ctrl_map, alt_map, ctrl_alt_map}"
proof -
  have "i < 14" using assms by (auto simp: key_maps_def split: if_splits)
  then have "i \<in> {0, 1, 2, 3, 4, 5, 6, 7, 8, 9, 10, 11, 12, 13}" by (auto simp: eval_nat_numeral less_Suc_eq)
  then show ?thesis using assms by (elim insertE) (auto simp: key_maps_def)
qed

lemma tables_syms:
  "list_all sym_ok plain_map" "list_all sym_ok shift_map" "list_all sym_ok altgr_map" "list_all sym_ok ctrl_map"
  "list_all sym_ok altgr_ctrl_map" "list_all sym_ok alt_map" "list_all sym_ok ctrl_alt_map"
  by code_simp+

text \<open>Modifier keys are the same in every table.\<close>

definition shifts :: "u16 list \<Rightarrow> nat option list" where
  "shifts = map shift_val"

lemma tables_shifts:
  "shifts shift_map = shifts plain_map" "shifts altgr_map = shifts plain_map" "shifts ctrl_map = shifts plain_map"
  "shifts altgr_ctrl_map = shifts plain_map" "shifts alt_map = shifts plain_map" "shifts ctrl_alt_map = shifts plain_map"
  by code_simp+

lemma tables_length:
  "length plain_map = 256" "length shift_map = 256" "length altgr_map = 256" "length ctrl_map = 256"
  "length altgr_ctrl_map = 256" "length alt_map = 256" "length ctrl_alt_map = 256"
  by (simp_all add: plain_map_def shift_map_def altgr_map_def ctrl_map_def altgr_ctrl_map_def alt_map_def ctrl_alt_map_def)

lemma table_ok:
  assumes "key_maps i = Some m" "k < 256"
  shows "length m = 256" "sym_ok (m ! k)" "shift_val (m ! k) = shift_val (plain_map ! k)"
proof -
  show l: "length m = 256" using table_cases [OF assms(1)] tables_length by auto
  have "list_all sym_ok m" using table_cases [OF assms(1)] tables_syms by auto
  then show "sym_ok (m ! k)" using l assms(2) by (simp add: list_all_length)
  have "shifts m = shifts plain_map" using table_cases [OF assms(1)] tables_shifts by auto
  then have "shifts m ! k = shifts plain_map ! k" by simp
  then show "shift_val (m ! k) = shift_val (plain_map ! k)" using l tables_length(1) assms(2) by (simp add: shifts_def)
qed

lemma sym_type:
  assumes "sym_ok x"
  shows "drop_bit 8 x \<ge> 0xf0" "unat (ucast x :: u8) = unat x mod 256" "unat (drop_bit 8 x - 0xf0) = unat x div 256 - 240"
    "240 \<le> unat x div 256"
proof -
  have d: "unat (drop_bit 8 x) = unat x div 256" by (simp add: unat_drop_bit_eq drop_bit_nat_def)
  have "61440 \<le> unat x" using assms by (auto simp: sym_ok_def word_le_nat_alt)
  then show h: "240 \<le> unat x div 256" by linarith
  then show le: "drop_bit 8 x \<ge> 0xf0" by (simp add: word_le_nat_alt d)
  show "unat (drop_bit 8 x - 0xf0) = unat x div 256 - 240" using le d by (simp add: unat_sub)
  show "unat (ucast x :: u8) = unat x mod 256" by (simp add: unsigned_ucast_eq take_bit_eq_mod)
qed

lemma sym_value:
  assumes "sym_ok x"
  defines "ty \<equiv> unat x div 256 - 240" and "v \<equiv> unat x mod 256"
  shows "ty \<in> {0, 1, 2, 5, 8, 9, 11} \<or> ty = 3 \<and> v \<le> 20 \<or> ty = 6 \<and> v \<le> 3 \<or> ty = 7 \<and> v \<le> 3"
    and "ty = 7 \<longleftrightarrow> shift_val x \<noteq> None" "ty = 7 \<Longrightarrow> shift_val x = Some v"
proof -
  let ?n = "unat x"
  have n: "61440 \<le> ?n \<and> ?n < 62208 \<or> 62208 \<le> ?n \<and> ?n \<le> 62228 \<or> 62720 \<le> ?n \<and> ?n < 62976 \<or> 62976 \<le> ?n \<and> ?n \<le> 62979 \<or>
    63232 \<le> ?n \<and> ?n \<le> 63235 \<or> 63488 \<le> ?n \<and> ?n < 64000 \<or> 64256 \<le> ?n \<and> ?n < 64512"
    using assms(1) by (simp add: sym_ok_def word_le_nat_alt word_less_nat_alt)
  have q: "?n = 256 * (?n div 256) + v" "v < 256" by (simp_all add: v_def)
  show "ty \<in> {0, 1, 2, 5, 8, 9, 11} \<or> ty = 3 \<and> v \<le> 20 \<or> ty = 6 \<and> v \<le> 3 \<or> ty = 7 \<and> v \<le> 3"
  proof -
    have d: "a \<le> ?n div 256 \<and> ?n div 256 < b" if "256 * a \<le> ?n" "?n < 256 * b" for a b using that by linarith
    from n consider "61440 \<le> ?n" "?n < 62208" | "62208 \<le> ?n" "?n \<le> 62228" | "62720 \<le> ?n" "?n < 62976"
      | "62976 \<le> ?n" "?n \<le> 62979" | "63232 \<le> ?n" "?n \<le> 63235" | "63488 \<le> ?n" "?n < 64000" | "64256 \<le> ?n" "?n < 64512"
      by blast
    then show ?thesis
    proof cases
      case 1
      then have "?n div 256 = 240 \<or> ?n div 256 = 241 \<or> ?n div 256 = 242" using d [of 240 243] by linarith
      then show ?thesis unfolding ty_def by auto
    next
      case 2
      then have "?n div 256 = 243" using d [of 243 244] by linarith
      then show ?thesis using q(1) 2 unfolding ty_def by simp
    next
      case 3
      then have "?n div 256 = 245" using d [of 245 246] by linarith
      then show ?thesis unfolding ty_def by auto
    next
      case 4
      then have "?n div 256 = 246" using d [of 246 247] by linarith
      then show ?thesis using q(1) 4 unfolding ty_def by simp
    next
      case 5
      then have "?n div 256 = 247" using d [of 247 248] by linarith
      then show ?thesis using q(1) 5 unfolding ty_def by simp
    next
      case 6
      then have "?n div 256 = 248 \<or> ?n div 256 = 249" using d [of 248 250] by linarith
      then show ?thesis unfolding ty_def by auto
    next
      case 7
      then have "?n div 256 = 251" using d [of 251 252] by linarith
      then show ?thesis unfolding ty_def by auto
    qed
  qed
  have s: "0xf700 \<le> x \<and> x \<le> 0xf703 \<longleftrightarrow> 63232 \<le> ?n \<and> ?n \<le> 63235" by (simp add: word_le_nat_alt)
  have t7: "ty = 7 \<longleftrightarrow> 63232 \<le> ?n \<and> ?n \<le> 63235" using n q unfolding ty_def by linarith
  then show "ty = 7 \<longleftrightarrow> shift_val x \<noteq> None" using s by (simp add: shift_val_def)
  show "shift_val x = Some v" if "ty = 7"
  proof -
    have "0xf700 \<le> x \<and> x \<le> 0xf703" using that t7 s by simp
    moreover from this have "unat (x - 0xf700) = ?n - 63232" by (simp add: unat_sub)
    moreover have "?n div 256 = 247" using that unfolding ty_def by simp
    then have "?n - 63232 = v" using q(1) by simp
    ultimately show ?thesis by (simp add: shift_val_def)
  qed
qed

subsection \<open>Counting modifier keys\<close>

text \<open>The modifier of a key, and how many keys of a list are down and stand for the modifier \<open>v\<close>.\<close>

definition key_shift :: "nat \<Rightarrow> nat option" where
  "key_shift k = shift_val (plain_map ! k)"

definition held :: "bitmap \<Rightarrow> nat list \<Rightarrow> nat \<Rightarrow> nat" where
  "held w ks v = length (filter (\<lambda>k. bit_in w (int k) \<and> key_shift k = Some v) ks)"

lemma held_simps [simp]:
  "held w [] v = 0" "held w (k # ks) v = (if bit_in w (int k) \<and> key_shift k = Some v then Suc (held w ks v) else held w ks v)"
  "held w (ks @ js) v = held w ks v + held w js v"
  by (simp_all add: held_def)

lemma key_shift_less: "key_shift k = Some v \<Longrightarrow> v < 4"
proof -
  assume "key_shift k = Some v"
  then have h: "0xf700 \<le> plain_map ! k" "plain_map ! k \<le> 0xf703" "v = unat (plain_map ! k - 0xf700)"
    by (auto simp: key_shift_def shift_val_def split: if_splits)
  then have "unat (plain_map ! k - 0xf700) = unat (plain_map ! k) - 63232" by (simp add: unat_sub)
  then show "v < 4" using h by (simp add: word_le_nat_alt)
qed

lemma held_none: "4 \<le> v \<Longrightarrow> held w ks v = 0"
  by (force simp: held_def filter_empty_conv dest: key_shift_less)

text \<open>The counts of a list of keys are added to the state.\<close>

definition counted :: "bitmap \<Rightarrow> nat list \<Rightarrow> keyboard \<Rightarrow> keyboard \<Rightarrow> bool" where
  "counted w ks s s' \<longleftrightarrow>
     (\<exists>kd ss. s' = s\<lparr>k_down := kd, shift_state := ss\<rparr> \<and> length kd = length (k_down s) \<and>
        (\<forall>v<9. kd ! v = k_down s ! v + of_nat (held w ks v)) \<and>
        (\<forall>v. bit ss v \<longleftrightarrow> bit (shift_state s) v \<or> 0 < held w ks v))"

lemma counted_trans:
  assumes "counted w ks s s1" "counted w js s1 s2"
  shows "counted w (ks @ js) s s2"
proof -
  obtain kd ss where 1: "s1 = s\<lparr>k_down := kd, shift_state := ss\<rparr>" "length kd = length (k_down s)"
    "\<forall>v<9. kd ! v = k_down s ! v + of_nat (held w ks v)" "\<forall>v. bit ss v \<longleftrightarrow> bit (shift_state s) v \<or> 0 < held w ks v"
    using assms(1) by (auto simp: counted_def)
  obtain kd2 ss2 where 2: "s2 = s1\<lparr>k_down := kd2, shift_state := ss2\<rparr>" "length kd2 = length (k_down s1)"
    "\<forall>v<9. kd2 ! v = k_down s1 ! v + of_nat (held w js v)" "\<forall>v. bit ss2 v \<longleftrightarrow> bit (shift_state s1) v \<or> 0 < held w js v"
    using assms(2) by (auto simp: counted_def)
  show ?thesis unfolding counted_def
    by (rule exI [of _ kd2], rule exI [of _ ss2]) (use 1 2 in \<open>auto simp: add.assoc\<close>)
qed

lemma counted_refl: "(\<And>v. held w ks v = 0) \<Longrightarrow> counted w ks s s"
  unfolding counted_def by (rule exI [of _ "k_down s"], rule exI [of _ "shift_state s"]) simp

lemma count_key_ok:
  assumes "k < 256" "length (k_down s) = 9"
  shows "\<exists>s'. count_key k s = ret s' \<and> counted (key_down s) [k] s s'"
proof (cases "bit_in (key_down s) (int k)")
  case False
  then have "count_key k s = ret s" using oldbit_in [of "int k" "key_down s"] by (simp add: count_key_def variable_test_bit_def)
  then show ?thesis using False counted_refl by simp
next
  case True
  have on: "variable_test_bit (int k) (key_down s) \<noteq> 0" using True oldbit_in by (simp add: variable_test_bit_def)
  have "count_sym (plain_map ! k) = shift_val (plain_map ! k)"
    using plain_count assms(1) tables_length(1) by (simp add: list_all_length)
  then have sym: "count_sym (plain_map ! k) = key_shift k" by (simp add: key_shift_def)
  show ?thesis
  proof (cases "key_shift k")
    case None
    then have "count_key k s = ret s" using sym on by (auto simp: count_key_def count_sym_def Let_def split: if_splits)
    then show ?thesis using None counted_refl by simp
  next
    case (Some v)
    then have v: "v < 4" by (rule key_shift_less)
    let ?s = "s\<lparr>k_down := (k_down s)[v := k_down s ! v + 1], shift_state := shift_state s OR push_bit v 1\<rparr>"
    have "count_key k s = ret ?s"
      using sym on v Some
      by (auto simp: count_key_def count_sym_def Let_def KG_CAPSSHIFT_def KG_SHIFT_def NR_SHIFT_def split: if_splits)
    moreover have "bit (push_bit v 1 :: u32) i \<longleftrightarrow> i = v" for i
      unfolding bit_push_bit_iff bit_1_iff using v by auto
    then have "counted (key_down s) [k] s ?s"
      unfolding counted_def using Some True assms(2) v
      by (intro exI [of _ "(k_down s)[v := k_down s ! v + 1]"] exI [of _ "shift_state s OR push_bit v 1"])
        (auto simp: nth_list_update bit_or_iff)
    ultimately show ?thesis by blast
  qed
qed

lemma counted_same: "counted w ks s s' \<Longrightarrow> key_down s' = key_down s \<and> length (k_down s') = length (k_down s)"
  by (auto simp: counted_def)

lemma count_keys_ok:
  "(\<forall>k\<in>set ks. k < 256) \<Longrightarrow> length (k_down s) = 9 \<Longrightarrow> \<exists>s'. count_keys ks s = ret s' \<and> counted (key_down s) ks s s'"
proof (induction ks arbitrary: s)
  case Nil
  then show ?case using counted_refl by simp
next
  case (Cons k ks)
  then obtain s1 where 1: "count_key k s = ret s1" "counted (key_down s) [k] s s1" using count_key_ok [of k s] by auto
  then obtain s2 where "count_keys ks s1 = ret s2" "counted (key_down s1) ks s1 s2"
    using Cons counted_same by (metis list.set_intros(2))
  then show ?case using 1 counted_trans [of "key_down s" "[k]"] counted_same [OF 1(2)] by auto
qed

lemma count_words_ok:
  "i + length is \<le> 8 \<Longrightarrow> is = [i..<i + length is] \<Longrightarrow> length (k_down s) = 9 \<Longrightarrow>
   \<exists>s'. count_words is s = ret s' \<and> counted (key_down s) [32 * i..<32 * (i + length is)] s s'"
proof (induction "is" arbitrary: i s)
  case Nil
  then show ?case using counted_refl by simp
next
  case (Cons j js)
  have "[i..<i + length (j # js)] = i # [Suc i..<i + length (j # js)]" by (rule upt_conv_Cons) simp
  then have "j # js = i # [Suc i..<Suc i + length js]" using Cons.prems(2) by (simp only: list.size add_Suc_right add_Suc add_0_right)
  then have j: "j = i" "js = [Suc i..<Suc i + length js]" by simp_all
  let ?ks = "[32 * i..<32 * i + 32]"
  have "\<exists>s1. (if key_down s (int i) \<noteq> 0 then count_keys ?ks s else ret s) = ret s1 \<and> counted (key_down s) ?ks s s1"
  proof (cases "key_down s (int i) = 0")
    case True
    have "\<not> bit_in (key_down s) (int k)" if "k \<in> set ?ks" for k
    proof -
      have "int k div 32 = int i" using that by (auto simp: zdiv_int [of k 32, symmetric, simplified])
      then show ?thesis using True by (simp add: bit_in_def)
    qed
    then have "held (key_down s) ?ks v = 0" for v by (auto simp: held_def filter_empty_conv)
    then show ?thesis using True counted_refl by simp
  next
    case False
    then show ?thesis using count_keys_ok [of ?ks s] Cons.prems by simp
  qed
  then obtain s1 where 1: "(if key_down s (int i) \<noteq> 0 then count_keys ?ks s else ret s) = ret s1" "counted (key_down s) ?ks s s1"
    by blast
  then obtain s2 where 2: "count_words js s1 = ret s2" "counted (key_down s1) [32 * Suc i..<32 * (Suc i + length js)] s1 s2"
    using Cons.IH [of "Suc i" s1] Cons.prems j(2) counted_same [OF 1(2)] by auto
  have "?ks @ [32 * Suc i..<32 * (Suc i + length js)] = [32 * i..<32 * (i + length (j # js))]"
    using upt_add_eq_append [of "32 * i" "32 * i + 32" "32 * length js"] by (simp add: ac_simps)
  then have "counted (key_down s) [32 * i..<32 * (i + length (j # js))] s s2"
    using counted_trans [OF 1(2)] 2(2) counted_same [OF 1(2)] by metis
  then show ?case using 1(1) 2(1) by (auto simp: j(1))
qed

text \<open>The state of the modifiers is that of the bitmap.\<close>

definition shift_ok :: "keyboard \<Rightarrow> bool" where
  "shift_ok s \<longleftrightarrow> length (k_down s) = 9 \<and> (\<forall>v<9. k_down s ! v = of_nat (held (key_down s) [0..<256] v)) \<and>
     (\<forall>v. bit (shift_state s) v \<longleftrightarrow> 0 < held (key_down s) [0..<256] v)"

lemma compute_shiftstate_ok:
  "\<exists>kd ss. compute_shiftstate s = ret (s\<lparr>k_down := kd, shift_state := ss\<rparr>) \<and> shift_ok (s\<lparr>k_down := kd, shift_state := ss\<rparr>)"
proof -
  let ?s = "s\<lparr>shift_state := 0, k_down := replicate NR_SHIFT 0\<rparr>"
  have "\<exists>s'. count_words [0..<8] ?s = ret s' \<and> counted (key_down ?s) [32 * 0..<32 * (0 + length [0..<8])] ?s s'"
    by (rule count_words_ok) (simp_all add: NR_SHIFT_def)
  then obtain s' where 1: "compute_shiftstate s = ret s'" "counted (key_down s) [0..<256] ?s s'"
    by (auto simp: compute_shiftstate_def)
  then obtain kd ss where "s' = s\<lparr>k_down := kd, shift_state := ss\<rparr>" "length kd = 9"
    "\<forall>v<9. kd ! v = of_nat (held (key_down s) [0..<256] v)" "\<forall>v. bit ss v \<longleftrightarrow> 0 < held (key_down s) [0..<256] v"
    by (auto simp: counted_def NR_SHIFT_def)
  then show ?thesis using 1(1) by (auto simp: shift_ok_def)
qed

lemma shift_ok_compute: "shift_ok s \<Longrightarrow> compute_shiftstate s = ret s"
proof -
  assume s: "shift_ok s"
  obtain kd ss where c: "compute_shiftstate s = ret (s\<lparr>k_down := kd, shift_state := ss\<rparr>)" "shift_ok (s\<lparr>k_down := kd, shift_state := ss\<rparr>)"
    using compute_shiftstate_ok by blast
  have "kd = k_down s" using s c(2) by (intro nth_equalityI) (simp_all add: shift_ok_def)
  moreover have "ss = shift_state s" using s c(2) by (intro bit_word_eqI) (simp add: shift_ok_def)
  ultimately show ?thesis using c(1) by simp
qed

end
