(* ===== verification/Keyboard_Steps.thy ===== *)
theory Keyboard_Steps
  imports Keyboard_Ok
begin

text \<open>
  The steps of the keyboard driver: no scancode makes it fault, and the modifiers stay those of the
  bitmap of keys as long as no modifier key is released that was not pressed.
\<close>

subsection \<open>What the handlers leave alone\<close>

definition rest :: "keyboard \<Rightarrow> keyboard \<Rightarrow> bool" where
  "rest s s' \<longleftrightarrow> key_down s' = key_down s \<and> scan s' = scan s \<and> rep s' = rep s \<and>
     length (kbd_table s') = length (kbd_table s) \<and> init_done s' = init_done s"

definition keeps :: "keyboard \<Rightarrow> keyboard \<Rightarrow> bool" where
  "keeps s s' \<longleftrightarrow> rest s s' \<and> k_down s' = k_down s \<and> shift_state s' = shift_state s"

lemma keeps_refl [simp]: "keeps s s"
  by (simp add: keeps_def rest_def)

lemma keeps_trans: "keeps s s1 \<Longrightarrow> keeps s1 s2 \<Longrightarrow> keeps s s2"
  by (simp add: keeps_def rest_def)

lemma keeps_put [simp]: "keeps s (put_queue c s)" "keeps s (puts_queue cp s)" "keeps s (applkey key mode s)"
  by (simp_all add: keeps_def rest_def put_queue_def puts_queue_def keyboard_send_ch_def keyboard_send_str_def
      keyboard_data_def applkey_def)

lemma keeps_kbd [simp]: "keeps s (on_kbd f s)"
  by (simp add: keeps_def rest_def on_kbd_def)

lemmas keeps_defs = keeps_def rest_def put_queue_def puts_queue_def keyboard_send_ch_def keyboard_send_str_def
  keyboard_data_def applkey_def on_kbd_def

lemma keeps_utf8 [simp]: "keeps s (to_utf8 c s)"
  by (simp add: to_utf8_def keeps_defs Let_def)

lemma keeps_diacr: "keeps s (snd (handle_diacr ch s))"
  by (simp add: handle_diacr_def accent_table_def keeps_defs Let_def)

lemma keeps_self: "keeps s (do_self value up s)" "keeps s (do_dead2 value up s)"
  using keeps_diacr [of s "value"]
  by (auto simp: do_self_def do_dead2_def keeps_defs Let_def split: prod.splits)

lemma keeps_keys:
  "keeps s (do_fn value up s)" "keeps s (do_meta value up s)" "keeps s (do_ascii value up s)" "keeps s (do_lock value up s)"
  "keeps s (enter s)" "keeps s (caps_toggle s)" "keeps s (caps_on s)" "keeps s (num s)" "keeps s (bare_num s)" "keeps s (hold s)"
  by (auto simp: do_fn_def do_meta_def do_ascii_def do_lock_def enter_def caps_toggle_def caps_on_def num_def bare_num_def
      hold_def keyboard_start_tty_def keyboard_stop_tty_def keeps_defs Let_def split: option.splits)

lemma do_cur_ok: "unat value \<le> 3 \<Longrightarrow> \<exists>s'. do_cur value up s = ret s' \<and> keeps s s'"
  by (auto simp: do_cur_def word_less_nat_alt)

lemma do_pad_ok: "unat value \<le> 20 \<Longrightarrow> \<exists>s'. do_pad value up s = ret s' \<and> keeps s s'"
proof -
  assume "unat value \<le> 20"
  moreover have "\<exists>s'. do_cur c False s = ret s' \<and> keeps s s'" if "c \<in> {0, 1, 2, 3}" for c
    using that by (intro do_cur_ok) auto
  moreover have "keeps s (put_queue 10 (put_queue c s))" for c
    by (rule keeps_trans [of _ "put_queue c s"]) simp_all
  ultimately show ?thesis
    by (auto simp: do_pad_def Let_def app_map_def pad_chars_def keeps_keys)
qed

lemma consoles_ok: "decr_console (int fg_console) (int fg_console - 1) \<noteq> None" "incr_console (int fg_console) (int fg_console + 1) \<noteq> None"
proof -
  have d: "decr_console 0 (int n) = Some 0" if "n < 63" for n
    using that
    by (induction n) (subst decr_console.simps, simp add: vc_cons_allocated_def keyboard_vc_cons_allocated_def MAX_NR_CONSOLES_def)+
  have "decr_console 0 (- 1) = decr_console 0 (int 61)"
    by (subst decr_console.simps) (simp add: vc_cons_allocated_def keyboard_vc_cons_allocated_def MAX_NR_CONSOLES_def)
  then show "decr_console (int fg_console) (int fg_console - 1) \<noteq> None" using d [of 61] by (simp add: fg_console_def)
  have i: "incr_console 0 (63 - int n) = Some 0" if "n < 63" for n
    using that
  proof (induction n)
    case 0
    then show ?case
      by (subst incr_console.simps) (simp add: vc_cons_allocated_def keyboard_vc_cons_allocated_def MAX_NR_CONSOLES_def)
  next
    case (Suc n)
    have "63 - int (Suc n) + 1 = 63 - int n" by simp
    then show ?case using Suc
      by (subst incr_console.simps) (simp add: vc_cons_allocated_def keyboard_vc_cons_allocated_def MAX_NR_CONSOLES_def Let_def)
  qed
  show "incr_console (int fg_console) (int fg_console + 1) \<noteq> None" using i [of 62] by (simp add: fg_console_def)
qed

text \<open>A state whose modifiers were counted again.\<close>

definition recounted :: "keyboard \<Rightarrow> keyboard \<Rightarrow> bool" where
  "recounted s s' \<longleftrightarrow> rest s s' \<and> shift_ok s'"

lemma compute_recounted: "\<exists>s'. compute_shiftstate s = ret s' \<and> recounted s s'"
  using compute_shiftstate_ok [of s] by (auto simp: recounted_def rest_def)

lemma do_spec_ok: "\<exists>s'. do_spec value up s = ret s' \<and> (keeps s s' \<or> recounted s s')"
proof -
  have "keeps s (s\<lparr>dead_key_next := True\<rparr>)" by (simp add: keeps_def rest_def)
  then have "\<exists>s'. spec_fn n s = ret s' \<and> (keeps s s' \<or> recounted s s')" for n
    using compute_recounted [of s] consoles_ok keeps_keys [of s]
    by (auto simp: spec_fn_def keyboard_set_console_def simp del: of_nat_diff)
  then show ?thesis by (auto simp: do_spec_def)
qed

subsection \<open>Modifier keys\<close>

definition new_count :: "bool \<Rightarrow> u8 \<Rightarrow> u8" where
  "new_count up n = (if up then (if n \<noteq> 0 then n - 1 else n) else n + 1)"

definition shifted :: "nat \<Rightarrow> bool \<Rightarrow> keyboard \<Rightarrow> keyboard \<Rightarrow> bool" where
  "shifted v up s s' \<longleftrightarrow> rest s s' \<and> k_down s' = (k_down s)[v := new_count up (k_down s ! v)] \<and>
     (\<forall>i. bit (shift_state s') i \<longleftrightarrow> (if i = v then new_count up (k_down s ! v) \<noteq> 0 else bit (shift_state s) i))"

lemma do_shift_rep: "rep s \<Longrightarrow> do_shift value up s = ret s"
  by (simp add: do_shift_def)

lemma do_shift_ok:
  assumes "unat value \<le> 3" "\<not> rep s" "length (k_down s) = 9"
  shows "\<exists>s'. do_shift value up s = ret s' \<and> shifted (unat value) up s s'"
proof -
  let ?v = "unat value"
  let ?n = "new_count up (k_down s ! ?v)"
  let ?s = "s\<lparr>k_down := (k_down s)[?v := ?n],
    shift_state := (if ?n \<noteq> 0 then shift_state s OR push_bit ?v 1 else shift_state s AND NOT (push_bit ?v 1))\<rparr>"
  have pb: "bit (push_bit ?v 1 :: u32) i \<longleftrightarrow> i = ?v" for i
    unfolding bit_push_bit_iff bit_1_iff using assms(1) by auto
  have "bit (shift_state s) i \<Longrightarrow> i < 32" for i using bit_imp_le_length by fastforce
  then have "shifted ?v up s ?s"
    using assms(1) by (auto simp: shifted_def rest_def bit_or_iff bit_and_iff bit_not_iff pb [simplified])
  moreover have "shifted ?v up s s2" if "keeps ?s s1" "s2 = s1\<lparr>npadch := - 1\<rparr>" for s1 s2
    using that calculation by (simp add: shifted_def keeps_def rest_def)
  moreover have "do_shift value up s =
    ret (if up \<and> shift_state ?s \<noteq> shift_state s \<and> npadch ?s \<noteq> - 1 then
           (if kbdmode (kbd ?s) = VC_UNICODE then to_utf8 (word_of_int (npadch ?s)) ?s
            else put_queue (word_of_int (npadch ?s) AND 0xff) ?s)\<lparr>npadch := - 1\<rparr>
         else ?s)"
    using assms by (simp add: do_shift_def KG_CAPSSHIFT_def NR_SHIFT_def Let_def new_count_def)
  ultimately show ?thesis by (auto simp: keeps_trans)
qed

text \<open>Any handler that the tables lead to.\<close>

lemma key_handler_ok:
  assumes "ty \<in> {0, 1, 2, 5, 8, 9, 11} \<or> ty = 3 \<and> unat value \<le> 20 \<or> ty = 6 \<and> unat value \<le> 3 \<or> ty = 7 \<and> unat value \<le> 3"
    and "length (k_down s) = 9"
  shows "\<exists>s'. key_handler ty value up s = ret s' \<and>
    (if ty = 7 \<and> \<not> rep s then shifted (unat value) up s s' else keeps s s' \<or> recounted s s')"
proof -
  from assms(1) consider "ty \<in> {0, 1, 8, 9}" | "ty \<in> {5, 11}" | "ty = 2" | "ty = 3" "unat value \<le> 20"
    | "ty = 6" "unat value \<le> 3" | "ty = 7" "unat value \<le> 3" by auto
  then show ?thesis
  proof cases
    case 1
    then show ?thesis using keeps_self keeps_keys by (auto simp: key_handler_def)
  next
    case 2
    then show ?thesis by (auto simp: key_handler_def)
  next
    case 3
    then show ?thesis using do_spec_ok by (simp add: key_handler_def)
  next
    case 4
    then show ?thesis using do_pad_ok [of "value" up s] by (auto simp: key_handler_def)
  next
    case 5
    then show ?thesis using do_cur_ok [of "value" up s] by (auto simp: key_handler_def)
  next
    case 6
    show ?thesis
    proof (cases "rep s")
      case True
      then show ?thesis using 6 do_shift_rep by (simp add: key_handler_def)
    next
      case False
      then show ?thesis using 6 do_shift_ok [of "value" s up] assms(2) by (simp add: key_handler_def)
    qed
  qed
qed

subsection \<open>A key\<close>

lemma recounted_keeps: "recounted s s1 \<Longrightarrow> keeps s1 s2 \<Longrightarrow> recounted s s2"
  by (simp add: recounted_def keeps_def rest_def shift_ok_def)

lemma shifted_keeps: "shifted v up s s1 \<Longrightarrow> keeps s1 s2 \<Longrightarrow> shifted v up s s2"
  by (simp add: shifted_def keeps_def rest_def)

lemma keeps_slock [simp]: "keeps s (clear_slock s)"
  by (simp add: clear_slock_def)

text \<open>The tables are as long as they are declared, and the state of the modifiers fits the table of maps.\<close>

definition core_ok :: "keyboard \<Rightarrow> bool" where
  "core_ok s \<longleftrightarrow> length (k_down s) = 9 \<and> (\<forall>v. bit (shift_state s) v \<longrightarrow> v < 8) \<and> length (kbd_table s) = MAX_NR_CONSOLES \<and>
     length (high_keys (scan s)) = 39 \<and> length (e0_keys (scan s)) = 128"

lemma shift_ok_bits: "shift_ok s \<Longrightarrow> bit (shift_state s) v \<Longrightarrow> v < 4"
  using held_none [of v "key_down s" "[0..<256]"] by (cases "v < 4") (auto simp: shift_ok_def)

definition moved :: "nat option \<Rightarrow> bool \<Rightarrow> keyboard \<Rightarrow> keyboard \<Rightarrow> bool" where
  "moved v up s s' \<longleftrightarrow> recounted s s' \<or>
     (case v of None \<Rightarrow> keeps s s' | Some v \<Rightarrow> if rep s then keeps s s' else shifted v up s s')"

lemma moved_keeps: "moved v up s s1 \<Longrightarrow> keeps s1 s2 \<Longrightarrow> moved v up s s2"
  using recounted_keeps [of s s1 s2] keeps_trans [of s s1 s2] shifted_keeps [of _ up s s1 s2]
  by (auto simp: moved_def split: option.splits if_splits)

lemma core_moved:
  assumes "core_ok s" "moved v up s s'" "\<And>i. v = Some i \<Longrightarrow> i < 4"
  shows "core_ok s'"
proof -
  have "rest s s'" using assms(2) by (auto simp: moved_def recounted_def keeps_def shifted_def split: option.splits if_splits)
  moreover have "length (k_down s') = 9"
    using assms(1,2) by (auto simp: moved_def recounted_def shift_ok_def core_ok_def keeps_def shifted_def split: option.splits if_splits)
  moreover have "j < 8" if "bit (shift_state s') j" for j
    using that assms shift_ok_bits [of s' j]
    by (fastforce simp: moved_def recounted_def core_ok_def keeps_def shifted_def split: option.splits if_splits)
  ultimately show ?thesis using assms(1) by (auto simp: core_ok_def rest_def)
qed

lemma small_word: "(\<And>i. bit (x :: u32) i \<Longrightarrow> i < 8) \<Longrightarrow> x < 256"
proof -
  assume "\<And>i. bit x i \<Longrightarrow> i < 8"
  then have "x = take_bit 8 x" by (intro bit_word_eqI) (auto simp: bit_take_bit_iff)
  then have "unat x = take_bit 8 (unat x)" by (metis unsigned_take_bit_eq)
  also have "\<dots> < 2 ^ 8" by (rule take_bit_nat_less_exp)
  finally show "x < 256" by (simp add: word_less_nat_alt)
qed

lemma shift_final_small:
  assumes "core_ok s"
  shows "(shift_state s OR ucast (slockstate (kbd s))) XOR ucast (lockstate (kbd s)) < (256 :: u32)"
proof (rule small_word)
  fix i
  assume "bit ((shift_state s OR ucast (slockstate (kbd s))) XOR ucast (lockstate (kbd s)) :: u32) i"
  then show "i < 8" using assms bit_imp_le_length [of "slockstate (kbd s)" i] bit_imp_le_length [of "lockstate (kbd s)" i]
    by (auto simp: core_ok_def bit_or_iff bit_xor_iff bit_ucast_iff)
qed

lemma handle_key_ok:
  assumes "core_ok s"
  shows "\<exists>s'. handle_key keycode up raw s = ret s' \<and> moved (key_shift (unat keycode)) up s s'"
proof -
  let ?f = "(shift_state s OR ucast (slockstate (kbd s))) XOR ucast (lockstate (kbd s)) :: u32"
  have f: "\<not> ?f \<ge> 256" using shift_final_small [OF assms] by simp
  show ?thesis
  proof (cases "key_maps (unat ?f)")
    case None
    obtain s1 where "compute_shiftstate s = ret s1" "recounted s s1" using compute_recounted by blast
    then show ?thesis using None f recounted_keeps by (auto simp: handle_key_def Let_def moved_def simp del: not_le)
  next
    case (Some m)
    let ?x = "m ! unat keycode"
    let ?ty = "unat ?x div 256 - 240"
    have k: "unat keycode < 256" using unsigned_less [of keycode, where ?'a = nat] by simp
    note t = table_ok [OF Some k]
    note ty = sym_type [OF t(2)] sym_value [OF t(2)]
    have ks: "key_shift (unat keycode) = (if ?ty = 7 then Some (unat ?x mod 256) else None)"
      using ty(6,7) t(3) by (cases "shift_val ?x") (auto simp: key_shift_def)
    show ?thesis
    proof (cases "raw \<and> ?ty \<noteq> KT_SPEC \<and> ?ty \<noteq> KT_SHIFT")
      case True
      then have "handle_key keycode up raw s = ret s" using Some f ty by (simp add: handle_key_def Let_def)
      then show ?thesis using True ks by (simp add: moved_def KT_SHIFT_def)
    next
      case False
      define ty1 where "ty1 = (if ?ty = KT_LETTER then KT_LATIN else ?ty)"
      obtain sym1 where run: "handle_key keycode up raw s =
          bindr (key_handler ty1 (ucast sym1) up s) (\<lambda>s1. ret (if ty1 \<noteq> KT_SLOCK then clear_slock s1 else s1))"
        and sym1: "?ty \<noteq> KT_LETTER \<Longrightarrow> sym1 = ?x"
        using False Some f ty(1,3) by (cases "?ty = KT_LETTER") (auto simp: handle_key_def Let_def ty1_def)
      have "ty1 \<in> {0, 1, 2, 5, 8, 9, 11} \<or> ty1 = 3 \<and> unat (ucast sym1 :: u8) \<le> 20 \<or>
          ty1 = 6 \<and> unat (ucast sym1 :: u8) \<le> 3 \<or> ty1 = 7 \<and> unat (ucast sym1 :: u8) \<le> 3"
      proof (cases "?ty = KT_LETTER")
        case True
        then show ?thesis by (simp add: ty1_def KT_LATIN_def)
      next
        case False
        then show ?thesis using ty(2,5) sym1 by (auto simp: ty1_def)
      qed
      from key_handler_ok [OF this, of s up] obtain s1 where 1: "key_handler ty1 (ucast sym1) up s = ret s1"
        "if ty1 = 7 \<and> \<not> rep s then shifted (unat (ucast sym1 :: u8)) up s s1 else keeps s s1 \<or> recounted s s1"
        using assms by (auto simp: core_ok_def)
      have "ty1 = 7 \<longleftrightarrow> ?ty = 7" by (simp add: ty1_def KT_LETTER_def KT_LATIN_def)
      moreover have "unat (ucast sym1 :: u8) = unat ?x mod 256" if "?ty = 7" using that sym1 ty(2) by (simp add: KT_LETTER_def)
      ultimately have "moved (key_shift (unat keycode)) up s s1" using 1(2) ks by (auto simp: moved_def split: if_splits)
      then have "moved (key_shift (unat keycode)) up s (clear_slock s1)"
        by (rule moved_keeps) simp
      then show ?thesis using run 1(1) \<open>moved _ up s s1\<close> by auto
    qed
  qed
qed

end
