(* ===== verification/Keyboard_Run.thy ===== *)
theory Keyboard_Run
  imports Keyboard_Steps
begin

text \<open>
  Whole scancodes and sequences of them: they never make the driver fault, and its counters of the
  modifier keys stay those of the bitmap of keys.
\<close>

subsection \<open>Scancodes to keycodes\<close>

lemma translate_tables: "high_keys (snd (translate c s)) = high_keys s \<and> e0_keys (snd (translate c s)) = e0_keys s"
  by (simp add: translate_def Let_def)

text \<open>The lookups stay within the tables.\<close>

lemma translate_bounds: "unat (c AND 0x7f :: u8) < 128" "lim \<le> (c AND 0x7f) \<Longrightarrow> lim = 89 \<Longrightarrow> unat ((c AND 0x7f) - lim :: u8) < 39"
proof -
  have "c AND 0x7f = take_bit 7 c" by (simp add: take_bit_eq_mask mask_eq_exp_minus_1)
  then have "unat (c AND 0x7f) = take_bit 7 (unat c)" by (simp only: unsigned_take_bit_eq)
  also have "\<dots> < 2 ^ 7" by (rule take_bit_nat_less_exp)
  finally show l: "unat (c AND 0x7f) < 128" by simp
  show "unat ((c AND 0x7f) - lim) < 39" if "lim \<le> (c AND 0x7f)" "lim = 89"
    using l that by (simp add: unat_sub)
qed

subsection \<open>A key of the bitmap\<close>

lemma held_card: "held w [0..<256] v = card {k. k < 256 \<and> bit_in w (int k) \<and> key_shift k = Some v}"
proof -
  have "held w [0..<256] v = card ({k. bit_in w (int k) \<and> key_shift k = Some v} \<inter> set [0..<256])"
    unfolding held_def by (rule distinct_length_filter) simp
  also have "{k. bit_in w (int k) \<and> key_shift k = Some v} \<inter> set [0..<256] = {k. k < 256 \<and> bit_in w (int k) \<and> key_shift k = Some v}"
    by auto
  finally show ?thesis .
qed

lemma held_same: "(\<And>k v. k < 256 \<Longrightarrow> key_shift k = Some v \<Longrightarrow> bit_in w (int k) = bit_in w2 (int k)) \<Longrightarrow> held w [0..<256] v = held w2 [0..<256] v"
  unfolding held_def by (rule arg_cong [of _ _ length], rule filter_cong) auto

lemma held_set:
  assumes "k < 256" "\<not> bit_in w (int k)" "key_shift k = Some v"
  shows "held (set_bit_at (int k) w) [0..<256] u = held w [0..<256] u + (if u = v then 1 else 0)"
proof (cases "u = v")
  case True
  have "{j. j < 256 \<and> bit_in (set_bit_at (int k) w) (int j) \<and> key_shift j = Some v} =
      insert k {j. j < 256 \<and> bit_in w (int j) \<and> key_shift j = Some v}"
    using assms by (auto simp: bit_in_set)
  then show ?thesis using assms(2) True by (simp add: held_card)
next
  case False
  have "{j. j < 256 \<and> bit_in (set_bit_at (int k) w) (int j) \<and> key_shift j = Some u} =
      {j. j < 256 \<and> bit_in w (int j) \<and> key_shift j = Some u}"
    using assms False by (auto simp: bit_in_set)
  then show ?thesis using False by (simp add: held_card)
qed

lemma held_clear:
  assumes "k < 256" "bit_in w (int k)" "key_shift k = Some v"
  shows "held w [0..<256] u = held (clear_bit (int k) w) [0..<256] u + (if u = v then 1 else 0)"
proof -
  have "\<not> bit_in (clear_bit (int k) w) (int k)" by (simp add: bit_in_clear)
  from held_set [OF assms(1) this assms(3), of u] show ?thesis using held_same [of "set_bit_at (int k) (clear_bit (int k) w)" w u]
    by (metis assms(2) bit_in_set bit_in_clear)
qed

lemma held_bound: "held w [0..<256] v \<le> 255"
proof -
  have "key_shift 0 = None" by (simp add: key_shift_def shift_val_def plain_map_def)
  then have "{k. k < 256 \<and> bit_in w (int k) \<and> key_shift k = Some v} \<subseteq> {1..<256}" by (fastforce simp: Suc_le_eq intro: Nat.gr0I)
  then have "card {k. k < 256 \<and> bit_in w (int k) \<and> key_shift k = Some v} \<le> card {1..<256::nat}" by (intro card_mono) auto
  then show ?thesis by (simp add: held_card)
qed

lemma count_zero: "n \<le> 255 \<Longrightarrow> (of_nat n :: u8) = 0 \<longleftrightarrow> n = 0"
  by (simp add: word_unat_eq_iff unsigned_of_nat take_bit_nat_eq_self)

text \<open>A press or a release of a modifier key that the bitmap has recorded.\<close>

lemma shifted_shift_ok:
  assumes "length (k_down s) = 9"
    and old: "\<And>u. u < 9 \<Longrightarrow> k_down s ! u = of_nat (old_held u)" "\<And>u. bit (shift_state s) u \<longleftrightarrow> 0 < old_held u"
    and new: "\<And>u. (if up then old_held u = held (key_down s) [0..<256] u + (if u = v then 1 else 0)
                else held (key_down s) [0..<256] u = old_held u + (if u = v then 1 else 0))"
    and "v < 4" "shifted v up s s'"
    and bound: "old_held v \<le> 255"
  shows "shift_ok s'"
proof -
  let ?h = "\<lambda>u. held (key_down s) [0..<256] u"
  have "new_count up (of_nat (old_held v)) = (of_nat (?h v) :: u8)"
    using new [of v] bound count_zero [of "old_held v"] by (auto simp: new_count_def split: if_splits)
  then have v: "new_count up (k_down s ! v) = of_nat (?h v)" using old(1) assms(5) by simp
  have z: "of_nat (?h v) \<noteq> (0 :: u8) \<longleftrightarrow> 0 < ?h v" using count_zero held_bound by auto
  have o: "old_held u = ?h u" if "u \<noteq> v" for u using new [of u] that by (auto split: if_splits)
  have s': "key_down s' = key_down s" "k_down s' = (k_down s)[v := of_nat (?h v)]"
    "\<And>i. bit (shift_state s') i \<longleftrightarrow> (if i = v then 0 < ?h v else bit (shift_state s) i)"
    using assms(6) v z by (simp_all add: shifted_def rest_def)
  show ?thesis unfolding shift_ok_def s' using assms(1,5) old o by (auto simp: nth_list_update)
qed

subsection \<open>A scancode\<close>

text \<open>A modifier key that is released was down.\<close>

definition expected :: "u8 \<Rightarrow> keyboard \<Rightarrow> bool" where
  "expected scancode s \<longleftrightarrow>
     (case fst (translate scancode (scan s)) of
        None \<Rightarrow> True
      | Some k \<Rightarrow> key_shift (unat k) = None \<or> bit_in (key_down s) (int (unat k)))"

text \<open>What is known of the state behind the bitmap: that of before with the key set or cleared.\<close>

definition keyed :: "keyboard \<Rightarrow> nat \<Rightarrow> bool \<Rightarrow> keyboard \<Rightarrow> bool" where
  "keyed s k down s1 \<longleftrightarrow>
     k_down s1 = k_down s \<and> shift_state s1 = shift_state s \<and> length (kbd_table s1) = length (kbd_table s) \<and>
     length (high_keys (scan s1)) = length (high_keys (scan s)) \<and> length (e0_keys (scan s1)) = length (e0_keys (scan s)) \<and>
     key_down s1 = (if down then set_bit_at (int k) (key_down s) else clear_bit (int k) (key_down s)) \<and>
     (rep s1 \<longleftrightarrow> down \<and> bit_in (key_down s) (int k)) \<and> init_done s1 = init_done s"

lemma keyed_keeps: "keyed s k down s1 \<Longrightarrow> keeps s1 s2 \<Longrightarrow> keyed s k down s2"
  by (simp add: keyed_def keeps_def rest_def)

lemma keyed_core: "core_ok s \<Longrightarrow> keyed s k down s1 \<Longrightarrow> core_ok s1"
  by (simp add: keyed_def core_ok_def)

lemma keyed_shift_ok:
  assumes "shift_ok s" "keyed s k down s1" "k < 256" "down \<or> key_shift k = None \<or> bit_in (key_down s) (int k)"
    and "moved (key_shift k) up s1 s2" "key_shift k \<noteq> None \<Longrightarrow> up \<longleftrightarrow> \<not> down"
  shows "shift_ok s2"
proof -
  let ?h = "held (key_down s) [0..<256]"
  have s1: "length (k_down s1) = 9" "\<And>u. u < 9 \<Longrightarrow> k_down s1 ! u = of_nat (?h u)"
    "\<And>u. bit (shift_state s1) u \<longleftrightarrow> 0 < ?h u" "key_down s1 = (if down then set_bit_at (int k) (key_down s) else clear_bit (int k) (key_down s))"
    "rep s1 \<longleftrightarrow> down \<and> bit_in (key_down s) (int k)"
    using assms(1,2) by (auto simp: shift_ok_def keyed_def)
  have keep: "shift_ok s2" if "keeps s1 s2" "\<And>u. held (key_down s1) [0..<256] u = ?h u"
    using that assms(1,2) by (simp add: keeps_def rest_def shift_ok_def keyed_def)
  show ?thesis
  proof (cases "recounted s1 s2")
    case True
    then show ?thesis by (simp add: recounted_def)
  next
    case False
    note m = assms(5) [unfolded moved_def, simplified False, simplified]
    show ?thesis
    proof (cases "key_shift k")
      case None
      have "held (key_down s1) [0..<256] u = ?h u" for u
        by (rule held_same) (use None s1(4) in \<open>auto simp: bit_in_set bit_in_clear\<close>)
      then show ?thesis using keep m None by simp
    next
      case (Some v)
      note v = key_shift_less [OF Some]
      show ?thesis
      proof (cases "rep s1")
        case True
        have "held (key_down s1) [0..<256] u = ?h u" for u
          by (rule held_same) (use True s1(4,5) in \<open>auto simp: bit_in_set\<close>)
        then show ?thesis using keep m Some True by simp
      next
        case nrep: False
        have up: "up \<longleftrightarrow> \<not> down" using assms(6) Some by simp
        have "if up then ?h u = held (key_down s1) [0..<256] u + (if u = v then 1 else 0)
            else held (key_down s1) [0..<256] u = ?h u + (if u = v then 1 else 0)" for u
          using held_set [OF assms(3) _ Some, of "key_down s" u] held_clear [OF assms(3) _ Some, of "key_down s" u]
            assms(4) Some s1(4,5) nrep up by (cases down) auto
        from shifted_shift_ok [of s1 ?h up v s2, OF s1(1,2,3) this v] show ?thesis
          using m Some nrep held_bound by simp
      qed
    qed
  qed
qed

lemma key_change_ok:
  "key_change k down s = (up, s1) \<Longrightarrow> keyed s (unat k) down s1 \<and>
     (up \<longleftrightarrow> \<not> down \<and> (bit_in (key_down s) (int (unat k)) \<or> unexpected_up k))"
  using oldbit_in [of "uint k" "key_down s"]
  by (cases down) (auto simp: key_change_def test_and_clear_bit_def test_and_set_bit_def keyed_def split: if_splits)

lemma handle_keycode_ok:
  assumes "core_ok s"
  shows "\<exists>s'. handle_keycode k up raw s = ret s' \<and> moved (key_shift (unat k)) up s s'"
proof -
  define s1 where "s1 = (if kbdmode (kbd s) = VC_MEDIUMRAW then put_queue (ucast k + up_bit up) s else s)"
  have ks: "keeps s s1" by (simp add: s1_def)
  then have "core_ok s1" using assms by (simp add: core_ok_def keeps_def rest_def)
  have bk: "moved v up s s2" if "moved v up s1 s2" for v s2
    using that ks by (auto simp: moved_def recounted_def keeps_def rest_def shifted_def split: option.splits if_splits)
  show ?thesis
  proof (cases "\<not> rep s1 \<or> (vc_kbd_mode (kbd s1) VC_REPEAT \<and> tty s1 \<and> keyboard_tty_do_repeat_key)")
    case True
    then have "handle_keycode k up raw s = handle_key k up (kbdmode (kbd s) = VC_MEDIUMRAW \<or> raw) s1"
      unfolding handle_keycode_def Let_def s1_def [symmetric] by simp
    then show ?thesis using handle_key_ok [OF \<open>core_ok s1\<close>] bk by metis
  next
    case False
    then have "handle_keycode k up raw s = ret s1" unfolding handle_keycode_def Let_def s1_def [symmetric] by (simp only: False if_False)
    moreover have "moved (key_shift (unat k)) up s1 s1" using False by (simp add: moved_def split: option.splits)
    ultimately show ?thesis using bk by blast
  qed
qed

lemma handle_scancode_ok:
  assumes core: "core_ok s"
  shows "\<exists>s'. handle_scancode c down s = ret s' \<and> core_ok s' \<and> init_done s' = init_done s \<and>
    (shift_ok s \<and> (down \<or> expected c s) \<longrightarrow> shift_ok s')"
proof -
  define raw where "raw \<longleftrightarrow> kbdmode (kbd (s\<lparr>tty := True\<rparr>)) = VC_RAW"
  define s2 where "s2 = (if raw then put_queue (ucast c OR up_bit (\<not> down)) (s\<lparr>tty := True\<rparr>) else s\<lparr>tty := True\<rparr>)"
  obtain kc scan3 where tr: "translate c (scan s2) = (kc, scan3)" by (cases "translate c (scan s2)")
  define s3 where "s3 = s2\<lparr>scan := scan3\<rparr>"
  have run: "handle_scancode c down s =
      (case kc of None \<Rightarrow> ret s3 | Some k \<Rightarrow> let (up, s4) = key_change k down s3 in handle_keycode k up raw s4)"
    unfolding handle_scancode_def Let_def raw_def [symmetric] s2_def [symmetric] tr s3_def by simp
  have "keeps s (s\<lparr>tty := True\<rparr>)" by (simp add: keeps_def rest_def)
  then have k2: "keeps s s2" unfolding s2_def using keeps_trans keeps_put(1) by (auto split: if_splits)
  then have s3: "k_down s3 = k_down s" "shift_state s3 = shift_state s" "key_down s3 = key_down s" "init_done s3 = init_done s"
    "length (kbd_table s3) = length (kbd_table s)" "length (high_keys (scan s3)) = length (high_keys (scan s))"
    "length (e0_keys (scan s3)) = length (e0_keys (scan s))" "translate c (scan s) = (kc, scan3)"
    using translate_tables [of c "scan s2"] tr by (simp_all add: keeps_def rest_def s3_def)
  have c3: "core_ok s3" and o3: "shift_ok s3 \<longleftrightarrow> shift_ok s" using core s3 by (simp_all add: core_ok_def shift_ok_def)
  show ?thesis
  proof (cases kc)
    case None
    then show ?thesis using run c3 o3 s3(4) by simp
  next
    case (Some k)
    obtain up s4 where ch: "key_change k down s3 = (up, s4)" by (cases "key_change k down s3")
    have kd: "keyed s3 (unat k) down s4 \<and> (up \<longleftrightarrow> \<not> down \<and> (bit_in (key_down s3) (int (unat k)) \<or> unexpected_up k))"
      by (rule key_change_ok [OF ch])
    then have "core_ok s4" using keyed_core c3 by blast
    then obtain s' where s': "handle_scancode c down s = ret s'" "moved (key_shift (unat k)) up s4 s'"
      using handle_keycode_ok run Some ch by (metis (no_types, lifting) option.simps(5) case_prod_conv Let_def)
    have "core_ok s'" using core_moved [OF \<open>core_ok s4\<close> s'(2)] key_shift_less by blast
    moreover have "init_done s' = init_done s" using s'(2) kd s3(4)
      by (auto simp: moved_def recounted_def keeps_def shifted_def rest_def keyed_def split: option.splits if_splits)
    moreover have "shift_ok s'" if "shift_ok s" "down \<or> expected c s"
      using keyed_shift_ok [of s3 "unat k" down s4 up s'] that o3 kd s'(2) unsigned_less [of k, where ?'a = nat] s3(3,8) Some
      by (auto simp: expected_def)
    ultimately show ?thesis using s'(1) by blast
  qed
qed

subsection \<open>Sequences of scancodes\<close>

fun scancodes :: "(u32 \<Rightarrow> u32) \<Rightarrow> u32 list \<Rightarrow> keyboard \<Rightarrow> keyboard res" where
  "scancodes peek [] s = ret s"
| "scancodes peek (c # cs) s = bindr (do_scancode peek c s) (scancodes peek cs)"

text \<open>Whether each release of a modifier key comes to a driver that has it down.\<close>

fun releases_expected :: "(u32 \<Rightarrow> u32) \<Rightarrow> u32 list \<Rightarrow> keyboard \<Rightarrow> bool" where
  "releases_expected peek [] s = True"
| "releases_expected peek (c # cs) s =
     ((c AND 0x80 = 0 \<or> expected (ucast c) s) \<and>
      (case do_scancode peek c s of Some (Inr s1) \<Rightarrow> releases_expected peek cs s1 | _ \<Rightarrow> True))"

lemma keeps_bh: "keeps s (kbd_bh peek s)"
  by (simp add: kbd_bh_def Let_def keyboard_pckbd_leds_def keeps_def rest_def)

lemma keeps_shift_ok: "keeps s s' \<Longrightarrow> shift_ok s \<Longrightarrow> shift_ok s'"
  by (simp add: keeps_def rest_def shift_ok_def)

lemma keeps_core: "keeps s s' \<Longrightarrow> core_ok s \<Longrightarrow> core_ok s'"
  by (simp add: keeps_def rest_def core_ok_def)

text \<open>The state after the first part of \<open>do_scancode\<close>.\<close>

definition inited :: "(u32 \<Rightarrow> u32) \<Rightarrow> keyboard \<Rightarrow> keyboard" where
  "inited peek s = (if \<not> init_done s then kbd_init peek (s\<lparr>init_done := True\<rparr>) else s)"

lemma inited_ok:
  assumes "core_ok s"
  shows "core_ok (inited peek s)" "shift_ok s \<Longrightarrow> shift_ok (inited peek s)" "expected c (inited peek s) = expected c s"
proof -
  have "keeps (s\<lparr>init_done := True, kbd_table := replicate MAX_NR_CONSOLES kbd0, tasklet_enabled := True\<rparr>) (inited peek s)"
    if "\<not> init_done s"
    using that keeps_bh by (simp add: inited_def kbd_init_def keyboard_schedule_tasklet_def)
  then have e: "k_down (inited peek s) = k_down s" "shift_state (inited peek s) = shift_state s" "scan (inited peek s) = scan s"
    "key_down (inited peek s) = key_down s" "length (kbd_table (inited peek s)) = MAX_NR_CONSOLES"
    using assms by (cases "init_done s"; simp add: keeps_def rest_def core_ok_def inited_def)+
  show "core_ok (inited peek s)" "shift_ok s \<Longrightarrow> shift_ok (inited peek s)" "expected c (inited peek s) = expected c s"
    using assms by (simp_all only: core_ok_def shift_ok_def expected_def e) (auto simp: MAX_NR_CONSOLES_def)
qed

lemma do_scancode_ok:
  assumes "core_ok s"
  shows "\<exists>s'. do_scancode peek c s = ret s' \<and> core_ok s' \<and> (shift_ok s \<and> (c AND 0x80 = 0 \<or> expected (ucast c) s) \<longrightarrow> shift_ok s')"
proof -
  note i = inited_ok [OF assms, where peek = peek]
  obtain s1 where 1: "handle_scancode (ucast c) (c AND 0x80 = 0) (inited peek s) = ret s1" "core_ok s1"
    "shift_ok (inited peek s) \<and> (c AND 0x80 = 0 \<or> expected (ucast c) (inited peek s)) \<longrightarrow> shift_ok s1"
    using handle_scancode_ok [OF i(1)] by blast
  show ?thesis
  proof (cases "c \<noteq> 0 \<and> c \<noteq> 0xff")
    case True
    then have "do_scancode peek c s = ret (kbd_bh peek s1)" using 1(1) by (simp add: do_scancode_def Let_def inited_def)
    then show ?thesis using 1(2,3) i keeps_core [OF keeps_bh] keeps_shift_ok [OF keeps_bh] by auto
  next
    case False
    then have "do_scancode peek c s = ret (inited peek s)" by (auto simp: do_scancode_def Let_def inited_def)
    then show ?thesis using i by auto
  qed
qed

lemma scancodes_ok: "core_ok s \<Longrightarrow> \<exists>s'. scancodes peek cs s = ret s' \<and> core_ok s' \<and> (shift_ok s \<and> releases_expected peek cs s \<longrightarrow> shift_ok s')"
proof (induction cs arbitrary: s)
  case (Cons c cs)
  obtain s1 where 1: "do_scancode peek c s = ret s1" "core_ok s1" "shift_ok s \<and> (c AND 0x80 = 0 \<or> expected (ucast c) s) \<longrightarrow> shift_ok s1"
    using do_scancode_ok [OF Cons.prems] by blast
  have "releases_expected peek (c # cs) s \<longleftrightarrow> (c AND 0x80 = 0 \<or> expected (ucast c) s) \<and> releases_expected peek cs s1"
    using 1(1) by (simp add: ret_def)
  then show ?case using Cons.IH [OF 1(2)] 1 by auto
qed simp

lemma boot_ok: "core_ok boot_keyboard" "shift_ok boot_keyboard"
proof -
  have "held (\<lambda>_. 0) ks v = 0" for ks v by (simp add: held_def bit_in_def)
  moreover have "replicate 9 (0 :: u8) ! v = 0" if "v < 9" for v using that by simp
  ultimately show "shift_ok boot_keyboard" by (simp add: shift_ok_def boot_keyboard_def NR_SHIFT_def)
  show "core_ok boot_keyboard"
    by (simp add: core_ok_def boot_keyboard_def initial_high_keys_def initial_e0_keys_def NR_SHIFT_def)
qed

end
