(* ===== verification/Keyboard_Type.thy ===== *)
theory Keyboard_Type
  imports Keyboard_Run
begin

text \<open>
  What typing sends: the driver between two keys, with or without the left shift key held, and the
  effect of a press and of a release in these states.
\<close>

subsection \<open>States between two keys\<close>

definition no_keys :: bitmap where
  "no_keys = (\<lambda>_. 0)"

definition left_shift :: nat where
  "left_shift = 42"

definition ready :: "event list \<Rightarrow> keyboard" where
  "ready es = boot_keyboard\<lparr>kbd_table := replicate MAX_NR_CONSOLES kbd0, tty := True, ledstate := 0,
     tasklet_enabled := True, init_done := True, events := es\<rparr>"

definition shift_held :: "event list \<Rightarrow> keyboard" where
  "shift_held es = (ready es)\<lparr>k_down := 1 # replicate 8 0, key_down := set_bit_at (int left_shift) no_keys, shift_state := 1\<rparr>"

text \<open>A key that sends a character, and the character.\<close>

definition glyph :: "bool \<Rightarrow> nat \<Rightarrow> u8" where
  "glyph shift k = ucast ((if shift then shift_map else plain_map) ! k)"

definition types_char :: "bool \<Rightarrow> nat \<Rightarrow> bool" where
  "types_char shift k \<longleftrightarrow> 0 < k \<and> k < 89 \<and> glyph shift k \<noteq> 0 \<and>
     drop_bit 8 ((if shift then shift_map else plain_map) ! k) \<in> {0xf0, 0xfb}"

text \<open>The scancodes of a key that is pressed and released, within those of the shift key.\<close>

definition stroke :: "bool \<times> nat \<Rightarrow> u32 list" where
  "stroke = (\<lambda>(shift, k). (if shift then [0x2a] else []) @ [of_nat k, of_nat k + 0x80] @ (if shift then [0xaa] else []))"

definition between :: "bool \<Rightarrow> event list \<Rightarrow> keyboard" where
  "between shift es = (if shift then shift_held es else ready es)"

lemmas ready_defs = between_def shift_held_def ready_def boot_keyboard_def NR_SHIFT_def no_keys_def

lemma set_clear: "\<not> bit_in w nr \<Longrightarrow> clear_bit nr (set_bit_at nr w) = w"
proof
  fix i
  assume "\<not> bit_in w nr"
  then have "(w (nr div 32) OR bit_mask nr) AND NOT (bit_mask nr) = w (nr div 32)"
    by (intro bit_word_eqI) (auto simp: bit_in_def bit_or_iff bit_and_iff bit_not_iff bit_mask_bit)
  then show "clear_bit nr (set_bit_at nr w) i = w i" by (simp add: clear_bit_def set_bit_at_def)
qed

lemma between_keys: "bit_in (key_down (between shift es)) nr \<longleftrightarrow> shift \<and> nr = 42"
  by (simp add: ready_defs bit_in_set left_shift_def) (simp add: bit_in_def)

lemma between_kbd: "kbd (between shift es) = kbd0"
  by (simp add: kbd_def ready_defs fg_console_def MAX_NR_CONSOLES_def)

lemma code_bits:
  assumes "0 < k" "k < 89"
  shows "(of_nat k :: u32) AND 0x80 = 0" "(of_nat k + 0x80 :: u32) AND 0x80 \<noteq> 0" "(of_nat k :: u32) \<noteq> 0" "(of_nat k :: u32) \<noteq> 0xff"
    "(of_nat k + 0x80 :: u32) \<noteq> 0" "(of_nat k + 0x80 :: u32) \<noteq> 0xff" "ucast (of_nat k :: u32) = (of_nat k :: u8)"
    "ucast (of_nat k + 0x80 :: u32) = (of_nat k + 0x80 :: u8)"
    "(of_nat k :: u8) \<noteq> 0xe0" "(of_nat k :: u8) \<noteq> 0xe1" "(of_nat k :: u8) \<noteq> 0" "(of_nat k :: u8) \<noteq> 0xff"
    "(of_nat k + 0x80 :: u8) \<noteq> 0xe0" "(of_nat k + 0x80 :: u8) \<noteq> 0xe1" "(of_nat k + 0x80 :: u8) \<noteq> 0" "(of_nat k + 0x80 :: u8) \<noteq> 0xff"
    "(of_nat k :: u8) AND 0x7f = of_nat k" "(of_nat k + 0x80 :: u8) AND 0x7f = of_nat k" "\<not> ucast SC_LIM \<le> (of_nat k :: u8)"
    "unat (of_nat k :: u8) = k"
proof -
  have all: "list_all (\<lambda>k. (of_nat k :: u32) AND 0x80 = 0 \<and> (of_nat k + 0x80 :: u32) AND 0x80 \<noteq> 0 \<and> (of_nat k :: u32) \<noteq> 0 \<and>
    (of_nat k :: u32) \<noteq> 0xff \<and> (of_nat k + 0x80 :: u32) \<noteq> 0 \<and> (of_nat k + 0x80 :: u32) \<noteq> 0xff \<and>
    ucast (of_nat k :: u32) = (of_nat k :: u8) \<and> ucast (of_nat k + 0x80 :: u32) = (of_nat k + 0x80 :: u8) \<and>
    (of_nat k :: u8) \<noteq> 0xe0 \<and> (of_nat k :: u8) \<noteq> 0xe1 \<and> (of_nat k :: u8) \<noteq> 0 \<and> (of_nat k :: u8) \<noteq> 0xff \<and>
    (of_nat k + 0x80 :: u8) \<noteq> 0xe0 \<and> (of_nat k + 0x80 :: u8) \<noteq> 0xe1 \<and> (of_nat k + 0x80 :: u8) \<noteq> 0 \<and> (of_nat k + 0x80 :: u8) \<noteq> 0xff \<and>
    (of_nat k :: u8) AND 0x7f = of_nat k \<and> (of_nat k + 0x80 :: u8) AND 0x7f = of_nat k \<and> \<not> ucast SC_LIM \<le> (of_nat k :: u8) \<and>
    unat (of_nat k :: u8) = k) [1..<89]"
    by code_simp
  have "k \<in> set [1..<89]" using assms by simp
  note k = bspec [OF all [unfolded list_all_iff] this]
  show "(of_nat k :: u32) AND 0x80 = 0" "(of_nat k + 0x80 :: u32) AND 0x80 \<noteq> 0" "(of_nat k :: u32) \<noteq> 0" "(of_nat k :: u32) \<noteq> 0xff"
    "(of_nat k + 0x80 :: u32) \<noteq> 0" "(of_nat k + 0x80 :: u32) \<noteq> 0xff" "ucast (of_nat k :: u32) = (of_nat k :: u8)"
    "ucast (of_nat k + 0x80 :: u32) = (of_nat k + 0x80 :: u8)"
    "(of_nat k :: u8) \<noteq> 0xe0" "(of_nat k :: u8) \<noteq> 0xe1" "(of_nat k :: u8) \<noteq> 0" "(of_nat k :: u8) \<noteq> 0xff"
    "(of_nat k + 0x80 :: u8) \<noteq> 0xe0" "(of_nat k + 0x80 :: u8) \<noteq> 0xe1" "(of_nat k + 0x80 :: u8) \<noteq> 0" "(of_nat k + 0x80 :: u8) \<noteq> 0xff"
    "(of_nat k :: u8) AND 0x7f = of_nat k" "(of_nat k + 0x80 :: u8) AND 0x7f = of_nat k" "\<not> ucast SC_LIM \<le> (of_nat k :: u8)"
    "unat (of_nat k :: u8) = k"
    using k by blast+
qed

lemma translate_key:
  assumes "0 < k" "k < 89" "prev_scancode s = 0"
  shows "translate (of_nat k) s = (Some (of_nat k), s)" "translate (of_nat k + 0x80) s = (Some (of_nat k), s)"
  using code_bits [OF assms(1,2)] assms(3) by (simp_all add: translate_def Let_def del: not_le)

subsection \<open>A press and a release\<close>

definition idle :: "bool \<Rightarrow> keyboard \<Rightarrow> bool" where
  "idle shift s \<longleftrightarrow> kbd s = kbd0 \<and> shift_state s = (if shift then 1 else 0) \<and> diacr s = 0 \<and> \<not> dead_key_next s \<and>
     prev_scancode (scan s) = 0 \<and> tty s \<and> init_done s \<and> ledstate s = 0 \<and> npadch s = - 1"

lemma kbd_upd [simp]:
  "kbd (s\<lparr>key_down := w\<rparr>) = kbd s" "kbd (s\<lparr>rep := r\<rparr>) = kbd s" "kbd (s\<lparr>events := es\<rparr>) = kbd s" "kbd (s\<lparr>tty := y\<rparr>) = kbd s"
  "kbd (s\<lparr>scan := sc\<rparr>) = kbd s" "kbd (s\<lparr>k_down := kd\<rparr>) = kbd s" "kbd (s\<lparr>shift_state := ss\<rparr>) = kbd s"
  by (simp_all add: kbd_def)

lemma clear_slock_same: "slockstate (kbd s) = 0 \<Longrightarrow> clear_slock s = s"
proof -
  assume "slockstate (kbd s) = 0"
  then have "(kbd s)\<lparr>slockstate := 0\<rparr> = kbd s" by (cases "kbd s") simp
  then show ?thesis by (simp add: clear_slock_def on_kbd_def kbd_def)
qed

lemma kbd_bh_same: "kbd s = kbd0 \<Longrightarrow> ledstate s = 0 \<Longrightarrow> kbd_bh peek s = s"
  by (simp add: kbd_bh_def getleds_def kbd0_def LED_SHOW_FLAGS_def LED_SHOW_IOCTL_def LED_SHOW_MEM_def)

lemma kbd0_simps [simp]:
  "kbdmode kbd0 = VC_XLATE" "slockstate kbd0 = 0" "lockstate kbd0 = 0" "VC_XLATE \<noteq> VC_RAW" "VC_XLATE \<noteq> VC_MEDIUMRAW"
  "VC_XLATE \<noteq> VC_UNICODE" "\<not> vc_kbd_led kbd0 flag" "vc_kbd_mode kbd0 VC_REPEAT"
  by (simp_all add: kbd0_def VC_XLATE_def VC_RAW_def VC_MEDIUMRAW_def VC_UNICODE_def vc_kbd_led_def vc_kbd_mode_def
      KBD_DEFMODE_def VC_REPEAT_def VC_META_def)

lemma do_self_char:
  assumes "idle shift s" "c \<noteq> 0"
  shows "do_self c up s = (if up then s else s\<lparr>events := events s @ [Chars [c]]\<rparr>)"
proof -
  have "ucast (ucast c :: u32) = c" by (intro bit_word_eqI) (auto simp: bit_ucast_iff dest: bit_imp_le_length)
  then show ?thesis using assms
    by (simp add: do_self_def idle_def put_queue_def keyboard_send_ch_def keyboard_data_def)
qed

lemma handle_key_char:
  assumes "types_char shift k" "idle shift s"
  shows "handle_key (of_nat k) up False s = ret (if up then s else s\<lparr>events := events s @ [Chars [glyph shift k]]\<rparr>)"
proof -
  let ?x = "(if shift then shift_map else plain_map) ! k"
  have k: "0 < k" "k < 89" using assms(1) by (simp_all add: types_char_def)
  have m: "key_maps (if shift then 1 else 0) = Some (if shift then shift_map else plain_map)" by (simp add: key_maps_def)
  have "key_handler 0 (ucast ?x) up s = ret (if up then s else s\<lparr>events := events s @ [Chars [glyph shift k]]\<rparr>)"
    using do_self_char [OF assms(2), of "glyph shift k" up] assms(1) by (simp add: key_handler_def types_char_def glyph_def)
  moreover have "drop_bit 8 ?x = 0xf0 \<or> drop_bit 8 ?x = 0xfb" using assms(1) by (simp add: types_char_def)
  moreover have "\<not> (256 :: u32) \<le> 1" by (simp add: word_le_nat_alt)
  ultimately show ?thesis using assms(2) m code_bits(20) [OF k]
    by (cases shift)
      (auto simp: handle_key_def Let_def idle_def KT_LETTER_def KT_LATIN_def KT_SLOCK_def clear_slock_same)
qed

lemma idle_upd:
  "idle shift (s\<lparr>rep := r, key_down := w\<rparr>) = idle shift s" "idle shift (s\<lparr>events := es\<rparr>) = idle shift s"
  by (simp_all add: idle_def)

lemma key_press:
  assumes "0 < k" "k < 89" "idle shift s" "\<not> bit_in (key_down s) (int k)"
    and "handle_key (of_nat k) False False (s\<lparr>rep := False, key_down := set_bit_at (int k) (key_down s)\<rparr>) = ret s'"
    and "kbd s' = kbd0" "ledstate s' = 0"
  shows "do_scancode peek (of_nat k) s = ret s'"
proof -
  have s: "s\<lparr>tty := True\<rparr> = s" "s\<lparr>scan := scan s\<rparr> = s" using assms(3) by (simp_all add: idle_def)
  note c = code_bits [OF assms(1,2)]
  have u: "uint (of_nat k :: u8) = int k" using c(20) by (metis uint_nat)
  have o: "oldbit (int k) (key_down s) = 0" using assms(4) oldbit_in by blast
  have "handle_scancode (of_nat k) True s = ret s'"
    using assms(3,5) translate_key(1) [OF assms(1,2)] o
    by (simp add: handle_scancode_def s Let_def idle_def key_change_def test_and_set_bit_def u handle_keycode_def)
  then show ?thesis using c(1-8) assms(3,6,7) by (simp add: do_scancode_def Let_def idle_def kbd_bh_same)
qed

lemma key_release:
  assumes "0 < k" "k < 89" "idle shift s" "bit_in (key_down s) (int k)"
    and "handle_key (of_nat k) True False (s\<lparr>rep := False, key_down := clear_bit (int k) (key_down s)\<rparr>) = ret s'"
    and "kbd s' = kbd0" "ledstate s' = 0"
  shows "do_scancode peek (of_nat k + 0x80) s = ret s'"
proof -
  have s: "s\<lparr>tty := True\<rparr> = s" "s\<lparr>scan := scan s\<rparr> = s" using assms(3) by (simp_all add: idle_def)
  note c = code_bits [OF assms(1,2)]
  have u: "uint (of_nat k :: u8) = int k" using c(20) by (metis uint_nat)
  have o: "oldbit (int k) (key_down s) \<noteq> 0" using assms(4) oldbit_in by blast
  have "handle_scancode (of_nat k + 0x80) False s = ret s'"
    using assms(3,5) translate_key(2) [OF assms(1,2)] o
    by (simp add: handle_scancode_def s Let_def idle_def key_change_def test_and_clear_bit_def u handle_keycode_def)
  then show ?thesis using c(1-8) assms(3,6,7) by (simp add: do_scancode_def Let_def idle_def kbd_bh_same)
qed

lemma between_idle: "idle shift (between shift es)"
  by (cases shift) (simp_all add: idle_def between_kbd, simp_all add: ready_defs)

lemma char_key:
  assumes "types_char shift k"
  shows "scancodes peek [of_nat k, of_nat k + 0x80] (between shift es) = ret (between shift (es @ [Chars [glyph shift k]]))"
proof -
  let ?s = "between shift es"
  have k: "0 < k" "k < 89" using assms by (simp_all add: types_char_def)
  have n42: "\<not> (shift \<and> k = 42)" using assms by (auto simp: types_char_def shift_map_def)
  let ?s1 = "?s\<lparr>rep := False, key_down := set_bit_at (int k) (key_down ?s), events := es @ [Chars [glyph shift k]]\<rparr>"
  have es: "events ?s = es" by (simp add: ready_defs)
  have nb: "\<not> bit_in (key_down ?s) (int k)" using n42 by (auto simp: between_keys)
  have i1: "idle shift (?s\<lparr>rep := False, key_down := w\<rparr>)" for w using between_idle by (simp add: idle_upd)
  have l: "kbd ?s = kbd0" "ledstate ?s = 0" using between_idle [of shift es] by (simp_all add: idle_def)
  have "do_scancode peek (of_nat k) ?s = ret ?s1"
    using key_press [OF k between_idle nb] handle_key_char [OF assms i1, of False] es l by simp
  moreover have "idle shift ?s1" using between_idle [of shift es] by (simp add: idle_def)
  then have "do_scancode peek (of_nat k + 0x80) ?s1 = ret (?s1\<lparr>rep := False, key_down := clear_bit (int k) (key_down ?s1)\<rparr>)"
    using handle_key_char [OF assms, of "?s1\<lparr>rep := False, key_down := clear_bit (int k) (key_down ?s1)\<rparr>" True] l
    by (intro key_release [OF k]) (simp_all add: idle_upd bit_in_set)
  moreover have "?s1\<lparr>rep := False, key_down := clear_bit (int k) (key_down ?s1)\<rparr> = between shift (es @ [Chars [glyph shift k]])"
    using set_clear [OF nb] by (simp add: ready_defs)
  ultimately show ?thesis by simp
qed

text \<open>The left shift key.\<close>

lemma shift_key:
  "do_scancode peek 0x2a (ready es) = ret (shift_held es)"
  "do_scancode peek 0xaa (shift_held es) = ret (ready es)"
proof -
  have k: "0 < (42 :: nat)" "(42 :: nat) < 89" by simp_all
  have r: "idle False (ready es)" "idle True (shift_held es)" using between_idle [of False es] between_idle [of True es] by (simp_all add: between_def)
  have z: "(0xf700 :: u8) = 0" by simp
  have nb: "\<not> bit_in (key_down (ready es)) (int 42)" using between_keys [of False es] by (simp add: between_def)
  have b: "bit_in (key_down (shift_held es)) (int 42)" using between_keys [of True es 42] by (simp add: between_def)
  have "handle_key 42 False False ((ready es)\<lparr>rep := False, key_down := set_bit_at (int 42) (key_down (ready es))\<rparr>) = ret (shift_held es)"
  proof -
    have "do_shift 0xf700 False ((ready es)\<lparr>rep := False, key_down := set_bit_at (int 42) (key_down (ready es))\<rparr>) = ret (shift_held es)"
      by (simp only: z) (simp add: do_shift_def Let_def KG_CAPSSHIFT_def NR_SHIFT_def ready_defs left_shift_def numeral_eq_Suc)
    moreover have "plain_map ! 42 = 0xf700" by (simp add: plain_map_def)
    ultimately show ?thesis using r(1) r(2)
      by (simp add: handle_key_def Let_def idle_def key_maps_def KT_LETTER_def KT_SLOCK_def key_handler_def clear_slock_same)
  qed
  then show "do_scancode peek 0x2a (ready es) = ret (shift_held es)"
    using key_press [OF k r(1) nb] r(2) by (simp add: idle_def)
  have "handle_key 42 True False ((shift_held es)\<lparr>rep := False, key_down := clear_bit (int 42) (key_down (shift_held es))\<rparr>) = ret (ready es)"
  proof -
    have "clear_bit 42 (set_bit_at 42 (\<lambda>_. 0)) = (\<lambda>_. 0)" using set_clear [of "\<lambda>_. 0" 42] by (simp add: bit_in_def)
    then have "do_shift 0xf700 True ((shift_held es)\<lparr>rep := False, key_down := clear_bit (int 42) (key_down (shift_held es))\<rparr>) = ret (ready es)"
      by (simp only: z) (simp add: do_shift_def Let_def KG_CAPSSHIFT_def NR_SHIFT_def ready_defs left_shift_def numeral_eq_Suc)
    moreover have "shift_map ! 42 = 0xf700" by (simp add: shift_map_def)
    moreover have "\<not> (256 :: u32) \<le> 1" by (simp add: word_le_nat_alt)
    ultimately show ?thesis using r(1) r(2)
      by (simp add: handle_key_def Let_def idle_def key_maps_def KT_LETTER_def KT_SLOCK_def key_handler_def clear_slock_same)
  qed
  then show "do_scancode peek 0xaa (shift_held es) = ret (ready es)"
    using key_release [OF k r(2) b] r(1) by (simp add: idle_def)
qed

lemma scancodes_append: "scancodes peek (cs @ ds) s = bindr (scancodes peek cs s) (scancodes peek ds)"
proof (induction cs arbitrary: s)
  case (Cons c cs)
  then have "scancodes peek (cs @ ds) = (\<lambda>x. bindr (scancodes peek cs x) (scancodes peek ds))" by (intro ext)
  then show ?case by (simp add: bindr_assoc)
qed simp

lemma stroke_ok:
  assumes "types_char shift k"
  shows "scancodes peek (stroke (shift, k)) (ready es) = ret (ready (es @ [Chars [glyph shift k]]))"
proof -
  have "scancodes peek [of_nat k, of_nat k + 0x80] (between shift es) = ret (between shift (es @ [Chars [glyph shift k]]))"
    by (rule char_key [OF assms])
  moreover have "scancodes peek [0x2a] (ready es) = ret (shift_held es)" for es by (simp add: shift_key)
  moreover have "scancodes peek [0xaa] (shift_held es) = ret (ready es)" for es by (simp add: shift_key)
  moreover have "stroke (shift, k) = (if shift then [0x2a] else []) @ [of_nat k, of_nat k + 0x80] @ (if shift then [0xaa] else [])"
    by (simp add: stroke_def)
  ultimately show ?thesis by (cases shift) (simp_all only: scancodes_append between_def if_True if_False bindr_ret append_Nil append_Nil2)
qed

lemma strokes_ok:
  assumes "\<forall>(shift, k)\<in>set ks. types_char shift k"
  shows "scancodes peek (concat (map stroke ks)) (ready es) = ret (ready (es @ map (\<lambda>(shift, k). Chars [glyph shift k]) ks))"
  using assms by (induction ks arbitrary: es) (auto simp: scancodes_append stroke_ok)

end
