(* ===== verification/Keyboard_Props.thy ===== *)
theory Keyboard_Props
  imports Keyboard_Type
begin

text \<open>
  The keyboard driver, properties: no sequence of scancodes makes it fault, its modifiers are those
  of the keys that are down, and what is typed is what is sent.
\<close>

definition sent :: "event list \<Rightarrow> u8 list" where
  "sent es = concat (map (\<lambda>e. case e of Chars cs \<Rightarrow> cs | _ \<Rightarrow> []) es)"

text \<open>
  C31: Whatever list of scancodes comes in after the boot, in whatever order, the driver returns from
  each of them without a fault: the number of the modifier map and the values of the keysyms stay
  within the tables that they index, the searches for a console end, and no table changes its size.
\<close>

theorem keyboard_never_faults: "\<exists>s. scancodes peek cs boot_keyboard = ret s \<and> core_ok s"
  using scancodes_ok [OF boot_ok(1)] by blast

text \<open>
  C32: As long as no modifier key is released that the driver does not have down, the counters of the
  modifiers and their bits, which are updated key by key, are what \<open>compute_shiftstate\<close> counts over
  the whole bitmap of keys.
\<close>

theorem modifiers_match_bitmap:
  assumes "releases_expected peek cs boot_keyboard"
  shows "\<exists>s. scancodes peek cs boot_keyboard = ret s \<and> compute_shiftstate s = ret s"
  using scancodes_ok [OF boot_ok(1), of peek cs] boot_ok(2) assms shift_ok_compute by blast

lemma modifiers_match_bitmap_witness:
  "\<exists>s. scancodes (\<lambda>_. 0) [0x2a, 0x1e, 0x9e, 0xaa] boot_keyboard = ret s \<and> compute_shiftstate s = ret s"
proof -
  have "releases_expected (\<lambda>_. 0) [0x2a, 0x1e, 0x9e, 0xaa] boot_keyboard" by code_simp
  from modifiers_match_bitmap [OF this] show ?thesis .
qed

subsection \<open>Typing\<close>

lemma first_scancode:
  assumes "c \<noteq> 0" "c \<noteq> 0xff"
  shows "do_scancode peek c boot_keyboard = do_scancode peek c (ready [Leds 0])"
proof -
  have b: "inited peek boot_keyboard = (ready [Leds 0])\<lparr>tty := False\<rparr>"
    by (simp add: inited_def kbd_init_def keyboard_schedule_tasklet_def kbd_bh_def getleds_def kbd_def kbd0_def ready_def
        boot_keyboard_def fg_console_def MAX_NR_CONSOLES_def LED_SHOW_FLAGS_def LED_SHOW_IOCTL_def LED_SHOW_MEM_def
        keyboard_pckbd_leds_def)
  have "init_done (ready [Leds 0])" by (simp add: ready_defs)
  then have r: "inited peek (ready [Leds 0]) = ready [Leds 0]" by (simp add: inited_def)
  have "handle_scancode x d (s\<lparr>tty := False\<rparr>) = handle_scancode x d s" for x d s
    by (simp add: handle_scancode_def)
  then show ?thesis using assms b r by (simp add: do_scancode_def inited_def [symmetric])
qed

lemma typing_from_boot:
  assumes "cs \<noteq> []" "hd cs \<noteq> 0" "hd cs \<noteq> 0xff"
  shows "scancodes peek cs boot_keyboard = scancodes peek cs (ready [Leds 0])"
  using assms first_scancode by (cases cs) simp_all

lemma stroke_hd:
  assumes "types_char shift k"
  shows "stroke (shift, k) \<noteq> []" "hd (stroke (shift, k)) \<noteq> 0" "hd (stroke (shift, k)) \<noteq> 0xff"
  using code_bits(3,4) [of k] assms by (simp_all add: stroke_def types_char_def)

text \<open>
  C33: When keys are typed, each with or without the left shift key, the characters sent are those of
  the plain and of the shifted map, in the order of the keys.
\<close>

theorem typing_sends_text:
  assumes "\<forall>(shift, k)\<in>set ks. types_char shift k"
  shows "\<exists>s. scancodes peek (concat (map stroke ks)) boot_keyboard = ret s \<and> sent (events s) = map (\<lambda>(shift, k). glyph shift k) ks"
proof (cases ks)
  case Nil
  then show ?thesis by (simp add: sent_def boot_keyboard_def)
next
  case (Cons key ks')
  then have "types_char (fst key) (snd key)" using assms by (cases key) auto
  from stroke_hd [OF this] have "scancodes peek (concat (map stroke ks)) boot_keyboard = scancodes peek (concat (map stroke ks)) (ready [Leds 0])"
    unfolding Cons by (intro typing_from_boot) simp_all
  moreover have "sent (events (ready ([Leds 0] @ map (\<lambda>(shift, k). Chars [glyph shift k]) ks))) = map (\<lambda>(shift, k). glyph shift k) ks"
    by (induction ks) (auto simp: sent_def ready_def)
  ultimately show ?thesis using strokes_ok [OF assms, of peek "[Leds 0]"] by auto
qed

lemma typing_sends_text_witness:
  "\<exists>s. scancodes (\<lambda>_. 0) (concat (map stroke [(True, 30), (False, 48)])) boot_keyboard = ret s \<and> sent (events s) = [81, 98]"
proof -
  have "\<forall>(shift, k)\<in>set [(True, 30), (False, 48)]. types_char shift k" by code_simp
  moreover have "map (\<lambda>(shift, k). glyph shift k) [(True, 30), (False, 48)] = [81, 98]" by code_simp
  ultimately show ?thesis using typing_sends_text [of "[(True, 30), (False, 48)]" "\<lambda>_. 0"] by metis
qed

text \<open>
  A release of the right control key that the driver does not have down counts as a press: the
  key then typed sends a control character, and the modifier stays on when no key is down.
\<close>

theorem unexpected_release_presses:
  "case scancodes peek [0xe0, 0x9d, 0x1e, 0x9e] boot_keyboard of
     Some (Inr s) \<Rightarrow> sent (events s) = [17] \<and> shift_state s = 4 \<and> key_down s 0 = 0 \<and> key_down s 3 = 0
   | _ \<Rightarrow> False"
  by code_simp

subsection \<open>UTF-8\<close>

text \<open>The number that one, two or three bytes stand for, when they are its shortest form.\<close>

fun utf8_value :: "u8 list \<Rightarrow> nat option" where
  "utf8_value [a] = (if unat a < 128 then Some (unat a) else None)"
| "utf8_value [a, b] =
     (let v = (unat a - 192) * 64 + (unat b - 128) in
      if 192 \<le> unat a \<and> unat a < 224 \<and> 128 \<le> unat b \<and> unat b < 192 \<and> 128 \<le> v then Some v else None)"
| "utf8_value [a, b, c] =
     (let v = ((unat a - 224) * 64 + (unat b - 128)) * 64 + (unat c - 128) in
      if 224 \<le> unat a \<and> unat a < 240 \<and> 128 \<le> unat b \<and> unat b < 192 \<and> 128 \<le> unat c \<and> unat c < 192 \<and> 2048 \<le> v
      then Some v else None)"
| "utf8_value _ = None"

lemma put_queue_byte:
  assumes "tty s" "0 < unat (ucast c :: u8)"
  shows "put_queue c s = s\<lparr>events := events s @ [Chars [ucast c]]\<rparr>"
proof -
  have "(ucast c :: u8) \<noteq> 0" using assms(2) by fastforce
  then show ?thesis using assms(1) by (simp add: put_queue_def keyboard_send_ch_def keyboard_data_def)
qed

lemma utf8_bytes:
  "h < 32 \<Longrightarrow> unat (ucast (0xc0 OR of_nat h :: u32) :: u8) = 192 + h"
  "h < 16 \<Longrightarrow> unat (ucast (0xe0 OR of_nat h :: u32) :: u8) = 224 + h"
  "h < 64 \<Longrightarrow> unat (ucast (0x80 OR of_nat h :: u32) :: u8) = 128 + h"
proof -
  have "list_all (\<lambda>h. unat (ucast (0xc0 OR of_nat h :: u32) :: u8) = 192 + h) [0..<32]"
    "list_all (\<lambda>h. unat (ucast (0xe0 OR of_nat h :: u32) :: u8) = 224 + h) [0..<16]"
    "list_all (\<lambda>h. unat (ucast (0x80 OR of_nat h :: u32) :: u8) = 128 + h) [0..<64]"
    by code_simp+
  then show "h < 32 \<Longrightarrow> unat (ucast (0xc0 OR of_nat h :: u32) :: u8) = 192 + h"
    "h < 16 \<Longrightarrow> unat (ucast (0xe0 OR of_nat h :: u32) :: u8) = 224 + h"
    "h < 64 \<Longrightarrow> unat (ucast (0x80 OR of_nat h :: u32) :: u8) = 128 + h"
    by (simp_all add: list_all_iff)
qed

lemma utf8_parts:
  fixes c :: u16
  defines "n \<equiv> unat c"
  shows "(ucast c :: u32) AND 0x3f = of_nat (n mod 64)" "drop_bit 6 (ucast c :: u32) = of_nat (n div 64)"
    "(of_nat (n div 64) :: u32) AND 0x3f = of_nat (n div 64 mod 64)" "drop_bit 12 (ucast c :: u32) = of_nat (n div 4096)"
proof -
  have c: "(ucast c :: u32) = of_nat n" by (simp add: n_def)
  have n: "n < 65536" using unsigned_less [of c, where ?'a = nat] by (simp add: n_def)
  have m: "(of_nat k :: u32) AND 0x3f = of_nat (k mod 64)" for k
  proof -
    have "(of_nat k :: u32) AND 0x3f = take_bit 6 (of_nat k)" by (simp add: take_bit_eq_mask mask_eq_exp_minus_1)
    also have "\<dots> = of_nat (take_bit 6 k)" by (simp add: take_bit_of_nat)
    finally show ?thesis by (simp add: take_bit_eq_mod)
  qed
  have d: "drop_bit j (of_nat n :: u32) = of_nat (n div 2 ^ j)" for j
  proof -
    have "n div 2 ^ j < 2 ^ 32" using n by (intro le_less_trans [OF div_le_dividend]) simp
    then show ?thesis using n
      by (intro word_unat_eq_iff [THEN iffD2]) (simp add: unat_drop_bit_eq drop_bit_nat_def unsigned_of_nat take_bit_nat_eq_self)
  qed
  show "(ucast c :: u32) AND 0x3f = of_nat (n mod 64)" "drop_bit 6 (ucast c :: u32) = of_nat (n div 64)"
    "(of_nat (n div 64) :: u32) AND 0x3f = of_nat (n div 64 mod 64)" "drop_bit 12 (ucast c :: u32) = of_nat (n div 4096)"
    using m [of n] m [of "n div 64"] d [of 6] d [of 12] by (simp_all add: c)
qed

text \<open>
  C34: The bytes that \<open>to_utf8\<close> sends for a keysym other than 0 are the shortest UTF-8 form of it, so
  that a reader gets back the keysym.
\<close>

theorem utf8_read_back:
  assumes "tty s" "c \<noteq> 0"
  shows "\<exists>bs. events (to_utf8 c s) = events s @ map (\<lambda>b. Chars [b]) bs \<and> utf8_value bs = Some (unat c)"
proof -
  let ?n = "unat c"
  have n: "?n < 65536" "0 < ?n" using unsigned_less [of c, where ?'a = nat] assms(2) by (simp_all add: unat_gt_0)
  have less: "(ucast c :: u32) < 0x80 \<longleftrightarrow> ?n < 128" "(ucast c :: u32) < 0x800 \<longleftrightarrow> ?n < 2048"
    using n by (simp_all add: word_less_nat_alt unsigned_ucast_eq take_bit_nat_eq_self)
  consider "?n < 128" | "128 \<le> ?n" "?n < 2048" | "2048 \<le> ?n" by linarith
  then show ?thesis
  proof cases
    case 1
    have "unat (ucast (ucast c :: u32) :: u8) = ?n" using 1 by (simp add: unsigned_ucast_eq unsigned_take_bit_eq take_bit_nat_eq_self)
    then have "events (to_utf8 c s) = events s @ map (\<lambda>b. Chars [b]) [ucast (ucast c :: u32)]"
      "utf8_value [ucast (ucast c :: u32)] = Some ?n"
      using assms(1) 1 n less by (simp_all add: to_utf8_def put_queue_byte)
    then show ?thesis by blast
  next
    case 2
    let ?a = "0xc0 OR of_nat (?n div 64) :: u32" and ?b = "0x80 OR of_nat (?n mod 64) :: u32"
    have v: "unat (ucast ?a :: u8) = 192 + ?n div 64" "unat (ucast ?b :: u8) = 128 + ?n mod 64"
      using 2 by (intro utf8_bytes; linarith)+
    have "\<not> ?n < 128" using 2 by simp
    then have "to_utf8 c s = put_queue ?b (put_queue ?a s)"
      unfolding to_utf8_def Let_def less utf8_parts using 2 by simp
    then have "events (to_utf8 c s) = events s @ map (\<lambda>b. Chars [b]) [ucast ?a, ucast ?b]"
      using assms(1) v by (simp add: put_queue_byte)
    moreover have "utf8_value [ucast ?a, ucast ?b] = Some ?n" using v 2 by (simp add: Let_def del: unsigned_or_eq)
    ultimately show ?thesis by blast
  next
    case 3
    let ?a = "0xe0 OR of_nat (?n div 4096) :: u32" and ?b = "0x80 OR of_nat (?n div 64 mod 64) :: u32"
      and ?c = "0x80 OR of_nat (?n mod 64) :: u32"
    have v: "unat (ucast ?a :: u8) = 224 + ?n div 4096" "unat (ucast ?b :: u8) = 128 + ?n div 64 mod 64"
      "unat (ucast ?c :: u8) = 128 + ?n mod 64"
      using n by (intro utf8_bytes; linarith)+
    have "\<not> ?n < 128" "\<not> ?n < 2048" using 3 by simp_all
    then have "to_utf8 c s = put_queue ?c (put_queue ?b (put_queue ?a s))"
      unfolding to_utf8_def Let_def less utf8_parts by simp
    then have "events (to_utf8 c s) = events s @ map (\<lambda>b. Chars [b]) [ucast ?a, ucast ?b, ucast ?c]"
      using assms(1) v by (simp add: put_queue_byte)
    moreover have "(?n div 4096 * 64 + ?n div 64 mod 64) * 64 + ?n mod 64 = ?n"
    proof -
      have "?n div 4096 = ?n div 64 div 64" by (simp add: div_mult2_eq [symmetric])
      then show ?thesis by (metis div_mult_mod_eq)
    qed
    then have "utf8_value [ucast ?a, ucast ?b, ucast ?c] = Some ?n" using v 3 n by (simp add: Let_def del: unsigned_or_eq)
    ultimately show ?thesis by blast
  qed
qed

lemma utf8_read_back_witness:
  "\<exists>bs. events (to_utf8 0x20ac (ready [])) = events (ready []) @ map (\<lambda>b. Chars [b]) bs \<and> utf8_value bs = Some 8364"
  using utf8_read_back [of "ready []" "0x20ac"] by (simp add: ready_def)

end
