(* ===== verification/User_Math.thy ===== *)
theory User_Math
  imports Prelude
begin

text \<open>
  The arithmetic of the library of the test programs (user/tests/lib/math.c): division of 64-bit
  numbers by shifting and subtracting, their product from 16-bit parts, and the pseudo random
  numbers. The variant of the division under \<open>DIVISION_FOIREUSE\<close>, which is not defined, is left out.
\<close>

subsection \<open>Division\<close>

text \<open>The divisor and its multiple are doubled as long as the divisor is below the dividend.\<close>

partial_function (option) div64_up :: "u64 \<Rightarrow> u64 \<Rightarrow> u64 \<Rightarrow> (u64 \<times> u64) option" where
  "div64_up x div1 mul =
     (if drop_bit 32 div1 AND 0x80000000 = 0 then
        let newd = div1 + div1
        in if newd > x then Some (div1, mul) else div64_up x newd (mul + mul)
      else Some (div1, mul))"

partial_function (option) div64_down :: "u64 \<Rightarrow> u64 \<Rightarrow> u64 \<Rightarrow> u64 \<Rightarrow> (u64 \<times> u64) option" where
  "div64_down x div1 mul q =
     (let mul1 = mul div 2; div2 = div1 div 2
      in if mul1 = 0 then Some (q, x)
         else if x < div2 then div64_down x div2 mul1 q
         else div64_down (x - div2) div2 mul1 (q + mul1))"

text \<open>The quotient, and the remainder that is stored when there is a pointer for it.\<close>

definition user_div64 :: "u64 \<Rightarrow> u64 \<Rightarrow> (u64 \<times> u64) option" where
  "user_div64 x div1 =
     (if div1 > x \<or> div1 = 0 then Some (0, x)
      else Option.bind (div64_up x div1 1) (\<lambda>(div2, mul). div64_down (x - div2) div2 mul mul))"

declare div64_up.simps [code] div64_down.simps [code]

subsection \<open>Product\<close>

definition part16 :: "u64 \<Rightarrow> u32" where
  "part16 x = ucast (x AND 0xffff)"

definition mul64 :: "u64 \<Rightarrow> u64 \<Rightarrow> u64" where
  "mul64 x y =
     (let a = part16 x; b = part16 (drop_bit 16 x); c = part16 (drop_bit 16 (drop_bit 16 x));
          d = part16 (drop_bit 16 (drop_bit 16 (drop_bit 16 x)));
          e = part16 y; f = part16 (drop_bit 16 y); g = part16 (drop_bit 16 (drop_bit 16 y));
          h = part16 (drop_bit 16 (drop_bit 16 (drop_bit 16 y)));
          r1 = ucast (d * e) + ucast (c * f) + ucast (b * g) + ucast (a * h) :: u64;
          r2 = push_bit 16 r1 + ucast (c * e) + ucast (b * f) + ucast (a * g);
          r3 = push_bit 16 r2 + ucast (b * e) + ucast (a * f)
      in push_bit 16 r3 + ucast (a * e))"

subsection \<open>Random numbers\<close>

definition multiplier :: u64 where "multiplier = 0x5DEECE66D"
definition addend :: u64 where "addend = 0xB"
definition seed_mask :: u64 where "seed_mask = push_bit 48 1 - 1"

text \<open>\<open>bits\<close> is assumed to be from 1 to 32; the result comes with the next seed.\<close>

definition randBits :: "nat \<Rightarrow> u64 \<Rightarrow> u32 \<times> u64" where
  "randBits bits seed =
     (let nextseed = (mul64 seed multiplier + addend) AND seed_mask; rbits = ucast (drop_bit 16 nextseed) :: u32
      in (drop_bit (32 - bits) rbits, nextseed))"

definition randShort :: "u64 \<Rightarrow> u16 \<times> u64" where
  "randShort seed = (let (r, s) = randBits 15 seed in (ucast r, s))"

definition setSeed :: "u64 \<Rightarrow> u64 \<Rightarrow> u64" where
  "setSeed s seed = s"

definition rand :: "u64 \<Rightarrow> u32 \<times> u64" where
  "rand seed = randBits 32 seed"

subsection \<open>Doubling\<close>

lemma top_bit: "drop_bit 32 (d :: u64) AND 0x80000000 = 0 \<longleftrightarrow> unat d < 2 ^ 63"
proof -
  have e: "(0x80000000 :: u64) = 2 ^ 31" by simp
  have "drop_bit 32 d AND 0x80000000 = 0 \<longleftrightarrow> \<not> bit (drop_bit 32 d) 31" unfolding e by (rule and_exp_eq_0_iff_not_bit)
  also have "\<dots> \<longleftrightarrow> \<not> bit (unat d) 63" by (simp add: bit_drop_bit_eq bit_unsigned_iff)
  also have "\<dots> \<longleftrightarrow> unat d < 2 ^ 63"
  proof -
    have "unat d div 2 ^ 63 < 2" using unsigned_less [of d, where ?'a = nat] by (simp add: less_mult_imp_div_less)
    then have "odd (unat d div 2 ^ 63) \<longleftrightarrow> unat d div 2 ^ 63 \<noteq> 0" by (auto simp: less_2_cases_iff)
    then show ?thesis by (auto simp: bit_iff_odd div_eq_0_iff)
  qed
  finally show ?thesis .
qed

lemma div64_up_ok:
  assumes "0 < unat d" "unat d = n * 2 ^ k" "unat mul = 2 ^ k" "unat d \<le> unat x"
  shows "\<exists>d' mul' j. div64_up x d mul = Some (d', mul') \<and> unat d' = n * 2 ^ j \<and> unat mul' = 2 ^ j \<and>
    unat d' \<le> unat x \<and> unat x < n * 2 ^ Suc j"
  using assms
proof (induction "2 ^ 64 - unat d" arbitrary: d mul k rule: less_induct)
  case less
  show ?case
  proof (cases "unat d < 2 ^ 63")
    case False
    have "unat x < 2 ^ 64" using unsigned_less [of x, where ?'a = nat] by simp
    then have "unat x < n * 2 ^ Suc k" using False less.prems(2) by simp
    moreover have "div64_up x d mul = Some (d, mul)" using False top_bit [of d] by (subst div64_up.simps) simp
    ultimately show ?thesis using less.prems by blast
  next
    case True
    then have dd: "unat (d + d) = n * 2 ^ Suc k" using less.prems(2) by (subst unat_add_lem [THEN iffD1]) simp_all
    show ?thesis
    proof (cases "d + d > x")
      case True
      then have "unat x < n * 2 ^ Suc k" using dd by (simp add: word_less_nat_alt)
      moreover have "div64_up x d mul = Some (d, mul)" using True by (subst div64_up.simps) (simp add: Let_def)
      ultimately show ?thesis using less.prems by blast
    next
      case False
      have n: "0 < n" using less.prems(1,2) by (cases n) simp_all
      have "unat mul \<le> unat d" using n by (simp add: less.prems(2,3))
      then have "unat mul < 2 ^ 63" using \<open>unat d < 2 ^ 63\<close> by simp
      then have mm: "unat (mul + mul) = 2 ^ Suc k" using less.prems(3) by (subst unat_add_lem [THEN iffD1]) simp_all
      have le: "unat (d + d) \<le> unat x" using False by (simp add: word_le_nat_alt word_less_nat_alt)
      have "div64_up x d mul = div64_up x (d + d) (mul + mul)"
        using False \<open>unat d < 2 ^ 63\<close> top_bit [of d] by (subst div64_up.simps) (simp add: Let_def)
      moreover have "2 ^ 64 - unat (d + d) < 2 ^ 64 - unat d" using dd less.prems(1,2) \<open>unat d < 2 ^ 63\<close>
        by (intro diff_less_mono2) simp_all
      ultimately show ?thesis using less.hyps [of "d + d" "Suc k" "mul + mul"] dd mm le less.prems(1,2) by simp
    qed
  qed
qed

lemma div64_down_ok:
  assumes "unat d = n * 2 ^ k" "unat mul = 2 ^ k" "unat x < n * 2 ^ k" "unat q * n + unat x = a" "0 < n" "a < 2 ^ 64"
  shows "\<exists>q' x'. div64_down x d mul q = Some (q', x') \<and> unat q' = a div n \<and> unat x' = a mod n"
  using assms
proof (induction k arbitrary: d mul x q)
  case 0
  then have "mul = 1" by (simp add: word_unat_eq_iff)
  then have "div64_down x d mul q = Some (q, x)" by (subst div64_down.simps) simp
  moreover have "unat q = a div n \<and> unat x = a mod n" using 0 by (auto simp: div_nat_eqI mod_nat_eqI)
  ultimately show ?case by simp
next
  case (Suc k)
  let ?d = "d div 2" and ?m = "mul div 2"
  have m: "unat ?m = 2 ^ k" "unat ?d = n * 2 ^ k" using Suc.prems(1,2) by (simp_all add: unat_div)
  then have nz: "?m \<noteq> 0" by auto
  show ?case
  proof (cases "x < ?d")
    case True
    have "unat x < n * 2 ^ k" using True m(2) by (simp add: word_less_nat_alt)
    moreover have "div64_down x d mul q = div64_down x ?d ?m q" using nz True by (subst div64_down.simps) (simp add: Let_def)
    ultimately show ?thesis using Suc.IH [of ?d ?m x q] m Suc.prems(4-6) by simp
  next
    case False
    have x: "unat (x - ?d) = unat x - n * 2 ^ k" "n * 2 ^ k \<le> unat x"
      using False m(2) by (simp_all add: word_less_nat_alt unat_sub word_le_nat_alt)
    have "(unat q + 2 ^ k) * n \<le> a" using Suc.prems(4) x(2) by (simp add: algebra_simps)
    then have "unat q + 2 ^ k \<le> a" using Suc.prems(5) by (metis le_trans mult.commute mult_le_mono1 nat_mult_1 Suc_leI One_nat_def)
    then have q: "unat (q + ?m) = unat q + 2 ^ k"
      using Suc.prems(6) m(1) by (subst unat_add_lem [THEN iffD1]) simp_all
    have "unat (x - ?d) < n * 2 ^ k" using x Suc.prems(3) by simp
    moreover have "unat (q + ?m) * n + unat (x - ?d) = a" using q x Suc.prems(4) by (simp add: algebra_simps)
    moreover have "div64_down x d mul q = div64_down (x - ?d) ?d ?m (q + ?m)"
      using nz False by (subst div64_down.simps) (simp add: Let_def)
    ultimately show ?thesis using Suc.IH [of ?d ?m "x - ?d" "q + ?m"] m Suc.prems(5,6) by simp
  qed
qed

lemma user_div64_ok:
  assumes "d \<noteq> 0"
  shows "user_div64 x d = Some (x div d, x mod d)"
proof (cases "d > x")
  case True
  then have "x div d = 0" "x mod d = x" by (simp_all add: word_less_nat_alt word_unat_eq_iff unat_div unat_mod)
  then show ?thesis using True by (simp add: user_div64_def)
next
  case False
  have d: "0 < unat d" "unat d = unat d * 2 ^ 0" using assms by (simp_all add: unat_gt_0)
  have "unat d \<le> unat x" using False by (simp add: word_less_nat_alt)
  from div64_up_ok [OF d(1) d(2) _ this, of 1, simplified unsigned_1 power_0, OF refl] obtain d' mul' j where
    up: "div64_up x d 1 = Some (d', mul')" "unat d' = unat d * 2 ^ j" "unat mul' = 2 ^ j" "unat d' \<le> unat x" "unat x < unat d * 2 ^ Suc j"
    by blast
  have s: "unat (x - d') = unat x - unat d'" using up(4) by (simp add: unat_sub word_le_nat_alt)
  have "\<exists>q' x'. div64_down (x - d') d' mul' mul' = Some (q', x') \<and> unat q' = unat x div unat d \<and> unat x' = unat x mod unat d"
  proof (rule div64_down_ok [OF up(2,3)])
    show "unat (x - d') < unat d * 2 ^ j" using s up(2,4,5) by simp
    show "unat mul' * unat d + unat (x - d') = unat x" using s up(2,3,4) by (simp add: mult.commute)
    show "unat x < 2 ^ 64" using unsigned_less [of x, where ?'a = nat] by simp
  qed (use d up(3) in simp_all)
  then show ?thesis using assms False up(1) by (auto simp: user_div64_def word_unat_eq_iff unat_div unat_mod)
qed

subsection \<open>Product and random numbers\<close>

lemma part16_nat: "unat (part16 x) = unat x mod 2 ^ 16"
proof -
  have e: "x AND 0xffff = take_bit 16 x" by (simp add: take_bit_eq_mask mask_eq_exp_minus_1)
  have "unat (part16 x) = take_bit 32 (take_bit 16 (unat x))"
    unfolding part16_def e unsigned_ucast_eq unsigned_take_bit_eq by simp
  then show ?thesis by (simp only: take_bit_take_bit take_bit_eq_mod) simp
qed

lemma part16_prod: "unat (ucast (part16 x * part16 y) :: u64) = unat (part16 x) * unat (part16 y)"
proof -
  have "unat (part16 x) \<le> 65535" "unat (part16 y) \<le> 65535" by (simp_all add: part16_nat Suc_leI le_less_Suc_eq less_Suc_eq_le [symmetric])
  then have "unat (part16 x) * unat (part16 y) \<le> 65535 * 65535" by (rule mult_le_mono)
  then have p: "unat (part16 x) * unat (part16 y) < 2 ^ 32" by simp
  then have "unat (part16 x * part16 y) = unat (part16 x) * unat (part16 y)" by (subst unat_mult_lem [THEN iffD1]) simp_all
  moreover have "unat (ucast (part16 x * part16 y) :: u64) = take_bit 64 (unat (part16 x * part16 y))"
    by (simp add: unsigned_ucast_eq unsigned_take_bit_eq)
  ultimately show ?thesis using p by (simp add: take_bit_nat_eq_self)
qed

lemma part16_mult: "ucast (part16 x * part16 y) = (ucast (part16 x) * ucast (part16 y) :: u64)"
proof -
  have s: "unat (ucast (part16 z) :: u64) = unat (part16 z)" for z
    by (simp add: part16_nat unsigned_ucast_eq unsigned_take_bit_eq take_bit_nat_eq_self)
  have "unat (part16 x) \<le> 65535" "unat (part16 y) \<le> 65535" by (simp_all add: part16_nat less_Suc_eq_le [symmetric])
  then have "unat (part16 x) * unat (part16 y) \<le> 65535 * 65535" by (rule mult_le_mono)
  then have "unat (ucast (part16 x) * ucast (part16 y) :: u64) = unat (part16 x) * unat (part16 y)"
    by (subst unat_mult_lem [THEN iffD1]) (simp_all add: s)
  then show ?thesis by (simp add: word_unat_eq_iff part16_prod)
qed

lemma part16_split: "(x :: u64) = ucast (part16 x) + 2 ^ 16 * drop_bit 16 x"
proof -
  have "ucast (part16 x) = take_bit 16 x"
    by (simp add: word_unat_eq_iff part16_nat unsigned_ucast_eq unsigned_take_bit_eq take_bit_nat_eq_self) (simp add: take_bit_eq_mod)
  moreover have "x = take_bit 16 x + push_bit 16 (drop_bit 16 x)" using bits_ident [of 16 x] by (simp add: add.commute)
  ultimately show ?thesis by (simp add: push_bit_eq_mult mult.commute)
qed

lemma limbs_mult:
  fixes t :: "'a :: comm_ring_1"
  assumes "t * t * t * t = 0"
  shows "(a + t * (b + t * (c + t * d))) * (e + t * (f + t * (g + t * h))) =
    (((d * e + c * f + b * g + a * h) * t + c * e + b * f + a * g) * t + b * e + a * f) * t + a * e"
proof -
  have "(a + t * (b + t * (c + t * d))) * (e + t * (f + t * (g + t * h))) =
    (((d * e + c * f + b * g + a * h) * t + c * e + b * f + a * g) * t + b * e + a * f) * t + a * e +
    t * t * t * t * ((d * f + c * g + b * h) + t * (d * g + c * h + t * d * h))"
    by (simp add: algebra_simps)
  then show ?thesis using assms by simp
qed

lemma mul64_ok: "mul64 x y = x * y"
proof -
  let ?t = "2 ^ 16 :: u64"
  define a b c d :: u64 where "a = ucast (part16 x)" and "b = ucast (part16 (drop_bit 16 x))"
    and "c = ucast (part16 (drop_bit 16 (drop_bit 16 x)))" and "d = ucast (part16 (drop_bit 16 (drop_bit 16 (drop_bit 16 x))))"
  define e f g h :: u64 where "e = ucast (part16 y)" and "f = ucast (part16 (drop_bit 16 y))"
    and "g = ucast (part16 (drop_bit 16 (drop_bit 16 y)))" and "h = ucast (part16 (drop_bit 16 (drop_bit 16 (drop_bit 16 y))))"
  have z: "drop_bit 16 (drop_bit 16 (drop_bit 16 (drop_bit 16 w))) = (0 :: u64)" for w
    by (rule bit_word_eqI) (auto simp: bit_drop_bit_eq dest: bit_imp_le_length)
  have x: "x = a + ?t * (b + ?t * (c + ?t * d))"
    using part16_split [of x] part16_split [of "drop_bit 16 x"] part16_split [of "drop_bit 16 (drop_bit 16 x)"]
      part16_split [of "drop_bit 16 (drop_bit 16 (drop_bit 16 x))"] unfolding a_def b_def c_def d_def z by simp
  have y: "y = e + ?t * (f + ?t * (g + ?t * h))"
    using part16_split [of y] part16_split [of "drop_bit 16 y"] part16_split [of "drop_bit 16 (drop_bit 16 y)"]
      part16_split [of "drop_bit 16 (drop_bit 16 (drop_bit 16 y))"] unfolding e_def f_def g_def h_def z by simp
  have "mul64 x y = ((((d * e + c * f + b * g + a * h) * ?t + c * e + b * f + a * g) * ?t + b * e + a * f) * ?t + a * e)"
    unfolding mul64_def Let_def part16_mult a_def b_def c_def d_def e_def f_def g_def h_def push_bit_eq_mult by (rule refl)
  also have "\<dots> = x * y" unfolding x y by (rule limbs_mult [symmetric]) simp
  finally show ?thesis .
qed

end
