(* ===== verification/User_Printf.thy ===== *)
theory User_Printf
  imports Doprnt Word_Memory
begin

text \<open>
  The formatted output of the library of the test programs (user/tests/lib/printf.c). It goes to
  the console, through a buffer of 512 bytes and the system call \<open>cons_write\<close>, whose strings are
  collected here, or to memory. Formats and arguments are as in \<open>Doprnt\<close>: the bytes of the string,
  and the words on the stack. Strings are read in the memory of the state, which \<open>print\<close> may change.
\<close>

subsection \<open>State\<close>

definition PRINTF_BUF_LEN :: nat where "PRINTF_BUF_LEN = 512"

text \<open>\<open>left\<close> to \<open>capital\<close> are the bits of the field \<open>flags\<close>, from \<open>PRINTF_LEFT_JUSTIFY\<close> on.\<close>

record printf_st =
  left :: bool
  show_sign :: bool
  space_plus :: bool
  alternate :: bool
  pad0 :: bool
  capital :: bool
  fwidth :: int
  precision :: int
  modifier :: u8
  count :: int
  buffer_ecr :: "u8 list"
  pos_ecr :: nat
  str :: u32
  strl :: u32
  umem :: memory
  written :: "u8 list list"

text \<open>\<open>cons_puts\<close> is given an array, and writes the string it begins with.\<close>

definition cons_puts :: "u8 list \<Rightarrow> printf_st \<Rightarrow> printf_st" where
  "cons_puts s pf = pf\<lparr>written := written pf @ [takeWhile (\<lambda>c. c \<noteq> 0) s]\<rparr>"

subsection \<open>Characters\<close>

text \<open>One turn of the loop of \<open>print\<close>; a turn that returns for \<open>c = 0\<close> is also the last one.\<close>

definition print_once :: "u8 \<Rightarrow> printf_st \<Rightarrow> printf_st" where
  "print_once c pf =
     (if str pf = 0 then
        if c = 0 then pf
        else if pos_ecr pf < PRINTF_BUF_LEN - 1 then
          pf\<lparr>count := w32 (count pf + 1), buffer_ecr := (buffer_ecr pf)[pos_ecr pf := c], pos_ecr := pos_ecr pf + 1\<rparr>
        else
          let pf1 = cons_puts ((buffer_ecr pf)[PRINTF_BUF_LEN - 1 := 0])
                      (pf\<lparr>buffer_ecr := (buffer_ecr pf)[PRINTF_BUF_LEN - 1 := 0]\<rparr>)
          in pf1\<lparr>buffer_ecr := (buffer_ecr pf1)[0 := c], pos_ecr := 1\<rparr>
      else if c \<noteq> 0 \<and> strl pf \<noteq> 0 then
        pf\<lparr>count := w32 (count pf + 1), umem := (umem pf)(str pf := c), str := str pf + 1, strl := strl pf - 1\<rparr>
      else pf)"

text \<open>A newline is followed by a carriage return.\<close>

definition print :: "u8 \<Rightarrow> printf_st \<Rightarrow> printf_st" where
  "print c pf = (if c = 10 then print_once 13 (print_once 10 pf) else print_once c pf)"

definition prints :: "u8 list \<Rightarrow> printf_st \<Rightarrow> printf_st" where
  "prints cs pf = fold print cs pf"

text \<open>\<open>while (pf->width-- > n) print(pf, ' ')\<close>\<close>

definition pad_spaces :: "int \<Rightarrow> printf_st \<Rightarrow> printf_st" where
  "pad_spaces n pf = (prints (replicate (nat (fwidth pf - n)) 32) pf)\<lparr>fwidth := w32 (min (fwidth pf) n - 1)\<rparr>"

text \<open>\<open>while (pf->precision-- > n) print(pf, '0')\<close>\<close>

definition pad_zeros :: "int \<Rightarrow> printf_st \<Rightarrow> printf_st" where
  "pad_zeros n pf = (prints (replicate (nat (precision pf - n)) 48) pf)\<lparr>precision := w32 (min (precision pf) n - 1)\<rparr>"

subsection \<open>Strings\<close>

text \<open>The bytes of a string from a pointer, and those of a string of the program.\<close>

type_synonym reader = "memory \<Rightarrow> nat \<Rightarrow> u8"

definition at_pointer :: "u32 \<Rightarrow> reader" where
  "at_pointer p m i = m (p + of_nat i)"

definition literal :: "u8 list \<Rightarrow> reader" where
  "literal cs m i = (if i < length cs then cs ! i else 0)"

fun size_loop :: "nat \<Rightarrow> nat \<Rightarrow> (nat \<Rightarrow> u8) \<Rightarrow> nat" where
  "size_loop 0 i s = 0"
| "size_loop (Suc n) i s = (if s i \<noteq> 0 then Suc (size_loop n (Suc i) s) else 0)"

text \<open>\<open>while ((pf->precision-- != 0) && ( *s != 0)) print(pf, *s++)\<close>\<close>

partial_function (option) string_loop :: "reader \<Rightarrow> nat \<Rightarrow> printf_st \<Rightarrow> printf_st res" where
  "string_loop rd i pf =
     (let p = precision pf; pf1 = pf\<lparr>precision := w32 (p - 1)\<rparr>
      in if p \<noteq> 0 \<and> rd (umem pf1) i \<noteq> 0 then string_loop rd (Suc i) (print (rd (umem pf1) i) pf1) else ret pf1)"

definition print_string :: "reader \<Rightarrow> printf_st \<Rightarrow> printf_st res" where
  "print_string rd pf =
     (let sz = int (size_loop (nat (if precision pf \<ge> 0 then precision pf else fwidth pf)) 0 (rd (umem pf)));
          pf1 = (if \<not> left pf then pad_spaces sz pf else pf)
      in bindr (string_loop rd 0 pf1) (\<lambda>pf2. ret (pad_spaces sz pf2)))"

definition print_char :: "u8 \<Rightarrow> printf_st \<Rightarrow> printf_st" where
  "print_char c pf = (let pf1 = (if \<not> left pf then pad_spaces 1 pf else pf) in pad_spaces 1 (print c pf1))"

subsection \<open>Numbers\<close>

text \<open>The digits of a number in \<open>buffer_nombre\<close>, an array of 20 bytes, from the lowest on.\<close>

definition digit_char :: "bool \<Rightarrow> u32 \<Rightarrow> u8" where
  "digit_char cap n = (if n < 10 then ucast n + 48 else if cap then ucast n + 55 else ucast n + 87)"

function number_digits :: "bool \<Rightarrow> u32 \<Rightarrow> u32 \<Rightarrow> u8 list" where
  "number_digits cap base i =
     (if i = 0 \<or> base < 2 then [] else digit_char cap (i mod base) # number_digits cap base (i div base))"
  by pat_completeness auto
termination
proof (relation "measure (\<lambda>(_, _, i). unat i)", simp)
  fix cap :: bool and base i :: u32
  assume "\<not> (i = 0 \<or> base < 2)"
  then have "0 < unat i" "2 \<le> unat base" by (auto simp: unat_gt_0 word_less_nat_alt)
  then have "unat i div unat base < unat i" by simp
  then show "((cap, base, i div base), (cap, base, i)) \<in> measure (\<lambda>(_, _, i). unat i)" by (simp add: unat_div)
qed

text \<open>
  The part that the three functions for numbers share: \<open>sign\<close> and \<open>prefix\<close> stand in front of the
  digits \<open>ds\<close>.
\<close>

definition number_default :: "printf_st \<Rightarrow> printf_st" where
  "number_default pf = (if precision pf = -1 then pf\<lparr>precision := 1\<rparr> else pf\<lparr>pad0 := False\<rparr>)"

definition number_out :: "u8 list \<Rightarrow> u8 list \<Rightarrow> u8 list \<Rightarrow> printf_st \<Rightarrow> printf_st res" where
  "number_out sign prefix ds pf =
     (if length ds > 20 then err Out_Of_Bounds
      else
        let pos = int (length ds); extra = int (length sign + length prefix);
            p1 = max pos (precision pf);
            (p2, n) = (if \<not> left pf \<and> pad0 pf then (max p1 (w32 (fwidth pf - extra)), fwidth pf)
                       else (p1, w32 (p1 + extra)));
            pf1 = pf\<lparr>precision := p2\<rparr>;
            pf2 = (if \<not> left pf1 then pad_spaces n pf1 else pf1);
            pf3 = prints prefix (prints sign pf2);
            pf4 = prints (rev ds) (pad_zeros pos pf3)
        in ret (pad_spaces n pf4))"

definition plain_sign :: "printf_st \<Rightarrow> u8 list" where
  "plain_sign pf = (if show_sign pf then [43] else if space_plus pf then [32] else [])"

definition print_hexa :: "u32 \<Rightarrow> printf_st \<Rightarrow> printf_st res" where
  "print_hexa i pf =
     (let pf1 = (if i = 0 then pf\<lparr>alternate := False\<rparr> else pf); pf2 = number_default pf1
      in number_out (plain_sign pf2) (if alternate pf2 then [48, if capital pf2 then 88 else 120] else [])
           (number_digits (capital pf2) 16 i) pf2)"

text \<open>\<open>negative\<close> tells whether the argument \<open>sign\<close> is the character \<open>-\<close>, and not \<open>+\<close>.\<close>

definition print_dec :: "u32 \<Rightarrow> bool \<Rightarrow> printf_st \<Rightarrow> printf_st res" where
  "print_dec i negative pf =
     (let pf1 = number_default pf;
          sign = (if negative then [45] else if show_sign pf1 then [43] else if space_plus pf1 then [32] else [])
      in number_out sign [] (number_digits False 10 i) pf1)"

definition print_oct :: "u32 \<Rightarrow> printf_st \<Rightarrow> printf_st res" where
  "print_oct i pf =
     (let pf1 = number_default pf
      in number_out (plain_sign pf1) [] (number_digits False 8 i @ (if alternate pf1 then [48] else [])) pf1)"

definition print_pointer :: "u32 \<Rightarrow> printf_st \<Rightarrow> printf_st res" where
  "print_pointer p pf =
     (if p = 0 then print_string (literal (map asc ''(nil)'')) pf else print_hexa p (pf\<lparr>alternate := True\<rparr>))"

subsection \<open>The format\<close>

fun read_flags :: "u8 list \<Rightarrow> printf_st \<Rightarrow> u8 list \<times> printf_st" where
  "read_flags [] pf = ([], pf)"
| "read_flags (c # fmt) pf =
     (if c = asc CHR ''-'' then read_flags fmt (pf\<lparr>left := True\<rparr>)
      else if c = asc CHR ''+'' then read_flags fmt (pf\<lparr>show_sign := True\<rparr>)
      else if c = asc CHR '' '' then read_flags fmt (pf\<lparr>space_plus := True\<rparr>)
      else if c = asc CHR ''#'' then read_flags fmt (pf\<lparr>alternate := True\<rparr>)
      else if c = asc CHR ''0'' then read_flags fmt (pf\<lparr>pad0 := True\<rparr>)
      else (c # fmt, pf))"

definition no_flags :: "printf_st \<Rightarrow> printf_st" where
  "no_flags pf = pf\<lparr>left := False, show_sign := False, space_plus := False, alternate := False, pad0 := False, capital := False\<rparr>"

definition field_width :: "u8 list \<Rightarrow> u32 list \<Rightarrow> printf_st \<Rightarrow> (u8 list \<times> u32 list \<times> printf_st) res" where
  "field_width fmt args pf =
     (if peek fmt = asc CHR ''*'' then
        bindr (va_arg args) (\<lambda>(a, args1). ret (tl fmt, args1, pf\<lparr>fwidth := sint a\<rparr>))
      else let (fmt1, n) = number fmt 0 in ret (fmt1, args, pf\<lparr>fwidth := n\<rparr>))"

text \<open>The digits of a precision are added to what was read before, not put in its place.\<close>

fun precision_digits :: "u8 list \<Rightarrow> int \<Rightarrow> u8 list \<times> int" where
  "precision_digits [] n = ([], n)"
| "precision_digits (c # fmt) n =
     (if isdigit c then precision_digits fmt (w32 (n + (n * 10 + Ctod c))) else (c # fmt, n))"

definition field_precision :: "u8 list \<Rightarrow> u32 list \<Rightarrow> printf_st \<Rightarrow> (u8 list \<times> u32 list \<times> printf_st) res" where
  "field_precision fmt args pf =
     (if peek fmt = asc CHR ''.'' then
        let fmt1 = tl fmt in
        if peek fmt1 = asc CHR ''*'' then
          bindr (va_arg args) (\<lambda>(a, args1). ret (tl fmt1, args1, pf\<lparr>precision := sint a\<rparr>))
        else let (fmt2, n) = precision_digits fmt1 0 in ret (fmt2, args, pf\<lparr>precision := n\<rparr>)
      else ret (fmt, args, pf\<lparr>precision := - 1\<rparr>))"

definition read_modifier :: "u8 list \<Rightarrow> printf_st \<Rightarrow> u8 list \<times> printf_st" where
  "read_modifier fmt pf =
     (if peek fmt \<in> {asc CHR ''h'', asc CHR ''l'', asc CHR ''L''} then (tl fmt, pf\<lparr>modifier := peek fmt\<rparr>)
      else (fmt, pf\<lparr>modifier := 0\<rparr>))"

text \<open>From the byte after a \<open>%\<close> to the conversion character.\<close>

definition read_spec :: "u8 list \<Rightarrow> u32 list \<Rightarrow> printf_st \<Rightarrow> (u8 list \<times> u32 list \<times> printf_st) res" where
  "read_spec fmt args pf =
     (let (fmt1, pf1) = read_flags fmt (no_flags pf)
      in bindr (field_width fmt1 args pf1) (\<lambda>(fmt2, args2, pf2).
         bindr (field_precision fmt2 args2 pf2) (\<lambda>(fmt3, args3, pf3).
         let (fmt4, pf4) = read_modifier fmt3 pf3 in ret (fmt4, args3, pf4))))"

definition float_text :: "u8 list" where
  "float_text = map asc ''<float format not implemented>''"

text \<open>
  The conversion character \<open>c\<close>; \<open>None\<close> inside of the result stands for a character that is none.
  All the types that the modifiers select have 32 bits.
\<close>

definition user_convert :: "u8 \<Rightarrow> u32 list \<Rightarrow> printf_st \<Rightarrow> (u32 list \<times> printf_st) option res" where
  "user_convert c args pf =
     (let with_arg = (\<lambda>f. bindr (va_arg args) (\<lambda>(a, args1). bindr (f a) (\<lambda>pf1. ret (Some (args1, pf1))))) in
      if c = asc CHR ''p'' then with_arg (\<lambda>a. print_pointer a pf)
      else if c = asc CHR ''X'' then with_arg (\<lambda>a. print_hexa a (pf\<lparr>capital := True\<rparr>))
      else if c = asc CHR ''x'' then with_arg (\<lambda>a. print_hexa a pf)
      else if c = asc CHR ''d'' \<or> c = asc CHR ''i'' \<or> c = asc CHR ''u'' then
        with_arg (\<lambda>a. if sint a < 0 then print_dec (- a) True pf else print_dec a False pf)
      else if c = asc CHR ''s'' then with_arg (\<lambda>a. print_string (at_pointer a) pf)
      else if c = asc CHR ''c'' then with_arg (\<lambda>a. ret (print_char (ucast a) pf))
      else if c = asc CHR ''%'' then ret (Some (args, print (asc CHR ''%'') pf))
      else if c = asc CHR ''o'' then with_arg (\<lambda>a. print_oct a pf)
      else if c = asc CHR ''n'' then
        with_arg (\<lambda>a. ret (pf\<lparr>umem := write32 a (word_of_int (count pf)) (umem pf)\<rparr>))
      else if c \<in> {asc CHR ''f'', asc CHR ''e'', asc CHR ''E'', asc CHR ''g'', asc CHR ''G''} then
        bindr (print_string (literal float_text) ((no_flags pf)\<lparr>fwidth := 0, precision := - 1\<rparr>)) (\<lambda>pf1. ret (Some (args, pf1)))
      else ret None)"

text \<open>
  The loop over the format. A format that is not valid is printed up to the character in question,
  which is then taken as the next one. Every turn takes a byte, so that the length of the format
  bounds the turns.
\<close>

fun printf_loop :: "nat \<Rightarrow> u8 list \<Rightarrow> u32 list \<Rightarrow> printf_st \<Rightarrow> printf_st res" where
  "printf_loop 0 fmt args pf = ret pf"
| "printf_loop (Suc k) fmt args pf =
     (case fmt of
        [] \<Rightarrow> ret pf
      | c # fmt1 \<Rightarrow>
          if c = 0 then ret pf
          else if c = asc CHR ''%'' then
            bindr (read_spec fmt1 args pf) (\<lambda>(fmt2, args2, pf2).
            bindr (user_convert (peek fmt2) args2 pf2) (\<lambda>r.
              case r of
                Some (args3, pf3) \<Rightarrow> printf_loop k (tl fmt2) args3 pf3
              | None \<Rightarrow> printf_loop k fmt2 args2 (prints (take (length fmt - length fmt2) fmt) pf2)))
          else printf_loop k fmt1 args (print c pf))"

definition print_format :: "u8 list \<Rightarrow> u32 list \<Rightarrow> printf_st \<Rightarrow> (int \<times> printf_st) res" where
  "print_format fmt args pf =
     bindr (printf_loop (Suc (length fmt)) fmt args (pf\<lparr>count := 0\<rparr>)) (\<lambda>pf1. ret (count pf1, pf1))"

text \<open>\<open>junk\<close> is what the stack holds in the place of the fields that are not set.\<close>

definition print_to :: "printf_st \<Rightarrow> u32 \<Rightarrow> u32 \<Rightarrow> u8 list \<Rightarrow> u32 list \<Rightarrow> (int \<times> printf_st) res" where
  "print_to junk s n fmt args =
     (let pf = junk\<lparr>pos_ecr := 0, str := s, strl := n\<rparr> in
      if s \<noteq> 0 then
        if n \<noteq> 0 then
          bindr (print_format fmt args pf) (\<lambda>(_, pf1). ret (count pf1, pf1\<lparr>umem := (umem pf1)(s := 0)\<rparr>))
        else ret (0, pf)
      else
        bindr (print_format fmt args pf) (\<lambda>(_, pf1).
          let pf2 = pf1\<lparr>buffer_ecr := (buffer_ecr pf1)[pos_ecr pf1 := 0]\<rparr>
          in ret (count pf2, cons_puts (buffer_ecr pf2) pf2)))"

definition safe_printf :: "printf_st \<Rightarrow> u8 list \<Rightarrow> u32 list \<Rightarrow> (int \<times> printf_st) res" where
  "safe_printf junk fmt args = print_to junk 0 0 fmt args"

text \<open>\<open>cons_read\<close> is a system call: it puts bytes into memory and returns their number.\<close>

definition cons_gets :: "(u32 \<Rightarrow> u32 \<Rightarrow> memory \<Rightarrow> u32 \<times> memory) \<Rightarrow> u32 \<Rightarrow> u32 \<Rightarrow> memory \<Rightarrow> memory" where
  "cons_gets cons_read s len m =
     (if len = 0 then m else let (n, m1) = cons_read s (len - 1) m in m1(s + n := 0))"

end
