(* ===== verification/User_Printf_Ok.thy ===== *)
theory User_Printf_Ok
  imports User_Printf Sprintf_Ok
begin

text \<open>
  The formatted output of the test programs: what reaches the console is independent of the
  buffer, each conversion shows its field, and what the returned value counts.
\<close>

subsection \<open>The buffer\<close>

text \<open>What a character shows on the console.\<close>

definition shown_char :: "u8 \<Rightarrow> u8 list" where
  "shown_char c = (if c = 0 then [] else if c = 10 then [10, 13] else [c])"

definition text_out :: "printf_st \<Rightarrow> u8 list" where
  "text_out pf = concat (written pf) @ take (pos_ecr pf) (buffer_ecr pf)"

definition out_ok :: "printf_st \<Rightarrow> bool" where
  "out_ok pf \<longleftrightarrow> str pf = 0 \<and> length (buffer_ecr pf) = PRINTF_BUF_LEN \<and> pos_ecr pf < PRINTF_BUF_LEN \<and>
     0 \<notin> set (take (pos_ecr pf) (buffer_ecr pf)) \<and> (\<forall>s\<in>set (written pf). length s = 511) \<and>
     (written pf \<noteq> [] \<longrightarrow> 0 < pos_ecr pf) \<and> count pf = w32 (int (length (text_out pf)) - int (length (written pf)))"

text \<open>The fields that \<open>print\<close> leaves alone.\<close>

definition same_fields :: "printf_st \<Rightarrow> printf_st \<Rightarrow> bool" where
  "same_fields pf pf' \<longleftrightarrow> left pf' = left pf \<and> show_sign pf' = show_sign pf \<and> space_plus pf' = space_plus pf \<and>
     alternate pf' = alternate pf \<and> pad0 pf' = pad0 pf \<and> capital pf' = capital pf \<and> fwidth pf' = fwidth pf \<and>
     precision pf' = precision pf \<and> umem pf' = umem pf"

definition adds :: "u8 list \<Rightarrow> printf_st \<Rightarrow> printf_st \<Rightarrow> bool" where
  "adds cs pf pf' \<longleftrightarrow> out_ok pf' \<and> text_out pf' = text_out pf @ cs"

lemma w32_add: "w32 (w32 a + b) = w32 (a + b)"
  by (simp add: w32_def)

lemma print_once_ok:
  assumes "out_ok pf"
  shows "adds (if c = 0 then [] else [c]) pf (print_once c pf)" "same_fields pf (print_once c pf)"
proof -
  have b: "length (buffer_ecr pf) = 512" "pos_ecr pf < 512" "str pf = 0" "0 \<notin> set (take (pos_ecr pf) (buffer_ecr pf))"
    "\<forall>s\<in>set (written pf). length s = 511"
    "count pf = w32 (int (length (text_out pf)) - int (length (written pf)))"
    using assms by (simp_all add: out_ok_def PRINTF_BUF_LEN_def)
  consider "c = 0" | "c \<noteq> 0" "pos_ecr pf < 511" | "c \<noteq> 0" "pos_ecr pf = 511" using b(2) by linarith
  then have "adds (if c = 0 then [] else [c]) pf (print_once c pf) \<and> same_fields pf (print_once c pf)"
  proof cases
    case 1
    then show ?thesis using assms b(3) by (simp add: print_once_def adds_def same_fields_def)
  next
    case 2
    let ?p = "pf\<lparr>count := w32 (count pf + 1), buffer_ecr := (buffer_ecr pf)[pos_ecr pf := c], pos_ecr := pos_ecr pf + 1\<rparr>"
    have t: "take (Suc (pos_ecr pf)) ((buffer_ecr pf)[pos_ecr pf := c]) = take (pos_ecr pf) (buffer_ecr pf) @ [c]"
      using b 2 by (simp add: take_Suc_conv_app_nth)
    then have x: "text_out ?p = text_out pf @ [c]" by (simp add: text_out_def)
    have "print_once c pf = ?p" using 2 b(3) by (simp add: print_once_def PRINTF_BUF_LEN_def)
    moreover have "w32 (count pf + 1) = w32 (int (length (text_out pf @ [c])) - int (length (written pf)))"
      by (simp only: b(6) w32_add) (simp add: algebra_simps)
    then have "out_ok ?p" using b 2 t unfolding out_ok_def x PRINTF_BUF_LEN_def by simp
    ultimately show ?thesis using 2 x by (simp add: adds_def same_fields_def)
  next
    case 3
    let ?b = "(buffer_ecr pf)[511 := 0]"
    have e: "?b = take 511 (buffer_ecr pf) @ [0]" using b(1) by (intro nth_equalityI) (auto simp: nth_append nth_list_update)
    have "takeWhile (\<lambda>c. c \<noteq> 0) (take 511 (buffer_ecr pf) @ [0]) = take 511 (buffer_ecr pf) @ takeWhile (\<lambda>c. c \<noteq> 0) [0]"
      by (rule takeWhile_append2) (use b(4) 3 in auto)
    then have tw: "takeWhile (\<lambda>c. c \<noteq> 0) ?b = take 511 (buffer_ecr pf)" unfolding e by simp
    let ?p = "pf\<lparr>buffer_ecr := ?b[0 := c], pos_ecr := 1, written := written pf @ [take 511 (buffer_ecr pf)]\<rparr>"
    have "print_once c pf = ?p" using 3 b(3) tw by (simp add: print_once_def PRINTF_BUF_LEN_def cons_puts_def)
    moreover have x: "text_out ?p = text_out pf @ [c]"
      using b(1) 3 by (cases "buffer_ecr pf") (simp_all add: text_out_def)
    have k: "take 1 (?b[0 := c]) = [c]" using b(1) by (cases "buffer_ecr pf") simp_all
    have "out_ok ?p" using b 3 k unfolding out_ok_def x PRINTF_BUF_LEN_def by simp
    ultimately show ?thesis using 3 x by (simp add: adds_def same_fields_def)
  qed
  then show "adds (if c = 0 then [] else [c]) pf (print_once c pf)" "same_fields pf (print_once c pf)" by simp_all
qed

lemma same_fields_trans: "same_fields pf pf1 \<Longrightarrow> same_fields pf1 pf2 \<Longrightarrow> same_fields pf pf2"
  by (simp add: same_fields_def)

lemma adds_trans: "adds cs pf pf1 \<Longrightarrow> adds ds pf1 pf2 \<Longrightarrow> adds (cs @ ds) pf pf2"
  by (simp add: adds_def)

lemma print_ok:
  assumes "out_ok pf"
  shows "adds (shown_char c) pf (print c pf)" "same_fields pf (print c pf)"
proof -
  note 1 = print_once_ok [OF assms]
  have "adds (shown_char c) pf (print c pf) \<and> same_fields pf (print c pf)"
  proof (cases "c = 10")
    case True
    have "out_ok (print_once 10 pf)" using 1(1) [of 10] by (simp add: adds_def)
    note 2 = print_once_ok [OF this, of 13]
    show ?thesis using True 1 [of 10] 2 adds_trans [OF 1(1) [of 10] 2(1)] same_fields_trans [OF 1(2) [of 10] 2(2)]
      by (simp add: print_def shown_char_def)
  next
    case False
    then show ?thesis using 1 [of c] by (cases "c = 0") (simp_all add: print_def shown_char_def)
  qed
  then show "adds (shown_char c) pf (print c pf)" "same_fields pf (print c pf)" by simp_all
qed

definition shown_text :: "u8 list \<Rightarrow> u8 list" where
  "shown_text cs = concat (map shown_char cs)"

lemma shown_text_simps [simp]:
  "shown_text [] = []" "shown_text (c # cs) = shown_char c @ shown_text cs" "shown_text (xs @ ys) = shown_text xs @ shown_text ys"
  by (simp_all add: shown_text_def)

lemma prints_ok:
  "out_ok pf \<Longrightarrow> adds (shown_text cs) pf (prints cs pf) \<and> same_fields pf (prints cs pf)"
proof (induction cs arbitrary: pf)
  case Nil
  then show ?case by (simp add: prints_def adds_def same_fields_def)
next
  case (Cons c cs)
  note p = print_ok [OF Cons.prems, of c]
  then have "out_ok (print c pf)" by (simp add: adds_def)
  from Cons.IH [OF this] p show ?case
    using adds_trans same_fields_trans by (fastforce simp: prints_def)
qed

lemma out_ok_upd [simp]:
  "out_ok (pf\<lparr>fwidth := w\<rparr>) = out_ok pf" "out_ok (pf\<lparr>precision := p\<rparr>) = out_ok pf" "out_ok (pf\<lparr>umem := m\<rparr>) = out_ok pf"
  "out_ok (pf\<lparr>alternate := x\<rparr>) = out_ok pf" "out_ok (pf\<lparr>pad0 := x\<rparr>) = out_ok pf" "out_ok (pf\<lparr>capital := x\<rparr>) = out_ok pf"
  "out_ok (pf\<lparr>left := x\<rparr>) = out_ok pf" "out_ok (pf\<lparr>show_sign := x\<rparr>) = out_ok pf" "out_ok (pf\<lparr>space_plus := x\<rparr>) = out_ok pf"
  "out_ok (pf\<lparr>modifier := c\<rparr>) = out_ok pf"
  by (simp_all add: out_ok_def text_out_def)

lemma text_out_upd [simp]:
  "text_out (pf\<lparr>fwidth := w\<rparr>) = text_out pf" "text_out (pf\<lparr>precision := p\<rparr>) = text_out pf" "text_out (pf\<lparr>umem := m\<rparr>) = text_out pf"
  "text_out (pf\<lparr>alternate := x\<rparr>) = text_out pf" "text_out (pf\<lparr>pad0 := x\<rparr>) = text_out pf" "text_out (pf\<lparr>capital := x\<rparr>) = text_out pf"
  "text_out (pf\<lparr>left := x\<rparr>) = text_out pf" "text_out (pf\<lparr>show_sign := x\<rparr>) = text_out pf" "text_out (pf\<lparr>space_plus := x\<rparr>) = text_out pf"
  "text_out (pf\<lparr>modifier := c\<rparr>) = text_out pf" "text_out (pf\<lparr>count := n\<rparr>) = text_out pf"
  by (simp_all add: text_out_def)

subsection \<open>Numbers\<close>

definition same_flags :: "printf_st \<Rightarrow> printf_st \<Rightarrow> bool" where
  "same_flags pf pf' \<longleftrightarrow> left pf' = left pf \<and> show_sign pf' = show_sign pf \<and> space_plus pf' = space_plus pf \<and>
     alternate pf' = alternate pf \<and> pad0 pf' = pad0 pf \<and> capital pf' = capital pf \<and> umem pf' = umem pf"

lemma same_fields_flags: "same_fields pf pf' \<Longrightarrow> same_flags pf pf'"
  by (simp add: same_fields_def same_flags_def)

lemma shown_spaces [simp]: "shown_text (replicate n 32) = replicate n 32" "shown_text (replicate n 48) = replicate n 48"
  by (induction n) (simp_all add: shown_char_def)

lemma pad_spaces_ok:
  assumes "out_ok pf"
  shows "adds (replicate (nat (fwidth pf - n)) 32) pf (pad_spaces n pf)" "same_flags pf (pad_spaces n pf)"
    "fwidth (pad_spaces n pf) = w32 (min (fwidth pf) n - 1)" "precision (pad_spaces n pf) = precision pf"
  using prints_ok [OF assms, of "replicate (nat (fwidth pf - n)) 32"]
  by (simp_all add: pad_spaces_def adds_def same_fields_def same_flags_def)

lemma pad_zeros_ok:
  assumes "out_ok pf"
  shows "adds (replicate (nat (precision pf - n)) 48) pf (pad_zeros n pf)" "same_flags pf (pad_zeros n pf)"
    "fwidth (pad_zeros n pf) = fwidth pf"
  using prints_ok [OF assms, of "replicate (nat (precision pf - n)) 48"]
  by (simp_all add: pad_zeros_def adds_def same_fields_def same_flags_def)

text \<open>The precision and the width that \<open>number_out\<close> goes by.\<close>

definition number_fields :: "int \<Rightarrow> int \<Rightarrow> printf_st \<Rightarrow> int \<times> int" where
  "number_fields extra pos pf =
     (if \<not> left pf \<and> pad0 pf then (max (max pos (precision pf)) (w32 (fwidth pf - extra)), fwidth pf)
      else (max pos (precision pf), w32 (max pos (precision pf) + extra)))"

lemma number_out_text:
  assumes "out_ok pf" "length ds \<le> 20" "number_fields (int (length sign + length prefix)) (int (length ds)) pf = (p, n)"
  shows "\<exists>pf'. number_out sign prefix ds pf = ret pf' \<and> umem pf' = umem pf \<and>
    adds ((if left pf then [] else replicate (nat (fwidth pf - n)) 32) @ shown_text sign @ shown_text prefix @
      replicate (nat (p - int (length ds))) 48 @ shown_text (rev ds) @
      replicate (nat ((if left pf then fwidth pf else w32 (min (fwidth pf) n - 1)) - n)) 32) pf pf'"
proof -
  define pf1 where "pf1 = pf\<lparr>precision := p\<rparr>"
  define pf2 where "pf2 = (if \<not> left pf1 then pad_spaces n pf1 else pf1)"
  define pf3 where "pf3 = prints prefix (prints sign pf2)"
  define pf4 where "pf4 = prints (rev ds) (pad_zeros (int (length ds)) pf3)"
  have run: "number_out sign prefix ds pf = ret (pad_spaces n pf4)"
    using assms(2,3) unfolding number_out_def number_fields_def pf4_def pf3_def pf2_def pf1_def Let_def
    by (auto split: if_splits)
  have 1: "out_ok pf1" "text_out pf1 = text_out pf" "umem pf1 = umem pf" "left pf1 = left pf" "fwidth pf1 = fwidth pf" "precision pf1 = p"
    using assms(1) by (simp_all add: pf1_def)
  have 2: "adds (if left pf then [] else replicate (nat (fwidth pf - n)) 32) pf pf2" "same_flags pf1 pf2" "precision pf2 = p"
    "fwidth pf2 = (if left pf then fwidth pf else w32 (min (fwidth pf) n - 1))"
    using 1 pad_spaces_ok [OF 1(1), of n] by (auto simp: pf2_def adds_def same_flags_def)
  have s: "adds (shown_text sign) pf2 (prints sign pf2)" "same_fields pf2 (prints sign pf2)"
    using prints_ok 2(1) by (auto simp: adds_def)
  have 3: "adds (shown_text prefix) (prints sign pf2) pf3" "same_fields (prints sign pf2) pf3"
    using prints_ok s(1) by (auto simp: adds_def pf3_def)
  then have o3: "out_ok pf3" "precision pf3 = p" "fwidth pf3 = fwidth pf2" "same_flags pf1 pf3"
    using s 2 by (auto simp: adds_def same_fields_def same_flags_def)
  note z = pad_zeros_ok [OF o3(1), of "int (length ds)"]
  have 4: "adds (shown_text (rev ds)) (pad_zeros (int (length ds)) pf3) pf4" "same_fields (pad_zeros (int (length ds)) pf3) pf4"
    using prints_ok z(1) by (auto simp: adds_def pf4_def)
  then have o4: "out_ok pf4" "fwidth pf4 = fwidth pf2" "umem pf4 = umem pf"
    using z o3 1(3) by (auto simp: adds_def same_fields_def same_flags_def)
  note e = pad_spaces_ok [OF o4(1), of n]
  have "adds ((if left pf then [] else replicate (nat (fwidth pf - n)) 32) @ shown_text sign @ shown_text prefix @
      replicate (nat (p - int (length ds))) 48 @ shown_text (rev ds) @ replicate (nat (fwidth pf2 - n)) 32) pf (pad_spaces n pf4)"
    using 2(1) s(1) 3(1) z(1) 4(1) e(1) o3(2) o4(2) by (simp add: adds_def)
  then show ?thesis using run e(2) o4(3) 2(4) by (auto simp: same_flags_def)
qed

subsection \<open>Digits\<close>

declare number_digits.simps [simp del]

lemma digit_char_dig: "unat n < 16 \<Longrightarrow> digit_char False n = dig (unat n)"
proof -
  have all: "list_all (\<lambda>k. digit_char False (of_nat k) = dig k) [0..<16]" by code_simp
  assume "unat n < 16"
  then have "unat n \<in> set [0..<16]" by simp
  from bspec [OF all [unfolded list_all_iff] this] show ?thesis by simp
qed

lemma number_digits_digits:
  assumes "2 \<le> b" "b \<le> 16" "i \<noteq> 0"
  shows "rev (number_digits False (of_nat b) i) = digits b (unat i)"
  using assms(3)
proof (induction "unat i" arbitrary: i rule: less_induct)
  case less
  have ub: "unat (of_nat b :: u32) = b" using assms by (intro unat_of_nat_u32) simp
  have md: "unat (i mod of_nat b) = unat i mod b" "unat (i div of_nat b) = unat i div b"
    by (simp_all only: unat_mod_distrib unat_div_distrib ub)
  have nb: "\<not> (of_nat b :: u32) < 2" using assms(1) ub by (simp add: word_less_nat_alt)
  have "unat i mod b < 16" using assms(1,2) by (intro less_le_trans [OF mod_less_divisor]) simp_all
  then have d: "digit_char False (i mod of_nat b) = dig (unat i mod b)" using digit_char_dig [of "i mod of_nat b"] md(1) by simp
  have step: "rev (number_digits False (of_nat b) i) = rev (number_digits False (of_nat b) (i div of_nat b)) @ [dig (unat i mod b)]"
    using less.prems nb d by (subst number_digits.simps) simp
  show ?case
  proof (cases "unat i < b")
    case True
    then have "i div of_nat b = 0" using md(2) by (simp add: unat_eq_zero [symmetric])
    then have "number_digits False (of_nat b) (i div of_nat b) = []" by (subst number_digits.simps) simp
    then show ?thesis using step True by (subst digits.simps) simp
  next
    case False
    have "0 < unat i" using False assms(1) by simp
    then have "unat i div b < unat i" using assms(1) by (intro div_less_dividend) simp_all
    moreover have "i div of_nat b \<noteq> 0" using False md(2) assms(1) by (metis div_eq_0_iff unsigned_0 not_numeral_le_zero)
    ultimately have "rev (number_digits False (of_nat b) (i div of_nat b)) = digits b (unat i div b)"
      using less.hyps [of "i div of_nat b"] md(2) by simp
    then show ?thesis using step False assms(1) by (subst digits.simps) simp
  qed
qed

lemma number_digits_zero [simp]: "number_digits cap b 0 = []"
  by (subst number_digits.simps) simp

lemma number_digits_length:
  assumes "8 \<le> base"
  shows "unat i < 8 ^ n \<Longrightarrow> length (number_digits cap base i) \<le> n"
proof (induction n arbitrary: i)
  case 0
  then have "i = 0" by (simp add: unat_eq_zero)
  then show ?case by simp
next
  case (Suc n)
  have "8 \<le> unat base" using assms by (simp add: word_le_nat_alt)
  then have "unat i div unat base \<le> unat i div 8" by (simp add: div_le_mono2)
  also have "\<dots> < 8 ^ n" using Suc.prems by (simp add: less_mult_imp_div_less)
  finally have "unat (i div base) < 8 ^ n" by (simp add: unat_div)
  then show ?case using Suc.IH [of "i div base"] by (subst number_digits.simps) simp
qed

lemma number_digits_short: "8 \<le> base \<Longrightarrow> length (number_digits cap base i) \<le> 11"
proof -
  assume "8 \<le> base"
  moreover have "unat i < 8 ^ 11" using unat_less_u32 [of i] by simp
  ultimately show ?thesis by (rule number_digits_length)
qed

text \<open>The digits with the zero that the precision puts in front of the number 0.\<close>

lemma zeros_digits:
  assumes "1 \<le> p" "2 \<le> b" "b \<le> 16"
  shows "replicate (nat (p - int (length (number_digits False (of_nat b) i)))) 48 @ rev (number_digits False (of_nat b) i) =
    replicate (nat (p - int (length (digits b (unat i))))) 48 @ digits b (unat i)"
proof (cases "i = 0")
  case True
  have "digits b 0 = [48]" using assms(2) by (subst digits.simps) (simp add: dig_def digs_def)
  moreover have "replicate (nat p) (48 :: u8) = replicate (nat (p - 1)) 48 @ [48]"
    using assms(1) by (metis One_nat_def Suc_nat_eq_nat_zadd1 add.commute diff_add_cancel diff_ge_0_iff_ge replicate_Suc replicate_append_same)
  ultimately show ?thesis using True by simp
next
  case False
  have "length (number_digits False (of_nat b) i) = length (rev (number_digits False (of_nat b) i))" by simp
  then show ?thesis using number_digits_digits [OF assms(2,3) False] by simp
qed

lemma shown_digits [simp]: "2 \<le> b \<Longrightarrow> b \<le> 16 \<Longrightarrow> shown_text (digits b n) = digits b n"
proof -
  assume b: "2 \<le> b" "b \<le> 16"
  have "shown_char d = [d]" if "d \<in> set (digits b n)" for d
  proof -
    from digits_set [OF b that] obtain k where k: "k < b" "d = dig k" by auto
    have "list_all (\<lambda>k. shown_char (dig k) = [dig k]) [0..<16]" by code_simp
    then show ?thesis using k b(2) by (simp add: list_all_iff)
  qed
  then have "shown_text ds = ds" if "set ds \<subseteq> set (digits b n)" for ds
    using that by (induction ds) auto
  then show ?thesis by blast
qed

subsection \<open>Fields\<close>

text \<open>A field of at least \<open>w\<close> bytes: to the left, or filled with zeros behind the sign, or to the right.\<close>

definition num_field :: "bool \<Rightarrow> bool \<Rightarrow> nat \<Rightarrow> u8 list \<Rightarrow> u8 list \<Rightarrow> u8 list" where
  "num_field l z w sign ds =
     (let k = w - (length sign + length ds) in
      if l then sign @ ds @ replicate k 32
      else if z then sign @ replicate k 48 @ ds
      else replicate k 32 @ sign @ ds)"

definition str_field :: "bool \<Rightarrow> nat \<Rightarrow> u8 list \<Rightarrow> u8 list" where
  "str_field l w cs =
     (let k = w - length cs in if l then cs @ replicate k 32 else replicate k 32 @ cs)"

lemma w32_id: "- (2 ^ 31) \<le> x \<Longrightarrow> x < 2 ^ 31 \<Longrightarrow> w32 x = x"
  by (simp add: w32_def signed_of_int signed_take_bit_int_eq_self)

lemma number_field:
  assumes "out_ok pf" "precision pf = 1" "0 \<le> fwidth pf" "fwidth pf < 2 ^ 30" "b = 10 \<or> b = 16"
    and "sign = [] \<or> sign = [45]"
  shows "\<exists>pf'. number_out sign [] (number_digits False (of_nat b) i) pf = ret pf' \<and> umem pf' = umem pf \<and>
    adds (num_field (left pf) (pad0 pf) (nat (fwidth pf)) sign (digits b (unat i))) pf pf'"
proof -
  let ?ds = "number_digits False (of_nat b) i" and ?D = "digits b (unat i)"
  have b: "2 \<le> b" "b \<le> 16" "(8 :: u32) \<le> of_nat b" using assms(5) by auto
  have l: "length ?ds \<le> 11" by (rule number_digits_short [OF b(3)])
  have D: "int (length ?D) = max 1 (int (length ?ds))"
  proof (cases "i = 0")
    case True
    have "digits b 0 = [dig 0]" using b by (subst digits.simps) simp
    then show ?thesis using True by simp
  next
    case False
    have "length ?D = length (rev ?ds)" using number_digits_digits [OF b(1,2) False] by simp
    moreover have "1 \<le> length ?D" by (simp add: Suc_le_eq)
    ultimately show ?thesis by simp
  qed
  obtain p n where f: "number_fields (int (length sign + length ([] :: u8 list))) (int (length ?ds)) pf = (p, n)"
    by (cases "number_fields (int (length sign + length ([] :: u8 list))) (int (length ?ds)) pf")
  have x: "length sign \<le> 1" "shown_text sign = sign" using assms(6) by (auto simp: shown_char_def)
  have w: "w32 (fwidth pf - int (length sign)) = fwidth pf - int (length sign)"
    "w32 (max (int (length ?ds)) 1 + int (length sign)) = max (int (length ?ds)) 1 + int (length sign)"
    using assms(3,4) x(1) l by (simp_all add: w32_id)
  have M: "max (int (length ?ds)) 1 = int (length ?D)" using D by simp
  have D1: "1 \<le> int (length ?D)" using D by simp
  have pn: "p = (if \<not> left pf \<and> pad0 pf then max (int (length ?D)) (fwidth pf - int (length sign)) else int (length ?D))"
    "n = (if \<not> left pf \<and> pad0 pf then fwidth pf else int (length ?D) + int (length sign))"
    using f w(1) w(2) unfolding number_fields_def assms(2) M by (auto split: if_splits)
  then have p1: "1 \<le> p" using D1 by auto
  have trail: "w32 (min (fwidth pf) n - 1) = min (fwidth pf) n - 1"
    using assms(3,4) pn(2) D1 by (intro w32_id) (auto simp: min_def)
  obtain pf' where pf': "number_out sign [] ?ds pf = ret pf'" "umem pf' = umem pf"
    "adds ((if left pf then [] else replicate (nat (fwidth pf - n)) 32) @ shown_text sign @ shown_text [] @
      replicate (nat (p - int (length ?ds))) 48 @ shown_text (rev ?ds) @
      replicate (nat ((if left pf then fwidth pf else w32 (min (fwidth pf) n - 1)) - n)) 32) pf pf'"
    using number_out_text [OF assms(1) _ f] l by auto
  have "shown_text (rev ?ds) = rev ?ds"
  proof (cases "i = 0")
    case False
    then show ?thesis using number_digits_digits [OF b(1,2) False] shown_digits [OF b(1,2)] by simp
  qed simp
  then have body: "replicate (nat (p - int (length ?ds))) 48 @ shown_text (rev ?ds) = replicate (nat (p - int (length ?D))) 48 @ ?D"
    using zeros_digits [OF p1 b(1,2), of i] by simp
  have "adds (num_field (left pf) (pad0 pf) (nat (fwidth pf)) sign ?D) pf pf'"
  proof -
    have "(if left pf then [] else replicate (nat (fwidth pf - n)) 32) @ shown_text sign @ shown_text [] @
      replicate (nat (p - int (length ?ds))) 48 @ shown_text (rev ?ds) @
      replicate (nat ((if left pf then fwidth pf else w32 (min (fwidth pf) n - 1)) - n)) 32 =
      (if left pf then [] else replicate (nat (fwidth pf - n)) 32) @ sign @ replicate (nat (p - int (length ?D))) 48 @ ?D @
      replicate (nat ((if left pf then fwidth pf else min (fwidth pf) n - 1) - n)) 32"
      using body x(2) trail by (metis append_assoc append_Nil shown_text_simps(1))
    also have "\<dots> = num_field (left pf) (pad0 pf) (nat (fwidth pf)) sign ?D"
      using pn assms(3) D1 by (auto simp: num_field_def Let_def nat_diff_distrib nat_add_distrib max_def)
    finally show ?thesis using pf'(3) by simp
  qed
  then show ?thesis using pf'(1,2) by blast
qed

subsection \<open>Strings\<close>

lemma string_loop_text:
  assumes "out_ok pf" "\<And>j. j < length bs \<Longrightarrow> rd (umem pf) (i + j) = bs ! j" "rd (umem pf) (i + length bs) = 0" "0 \<notin> set bs"
    and "precision pf = - 1 - int i" "i + length bs < 2 ^ 31 - 1"
  shows "\<exists>pf'. string_loop rd i pf = ret pf' \<and> adds (shown_text bs) pf pf' \<and> same_flags pf pf' \<and> fwidth pf' = fwidth pf"
  using assms
proof (induction bs arbitrary: i pf)
  case Nil
  then show ?case
    by (subst string_loop.simps) (simp add: adds_def same_flags_def Let_def)
next
  case (Cons b bs)
  let ?pf1 = "pf\<lparr>precision := w32 (precision pf - 1)\<rparr>"
  have o1: "out_ok ?pf1" using Cons.prems(1) by simp
  note pr = print_ok [OF o1, of b]
  let ?pf2 = "print b ?pf1"
  have w: "w32 (precision pf - 1) = - 1 - int (Suc i)" unfolding Cons.prems(5) using Cons.prems(6) by (subst w32_id) simp_all
  have m: "umem ?pf2 = umem pf" "precision ?pf2 = - 1 - int (Suc i)" "fwidth ?pf2 = fwidth pf" "same_flags pf ?pf2"
    using pr(2) w by (simp_all add: same_fields_def same_flags_def)
  have b: "rd (umem pf) i = b" "b \<noteq> 0" using Cons.prems(2) [of 0] Cons.prems(4) by auto
  have st: "string_loop rd i pf = string_loop rd (Suc i) ?pf2"
    using b Cons.prems(5) by (subst string_loop.simps) (simp add: Let_def)
  have "\<exists>pf'. string_loop rd (Suc i) ?pf2 = ret pf' \<and> adds (shown_text bs) ?pf2 pf' \<and> same_flags ?pf2 pf' \<and> fwidth pf' = fwidth ?pf2"
  proof (rule Cons.IH)
    show "out_ok ?pf2" using pr(1) by (simp add: adds_def)
    show "rd (umem ?pf2) (Suc i + j) = bs ! j" if "j < length bs" for j using Cons.prems(2) [of "Suc j"] that m(1) by simp
    show "rd (umem ?pf2) (Suc i + length bs) = 0" using Cons.prems(3) m(1) by simp
  qed (use Cons.prems m in simp_all)
  then obtain pf' where "string_loop rd (Suc i) ?pf2 = ret pf'" "adds (shown_text bs) ?pf2 pf'" "same_flags ?pf2 pf'" "fwidth pf' = fwidth ?pf2"
    by blast
  then show ?case using st pr(1) m by (auto simp: adds_def same_flags_def)
qed

lemma size_loop_bytes:
  assumes "\<And>j. j < length bs \<Longrightarrow> s (i + j) = bs ! j" "s (i + length bs) = 0" "0 \<notin> set bs"
  shows "size_loop n i s = min n (length bs)"
  using assms
proof (induction n arbitrary: i bs)
  case (Suc n)
  show ?case
  proof (cases bs)
    case Nil
    then show ?thesis using Suc.prems(2) by simp
  next
    case (Cons b bs')
    have "size_loop n (Suc i) s = min n (length bs')"
    proof (rule Suc.IH)
      show "s (Suc i + j) = bs' ! j" if "j < length bs'" for j using Suc.prems(1) [of "Suc j"] Cons that by simp
    qed (use Suc.prems Cons in auto)
    moreover have "s i = b" "b \<noteq> 0" using Suc.prems(1) [of 0] Suc.prems(3) Cons by auto
    ultimately show ?thesis using Cons by simp
  qed
qed simp

lemma print_string_text:
  assumes "out_ok pf" "\<And>j. j < length bs \<Longrightarrow> rd (umem pf) j = bs ! j" "rd (umem pf) (length bs) = 0" "0 \<notin> set bs"
    and "precision pf = - 1" "length bs < 2 ^ 30" "0 \<le> fwidth pf" "fwidth pf < 2 ^ 30"
  shows "\<exists>pf'. print_string rd pf = ret pf' \<and> umem pf' = umem pf \<and>
    adds (shown_text (str_field (left pf) (nat (fwidth pf)) bs)) pf pf'"
proof -
  define sz where "sz = int (min (nat (fwidth pf)) (length bs))"
  have szl: "int (size_loop (nat (if precision pf \<ge> 0 then precision pf else fwidth pf)) 0 (rd (umem pf))) = sz"
    using size_loop_bytes [of bs "rd (umem pf)" 0] assms(2-5) by (simp add: sz_def)
  define pf1 where "pf1 = (if \<not> left pf then pad_spaces sz pf else pf)"
  let ?w = "if left pf then fwidth pf else min (fwidth pf) sz - 1"
  have t: "w32 (min (fwidth pf) sz - 1) = min (fwidth pf) sz - 1" using assms(6-8) by (intro w32_id) (auto simp: sz_def)
  have 1: "adds (if left pf then [] else replicate (nat (fwidth pf - sz)) 32) pf pf1" "same_flags pf pf1" "fwidth pf1 = ?w"
    "precision pf1 = - 1"
    using pad_spaces_ok [OF assms(1), of sz] assms(1,5) t by (cases "left pf"; simp add: pf1_def adds_def same_flags_def)+
  have "\<exists>pf2. string_loop rd 0 pf1 = ret pf2 \<and> adds (shown_text bs) pf1 pf2 \<and> same_flags pf1 pf2 \<and> fwidth pf2 = fwidth pf1"
    by (rule string_loop_text) (use 1 assms in \<open>simp_all add: adds_def same_flags_def\<close>)
  then obtain pf2 where 2: "string_loop rd 0 pf1 = ret pf2" "adds (shown_text bs) pf1 pf2" "same_flags pf1 pf2" "fwidth pf2 = ?w"
    using 1(3) by auto
  have "out_ok pf2" using 2(2) by (simp add: adds_def)
  note 3 = pad_spaces_ok [OF this, of sz]
  have "print_string rd pf = ret (pad_spaces sz pf2)"
    using 2(1) unfolding print_string_def szl Let_def pf1_def [symmetric] by simp
  moreover have "umem (pad_spaces sz pf2) = umem pf" using 1(2) 2(3) 3(2) by (simp add: same_flags_def)
  moreover have "adds (shown_text (str_field (left pf) (nat (fwidth pf)) bs)) pf (pad_spaces sz pf2)"
  proof (cases "left pf")
    case True
    have "nat (fwidth pf) - length bs = nat (fwidth pf - sz)" using assms(7) by (auto simp: sz_def)
    then show ?thesis using 1(1) 2(2,4) 3(1) True by (simp add: adds_def str_field_def Let_def)
  next
    case False
    have "nat (fwidth pf) - length bs = nat (fwidth pf - sz)" using assms(7) by (auto simp: sz_def)
    moreover have "nat (min (fwidth pf) sz - 1 - sz) = 0" by simp
    ultimately show ?thesis using 1(1) 2(2,4) 3(1) False by (simp add: adds_def str_field_def Let_def)
  qed
  ultimately show ?thesis by blast
qed

lemma print_char_text:
  assumes "out_ok pf" "0 \<le> fwidth pf" "fwidth pf < 2 ^ 30"
  shows "umem (print_char c pf) = umem pf \<and> adds (shown_text (str_field (left pf) (nat (fwidth pf)) [c])) pf (print_char c pf)"
proof -
  define pf1 where "pf1 = (if \<not> left pf then pad_spaces 1 pf else pf)"
  have t: "w32 (min (fwidth pf) 1 - 1) = min (fwidth pf) 1 - 1" using assms(2,3) by (intro w32_id) auto
  have 1: "adds (if left pf then [] else replicate (nat (fwidth pf - 1)) 32) pf pf1" "same_flags pf pf1"
    "fwidth pf1 = (if left pf then fwidth pf else min (fwidth pf) 1 - 1)"
    using pad_spaces_ok [OF assms(1), of 1] assms(1) t by (auto simp: pf1_def adds_def same_flags_def)
  have "out_ok pf1" using 1(1) by (simp add: adds_def)
  note 2 = print_ok [OF this, of c]
  have "out_ok (print c pf1)" using 2(1) by (simp add: adds_def)
  note 3 = pad_spaces_ok [OF this, of 1]
  have w: "fwidth (print c pf1) = fwidth pf1" using 2(2) by (simp add: same_fields_def)
  have e: "print_char c pf = pad_spaces 1 (print c pf1)" by (simp add: print_char_def pf1_def Let_def)
  have k: "nat (fwidth pf) - 1 = nat (fwidth pf - 1)" by simp
  have "nat (min (fwidth pf) 1 - 1 - 1) = 0" by simp
  then have "adds (shown_text (str_field (left pf) (nat (fwidth pf)) [c])) pf (print_char c pf)"
    using 1(1,3) 2(1) 3(1) w by (cases "left pf") (simp_all add: adds_def str_field_def Let_def e k)
  then show ?thesis using 1(2) 2(2) 3(2) by (simp add: e same_flags_def same_fields_def)
qed

subsection \<open>Whatever is printed\<close>

lemma pad_spaces_out: "out_ok pf \<Longrightarrow> out_ok (pad_spaces n pf)"
  using pad_spaces_ok(1) by (simp add: adds_def)

lemma number_out_out: "out_ok pf \<Longrightarrow> number_out sign prefix ds pf = ret pf' \<Longrightarrow> out_ok pf'"
proof -
  assume a: "out_ok pf" "number_out sign prefix ds pf = ret pf'"
  have l: "length ds \<le> 20" using a(2) by (simp add: number_out_def split: if_splits)
  obtain p n where "number_fields (int (length sign + length prefix)) (int (length ds)) pf = (p, n)"
    by (cases "number_fields (int (length sign + length prefix)) (int (length ds)) pf")
  from number_out_text [OF a(1) l this] show "out_ok pf'" using a(2) by (auto simp: adds_def)
qed

lemma print_out: "out_ok pf \<Longrightarrow> out_ok (print c pf)"
  using print_ok(1) by (simp add: adds_def)

lemma string_loop_raw:
  assumes "string_loop rd i pf = Some r"
  shows "out_ok pf \<longrightarrow> (\<forall>pf'. r = Inr pf' \<longrightarrow> out_ok pf')"
proof (rule string_loop.raw_induct [where P = "\<lambda>rd i pf r. out_ok pf \<longrightarrow> (\<forall>pf'. r = Inr pf' \<longrightarrow> out_ok pf')", OF _ assms])
  fix loop rd i pf r
  assume ih: "\<And>rd i pf r. loop rd i pf = Some r \<Longrightarrow> out_ok pf \<longrightarrow> (\<forall>pf'. r = Inr pf' \<longrightarrow> out_ok pf')"
    and st: "(let p = precision pf; pf1 = pf\<lparr>precision := w32 (p - 1)\<rparr>
      in if p \<noteq> 0 \<and> rd (umem pf1) i \<noteq> 0 then loop rd (Suc i) (print (rd (umem pf1) i) pf1) else ret pf1) = Some r"
  show "out_ok pf \<longrightarrow> (\<forall>pf'. r = Inr pf' \<longrightarrow> out_ok pf')"
  proof (cases "precision pf \<noteq> 0 \<and> rd (umem pf) i \<noteq> 0")
    case True
    then have "loop rd (Suc i) (print (rd (umem pf) i) (pf\<lparr>precision := w32 (precision pf - 1)\<rparr>)) = Some r"
      using st by (simp add: Let_def)
    note ih = ih [OF this]
    have "out_ok (print (rd (umem pf) i) (pf\<lparr>precision := w32 (precision pf - 1)\<rparr>))" if "out_ok pf"
      by (rule print_out) (simp add: that)
    then show ?thesis using ih by blast
  next
    case False
    then have "r = Inr (pf\<lparr>precision := w32 (precision pf - 1)\<rparr>)" using st by (auto simp: Let_def ret_def)
    then show ?thesis by simp
  qed
qed

lemma string_loop_out: "string_loop rd i pf = ret pf' \<Longrightarrow> out_ok pf \<Longrightarrow> out_ok pf'"
  using string_loop_raw [of rd i pf "Inr pf'"] by (simp add: ret_def)

lemma print_string_out: "out_ok pf \<Longrightarrow> print_string rd pf = ret pf' \<Longrightarrow> out_ok pf'"
  using string_loop_out [of rd 0] pad_spaces_out
  by (auto simp: print_string_def Let_def bindr_eq_ret split: if_splits)

lemma print_char_out: "out_ok pf \<Longrightarrow> out_ok (print_char c pf)"
  using pad_spaces_out print_out by (simp add: print_char_def Let_def)

lemma number_default_out: "out_ok (number_default pf) = out_ok pf"
  by (simp add: number_default_def)

lemma print_numbers_out:
  "out_ok pf \<Longrightarrow> print_hexa i pf = ret pf' \<Longrightarrow> out_ok pf'"
  "out_ok pf \<Longrightarrow> print_dec i negative pf = ret pf' \<Longrightarrow> out_ok pf'"
  "out_ok pf \<Longrightarrow> print_oct i pf = ret pf' \<Longrightarrow> out_ok pf'"
  "out_ok pf \<Longrightarrow> print_pointer i pf = ret pf' \<Longrightarrow> out_ok pf'"
proof -
  show h: "out_ok pf \<Longrightarrow> print_hexa i pf = ret pf' \<Longrightarrow> out_ok pf'" for pf
    unfolding print_hexa_def Let_def by (erule number_out_out [rotated]) (simp add: number_default_out)
  show "out_ok pf \<Longrightarrow> print_dec i negative pf = ret pf' \<Longrightarrow> out_ok pf'"
    unfolding print_dec_def Let_def by (erule number_out_out [rotated]) (simp add: number_default_out)
  show "out_ok pf \<Longrightarrow> print_oct i pf = ret pf' \<Longrightarrow> out_ok pf'"
    unfolding print_oct_def Let_def by (erule number_out_out [rotated]) (simp add: number_default_out)
  show "out_ok pf \<Longrightarrow> print_pointer i pf = ret pf' \<Longrightarrow> out_ok pf'"
    using h [of "pf\<lparr>alternate := True\<rparr>"] print_string_out by (auto simp: print_pointer_def split: if_splits)
qed

lemma no_flags_out [simp]: "out_ok (no_flags pf) = out_ok pf"
  by (simp add: no_flags_def)

text \<open>A conversion that keeps the output well formed if it returns.\<close>

definition good_convert :: "(u32 list \<times> printf_st) option res \<Rightarrow> bool" where
  "good_convert r \<longleftrightarrow> (\<forall>args' pf'. r = ret (Some (args', pf')) \<longrightarrow> out_ok pf')"

lemma good_convert_intros:
  "good_convert x \<Longrightarrow> good_convert y \<Longrightarrow> good_convert (if b then x else y)"
  "(\<And>a pf'. f a = ret pf' \<Longrightarrow> out_ok pf') \<Longrightarrow>
     good_convert (bindr (va_arg args) (\<lambda>(a, args1). bindr (f a) (\<lambda>pf1. ret (Some (args1, pf1)))))"
  "(\<And>pf'. r = ret pf' \<Longrightarrow> out_ok pf') \<Longrightarrow> good_convert (bindr r (\<lambda>pf1. ret (Some (args, pf1))))"
  "out_ok pf \<Longrightarrow> good_convert (ret (Some (args, pf)))" "good_convert (ret None)"
  by (auto simp: good_convert_def bindr_eq_ret)

lemma user_convert_good: "out_ok pf \<Longrightarrow> good_convert (user_convert c args pf)"
proof -
  assume o: "out_ok pf"
  have f: "out_ok ((no_flags pf)\<lparr>fwidth := 0, precision := - 1\<rparr>)" and x: "out_ok (pf\<lparr>capital := True\<rparr>)" using o by simp_all
  show ?thesis
    unfolding user_convert_def Let_def
  proof (intro good_convert_intros)
    fix a pf' assume "(if sint a < 0 then print_dec (- a) True pf else print_dec a False pf) = ret pf'"
    then show "out_ok pf'" using print_numbers_out(2) [OF o] by (auto split: if_splits)
  qed (erule print_numbers_out(4) [OF o] | erule print_numbers_out(1) [OF o] | erule print_numbers_out(1) [OF x]
      | erule print_numbers_out(3) [OF o] | erule print_string_out [OF o] | erule print_string_out [OF f]
      | use o print_out [OF o] print_char_out [OF o] in force)+
qed

lemma user_convert_out: "out_ok pf \<Longrightarrow> user_convert c args pf = ret (Some (args', pf')) \<Longrightarrow> out_ok pf'"
  using user_convert_good by (simp add: good_convert_def)

lemma read_flags_out: "out_ok (snd (read_flags fmt pf)) = out_ok pf"
  by (induction fmt pf rule: read_flags.induct) simp_all

lemma read_spec_out: "out_ok pf \<Longrightarrow> read_spec fmt args pf = ret (fmt', args', pf') \<Longrightarrow> out_ok pf'"
  using read_flags_out [of fmt "no_flags pf"]
  by (auto simp: read_spec_def field_width_def field_precision_def read_modifier_def bindr_eq_ret Let_def
      split: prod.splits if_splits)

lemma printf_loop_out: "out_ok pf \<Longrightarrow> printf_loop k fmt args pf = ret pf' \<Longrightarrow> out_ok pf'"
proof (induction k arbitrary: fmt args pf)
  case (Suc k)
  show ?case
  proof (cases fmt)
    case Nil
    then show ?thesis using Suc.prems by simp
  next
    case (Cons c fmt1)
    consider "c = 0" | "c \<noteq> 0" "c \<noteq> 37" | "c = 37" by blast
    then show ?thesis
    proof cases
      case 1
      then show ?thesis using Suc.prems Cons by simp
    next
      case 2
      then show ?thesis using Suc.IH [of "print c pf"] Suc.prems Cons print_out by simp
    next
      case 3
      then have run: "bindr (read_spec fmt1 args pf) (\<lambda>(fmt2, args2, pf2).
          bindr (user_convert (peek fmt2) args2 pf2) (\<lambda>r.
            case r of Some (args3, pf3) \<Rightarrow> printf_loop k (tl fmt2) args3 pf3
            | None \<Rightarrow> printf_loop k fmt2 args2 (prints (take (length fmt - length fmt2) fmt) pf2))) = ret pf'"
        using Suc.prems(2) unfolding Cons 3 by simp
      then obtain y where y: "read_spec fmt1 args pf = ret y" by (auto simp: bindr_eq_ret)
      obtain fmt2 args2 pf2 where f: "y = (fmt2, args2, pf2)" by (cases y)
      then obtain r where r: "user_convert (peek fmt2) args2 pf2 = ret r"
        "(case r of Some (args3, pf3) \<Rightarrow> printf_loop k (tl fmt2) args3 pf3
          | None \<Rightarrow> printf_loop k fmt2 args2 (prints (take (length fmt - length fmt2) fmt) pf2)) = ret pf'"
        using run unfolding y f bindr_ret prod.case bindr_eq_ret by blast
      have o2: "out_ok pf2" using read_spec_out [OF Suc.prems(1)] y f by simp
      show ?thesis
      proof (cases r)
        case None
        have "out_ok (prints (take (length fmt - length fmt2) fmt) pf2)" using prints_ok [OF o2] by (simp add: adds_def)
        then show ?thesis using Suc.IH r(2) None by simp
      next
        case (Some a)
        then have "out_ok (snd a)" using user_convert_out [OF o2, of _ _ "fst a" "snd a"] r(1) by simp
        then show ?thesis using Suc.IH [of "snd a"] r(2) Some by (simp add: split_beta)
      qed
    qed
  qed
qed simp

end
