(* ===== verification/User_Format.thy ===== *)
theory User_Format
  imports User_Printf_Ok
begin

text \<open>
  Formats of the test programs as lists of items: the bytes of the format, its arguments, and the
  text it stands for; \<open>safe_printf\<close> shows that text.
\<close>

subsection \<open>Items\<close>

text \<open>The flags \<open>-\<close> and \<open>0\<close>, and the width, which is 0 when there is none.\<close>

type_synonym layout = "bool \<times> bool \<times> nat"

datatype item = Byte u8 | Percent | Num layout u32 | Hexa layout u32 | Text layout u32 "u8 list" | Letter layout u8

definition spec_bytes :: "layout \<Rightarrow> char \<Rightarrow> u8 list" where
  "spec_bytes = (\<lambda>(l, z, w) c.
     [37] @ (if l then [45] else []) @ (if z then [48] else []) @ (if w = 0 then [] else digits 10 w) @ [asc c])"

fun item_format :: "item \<Rightarrow> u8 list" where
  "item_format (Byte c) = [c]"
| "item_format Percent = [37, 37]"
| "item_format (Num y n) = spec_bytes y CHR ''d''"
| "item_format (Hexa y n) = spec_bytes y CHR ''x''"
| "item_format (Text y p bs) = spec_bytes y CHR ''s''"
| "item_format (Letter y c) = spec_bytes y CHR ''c''"

fun item_args :: "item \<Rightarrow> u32 list" where
  "item_args (Num y n) = [n]"
| "item_args (Hexa y n) = [n]"
| "item_args (Text y p bs) = [p]"
| "item_args (Letter y c) = [ucast c]"
| "item_args _ = []"

fun item_text :: "item \<Rightarrow> u8 list" where
  "item_text (Byte c) = [c]"
| "item_text Percent = [37]"
| "item_text (Num (l, z, w) n) =
     num_field l z w (if sint n < 0 then [45] else []) (digits 10 (unat (if sint n < 0 then - n else n)))"
| "item_text (Hexa (l, z, w) n) = num_field l z w [] (digits 16 (unat n))"
| "item_text (Text (l, z, w) p bs) = str_field l w bs"
| "item_text (Letter (l, z, w) c) = str_field l w [c]"

definition layout_ok :: "layout \<Rightarrow> bool" where
  "layout_ok = (\<lambda>(l, z, w). w < 2 ^ 30)"

fun item_ok :: "memory \<Rightarrow> item \<Rightarrow> bool" where
  "item_ok m (Byte c) = (c \<noteq> 0 \<and> c \<noteq> 37)"
| "item_ok m Percent = True"
| "item_ok m (Num y n) = layout_ok y"
| "item_ok m (Hexa y n) = layout_ok y"
| "item_ok m (Text y p bs) = (layout_ok y \<and> cstr m p bs \<and> length bs < 2 ^ 30)"
| "item_ok m (Letter y c) = layout_ok y"

subsection \<open>Reading a specification\<close>

lemma dig_bytes: "k < 10 \<Longrightarrow> isdigit (dig k) \<and> Ctod (dig k) = int k \<and> (0 < k \<longrightarrow> dig k \<noteq> 48)"
proof -
  have all: "list_all (\<lambda>k. isdigit (dig k) \<and> Ctod (dig k) = int k \<and> (0 < k \<longrightarrow> dig k \<noteq> 48)) [0..<10]" by code_simp
  assume "k < 10"
  then have "k \<in> set [0..<10]" by simp
  from bspec [OF all [unfolded list_all_iff] this] show ?thesis .
qed

lemma isdigit_flags: "isdigit c \<Longrightarrow> c \<noteq> 48 \<Longrightarrow> c \<notin> {45, 43, 32, 35, 42, 46}"
  by (auto simp: isdigit_def word_le_nat_alt)

lemma number_digits_read: "n < 2 ^ 30 \<Longrightarrow> number (digits 10 n @ r) 0 = number r (int n)"
proof (induction n arbitrary: r rule: less_induct)
  case (less n)
  show ?case
  proof (cases "n < 10")
    case True
    then have "digits 10 n = [dig n]" by (subst digits.simps) simp
    then show ?thesis using dig_bytes [OF True] True by (simp add: w32_id)
  next
    case False
    then have d: "digits 10 n = digits 10 (n div 10) @ [dig (n mod 10)]" by (subst digits.simps) simp
    have "number (digits 10 (n div 10) @ [dig (n mod 10)] @ r) 0 = number ([dig (n mod 10)] @ r) (int (n div 10))"
      using False less.prems by (intro less.IH) simp_all
    also have "\<dots> = number r (w32 (10 * int (n div 10) + int (n mod 10)))" using dig_bytes [of "n mod 10"] by simp
    also have "10 * int (n div 10) + int (n mod 10) = int n" by (simp add: zdiv_int zmod_int)
    also have "w32 (int n) = int n" using less.prems by (intro w32_id) simp_all
    finally show ?thesis using d by simp
  qed
qed

lemma digits_first: "0 < n \<Longrightarrow> \<exists>k ds. 0 < k \<and> k < 10 \<and> digits 10 n = dig k # ds"
proof (induction n rule: less_induct)
  case (less n)
  show ?case
  proof (cases "n < 10")
    case True
    then have "digits 10 n = [dig n]" by (subst digits.simps) simp
    then show ?thesis using less.prems True by blast
  next
    case False
    then have d: "digits 10 n = digits 10 (n div 10) @ [dig (n mod 10)]" by (subst digits.simps) simp
    have "\<exists>k ds. 0 < k \<and> k < 10 \<and> digits 10 (n div 10) = dig k # ds" using False by (intro less.IH) simp_all
    then show ?thesis using d by auto
  qed
qed

definition laid_out :: "layout \<Rightarrow> printf_st \<Rightarrow> printf_st" where
  "laid_out = (\<lambda>(l, z, w) pf. (no_flags pf)\<lparr>left := l, pad0 := z, fwidth := int w, precision := - 1, modifier := 0\<rparr>)"

lemma read_spec_layout:
  assumes "c \<in> {CHR ''d'', CHR ''x'', CHR ''s'', CHR ''c''}" "layout_ok y"
  shows "\<exists>fmt. spec_bytes y c @ r = 37 # fmt \<and> read_spec fmt args pf = ret (asc c # r, args, laid_out y pf)"
proof -
  obtain l z w where y: "y = (l, z, w)" by (cases y)
  have w: "w < 2 ^ 30" using assms(2) y by (simp add: layout_ok_def)
  define ws where "ws = (if w = 0 then [] else digits 10 w)"
  have c: "asc c \<notin> {45, 43, 32, 35, 48, 42, 46, 104, 108, 76}" "\<not> isdigit (asc c)"
    using assms(1) by (auto simp: isdigit_def word_le_nat_alt)
  have fl: "read_flags (ws @ asc c # r) pf1 = (ws @ asc c # r, pf1)" for pf1
  proof (cases "w = 0")
    case True
    then show ?thesis using c(1) by (simp add: ws_def)
  next
    case False
    then obtain k ds where k: "0 < k" "k < 10" "digits 10 w = dig k # ds" using digits_first by blast
    have "dig k \<notin> {45, 43, 32, 35, 48}" using isdigit_flags dig_bytes [OF k(2)] k(1) by blast
    then show ?thesis using k(3) False by (simp add: ws_def)
  qed
  have fw: "field_width (ws @ asc c # r) args pf1 = ret (asc c # r, args, pf1\<lparr>fwidth := int w\<rparr>)" for pf1
  proof (cases "w = 0")
    case True
    then show ?thesis using c by (simp add: ws_def field_width_def)
  next
    case False
    then obtain k ds where k: "0 < k" "k < 10" "digits 10 w = dig k # ds" using digits_first by blast
    have "dig k \<noteq> 42" using isdigit_flags dig_bytes [OF k(2)] k(1) by blast
    moreover have "number (digits 10 w @ asc c # r) 0 = (asc c # r, int w)" using number_digits_read [OF w] c(2) by simp
    ultimately show ?thesis using k(3) False by (simp add: ws_def field_width_def)
  qed
  let ?fmt = "(if l then [45] else []) @ (if z then [48] else []) @ ws @ asc c # r"
  have "read_flags ?fmt (no_flags pf) = (ws @ asc c # r, (no_flags pf)\<lparr>left := l, pad0 := z\<rparr>)"
    using fl by (cases l; cases z) (simp_all add: no_flags_def)
  then have "read_spec ?fmt args pf = ret (asc c # r, args, laid_out y pf)"
    using fw c(1) by (simp add: read_spec_def field_precision_def read_modifier_def laid_out_def y)
  moreover have "spec_bytes y c @ r = 37 # ?fmt" by (simp add: spec_bytes_def y ws_def)
  ultimately show ?thesis by blast
qed

subsection \<open>A conversion\<close>

lemma laid_out_fields:
  "out_ok (laid_out y pf) = out_ok pf" "text_out (laid_out y pf) = text_out pf" "umem (laid_out y pf) = umem pf"
  "left (laid_out (l, z, w) pf) = l" "pad0 (laid_out (l, z, w) pf) = z" "fwidth (laid_out (l, z, w) pf) = int w"
  "precision (laid_out y pf) = - 1" "\<not> show_sign (laid_out y pf)" "\<not> space_plus (laid_out y pf)"
  "\<not> alternate (laid_out y pf)" "\<not> capital (laid_out y pf)"
  by (cases y; simp add: laid_out_def no_flags_def out_ok_def text_out_def)+

lemma print_number_layout:
  assumes "out_ok pf" "w < 2 ^ 30" "b = 10 \<or> b = 16" "sign = [] \<or> sign = [45]"
  shows "\<exists>pf'. number_out sign [] (number_digits False (of_nat b) i) (number_default (laid_out (l, z, w) pf)) = ret pf' \<and>
    umem pf' = umem pf \<and> adds (num_field l z w sign (digits b (unat i))) pf pf'"
proof -
  let ?pf = "(laid_out (l, z, w) pf)\<lparr>precision := 1\<rparr>"
  have d: "number_default (laid_out (l, z, w) pf) = ?pf" by (simp add: number_default_def laid_out_fields)
  have "\<exists>pf'. number_out sign [] (number_digits False (of_nat b) i) ?pf = ret pf' \<and> umem pf' = umem ?pf \<and>
    adds (num_field (left ?pf) (pad0 ?pf) (nat (fwidth ?pf)) sign (digits b (unat i))) ?pf pf'"
    by (rule number_field) (use assms in \<open>simp_all add: laid_out_fields\<close>)
  then show ?thesis unfolding d by (simp add: laid_out_fields adds_def)
qed

text \<open>What is put out by the conversion of an item, if it has one.\<close>

lemma convert_item:
  assumes "out_ok pf" "item_ok (umem pf) it" "spec_bytes y c = item_format it" "it \<in> {Num y n, Hexa y n, Text y p bs, Letter y ch}"
  shows "\<exists>pf'. user_convert (asc c) (item_args it @ args) (laid_out y pf) = ret (Some (args, pf')) \<and>
    umem pf' = umem pf \<and> adds (shown_text (item_text it)) pf pf'"
proof -
  obtain l z w where y: "y = (l, z, w)" by (cases y)
  have last: "last (spec_bytes u d) = asc d" for u d by (cases u) (simp add: spec_bytes_def)
  have inj: "asc c = last (item_format it)" unfolding assms(3) [symmetric] last by (rule refl)
  consider "it = Num y n" | "it = Hexa y n" | "it = Text y p bs" | "it = Letter y ch" using assms(4) by blast
  then show ?thesis
  proof cases
    case 1
    then have w: "w < 2 ^ 30" and c: "asc c = 100" using assms(2) y inj by (simp_all add: layout_ok_def last)
    let ?neg = "sint n < 0"
    define i where "i = (if ?neg then - n else n)"
    define sg :: "u8 list" where "sg = (if ?neg then [45] else [])"
    have sg: "sg = [] \<or> sg = [45]" by (simp add: sg_def)
    obtain pf' where pf': "number_out sg [] (number_digits False (of_nat 10) i) (number_default (laid_out (l, z, w) pf)) = ret pf'"
      "umem pf' = umem pf" "adds (num_field l z w sg (digits 10 (unat i))) pf pf'"
      using print_number_layout [OF assms(1) w, of 10 sg i l z] sg by auto
    have sgn: "\<not> show_sign (number_default (laid_out y pf))" "\<not> space_plus (number_default (laid_out y pf))"
      by (simp_all add: number_default_def laid_out_fields)
    have "user_convert (asc c) (item_args it @ args) (laid_out y pf) = ret (Some (args, pf'))"
      using pf'(1) sgn 1 y by (cases ?neg) (simp_all add: user_convert_def c va_arg_def print_dec_def Let_def sg_def i_def)
    moreover have "shown_text (item_text it) = item_text it"
      using 1 y by (simp add: num_field_def Let_def) (simp add: shown_char_def)
    moreover have "item_text it = num_field l z w sg (digits 10 (unat i))" using 1 y by (simp add: sg_def i_def)
    ultimately show ?thesis using pf'(2,3) by simp
  next
    case 2
    then have w: "w < 2 ^ 30" and c: "asc c = 120" using assms(2) y inj by (simp_all add: layout_ok_def last)
    let ?pf = "if n = 0 then (laid_out y pf)\<lparr>alternate := False\<rparr> else laid_out y pf"
    have same: "?pf = laid_out y pf" by (simp add: laid_out_def no_flags_def y)
    obtain pf' where pf': "number_out [] [] (number_digits False (of_nat 16) n) (number_default (laid_out (l, z, w) pf)) = ret pf'"
      "umem pf' = umem pf" "adds (num_field l z w [] (digits 16 (unat n))) pf pf'"
      using print_number_layout [OF assms(1) w, of 16 "[]" n l z] by auto
    have fl: "\<not> alternate (number_default (laid_out y pf))" "\<not> capital (number_default (laid_out y pf))"
      "plain_sign (number_default (laid_out y pf)) = []"
      by (simp_all add: number_default_def laid_out_fields plain_sign_def)
    have "print_hexa n (laid_out y pf) = ret pf'"
      unfolding print_hexa_def same Let_def using pf'(1) fl y by simp
    then have "user_convert (asc c) (item_args it @ args) (laid_out y pf) = ret (Some (args, pf'))"
      using 2 by (simp add: user_convert_def c va_arg_def)
    moreover have "shown_text (item_text it) = item_text it" using 2 y by (simp add: num_field_def Let_def)
    ultimately show ?thesis using pf'(2,3) 2 y by simp
  next
    case 3
    then have w: "w < 2 ^ 30" "cstr (umem pf) p bs" "length bs < 2 ^ 30" and c: "asc c = 115"
      using assms(2) y inj by (simp_all add: layout_ok_def last)
    have z0: "umem pf (p + of_nat (length bs)) = 0" using w(2)
    proof (induction bs arbitrary: p)
      case (Cons a bs)
      then show ?case using Cons.IH [of "p + 1"] by (simp add: add.assoc)
    qed simp
    have nz: "0 \<notin> set bs" using w(2) by (induction bs arbitrary: p) auto
    have "\<exists>pf'. print_string (at_pointer p) (laid_out y pf) = ret pf' \<and> umem pf' = umem (laid_out y pf) \<and>
      adds (shown_text (str_field (left (laid_out y pf)) (nat (fwidth (laid_out y pf))) bs)) (laid_out y pf) pf'"
      by (rule print_string_text)
        (use assms(1) w z0 nz cstr_nth [OF w(2)] y in \<open>simp_all add: laid_out_fields at_pointer_def\<close>)
    then obtain pf' where pf': "print_string (at_pointer p) (laid_out y pf) = ret pf'" "umem pf' = umem pf"
      "adds (shown_text (str_field l w bs)) pf pf'"
      by (auto simp: laid_out_fields y adds_def)
    then have "user_convert (asc c) (item_args it @ args) (laid_out y pf) = ret (Some (args, pf'))"
      using 3 by (simp add: user_convert_def c va_arg_def)
    then show ?thesis using pf'(2,3) 3 y by simp
  next
    case 4
    then have w: "w < 2 ^ 30" and c: "asc c = 99" using assms(2) y inj by (simp_all add: layout_ok_def last)
    have uc: "ucast (ucast ch :: u32) = ch" by (intro bit_word_eqI) (auto simp: bit_ucast_iff dest: bit_imp_le_length)
    have "umem (print_char ch (laid_out y pf)) = umem (laid_out y pf) \<and>
      adds (shown_text (str_field (left (laid_out y pf)) (nat (fwidth (laid_out y pf))) [ch])) (laid_out y pf) (print_char ch (laid_out y pf))"
      by (rule print_char_text) (use assms(1) w y in \<open>simp_all add: laid_out_fields\<close>)
    then have "umem (print_char ch (laid_out y pf)) = umem pf" "adds (shown_text (str_field l w [ch])) pf (print_char ch (laid_out y pf))"
      by (simp_all add: laid_out_fields y adds_def)
    moreover have "user_convert (asc c) (item_args it @ args) (laid_out y pf) = ret (Some (args, print_char ch (laid_out y pf)))"
      using 4 by (simp add: user_convert_def c va_arg_def uc)
    ultimately show ?thesis using 4 y by simp
  qed
qed

subsection \<open>A whole format\<close>

lemma item_step:
  assumes "out_ok pf" "item_ok (umem pf) it" "length (item_format it @ r) < k"
  shows "\<exists>k' pf'. printf_loop k (item_format it @ r) (item_args it @ args) pf = printf_loop k' r args pf' \<and> length r < k' \<and>
    umem pf' = umem pf \<and> adds (shown_text (item_text it)) pf pf'"
proof -
  obtain k1 where k: "k = Suc k1" using assms(3) by (cases k) simp_all
  have conv: ?thesis if it: "it \<in> {Num y n, Hexa y n, Text y p bs, Letter y ch}" "item_format it = spec_bytes y c"
    "c \<in> {CHR ''d'', CHR ''x'', CHR ''s'', CHR ''c''}" for y n p bs ch c
  proof -
    have y: "layout_ok y" using it(1) assms(2) by auto
    obtain fmt where f: "spec_bytes y c @ r = 37 # fmt" "read_spec fmt (item_args it @ args) pf = ret (asc c # r, item_args it @ args, laid_out y pf)"
      using read_spec_layout [OF it(3) y] by blast
    obtain pf' where pf': "user_convert (asc c) (item_args it @ args) (laid_out y pf) = ret (Some (args, pf'))" "umem pf' = umem pf"
      "adds (shown_text (item_text it)) pf pf'"
      using convert_item [OF assms(1,2) it(2) [symmetric] it(1)] by blast
    have "printf_loop k (item_format it @ r) (item_args it @ args) pf = printf_loop k1 r args pf'"
      using f pf'(1) it(2) by (simp add: k)
    moreover have "length r < k1" using assms(3) it(2) by (cases y) (simp add: k spec_bytes_def)
    ultimately show ?thesis using pf'(2,3) by blast
  qed
  show ?thesis
  proof (cases it)
    case (Byte c)
    have "printf_loop k (item_format it @ r) (item_args it @ args) pf = printf_loop k1 r args (print c pf)"
      using Byte assms(2) by (simp add: k)
    moreover have "umem (print c pf) = umem pf" using print_ok(2) [OF assms(1), of c] by (simp add: same_fields_def)
    moreover have "adds (shown_text (item_text it)) pf (print c pf)" using Byte print_ok(1) [OF assms(1), of c] by simp
    moreover have "length r < k1" using assms(3) Byte by (simp add: k)
    ultimately show ?thesis by blast
  next
    case Percent
    let ?pf = "(no_flags pf)\<lparr>fwidth := 0, precision := - 1, modifier := 0\<rparr>"
    have o: "out_ok ?pf" "text_out ?pf = text_out pf" "umem ?pf = umem pf" using assms(1) by (simp_all add: no_flags_def out_ok_def text_out_def)
    have "read_spec (37 # r) args pf = ret (37 # r, args, ?pf)"
      by (simp add: read_spec_def field_width_def isdigit_def field_precision_def read_modifier_def)
    then have "printf_loop k (item_format it @ r) (item_args it @ args) pf = printf_loop k1 r args (print 37 ?pf)"
      using Percent by (simp add: k user_convert_def)
    moreover have "umem (print 37 ?pf) = umem pf" using print_ok(2) [OF o(1), of 37] by (simp add: same_fields_def o(3))
    moreover have "adds (shown_text (item_text it)) pf (print 37 ?pf)" using Percent print_ok(1) [OF o(1), of 37] o(2) by (simp add: adds_def)
    moreover have "length r < k1" using assms(3) Percent by (simp add: k)
    ultimately show ?thesis by blast
  qed (use conv in auto)
qed

lemma items_loop:
  "out_ok pf \<Longrightarrow> list_all (item_ok (umem pf)) its \<Longrightarrow> length (concat (map item_format its)) < k \<Longrightarrow>
   \<exists>pf'. printf_loop k (concat (map item_format its)) (concat (map item_args its)) pf = ret pf' \<and>
     adds (shown_text (concat (map item_text its))) pf pf'"
proof (induction its arbitrary: k pf)
  case Nil
  then show ?case by (cases k) (simp_all add: adds_def)
next
  case (Cons it its)
  let ?r = "concat (map item_format its)" and ?args = "concat (map item_args its)"
  obtain k' pf1 where 1: "printf_loop k (item_format it @ ?r) (item_args it @ ?args) pf = printf_loop k' ?r ?args pf1" "length ?r < k'"
    "umem pf1 = umem pf" "adds (shown_text (item_text it)) pf pf1"
    using item_step [of pf it ?r k ?args] Cons.prems by auto
  then have "out_ok pf1" by (simp add: adds_def)
  then obtain pf2 where 2: "printf_loop k' ?r ?args pf1 = ret pf2" "adds (shown_text (concat (map item_text its))) pf1 pf2"
    using Cons.IH [of pf1 k'] Cons.prems 1(2,3) by auto
  then show ?case using 1 adds_trans [OF 1(4) 2(2)] by simp
qed

end
