(* ===== verification/User_Props.thy ===== *)
theory User_Props
  imports User_Math User_Format
begin

text \<open>
  The library of the test programs, properties: division, random numbers and formatted output.
\<close>

text \<open>
  C35: The division of the test programs returns, for every dividend and divisor, the quotient and the
  remainder; for the divisor 0 these are 0 and the dividend, as they are for machine words in HOL.
\<close>

theorem user_div64_divides: "user_div64 x d = Some (x div d, x mod d)"
proof (cases "d = 0")
  case True
  then show ?thesis by (simp add: user_div64_def)
qed (rule user_div64_ok)

text \<open>
  C36: \<open>randBits\<close> computes, through products of 16-bit parts, the generator with multiplier
  0x5DEECE66D, addend 11 and modulus 2 to the 48, and gives the highest bits of its new state.
\<close>

theorem randBits_generates:
  assumes "1 \<le> bits" "bits \<le> 32" "randBits bits seed = (r, s)"
  shows "unat s = (unat seed * 0x5DEECE66D + 11) mod 2 ^ 48 \<and> unat r = unat s div 2 ^ (48 - bits)"
proof -
  have s: "s = take_bit 48 (seed * multiplier + addend)"
    using assms(3) by (simp add: randBits_def Let_def mul64_ok seed_mask_def take_bit_eq_mask mask_eq_exp_minus_1 push_bit_eq_mult)
  have "unat (seed * multiplier + addend) = (unat seed * 0x5DEECE66D + 11) mod 2 ^ 64"
    by (simp add: multiplier_def addend_def unat_word_ariths mod_simps)
  moreover have "unat s = unat (seed * multiplier + addend) mod 2 ^ 48"
    by (simp only: s unsigned_take_bit_eq) (simp only: take_bit_eq_mod)
  moreover have "a mod 2 ^ 64 mod 2 ^ 48 = a mod (2 ^ 48 :: nat)" for a
    by (rule mod_mod_cancel) (simp add: le_imp_power_dvd)
  ultimately have 1: "unat s = (unat seed * 0x5DEECE66D + 11) mod 2 ^ 48" by metis
  have "r = drop_bit (32 - bits) (ucast (drop_bit 16 s))" using assms(3) by (auto simp: randBits_def Let_def)
  moreover have "unat (ucast (drop_bit 16 s) :: u32) = unat s div 2 ^ 16"
  proof -
    have "unat s < 2 ^ 48" using 1 by simp
    then have "unat s div 2 ^ 16 < 2 ^ 32" by (simp add: less_mult_imp_div_less)
    then show ?thesis by (simp add: unsigned_ucast_eq unsigned_take_bit_eq unat_drop_bit_eq drop_bit_nat_def take_bit_nat_eq_self)
  qed
  ultimately have "unat r = unat s div 2 ^ 16 div 2 ^ (32 - bits)" by (simp add: unat_drop_bit_eq drop_bit_nat_def)
  moreover have "(2 :: nat) ^ (48 - bits) = 2 ^ 16 * 2 ^ (32 - bits)"
  proof -
    have "48 - bits = 16 + (32 - bits)" using assms(2) by linarith
    then show ?thesis by (simp only: power_add)
  qed
  ultimately have "unat r = unat s div 2 ^ (48 - bits)" by (simp only: div_mult2_eq)
  then show ?thesis using 1 by blast
qed

theorem randBits_generates_witness:
  "unat (snd (randBits 32 1)) = 25214903928 \<and> unat (fst (randBits 32 1)) = 384748"
proof -
  obtain r s where rs: "randBits 32 1 = (r, s)" by (cases "randBits 32 1")
  from randBits_generates [OF _ _ rs] show ?thesis by (simp add: rs)
qed

subsection \<open>Formatted output\<close>

text \<open>The state of a call before it begins: what the stack holds, and nothing written yet.\<close>

definition fresh :: "printf_st \<Rightarrow> bool" where
  "fresh pf \<longleftrightarrow> length (buffer_ecr pf) = PRINTF_BUF_LEN \<and> written pf = []"

lemma fresh_ok: "fresh junk \<Longrightarrow> out_ok (junk\<lparr>pos_ecr := 0, str := 0, strl := 0, count := 0\<rparr>) \<and>
  text_out (junk\<lparr>pos_ecr := 0, str := 0, strl := 0, count := 0\<rparr>) = []"
  by (simp add: fresh_def out_ok_def text_out_def w32_def PRINTF_BUF_LEN_def)

lemma safe_printf_run:
  assumes "printf_loop (Suc (length fmt)) fmt args (junk\<lparr>pos_ecr := 0, str := 0, strl := 0, count := 0\<rparr>) = ret pf" "out_ok pf"
  shows "\<exists>pf'. safe_printf junk fmt args = ret (count pf, pf') \<and> written pf' = written pf @ [take (pos_ecr pf) (buffer_ecr pf)]"
proof -
  let ?b = "(buffer_ecr pf)[pos_ecr pf := 0]"
  have l: "pos_ecr pf < length (buffer_ecr pf)" "0 \<notin> set (take (pos_ecr pf) (buffer_ecr pf))"
    using assms(2) by (simp_all add: out_ok_def)
  have "?b = take (pos_ecr pf) (buffer_ecr pf) @ 0 # drop (Suc (pos_ecr pf)) (buffer_ecr pf)"
    using l(1) by (rule upd_conv_take_nth_drop)
  moreover have "takeWhile (\<lambda>c. c \<noteq> 0) (xs @ 0 # ys) = xs" if "0 \<notin> set xs" for xs ys :: "u8 list"
    using that by (induction xs) auto
  ultimately have "takeWhile (\<lambda>c. c \<noteq> 0) ?b = take (pos_ecr pf) (buffer_ecr pf)" using l(2) by metis
  moreover have "safe_printf junk fmt args = ret (count pf, cons_puts ?b (pf\<lparr>buffer_ecr := ?b\<rparr>))"
    using assms(1) by (simp add: safe_printf_def print_to_def print_format_def Let_def)
  ultimately show ?thesis by (simp add: cons_puts_def)
qed

lemma plain_format_returns:
  assumes "fresh junk" "\<forall>c\<in>set fmt. item_ok (umem junk) (Byte c)"
  shows "\<exists>n pf. safe_printf junk fmt [] = ret (n, pf)"
proof -
  let ?its = "map Byte fmt" and ?pf0 = "junk\<lparr>pos_ecr := 0, str := 0, strl := 0, count := 0\<rparr>"
  have f: "concat (map item_format ?its) = fmt" "concat (map item_args ?its) = []"
    by (induction fmt) simp_all
  note o = fresh_ok [OF assms(1)]
  obtain pf where 1: "printf_loop (Suc (length fmt)) fmt [] ?pf0 = ret pf" "out_ok pf"
  proof -
    have "list_all (item_ok (umem ?pf0)) ?its" using assms(2) by (simp add: list_all_iff)
    from items_loop [OF conjunct1 [OF o] this, unfolded f, of "Suc (length fmt)"] show ?thesis
      using that unfolding adds_def by blast
  qed
  show ?thesis using safe_printf_run [OF 1] by blast
qed

text \<open>
  C37: For a format made of plain bytes and of the conversions d, x, s and c, with the flags - and 0
  and a width, \<open>safe_printf\<close> returns and what it writes to the console is the text of the items, every
  newline followed by a carriage return, whatever the buffer held and however often it was full.
\<close>

theorem safe_printf_shows_items:
  assumes "fresh junk" "list_all (item_ok (umem junk)) its"
  shows "\<exists>n pf. safe_printf junk (concat (map item_format its)) (concat (map item_args its)) = ret (n, pf) \<and>
    concat (written pf) = shown_text (concat (map item_text its))"
proof -
  let ?pf0 = "junk\<lparr>pos_ecr := 0, str := 0, strl := 0, count := 0\<rparr>"
  let ?fmt = "concat (map item_format its)"
  note f = fresh_ok [OF assms(1)]
  obtain pf where 1: "printf_loop (Suc (length ?fmt)) ?fmt (concat (map item_args its)) ?pf0 = ret pf"
    "adds (shown_text (concat (map item_text its))) ?pf0 pf"
    using items_loop [of ?pf0 its "Suc (length ?fmt)"] f assms(2) by auto
  then have o: "out_ok pf" "text_out pf = shown_text (concat (map item_text its))" using f by (simp_all add: adds_def)
  from safe_printf_run [OF 1(1) o(1)] obtain pf' where
    "safe_printf junk ?fmt (concat (map item_args its)) = ret (count pf, pf')" "written pf' = written pf @ [take (pos_ecr pf) (buffer_ecr pf)]"
    by blast
  then show ?thesis using o(2) by (auto simp: text_out_def)
qed

definition blank_stack :: printf_st where
  "blank_stack = \<lparr>left = True, show_sign = True, space_plus = False, alternate = True, pad0 = True, capital = True, fwidth = 7,
     precision = 3, modifier = 1, count = 9, buffer_ecr = replicate 512 85, pos_ecr = 3, str = 4, strl = 5, umem = (\<lambda>_. 0), written = []\<rparr>"

theorem safe_printf_shows_items_witness:
  "\<exists>n pf. safe_printf blank_stack [110, 61, 37, 48, 53, 100, 10] [- 42] = ret (n, pf) \<and>
    concat (written pf) = [110, 61, 45, 48, 48, 52, 50, 10, 13]"
proof -
  let ?its = "[Byte 110, Byte 61, Num (False, True, 5) (- 42), Byte 10]"
  have 1: "fresh blank_stack" by (simp add: fresh_def blank_stack_def PRINTF_BUF_LEN_def)
  have 2: "list_all (item_ok (umem blank_stack)) ?its" by (simp add: layout_ok_def)
  have 3: "concat (map item_format ?its) = [110, 61, 37, 48, 53, 100, 10]" "concat (map item_args ?its) = [- 42]"
    "shown_text (concat (map item_text ?its)) = [110, 61, 45, 48, 48, 52, 50, 10, 13]"
    by code_simp+
  show ?thesis using safe_printf_shows_items [OF 1 2] unfolding 3 .
qed

text \<open>
  C38: The value that \<open>safe_printf\<close> returns is not the number of bytes it shows: one byte is not
  counted for each time that the buffer was full, which is after every 511 bytes.
\<close>

theorem safe_printf_miscounts:
  assumes "fresh junk" "safe_printf junk fmt args = ret (n, pf)"
  shows "n = w32 (int (length (concat (written pf))) - int ((length (concat (written pf)) - 1) div 511))"
proof -
  let ?pf0 = "junk\<lparr>pos_ecr := 0, str := 0, strl := 0, count := 0\<rparr>"
  obtain pf1 where 1: "printf_loop (Suc (length fmt)) fmt args ?pf0 = ret pf1"
    using assms(2) by (auto simp: safe_printf_def print_to_def print_format_def bindr_eq_ret Let_def)
  have o: "out_ok pf1" using printf_loop_out [OF _ 1] fresh_ok [OF assms(1)] by blast
  obtain pf' where "safe_printf junk fmt args = ret (count pf1, pf')"
    and w': "written pf' = written pf1 @ [take (pos_ecr pf1) (buffer_ecr pf1)]"
    using safe_printf_run [OF 1 o] by blast
  then have "ret (n, pf) = ret (count pf1, pf')" using assms(2) by (simp only:)
  then have n: "n = count pf1" and w: "written pf = written pf1 @ [take (pos_ecr pf1) (buffer_ecr pf1)]"
    using w' by simp_all
  let ?k = "length (written pf1)"
  have "length (concat ws) = 511 * length ws" if "\<forall>s\<in>set ws. length s = 511" for ws :: "u8 list list"
    using that by (induction ws) auto
  then have l: "length (concat (written pf)) = 511 * ?k + pos_ecr pf1"
    using o w by (simp add: out_ok_def PRINTF_BUF_LEN_def)
  have p: "pos_ecr pf1 \<le> 511" "written pf1 \<noteq> [] \<Longrightarrow> 0 < pos_ecr pf1" using o by (simp_all add: out_ok_def PRINTF_BUF_LEN_def)
  have "(length (concat (written pf)) - 1) div 511 = ?k"
  proof (cases "pos_ecr pf1 = 0")
    case True
    then have "?k = 0" using p(2) by (cases "written pf1 = []") auto
    then show ?thesis unfolding l True by simp
  next
    case False
    then have "length (concat (written pf)) - 1 = 511 * ?k + (pos_ecr pf1 - 1)" using l by simp
    moreover have "pos_ecr pf1 - 1 < 511" using p(1) False by linarith
    ultimately show ?thesis by simp
  qed
  moreover have "text_out pf1 = concat (written pf)" using w by (simp add: text_out_def)
  ultimately show ?thesis using o n by (simp add: out_ok_def)
qed

theorem safe_printf_miscounts_witness:
  "\<exists>n pf. safe_printf blank_stack [79, 75] [] = ret (n, pf) \<and> n = w32 (int (length (concat (written pf))) - int ((length (concat (written pf)) - 1) div 511))"
proof -
  have 1: "fresh blank_stack" by (simp add: fresh_def blank_stack_def PRINTF_BUF_LEN_def)
  obtain n pf where e: "safe_printf blank_stack [79, 75] [] = ret (n, pf)"
    using plain_format_returns [OF 1, of "[79, 75]"] by auto
  show ?thesis using safe_printf_miscounts [OF 1 e] e by blast
qed

end
