(* ===== verification/Boot.thy ===== *)
theory Boot
  imports Machine Message Paging Descriptors
begin

text \<open>
  The start of the kernel: the description left by the boot loader (kernel/boot/multiboot.c and .h),
  the boot (kernel/boot/boot.c, with \<open>enable_paging\<close> of crt0.S) up to its call of \<open>kernel_start\<close>,
  and the initialisations with which \<open>kernel_start\<close> (kernel/start.c) begins. The addresses that the
  linker chooses are a record. A failed \<open>ASSERT\<close> stops the processor for ever.
\<close>

subsection \<open>multiboot.c\<close>

definition MULTIBOOT_BOOTLOADER_MAGIC :: u32 where "MULTIBOOT_BOOTLOADER_MAGIC = 0x2BADB002"
definition MULTIBOOT_INFO_MEMORY :: u32 where "MULTIBOOT_INFO_MEMORY = 1"

text \<open>The size of \<open>struct multiboot_info\<close>, and the offsets of \<open>flags\<close> and \<open>mem_upper\<close> in it.\<close>

definition sizeof_multiboot_info :: u32 where "sizeof_multiboot_info = 88"
definition mb_flags :: u32 where "mb_flags = 0"
definition mem_upper :: u32 where "mem_upper = 8"

text \<open>\<open>mb_info\<close> is the address of the static copy.\<close>

definition multiboot_save :: "u32 \<Rightarrow> u32 \<Rightarrow> u32 \<Rightarrow> memory \<Rightarrow> memory res" where
  "multiboot_save mb_info magic mb m =
     (if magic \<noteq> MULTIBOOT_BOOTLOADER_MAGIC then None else ret (snd (memcpy mb_info mb sizeof_multiboot_info m)))"

definition multiboot_upper_mem :: "u32 \<Rightarrow> memory \<Rightarrow> u32 res" where
  "multiboot_upper_mem mb_info m =
     (if read32 (mb_info + mb_flags) m AND MULTIBOOT_INFO_MEMORY \<noteq> MULTIBOOT_INFO_MEMORY then None
      else ret (read32 (mb_info + mem_upper) m + 1024))"

subsection \<open>boot.c\<close>

record image =
  lnk :: linker
  syms :: symbols
  mb_info_addr :: u32
  pgtab_addr :: u32
  mem_heap_end :: u32

record boot_st =
  boot_mem :: memory
  boot_cpu :: cpu
  reg_cr0 :: u32
  reg_cr3 :: u32

definition enable_paging :: "image \<Rightarrow> boot_st \<Rightarrow> boot_st" where
  "enable_paging im st =
     (let eax = pgdir_addr (lnk im)
      in st\<lparr>reg_cr3 := eax, boot_cpu := (boot_cpu st)\<lparr>tss := (tss (boot_cpu st))\<lparr>tss_cr3 := eax\<rparr>\<rparr>,
            reg_cr0 := reg_cr0 st OR 0x80010000\<rparr>)"

text \<open>The result is the state in which \<open>kernel_start\<close> is called.\<close>

definition boot :: "image \<Rightarrow> u32 \<Rightarrow> u32 \<Rightarrow> boot_st \<Rightarrow> boot_st res" where
  "boot im multiboot_magic multiboot_info st =
     bindr (multiboot_save (mb_info_addr im) multiboot_magic multiboot_info (boot_mem st)) (\<lambda>m1.
       let m2 = snd (memset (data_end (syms im)) 0 (mem_heap_end im - data_end (syms im)) m1);
           c = cpu_init (lnk im) (boot_cpu st)
       in bindr (early_mm_check (syms im)) (\<lambda>_.
          bindr (early_mm_map_kernel (pgdir_addr (lnk im)) (pgtab_addr im) (syms im) m2) (\<lambda>m3.
          ret (enable_paging im (st\<lparr>boot_mem := m3, boot_cpu := c\<rparr>)))))"

subsection \<open>start.c\<close>

text \<open>
  What the initialisations find: the addresses of the assembly handlers and of the local array of
  \<open>affiche_clock\<close>, what the mask of the interrupt controller reads at each of its two changes, and
  the allocator.
\<close>

record start_env =
  time_at :: u32
  traitant_32 :: u32
  traitant_33 :: u32
  traitant_49 :: u32
  imr_clock :: u8
  imr_keyboard :: u8
  start_alloc :: allocator
  entry_points :: addresses

text \<open>\<open>kernel_start\<close> up to \<open>init_process\<close>; the state of the processes is the one of the machine.\<close>

definition kernel_init :: "start_env \<Rightarrow> machine \<Rightarrow> ipc \<Rightarrow> (machine \<times> ipc) res" where
  "kernel_init e m0 s0 =
     bindr (init_clock (time_at e) (traitant_32 e) (imr_clock e) m0) (\<lambda>m1.
       let m2 = init_keyboard (traitant_33 e) (imr_keyboard e) m1;
           m3 = init_it_superuser (traitant_49 e) m2;
           m4 = m3\<lparr>disp := efface_ecran (disp m3)\<rparr>;
           s1 = initialisation_fifo_tab s0;
           (r, s2) = pcreate (start_alloc e) 2 s1
       in if r \<noteq> 0 then err Panic
          else bindr (init_process (entry_points e) (machine.kern m4)) (\<lambda>k.
               ret (m4\<lparr>machine.kern := k\<rparr>, s2\<lparr>ipc.kern := k\<rparr>)))"

end
