(* ===== verification/Boot_Props.thy ===== *)
theory Boot_Props
  imports Boot Machine_Ok Paging_Ok Message_Ok
begin

text \<open>
  The start of the kernel, properties: what memory and the processor hold when \<open>kernel_start\<close> is
  called, and what its initialisations leave to the first process.
\<close>

subsection \<open>Blocks of memory\<close>






subsection \<open>The boot\<close>









text \<open>With another magic number, or with sections that are not aligned, the processor stops.\<close>

lemma boot_stops: "magic \<noteq> 0x2BADB002 \<or> early_mm_check (syms im) = None \<Longrightarrow> boot im magic mb st = None"
  by (auto simp: boot_def multiboot_save_def MULTIBOOT_BOOTLOADER_MAGIC_def Let_def)

subsection \<open>The initialisations\<close>

lemma init_clock_ok:
  assumes "unat (hour m) = 0" "unat (minute m) = 0" "unat (sec m) = 0"
  shows "\<exists>m'. init_clock time t imr m = ret m' \<and> machine.kern m' = machine.kern m \<and>
    (\<exists>m0. mem m' = init_traitant_IT 32 t m0)"
proof -
  obtain m1 where "affiche_clock time m = ret m1" "machine.kern m1 = machine.kern m"
    using affiche_clock_ok [of m time] assms by auto
  then show ?thesis by (auto simp: init_clock_def)
qed

lemma init_traitant_three:
  assumes "m' = init_traitant_IT 49 c (init_traitant_IT 33 b (init_traitant_IT 32 a m))"
  shows "gate_offset m' 32 = a" "gate_offset m' 33 = b" "gate_offset m' 49 = c"
    "n \<in> {32, 33, 49} \<Longrightarrow> gate_selector m' n = KERNEL_CS \<and> gate_flags m' n = 0x8E00"
  using init_traitant_gate [of 32 a m] init_traitant_gate [of 33 b "init_traitant_IT 32 a m"]
    init_traitant_gate [of 49 c "init_traitant_IT 33 b (init_traitant_IT 32 a m)"]
    init_traitant_other [of 33 32 b "init_traitant_IT 32 a m"]
    init_traitant_other [of 49 32 c "init_traitant_IT 33 b (init_traitant_IT 32 a m)"]
    init_traitant_other [of 49 33 c "init_traitant_IT 33 b (init_traitant_IT 32 a m)"]
  by (auto simp: assms)

text \<open>
  C40: On the static storage of the start the initialisations of \<open>kernel_start\<close> succeed. Then the
  interrupts of the clock, of the keyboard and of the system calls lead to their handlers, the screen
  is blank, message queue 0 is empty, with room for two messages, and is the only one in use, and
  the kernel is in a state from which every run begins, its first process running.
\<close>

theorem kernel_init_ready:
  assumes "machine.kern m = boot_kernel" "hour m = 0 \<and> minute m = 0 \<and> sec m = 0" "shouldReceiveNegativeOne s = None"
    and "sized_alloc (start_alloc e)" "new_block (start_alloc e) 8 = Some ts"
  shows "\<exists>m' s'. kernel_init e m s = ret (m', s') \<and> reach (entry_points e) (machine.kern m') \<and>
    actif (machine.kern m') = Some 0 \<and> ipc.kern s' = machine.kern m' \<and>
    gate_offset (mem m') 32 = traitant_32 e \<and> gate_offset (mem m') 33 = traitant_33 e \<and> gate_offset (mem m') 49 = traitant_49 e \<and>
    (\<forall>n\<in>{32, 33, 49}. gate_selector (mem m') n = KERNEL_CS \<and> gate_flags (mem m') n = 0x8E00) \<and>
    (\<forall>n<2000. cell (disp m') n = (32, 15)) \<and>
    queue_holds s' 0 ts 0 [] \<and> length ts = 2 \<and> (\<forall>i. used (fifo_tab s' i) \<and> i < 10 \<longrightarrow> i = 0)"
proof -
  obtain m1 m0 where m1: "init_clock (time_at e) (traitant_32 e) (imr_clock e) m = ret m1"
    "machine.kern m1 = boot_kernel" "mem m1 = init_traitant_IT 32 (traitant_32 e) m0"
    using init_clock_ok [of m "time_at e" "traitant_32 e" "imr_clock e"] assms(1,2) by auto
  define m4 where "m4 = (let m3 = init_it_superuser (traitant_49 e) (init_keyboard (traitant_33 e) (imr_keyboard e) m1)
    in m3\<lparr>disp := efface_ecran (disp m3)\<rparr>)"
  have m4: "machine.kern m4 = boot_kernel" "\<forall>n<2000. cell (disp m4) n = (32, 15)"
    "mem m4 = init_traitant_IT 49 (traitant_49 e) (init_traitant_IT 33 (traitant_33 e) (init_traitant_IT 32 (traitant_32 e) m0))"
    using m1(2,3) by (simp_all add: m4_def Let_def init_it_superuser_def init_keyboard_def efface_ecran_ok)
  note g = init_traitant_three [OF m4(3)]
  let ?s1 = "initialisation_fifo_tab s"
  have free: "free_fid ?s1 = Some 0" "shouldReceiveNegativeOne ?s1 = None"
    using assms(3) by (simp_all add: free_fid_def initialisation_fifo_tab_def NBQUEUE_def upt_rec)
  have blk: "new_block (start_alloc e) (4 * word_of_int (int 2)) = Some ts" using assms(5) by simp
  obtain s2 where s2: "pcreate (start_alloc e) (int 2) ?s1 = (int 0, s2)" "queue_holds s2 0 ts 0 []" "length ts = 2"
    "\<forall>j. j \<noteq> 0 \<longrightarrow> fifo_tab s2 j = fifo_tab ?s1 j"
    using pcreate_ok [OF _ _ free(1) assms(4) blk free(2)] by auto
  obtain k where k: "init_process (entry_points e) boot_kernel = ret k" using init_process_ok by blast
  then have a: "reach (entry_points e) k" "actif k = Some 0"
    by (auto intro: reach.boot simp: init_process_def bindr_eq_ret)
  have "kernel_init e m s = ret (m4\<lparr>machine.kern := k\<rparr>, s2\<lparr>ipc.kern := k\<rparr>)"
    using m1(1) s2(1) k m4(1) unfolding kernel_init_def m4_def by (simp add: Let_def)
  moreover have "queue_holds (s2\<lparr>ipc.kern := k\<rparr>) 0 ts 0 []" using s2(2) by (simp add: queue_holds_def)
  moreover have "used (fifo_tab s2 i) \<and> i < 10 \<longrightarrow> i = 0" for i
    using s2(4) by (cases "i = 0") (auto simp: initialisation_fifo_tab_def NBQUEUE_def)
  ultimately show ?thesis using a m4(2) g s2(3)
    by (intro exI [of _ "m4\<lparr>machine.kern := k\<rparr>"] exI [of _ "s2\<lparr>ipc.kern := k\<rparr>"]) simp
qed

text \<open>The static storage, with other content in the memory that is not static.\<close>

definition static_machine :: machine where
  "static_machine = \<lparr>machine.kern = boot_kernel,
     disp = \<lparr>vmem = (\<lambda>_. 65), curs_lig_pos = 1, curs_col_pos = 0, outs = []\<rparr>,
     hour = 0, minute = 0, sec = 0, mem = (\<lambda>_. 85)\<rparr>"

definition static_ipc :: ipc where
  "static_ipc = \<lparr>ipc.kern = boot_kernel, nodes = (\<lambda>_. None),
     fifo_tab = (\<lambda>_. \<lparr>consum = None, prodl = None, tab_messages = Null_Block, fsize = 0, nbElement = 0,
       down = 0, fid = 0, used = False\<rparr>), shouldReceiveNegativeOne = None\<rparr>"

definition words_alloc :: allocator where
  "words_alloc = \<lparr>new_node = (\<lambda>_. None),
     new_block = (\<lambda>n. if unat n mod 4 = 0 then Some (replicate (unat n div 4) 0) else None)\<rparr>"

definition sample_start :: start_env where
  "sample_start = \<lparr>time_at = 0x154000, traitant_32 = 0x146000, traitant_33 = 0x146100, traitant_49 = 0x146200,
     imr_clock = 0xff, imr_keyboard = 0xfe, start_alloc = words_alloc,
     entry_points = \<lparr>exec_stack_at = (\<lambda>i. 0x160000 + 0x1000 * of_nat i), fin_processus_at = 0x147000, idle_at = 0x147100\<rparr>\<rparr>"

theorem kernel_init_ready_witness:
  "\<exists>m' s'. kernel_init sample_start static_machine static_ipc = ret (m', s') \<and> actif (machine.kern m') = Some 0 \<and>
     gate_offset (mem m') 33 = 0x146100 \<and> cell (disp m') 1999 = (32, 15) \<and> queue_holds s' 0 [0, 0] 0 []"
proof -
  have "sized_alloc (start_alloc sample_start)"
    by (auto simp: sized_alloc_def sample_start_def words_alloc_def split: if_splits)
  moreover have "new_block (start_alloc sample_start) 8 = Some [0, 0]"
  proof -
    have "replicate 2 (0 :: int) = [0, 0]" by (simp only: numeral_2_eq_2 replicate.simps)
    then show ?thesis by (simp add: sample_start_def words_alloc_def)
  qed
  moreover have "machine.kern static_machine = boot_kernel" "hour static_machine = 0 \<and> minute static_machine = 0 \<and> sec static_machine = 0"
    "shouldReceiveNegativeOne static_ipc = None"
    by (simp_all add: static_machine_def static_ipc_def)
  ultimately obtain m' s' where "kernel_init sample_start static_machine static_ipc = ret (m', s')" "actif (machine.kern m') = Some 0"
    "gate_offset (mem m') 33 = traitant_33 sample_start" "\<forall>n<2000. cell (disp m') n = (32, 15)" "queue_holds s' 0 [0, 0] 0 []"
    using kernel_init_ready [of static_machine static_ipc sample_start "[0, 0]"] by (elim exE conjE) blast
  moreover have "traitant_33 sample_start = 0x146100" "(1999 :: nat) < 2000" by (simp_all add: sample_start_def)
  ultimately show ?thesis by metis
qed

end
