(* ===== verification/Spec2Isabelle.thy ===== *)
theory Spec2Isabelle
  imports Kernel_Props Library_Props Message_Props Print_Props Device_Props Debugger_Props Keyboard_Props User_Props Boot_Props
begin

text \<open>
  A verification library for a small kernel for the PC (src/kernel, src/shared, src/user): processes
  with priorities, message queues, a hash table, the C string functions, formatted output on a text
  screen, the clock and the other devices, and the tables of the processor.

  \<^bold>\<open>How the program is put together.\<close> boot/boot.c calls \<open>cpu_init\<close> and \<open>early_mm_map_kernel\<close>; start.c
  then opens the interrupts, starts the clock and calls \<open>init_process\<close>. From there on everything
  happens in system calls and in the interrupt of the clock: both end in \<open>ordonnance\<close>, which wakes
  sleepers, puts the running process back into the queue and runs the first of the queue. Processes
  that wait for messages leave the queue through \<open>ordonnance\<close> too. Text goes from \<open>printf\<close> through
  \<open>_doprnt\<close> and a buffer to \<open>console_putbytes\<close> and the screen.

  \<^bold>\<open>Common ground.\<close> \<open>Prelude\<close> has the machine words, the results of operations and the shared
  lemmas. A result is a value, a named fault (a NULL dereference, an access out of bounds, a failed
  assertion, a divide error, ...) or \<open>None\<close>, when the code does not return; \<open>bindr\<close> composes them. Loops
  that can run for ever are \<open>partial_function (option)\<close>, so that a theorem that a call returns is
  also one on termination. \<open>Word_Memory\<close> reads and writes 32-bit words in the byte memory of
  \<open>Strings\<close>.

  \<^bold>\<open>Processes.\<close>
  \<^item> \<open>Prio_Queue\<close> (shared/queue.h): the circular list of links and its macros on a store of pointers,
    and its refinement to a sorted list; locale \<open>prio_fifo\<close> states the interface and is interpreted on it.
  \<^item> \<open>Proc\<close> (kernel/proc.h, proc.c, ctx\_sw.S): the record of a process and of the kernel, the lists
    of dead and sleeping processes, and the scheduler; \<open>Proc_Calls\<close>: the system calls.
  \<^item> \<open>Proc_Lists\<close>, \<open>Scheduler\<close>, \<open>Proc_Life\<close>: the lists as Isabelle lists, the invariant of the
    kernel, the abstract scheduler and its refinement, start and end of processes.
  \<^item> \<open>Kernel_Run\<close>: the steps of the kernel and the states they reach from the boot; \<open>Kernel_Props\<close>:
    the properties.

  \<^bold>\<open>Library.\<close>
  \<^item> \<open>Hash_Table\<close> (kernel/hash.c), \<open>Hash_Probe\<close> (its probe sequence covers the table), \<open>Hash_Ok\<close>
    and \<open>Hash_Keys\<close> (locale of a table with a correct comparison, interpreted on pointer keys and on
    string keys).
  \<^item> \<open>Strings\<close> (shared/string.c), \<open>Strings_Ok\<close>, \<open>Strings_Cstr\<close>, \<open>Strings_Search\<close>: blocks of memory,
    NUL-terminated strings and searches. \<open>Library_Props\<close>: the properties.
  \<^item> \<open>Fifo\<close> (kernel/fifo\_process.c), \<open>Message\<close> (kernel/message.c), \<open>Message_Ok\<close>,
    \<open>Message_Props\<close>: message queues, as bounded first-in first-out lists. A call that waits is
    cut in two where it calls \<open>ordonnance\<close>.

  \<^bold>\<open>Text.\<close>
  \<^item> \<open>Strto\<close> (shared/strtol.c, strtoul.c, ctype.h) reads numbers; \<open>Doprnt\<close> (shared/doprnt.c) is the
    formatted output, with \<open>putc\<close> a function on the state of its caller; \<open>Doprnt_Ok\<close> shows, in the
    locale \<open>putc_hom\<close>, that what is put out does not depend on \<open>putc\<close>, so that there is one list of
    bytes, \<open>printed\<close>. The loop over the format is bounded by the length of the format plus one, which
    is enough since every turn takes a byte (\<open>doprnt_fuel\<close>).
  \<^item> \<open>Sprintf\<close> (shared/sprintf.c, printf.c), \<open>Sprintf_Ok\<close>: output to memory and to a console.
  \<^item> \<open>Display\<close> (kernel/display.c), \<open>Display_Ok\<close>: the screen; \<open>Console\<close>: what a console must do for
    \<open>printf\<close>, as a locale interpreted on the screen; \<open>Print_Props\<close>: the properties.

  \<^bold>\<open>Machine.\<close>
  \<^item> \<open>Machine\<close> (kernel/interrupt.c, clock.c, keyboard\_int.c, kernel\_it\_49.c, serial.c) and
    \<open>Machine_Ok\<close>: the interrupts, which act on the kernel, on the screen and on memory.
  \<^item> \<open>Sbrk\<close> (kernel/mem.c, user/lib/sbrk.c): the heaps. \<open>Div64\<close> (shared/div64.c): 64-bit division.
  \<^item> \<open>Paging\<close> (kernel/boot/early\_mm.c, gdb\_serial\_support.c), \<open>Paging_Ok\<close>: the page tables and
    the translation of addresses by the debugger.
  \<^item> \<open>Descriptors\<close> (kernel/boot/processor\_structs.c and .h, segment.h), \<open>Descriptors_Ok\<close>: segments,
    task segments, gates and the restart. \<open>Device_Props\<close>: the properties.

  \<^item> \<open>Boot\<close> (kernel/boot/boot.c, multiboot.c and .h, crt0.S from \<open>enable_paging\<close> on, and the beginning of
    kernel/start.c): the start up to the first process. \<open>Boot_Props\<close>: what memory, the page tables, the
    gates, the screen and the kernel are then.

  \<^bold>\<open>Debugger.\<close>
  \<^item> \<open>Memory_Bytes\<close>: bytes, words and copies in the memory that the debugger reads and writes.
  \<^item> \<open>Gdb_Packet\<close>, \<open>Gdb_Serial\<close> (kernel/gdb\_serial.c, gdb\_serial\_support.h): the packets of the remote
    protocol and the commands; \<open>Gdb_Ok\<close>, \<open>Gdb_Cmds\<close>: packets in and out, one turn of the conversation;
    \<open>Gdb_Props\<close>: the properties.
  \<^item> \<open>Debugger\<close> (kernel/debugger.c), \<open>Debugger_Ok\<close>, \<open>Debugger_Props\<close>: the registers of the task that was
    interrupted, and the screen that shows them.

  \<^bold>\<open>Keyboard.\<close>
  \<^item> \<open>Keymap\<close> (kernel/kbd-linux/defkeymap.c): the tables; \<open>Kbd_Bits\<close> (asm/bitops.h, scancode.c): single
    bits in memory and the translation of scancodes to keycodes.
  \<^item> \<open>Keyboard\<close> (kbd-linux/keyboard.c, linux/kbd\_kern.h, keyboard-glue.c): the driver as a function on
    its state, with what it sends as a list of events. It is cut where the code has a test:
    \<open>handle_scancode\<close>, \<open>key_change\<close>, \<open>handle_keycode\<close> and \<open>handle_key\<close> are parts of one C function.
  \<^item> \<open>Keyboard_Ok\<close>: bitmaps as sets, the tables, the count of the modifiers; \<open>Keyboard_Steps\<close>,
    \<open>Keyboard_Run\<close>: a key, a scancode, a list of scancodes; \<open>Keyboard_Type\<close>, \<open>Keyboard_Props\<close>: typing,
    and the properties.

  \<^bold>\<open>Library of the test programs.\<close>
  \<^item> \<open>User_Math\<close> (user/tests/lib/math.c): division, product and random numbers, with their lemmas.
  \<^item> \<open>User_Printf\<close> (user/tests/lib/printf.c): another formatted output, written field by field, with the
    strings given to the system call \<open>cons_write\<close> as a list. \<open>number_out\<close> is what \<open>print_hexa\<close>,
    \<open>print_dec\<close> and \<open>print_oct\<close> repeat. The loop over the format is bounded as in \<open>Doprnt\<close>.
  \<^item> \<open>User_Printf_Ok\<close>: the buffer, the count and the text of each conversion; \<open>User_Format\<close>: formats as
    lists of items; \<open>User_Props\<close>: the properties.

  \<^bold>\<open>What the properties say.\<close> For every reachable state the kernel keeps its lists well formed and
  runs a process of highest priority, fairly among equals. Queue, hash tables and message queues
  refine a sorted list, a finite map and a bounded list. \<open>printf\<close> shows what the format means,
  numbers are read back, the page tables and the descriptors are what the processor needs. The
  debugger reads and writes registers and memory as its packets say, and gives the task its registers
  back. The keyboard driver takes every list of scancodes and sends what is typed. Where the code faults, hangs or does other than it
  means to, the theorem states exactly what happens.

  \<^bold>\<open>Parameters.\<close> What the ports give, the outcome of allocations, the addresses the linker chooses, the
  bytes a local array holds before it is written, and the moments when other processes run are arguments
  of the definitions.

  \<^bold>\<open>Not modelled.\<close> shared/malloc.c is a vendored allocator. The other assembly of the boot, that of the
  real mode calls and that of the interrupt stubs saves registers and calls the C code. From
  \<open>init_process\<close> on, \<open>kernel_start\<close> calls the test programs. These programs of kernel/tests and
  user/tests, panic.c, the variants of user/tests/lib that the Makefile does not choose, and the
  conversions of floating point numbers, which are not compiled, are left out.
\<close>

end
